(* ===== verification/Prelude.thy ===== *)
theory Prelude
  imports Main "HOL-Library.Word"
begin

text \<open>
  The ground the components share.  It holds the fixed-width integer types of
  \<^verbatim>\<open>kernel/kernel.h\<close> (as words, so that \<open>+\<close>, \<open>-\<close> and shifts wrap as they do in C), the
  alignment macros, the POSIX error numbers, the memory-layout constants, and the generic
  facts on words, arrays and lists that the component theories use.

  Conventions: an array of the source that is indexed inside its bounds is a function from
  the index; a C pointer is a 32-bit word with \<open>0\<close> as \<^verbatim>\<open>NULL\<close>; a function that returns
  \<^verbatim>\<open>-ERR\<close> or a value returns a sum whose left side is the error.
\<close>

unbundle bit_operations_syntax

section \<open>Fixed-width integers\<close>

type_synonym u8 = "8 word"
type_synonym u16 = "16 word"
type_synonym u32 = "32 word"
type_synonym u64 = "64 word"
type_synonym uptr = "32 word"

named_theorems unat_simps \<open>reading word expressions as natural numbers\<close>
named_theorems layout_defs \<open>memory-layout constants\<close>

section \<open>Memory layout\<close>

definition PAGE_SIZE :: u32 where
  [layout_defs]: "PAGE_SIZE = 4096"

definition KERNEL_VIRT_BASE :: uptr where
  [layout_defs]: "KERNEL_VIRT_BASE = 0xC0000000"

definition KERNEL_HEAP_START :: uptr where
  [layout_defs]: "KERNEL_HEAP_START = 0xD0000000"

definition KERNEL_HEAP_SIZE :: u32 where
  [layout_defs]: "KERNEL_HEAP_SIZE = 64 * 1024 * 1024"

definition USER_STACK_TOP :: uptr where
  [layout_defs]: "USER_STACK_TOP = 0xBFFFF000"

definition phys_to_virt :: "uptr \<Rightarrow> uptr" where
  "phys_to_virt p = p + KERNEL_VIRT_BASE"

definition virt_to_phys :: "uptr \<Rightarrow> uptr" where
  "virt_to_phys v = v - KERNEL_VIRT_BASE"

definition ALIGN_UP :: "'a::len word \<Rightarrow> 'a word \<Rightarrow> 'a word" where
  "ALIGN_UP x a = (x + a - 1) AND NOT (a - 1)"

definition ALIGN_DOWN :: "'a::len word \<Rightarrow> 'a word \<Rightarrow> 'a word" where
  "ALIGN_DOWN x a = x AND NOT (a - 1)"

section \<open>Error numbers\<close>

datatype errno =
    EPERM | ENOENT | ESRCH | EINTR | EIO | ENXIO | EBADF | ECHILD | EAGAIN | ENOMEM
  | EACCES | EFAULT | EBUSY | EEXIST | EXDEV | ENODEV | ENOTDIR | EISDIR | EINVAL | ENFILE
  | EMFILE | ENOTTY | EFBIG | ENOSPC | ESPIPE | EROFS | EPIPE | ERANGE | ENOSYS | ENOTEMPTY
  | ELOOP | ENAMETOOLONG | EOVERFLOW

primrec errno_code :: "errno \<Rightarrow> nat" where
  "errno_code EPERM = 1"
| "errno_code ENOENT = 2"
| "errno_code ESRCH = 3"
| "errno_code EINTR = 4"
| "errno_code EIO = 5"
| "errno_code ENXIO = 6"
| "errno_code EBADF = 9"
| "errno_code ECHILD = 10"
| "errno_code EAGAIN = 11"
| "errno_code ENOMEM = 12"
| "errno_code EACCES = 13"
| "errno_code EFAULT = 14"
| "errno_code EBUSY = 16"
| "errno_code EEXIST = 17"
| "errno_code EXDEV = 18"
| "errno_code ENODEV = 19"
| "errno_code ENOTDIR = 20"
| "errno_code EISDIR = 21"
| "errno_code EINVAL = 22"
| "errno_code ENFILE = 23"
| "errno_code EMFILE = 24"
| "errno_code ENOTTY = 25"
| "errno_code EFBIG = 27"
| "errno_code ENOSPC = 28"
| "errno_code ESPIPE = 29"
| "errno_code EROFS = 30"
| "errno_code EPIPE = 32"
| "errno_code ERANGE = 34"
| "errno_code ENOSYS = 38"
| "errno_code ENOTEMPTY = 39"
| "errno_code ELOOP = 40"
| "errno_code ENAMETOOLONG = 36"
| "errno_code EOVERFLOW = 75"

section \<open>Words read as natural numbers\<close>

lemma and_not_mask_eq: "x AND NOT (mask n) = push_bit n (drop_bit n x)" for x :: "'a::len word"
  by (rule bit_word_eqI) (auto simp add: bit_simps)

lemma unat_take_bit_mod: "unat (take_bit n x) = unat x mod 2 ^ n" for x :: "'a::len word"
  by (simp add: unsigned_take_bit_eq flip: take_bit_eq_mod)

lemma unat_push_drop_bit:
  "unat (push_bit n (drop_bit n x)) = unat x div 2 ^ n * 2 ^ n" for x :: "'a::len word"
proof -
  have "x = push_bit n (drop_bit n x) + take_bit n x"
    by (simp add: bits_ident)
  moreover have "push_bit n (drop_bit n x) AND take_bit n x = 0"
    by (rule bit_word_eqI) (auto simp add: bit_simps)
  ultimately have "push_bit n (drop_bit n x) = x - take_bit n x"
    by (simp add: eq_diff_eq)
  moreover have "take_bit n x \<le> x"
    by (simp add: word_le_nat_alt unat_take_bit_mod)
  ultimately have "unat (push_bit n (drop_bit n x)) = unat x - unat (take_bit n x)"
    by (simp add: unat_sub)
  then show ?thesis
    by (simp add: unat_take_bit_mod minus_mod_eq_div_mult)
qed

lemma unat_and_not_mask [unat_simps]:
  "unat (x AND NOT (mask n)) = unat x div 2 ^ n * 2 ^ n" for x :: "'a::len word"
  by (simp add: and_not_mask_eq unat_push_drop_bit)

lemma unat_and_mask [unat_simps]:
  "unat (x AND mask n) = unat x mod 2 ^ n" for x :: "'a::len word"
  by (simp flip: take_bit_eq_mask add: unat_take_bit_mod)

lemma unat_add_nowrap:
  "unat a + unat b < 2 ^ LENGTH('a) \<Longrightarrow> unat (a + b) = unat a + unat b" for a b :: "'a::len word"
  by (simp add: unat_word_ariths)

lemma unat_less_2p32: "unat (x :: u32) < 4294967296"
  using unsigned_less [of x] by simp

lemma page_mask_eq: "(4096 :: u32) - 1 = mask 12"
  by (simp add: mask_eq_exp_minus_1)

lemma unat_ALIGN_DOWN_page [unat_simps]:
  "unat (ALIGN_DOWN x PAGE_SIZE) = unat x div 4096 * 4096"
  unfolding ALIGN_DOWN_def PAGE_SIZE_def page_mask_eq by (simp add: unat_simps)

lemma unat_ALIGN_UP_page:
  assumes "unat x \<le> 4294963200"
  shows "unat (ALIGN_UP x PAGE_SIZE) = (unat x + 4095) div 4096 * 4096"
proof -
  have "x + 4096 - 1 = x + 4095" by simp
  moreover have "unat (x + 4095) = unat x + 4095"
    using assms by (intro trans [OF unat_add_nowrap]) auto
  ultimately have "unat (ALIGN_UP x PAGE_SIZE) = unat (x + 4095) div 2 ^ 12 * 2 ^ 12"
    unfolding ALIGN_UP_def PAGE_SIZE_def page_mask_eq by (simp only: unat_simps)
  with \<open>unat (x + 4095) = unat x + 4095\<close> show ?thesis by simp
qed

text \<open>Both alignment macros give a multiple of the page size, wrap-around or not.\<close>

lemma page_aligned_ALIGN_DOWN [simp]: "4096 dvd unat (ALIGN_DOWN x PAGE_SIZE)"
  by (simp add: unat_simps)

lemma page_aligned_ALIGN_UP [simp]: "4096 dvd unat (ALIGN_UP x PAGE_SIZE)"
proof -
  have "unat (ALIGN_UP x PAGE_SIZE) = unat (x + 4096 - 1) div 2 ^ 12 * 2 ^ 12"
    unfolding ALIGN_UP_def PAGE_SIZE_def page_mask_eq by (simp only: unat_simps)
  then show ?thesis by (simp only: dvd_triv_right [of "2 ^ 12", simplified] power_numeral) simp
qed

lemma virt_phys_inverse [simp]:
  "virt_to_phys (phys_to_virt p) = p" "phys_to_virt (virt_to_phys v) = v"
  by (simp_all add: virt_to_phys_def phys_to_virt_def)

section \<open>Loops over page addresses\<close>

text \<open>
  The values the variable of \<^verbatim>\<open>for (p = start; p < end; p += PAGE_SIZE)\<close> takes, on 32-bit
  addresses.  Every such loop of the source runs between addresses whose distance is a multiple
  of the page size; on those the loop reaches \<open>end\<close> without wrapping around, and
  \<open>page_steps_unfold\<close> is the loop's own recurrence.
\<close>

definition page_steps :: "uptr \<Rightarrow> uptr \<Rightarrow> uptr list" where
  "page_steps start stop =
     (if start < stop
      then map (\<lambda>i. start + of_nat i * PAGE_SIZE) [0..<(unat (stop - start) + 4095) div 4096]
      else [])"

lemma unat_diff_less: "(a :: u32) < b \<Longrightarrow> unat (b - a) = unat b - unat a"
  by (simp add: unat_sub)

lemma page_steps_unfold:
  assumes "4096 dvd unat (stop - start)"
  shows "page_steps start stop =
    (if start < stop then start # page_steps (start + PAGE_SIZE) stop else [])"
    and "start < stop \<Longrightarrow> 4096 dvd unat (stop - (start + PAGE_SIZE))"
proof -
  assume lt: "start < stop"
  show "4096 dvd unat (stop - (start + PAGE_SIZE))"
  proof -
    have d: "unat (stop - start) = unat stop - unat start" by (simp add: lt unat_diff_less)
    with lt assms obtain k where k: "unat stop - unat start = 4096 * Suc k"
      by (metis dvd_def gr0_implies_Suc mult_0_right neq0_conv word_less_nat_alt zero_less_diff)
    have "stop - (start + PAGE_SIZE) = (stop - start) - 4096" by (simp add: PAGE_SIZE_def)
    moreover have "unat ((stop - start) - 4096) = 4096 * Suc k - 4096"
      using d k by (subst unat_sub) (auto simp: word_le_nat_alt)
    ultimately show ?thesis by (simp only:) simp
  qed
next
  show "page_steps start stop =
    (if start < stop then start # page_steps (start + PAGE_SIZE) stop else [])"
  proof (cases "start < stop")
    case True
    have d: "unat (stop - start) = unat stop - unat start" by (simp add: True unat_diff_less)
    with True assms obtain k where k: "unat stop - unat start = 4096 * Suc k"
      by (metis dvd_def gr0_implies_Suc mult_0_right neq0_conv word_less_nat_alt zero_less_diff)
    have s1: "unat (start + 4096) = unat start + 4096"
      using k unat_less_2p32 [of stop] by (intro trans [OF unat_add_nowrap]) auto
    have "page_steps (start + PAGE_SIZE) stop =
      map (\<lambda>i. start + 4096 + of_nat i * 4096) [0..<k]"
    proof (cases k)
      case 0
      with k s1 have "\<not> start + 4096 < stop" by (simp add: word_less_nat_alt)
      with 0 show ?thesis by (simp add: page_steps_def PAGE_SIZE_def)
    next
      case (Suc m)
      with k s1 have lt: "start + 4096 < stop" by (simp add: word_less_nat_alt)
      then have "unat (stop - (start + 4096)) = 4096 * k"
        using k s1 by (simp add: unat_diff_less)
      with lt show ?thesis by (simp add: page_steps_def PAGE_SIZE_def)
    qed
    moreover have "page_steps start stop = map (\<lambda>i. start + of_nat i * 4096) [0..<Suc k]"
      using True d k by (simp add: page_steps_def PAGE_SIZE_def)
    ultimately show ?thesis
      using True by (simp add: upt_conv_Cons map_Suc_upt [symmetric] algebra_simps del: upt_Suc)
  qed (simp add: page_steps_def)
qed

lemma page_steps_aligned:
  "4096 dvd unat a \<Longrightarrow> 4096 dvd unat b \<Longrightarrow> a < b \<Longrightarrow> 4096 dvd unat (b - a)" for a b :: uptr
  by (simp add: unat_diff_less dvd_diff_nat)

text \<open>The pages a loop between two page-aligned addresses visits.\<close>

lemma page_steps_pages:
  assumes "4096 dvd unat a" and "4096 dvd unat b"
  shows "(\<lambda>p. unat p div 4096) ` set (page_steps a b) = {unat a div 4096 ..< unat b div 4096}"
    and "p \<in> set (page_steps a b) \<Longrightarrow> 4096 dvd unat p"
    and "distinct (map (\<lambda>p. unat p div 4096) (page_steps a b))"
proof -
  obtain m n where mn: "unat a = 4096 * m" "unat b = 4096 * n" using assms by (auto elim!: dvdE)
  have steps: "page_steps a b = map (\<lambda>i. a + of_nat i * 4096) [0..<n - m]"
  proof (cases "a < b")
    case True
    with mn have "(unat (b - a) + 4095) div 4096 = n - m" by (simp add: unat_diff_less)
    with True show ?thesis by (simp add: page_steps_def PAGE_SIZE_def)
  next
    case False
    with mn show ?thesis by (simp add: page_steps_def word_less_nat_alt)
  qed
  have un: "unat (a + of_nat i * 4096) = 4096 * (m + i)" if "i < n - m" for i
  proof -
    have "m + i < n" using that by simp
    then have "4096 * (m + i) < unat b" using mn by simp
    then have lt: "4096 * (m + i) < 4294967296" using unat_less_2p32 [of b] by (rule less_trans)
    have "a + of_nat i * 4096 = (of_nat (4096 * (m + i)) :: u32)"
    proof -
      have "a = of_nat (4096 * m)" using mn(1) by (metis of_nat_unat ucast_id)
      then show ?thesis by (simp add: algebra_simps)
    qed
    then show ?thesis using lt by (simp only: unat_of_nat) simp
  qed
  show "(\<lambda>p. unat p div 4096) ` set (page_steps a b) = {unat a div 4096 ..< unat b div 4096}"
  proof -
    have "(\<lambda>p. unat p div 4096) ` set (page_steps a b) = (\<lambda>i. m + i) ` {0..<n - m}"
      unfolding steps set_map set_upt image_image by (rule image_cong) (auto simp: un)
    also have "\<dots> = {m..<n}" by (auto simp: image_iff)
    finally show ?thesis using mn by simp
  qed
  show "p \<in> set (page_steps a b) \<Longrightarrow> 4096 dvd unat p"
    unfolding steps by (auto simp: un)
  show "distinct (map (\<lambda>p. unat p div 4096) (page_steps a b))"
    unfolding steps by (auto simp: distinct_map inj_on_def un)
qed

section \<open>Generic facts\<close>

lemma length_takeWhile_lt: "x \<in> set xs \<Longrightarrow> \<not> P x \<Longrightarrow> length (takeWhile P xs) < length xs"
  by (induction xs) auto

lemma card_remove_1: "finite A \<Longrightarrow> x \<in> A \<Longrightarrow> card (A - {x}) + 1 = card A"
  by (metis Suc_eq_plus1 card_Suc_Diff1)

end
