(* ===== verification/Klist.thy ===== *)
theory Klist
  imports Prelude "HOL-Library.Monad_Syntax"
begin

text \<open>
  The intrusive circular doubly linked list of \<^verbatim>\<open>kernel/kernel.h\<close>
  (\<^verbatim>\<open>struct list_head\<close> and the \<^verbatim>\<open>list_*\<close> functions), at the level of its pointers.
  A store maps every list node to its \<^verbatim>\<open>next\<close> and \<^verbatim>\<open>prev\<close> pointer, and each operation writes the
  pointers in the order the source does, so that what an operation does to a node that is
  already linked is what the code does.  The predicate \<open>is_list s h xs\<close> says that the
  circular list with head \<open>h\<close> holds the nodes \<open>xs\<close>; the lemmas show that each
  operation refines the list operation it is meant to be, and the locale \<open>intrusive_list\<close>
  states that contract for the clients (run queue, wait queues, task and child lists).
\<close>

section \<open>Pointers and operations\<close>

record 'n list_store =
  lnext :: "'n \<Rightarrow> 'n"
  lprev :: "'n \<Rightarrow> 'n"

definition set_next :: "'n \<Rightarrow> 'n \<Rightarrow> 'n list_store \<Rightarrow> 'n list_store" where
  "set_next p q s = s\<lparr>lnext := (lnext s)(p := q)\<rparr>"

definition set_prev :: "'n \<Rightarrow> 'n \<Rightarrow> 'n list_store \<Rightarrow> 'n list_store" where
  "set_prev p q s = s\<lparr>lprev := (lprev s)(p := q)\<rparr>"

definition list_init :: "'n \<Rightarrow> 'n list_store \<Rightarrow> 'n list_store" where
  "list_init h s = set_next h h (set_prev h h s)"

text \<open>\<^verbatim>\<open>next->prev = n; n->next = next; n->prev = prev; prev->next = n\<close>, in this order.\<close>

definition list_add_between :: "'n \<Rightarrow> 'n \<Rightarrow> 'n \<Rightarrow> 'n list_store \<Rightarrow> 'n list_store" where
  "list_add_between n prv nxt s =
     set_next prv n (set_prev n prv (set_next n nxt (set_prev nxt n s)))"

definition list_add :: "'n \<Rightarrow> 'n \<Rightarrow> 'n list_store \<Rightarrow> 'n list_store" where
  "list_add n h s = list_add_between n h (lnext s h) s"

definition list_add_tail :: "'n \<Rightarrow> 'n \<Rightarrow> 'n list_store \<Rightarrow> 'n list_store" where
  "list_add_tail n h s = list_add_between n (lprev s h) h s"

text \<open>
  \<^verbatim>\<open>e->prev->next = e->next; e->next->prev = e->prev; e->next = e->prev = e\<close>: the second
  assignment reads \<open>e\<close>'s pointers after the first one has been done.
\<close>

definition list_del :: "'n \<Rightarrow> 'n list_store \<Rightarrow> 'n list_store" where
  "list_del e s =
     (let s1 = set_next (lprev s e) (lnext s e) s;
          s2 = set_prev (lnext s1 e) (lprev s1 e) s1
      in set_next e e (set_prev e e s2))"

definition list_empty :: "'n \<Rightarrow> 'n list_store \<Rightarrow> bool" where
  "list_empty h s \<longleftrightarrow> lnext s h = h"

text \<open>
  The nodes \<^verbatim>\<open>list_for_each\<close> visits from position \<open>p\<close> on; the loop ends only when it comes back to
  the head, so not coming back is \<open>None\<close>.
\<close>

partial_function (option) list_for_each :: "'n list_store \<Rightarrow> 'n \<Rightarrow> 'n \<Rightarrow> 'n list option" where
  "list_for_each s h p =
     (if p = h then Some []
      else do { xs \<leftarrow> list_for_each s h (lnext s p); Some (p # xs) })"

definition list_nodes :: "'n list_store \<Rightarrow> 'n \<Rightarrow> 'n list option" where
  "list_nodes s h = list_for_each s h (lnext s h)"

section \<open>Well-formed lists\<close>

text \<open>\<open>dseg s p xs q\<close>: from \<open>p\<close> the pointers lead through \<open>xs\<close> to \<open>q\<close>, and back.\<close>

fun dseg :: "'n list_store \<Rightarrow> 'n \<Rightarrow> 'n list \<Rightarrow> 'n \<Rightarrow> bool" where
  "dseg s p [] q \<longleftrightarrow> lnext s p = q \<and> lprev s q = p"
| "dseg s p (x # xs) q \<longleftrightarrow> lnext s p = x \<and> lprev s x = p \<and> dseg s x xs q"

definition is_list :: "'n list_store \<Rightarrow> 'n \<Rightarrow> 'n list \<Rightarrow> bool" where
  "is_list s h xs \<longleftrightarrow> distinct (h # xs) \<and> dseg s h xs h"

lemma lnext_set_next [simp]: "lnext (set_next p q s) = (lnext s)(p := q)"
  and lprev_set_next [simp]: "lprev (set_next p q s) = lprev s"
  and lprev_set_prev [simp]: "lprev (set_prev p q s) = (lprev s)(p := q)"
  and lnext_set_prev [simp]: "lnext (set_prev p q s) = lnext s"
  by (simp_all add: set_next_def set_prev_def)

lemmas list_op_defs = list_init_def list_add_def list_add_tail_def list_add_between_def list_del_def
  Let_def

lemma dseg_append: "dseg s p (xs @ y # ys) q \<longleftrightarrow> dseg s p xs y \<and> dseg s y ys q"
  by (induction xs arbitrary: p) auto

lemma dseg_first: "dseg s p xs q \<Longrightarrow> lnext s p = hd (xs @ [q])"
  by (cases xs) auto

lemma dseg_last: "dseg s p xs q \<Longrightarrow> lprev s q = last (p # xs)"
  by (induction xs arbitrary: p) auto

text \<open>Pointer writes away from a segment leave it alone.\<close>

lemma dseg_set_next: "a \<notin> set (p # xs) \<Longrightarrow> dseg (set_next a b s) p xs q = dseg s p xs q"
  by (induction xs arbitrary: p) auto

lemma dseg_set_prev: "a \<notin> set (xs @ [q]) \<Longrightarrow> dseg (set_prev a b s) p xs q = dseg s p xs q"
  by (induction xs arbitrary: p) auto

lemma dseg_cong:
  assumes "\<And>a. a \<in> set (p # xs) \<Longrightarrow> lnext s a = lnext t a"
    and "\<And>a. a \<in> set (xs @ [q]) \<Longrightarrow> lprev s a = lprev t a"
  shows "dseg s p xs q = dseg t p xs q"
  using assms by (induction xs arbitrary: p) auto

lemma is_list_cong:
  assumes "\<And>a. a \<in> set (h # xs) \<Longrightarrow> lnext s a = lnext t a \<and> lprev s a = lprev t a"
  shows "is_list s h xs = is_list t h xs"
  unfolding is_list_def using dseg_cong [of h xs s t h] assms by auto

lemma is_list_ends:
  assumes "is_list s h xs"
  shows "lnext s h = hd (xs @ [h])" and "lprev s h = last (h # xs)"
  using assms dseg_first dseg_last unfolding is_list_def by metis+

lemma list_empty_iff: "is_list s h xs \<Longrightarrow> list_empty h s \<longleftrightarrow> xs = []"
  by (cases xs) (auto simp: list_empty_def is_list_def)

lemma is_list_hd: "is_list s h (x # xs) \<Longrightarrow> lnext s h = x"
  by (simp add: is_list_def)

section \<open>The operations refine list operations\<close>

lemma list_init_is_list: "is_list (list_init h s) h []"
  by (simp add: is_list_def list_op_defs)

lemma list_add_is_list:
  assumes "is_list s h xs" and "n \<notin> set (h # xs)"
  shows "is_list (list_add n h s) h (n # xs)"
proof (cases xs)
  case Nil
  with assms show ?thesis by (auto simp: is_list_def list_op_defs)
next
  case (Cons y ys)
  with assms have "dseg s y ys h" and "lnext s h = y" and "distinct (h # y # ys)"
    by (auto simp: is_list_def)
  moreover from this assms(2) Cons have "dseg (list_add n h s) y ys h = dseg s y ys h"
    by (intro dseg_cong) (auto simp: list_op_defs)
  ultimately show ?thesis
    using assms(2) Cons by (auto simp: is_list_def list_op_defs)
qed

lemma list_add_tail_is_list:
  assumes "is_list s h xs" and "n \<notin> set (h # xs)"
  shows "is_list (list_add_tail n h s) h (xs @ [n])"
proof (cases xs rule: rev_cases)
  case Nil
  with assms show ?thesis by (auto simp: is_list_def list_op_defs)
next
  case (snoc ys y)
  with assms(1) have "dseg s h ys y" and "lprev s h = y" and d: "distinct (h # ys @ [y])"
    by (auto simp: is_list_def dseg_append)
  moreover from this assms(2) snoc have "dseg (list_add_tail n h s) h ys y = dseg s h ys y"
    by (intro dseg_cong) (auto simp: list_op_defs)
  moreover have "dseg (list_add_tail n h s) y [n] h"
    using assms(2) snoc d \<open>lprev s h = y\<close> by (auto simp: list_op_defs)
  ultimately show ?thesis
    using assms(2) snoc by (auto simp: is_list_def dseg_append)
qed

lemma list_del_is_list:
  assumes "is_list s h (xs @ e # ys)"
  shows "is_list (list_del e s) h (xs @ ys)" and "is_list (list_del e s) e []"
proof -
  define p where "p = last (h # xs)"
  define q where "q = hd (ys @ [h])"
  from assms have d: "distinct (h # xs @ e # ys)" and sx: "dseg s h xs e" and sy: "dseg s e ys h"
    by (auto simp: is_list_def dseg_append)
  then have pq: "lprev s e = p" "lnext s e = q"
    by (auto simp: p_def q_def dseg_last dseg_first)
  have pin: "p \<in> set (h # xs)"
    unfolding p_def by (rule last_in_set) simp
  have pe: "p \<noteq> e" "q \<noteq> e"
    using d by (auto simp: p_def q_def hd_append split: if_splits)
  have nx: "lnext (list_del e s) = (lnext s)(p := q, e := e)"
    and pv: "lprev (list_del e s) = (lprev s)(q := p, e := e)"
    using pe pq by (auto simp: list_del_def Let_def)
  show "is_list (list_del e s) e []"
    by (simp add: is_list_def nx pv)
  show "is_list (list_del e s) h (xs @ ys)"
  proof (cases ys)
    case Nil
    then have "q = h" by (simp add: q_def)
    show ?thesis
    proof (cases xs rule: rev_cases)
      case xsnil: Nil
      with Nil \<open>q = h\<close> d show ?thesis by (auto simp: is_list_def nx pv p_def)
    next
      case (snoc zs z)
      then have "p = z" by (simp add: p_def)
      moreover have "dseg (list_del e s) h zs z = dseg s h zs z"
        using d snoc Nil \<open>q = h\<close> \<open>p = z\<close> by (intro dseg_cong) (auto simp: nx pv)
      ultimately show ?thesis
        using sx snoc Nil d \<open>q = h\<close> by (auto simp: is_list_def dseg_append nx pv)
    qed
  next
    case (Cons y ws)
    then have "q = y" by (simp add: q_def)
    have wy: "dseg (list_del e s) y ws h = dseg s y ws h"
      using d Cons pin by (intro dseg_cong) (auto simp: nx pv \<open>q = y\<close>)
    have "dseg (list_del e s) h xs y"
    proof (cases xs rule: rev_cases)
      case Nil
      with Cons \<open>q = y\<close> d show ?thesis by (auto simp: nx pv p_def)
    next
      case (snoc zs z)
      then have "p = z" by (simp add: p_def)
      moreover have "dseg (list_del e s) h zs z = dseg s h zs z"
        using d snoc Cons \<open>q = y\<close> \<open>p = z\<close> by (intro dseg_cong) (auto simp: nx pv)
      ultimately show ?thesis
        using sx snoc Cons d \<open>q = y\<close> by (auto simp: dseg_append nx pv)
    qed
    with wy sy Cons d show ?thesis by (auto simp: is_list_def dseg_append)
  qed
qed

text \<open>Removing a node that is linked to itself only changes nothing.\<close>

lemma list_del_self: "lnext s e = e \<Longrightarrow> lprev s e = e \<Longrightarrow> list_del e s = s"
  by (simp add: list_del_def Let_def set_next_def set_prev_def fun_upd_idem)

text \<open>Lists that share no node do not disturb each other.\<close>

lemma list_add_tail_frame:
  assumes "is_list s k ys" and "is_list s h xs"
    and "set (k # ys) \<inter> set (h # xs) = {}" and "n \<notin> set (k # ys)"
  shows "is_list (list_add_tail n h s) k ys"
proof -
  have "lprev s h \<in> set (h # xs)"
    using is_list_ends(2) [OF assms(2)] last_in_set by (metis list.distinct(1))
  with assms show ?thesis
    by (subst is_list_cong [of k ys _ s]) (auto simp: list_op_defs)
qed

lemma list_add_frame:
  assumes "is_list s k ys" and "is_list s h xs"
    and "set (k # ys) \<inter> set (h # xs) = {}" and "n \<notin> set (k # ys)"
  shows "is_list (list_add n h s) k ys"
proof -
  have "lnext s h \<in> set (h # xs)"
    using is_list_ends(1) [OF assms(2)] by (cases xs) auto
  with assms show ?thesis
    by (subst is_list_cong [of k ys _ s]) (auto simp: list_op_defs)
qed

lemma list_del_frame:
  assumes "is_list s k ys" and "is_list s h (xs @ e # zs)"
    and "set (k # ys) \<inter> set (h # xs @ e # zs) = {}"
  shows "is_list (list_del e s) k ys"
proof -
  from assms(2) have "dseg s h xs e" "dseg s e zs h" by (auto simp: is_list_def dseg_append)
  then have "lprev s e = last (h # xs)" "lnext s e = hd (zs @ [h])"
    by (auto dest: dseg_last dseg_first)
  then have "lprev s e \<in> set (h # xs)" "lnext s e \<in> set (h # zs)"
    by (metis last_in_set list.distinct(1), cases zs, auto)
  with assms show ?thesis
    by (subst is_list_cong [of k ys _ s]) (auto simp: list_op_defs)
qed

section \<open>Traversal\<close>

text \<open>A traversal reads the \<^verbatim>\<open>next\<close> pointers only.\<close>

fun fpath :: "('n \<Rightarrow> 'n) \<Rightarrow> 'n \<Rightarrow> 'n list \<Rightarrow> 'n \<Rightarrow> bool" where
  "fpath nx p [] q \<longleftrightarrow> nx p = q"
| "fpath nx p (x # xs) q \<longleftrightarrow> nx p = x \<and> fpath nx x xs q"

lemma dseg_fpath: "dseg s p xs q \<Longrightarrow> fpath (lnext s) p xs q"
  by (induction xs arbitrary: p) auto

lemma fpath_upd: "a \<notin> set (p # xs) \<Longrightarrow> fpath (nx(a := b)) p xs q = fpath nx p xs q"
  by (induction xs arbitrary: p) auto

lemma list_for_each_fpath:
  assumes "fpath (lnext s) p xs q" and "h \<notin> set xs"
  shows "list_for_each s h (lnext s p) = do { ys \<leftarrow> list_for_each s h q; Some (xs @ ys) }"
  using assms
proof (induction xs arbitrary: p)
  case Nil
  then show ?case by (cases "list_for_each s h q") auto
next
  case (Cons x xs)
  then show ?case
    by (cases "list_for_each s h q") (auto simp: list_for_each.simps [of s h x])
qed

lemma list_nodes_eq: "is_list s h xs \<Longrightarrow> list_nodes s h = Some xs"
  using list_for_each_fpath [OF dseg_fpath, of s h xs h h]
  by (simp add: list_nodes_def is_list_def list_for_each.simps [of s h h])

lemma is_list_unique: "is_list s h xs \<Longrightarrow> is_list s h ys \<Longrightarrow> xs = ys"
  by (metis list_nodes_eq option.inject)

text \<open>
  Adding a node that is already linked into the same list breaks it: the nodes after it drop
  out of the list, or, when it is the last one, a traversal never comes back to the head.
\<close>

lemma list_for_each_stuck:
  assumes ret: "list_for_each s h p = Some r"
  shows "\<not> (lnext s p = p \<and> p \<noteq> h)"
proof (rule list_for_each.raw_induct [where P = "\<lambda>s h p r. \<not> (lnext s p = p \<and> p \<noteq> h)", OF _ ret])
  fix f :: "'a list_store \<Rightarrow> 'a \<Rightarrow> 'a \<Rightarrow> 'a list option" and s h p r
  assume "\<And>s h p r. f s h p = Some r \<Longrightarrow> \<not> (lnext s p = p \<and> p \<noteq> h)"
    and "(if p = h then Some [] else f s h (lnext s p) \<bind> (\<lambda>xs. Some (p # xs))) = Some r"
  then show "\<not> (lnext s p = p \<and> p \<noteq> h)"
    by (auto split: if_splits option.splits bind_splits)
qed

lemma list_add_tail_linked:
  assumes "is_list s h (xs @ n # ys)"
  shows "list_nodes (list_add_tail n h s) h = (if ys = [] then None else Some (xs @ [n]))"
proof -
  let ?t = "list_add_tail n h s"
  from assms have d: "distinct (h # xs @ n # ys)" and sx: "dseg s h xs n" and "dseg s n ys h"
    by (auto simp: is_list_def dseg_append)
  then have last: "lprev s h = last (n # ys)"
    by (auto dest: dseg_last)
  have nx: "lnext ?t = (lnext s)(n := h, last (n # ys) := n)"
    by (simp add: list_op_defs last)
  have lx: "last (n # ys) \<notin> set (h # xs)"
    using d last_in_set [of ys] by auto
  have "n \<notin> set (h # xs)" using d by auto
  with lx dseg_fpath [OF sx] have "fpath (lnext ?t) h xs n"
    by (simp only: nx fpath_upd not_False_eq_True)
  then have fwd: "list_nodes ?t h = do { zs \<leftarrow> list_for_each ?t h n; Some (xs @ zs) }"
    using d by (simp add: list_nodes_def list_for_each_fpath)
  show ?thesis
  proof (cases "ys = []")
    case True
    then have "lnext ?t n = n" by (simp add: nx)
    with d list_for_each_stuck [of ?t h n] have "list_for_each ?t h n = None"
      by (cases "list_for_each ?t h n") auto
    with True fwd show ?thesis by simp
  next
    case False
    with d last_in_set [of ys] have "lnext ?t n = h" by (auto simp: nx)
    with d have "list_for_each ?t h n = Some [n]"
      by (auto simp: list_for_each.simps [of ?t h n] list_for_each.simps [of ?t h h])
    with False fwd show ?thesis by simp
  qed
qed

section \<open>The contract the clients rely on\<close>

locale intrusive_list =
  fixes rep :: "'s \<Rightarrow> 'n \<Rightarrow> 'n list \<Rightarrow> bool"
    and add_head :: "'n \<Rightarrow> 'n \<Rightarrow> 's \<Rightarrow> 's"
    and add_tail :: "'n \<Rightarrow> 'n \<Rightarrow> 's \<Rightarrow> 's"
    and del :: "'n \<Rightarrow> 's \<Rightarrow> 's"
    and first :: "'s \<Rightarrow> 'n \<Rightarrow> 'n"
    and is_empty :: "'n \<Rightarrow> 's \<Rightarrow> bool"
  assumes rep_distinct: "rep s h xs \<Longrightarrow> distinct (h # xs)"
    and rep_unique: "rep s h xs \<Longrightarrow> rep s h ys \<Longrightarrow> xs = ys"
    and rep_first: "rep s h (x # xs) \<Longrightarrow> first s h = x"
    and rep_is_empty: "rep s h xs \<Longrightarrow> is_empty h s \<longleftrightarrow> xs = []"
    and rep_add_head: "rep s h xs \<Longrightarrow> n \<notin> set (h # xs) \<Longrightarrow> rep (add_head n h s) h (n # xs)"
    and rep_add_tail: "rep s h xs \<Longrightarrow> n \<notin> set (h # xs) \<Longrightarrow> rep (add_tail n h s) h (xs @ [n])"
    and rep_del: "rep s h (xs @ e # ys) \<Longrightarrow> rep (del e s) h (xs @ ys)"
    and rep_del_self: "rep s h (xs @ e # ys) \<Longrightarrow> rep (del e s) e []"
    and frame_add_tail: "rep s k ys \<Longrightarrow> rep s h xs \<Longrightarrow> set (k # ys) \<inter> set (h # xs) = {} \<Longrightarrow>
      n \<notin> set (k # ys) \<Longrightarrow> rep (add_tail n h s) k ys"
    and frame_add_head: "rep s k ys \<Longrightarrow> rep s h xs \<Longrightarrow> set (k # ys) \<inter> set (h # xs) = {} \<Longrightarrow>
      n \<notin> set (k # ys) \<Longrightarrow> rep (add_head n h s) k ys"
    and frame_del: "rep s k ys \<Longrightarrow> rep s h (xs @ e # zs) \<Longrightarrow>
      set (k # ys) \<inter> set (h # xs @ e # zs) = {} \<Longrightarrow> rep (del e s) k ys"
begin

text \<open>Taking the first node off and queueing it again at the tail rotates the list.\<close>

lemma rotate:
  assumes "rep s h (x # xs)"
  shows "rep (add_tail x h (del x s)) h (xs @ [x])"
proof -
  from assms have "rep (del x s) h xs" using rep_del [of s h "[]" x xs] by simp
  with rep_distinct [OF assms] show ?thesis by (auto intro: rep_add_tail)
qed

text \<open>Moving a node to the front of another list; a third list is not disturbed.\<close>

lemma move:
  assumes "rep s h (xs @ n # ys)" and "rep s k zs" and "set (h # xs @ n # ys) \<inter> set (k # zs) = {}"
  shows "rep (add_head n k (del n s)) h (xs @ ys)" and "rep (add_head n k (del n s)) k (n # zs)"
    and "rep s l ws \<Longrightarrow> set (l # ws) \<inter> set (h # xs @ n # ys) = {} \<Longrightarrow>
      set (l # ws) \<inter> set (k # zs) = {} \<Longrightarrow> rep (add_head n k (del n s)) l ws"
proof -
  have d: "distinct (h # xs @ n # ys)" using assms(1) by (rule rep_distinct)
  have h: "rep (del n s) h (xs @ ys)" using assms(1) by (rule rep_del)
  have k: "rep (del n s) k zs" by (rule frame_del [OF assms(2,1)]) (use assms(3) in auto)
  show "rep (add_head n k (del n s)) h (xs @ ys)"
    by (rule frame_add_head [OF h k]) (use d assms(3) in auto)
  show "rep (add_head n k (del n s)) k (n # zs)"
    by (rule rep_add_head [OF k]) (use assms(3) in auto)
  assume l: "rep s l ws" "set (l # ws) \<inter> set (h # xs @ n # ys) = {}" "set (l # ws) \<inter> set (k # zs) = {}"
  have "rep (del n s) l ws" by (rule frame_del [OF l(1) assms(1) l(2)])
  then show "rep (add_head n k (del n s)) l ws"
    by (rule frame_add_head [OF _ k l(3)]) (use l(2) in auto)
qed

text \<open>Taking a node out and putting it back at the front of the same list.\<close>

lemma to_front:
  assumes "rep s h (xs @ n # ys)"
  shows "rep (add_head n h (del n s)) h (n # xs @ ys)"
    and "rep s l ws \<Longrightarrow> set (l # ws) \<inter> set (h # xs @ n # ys) = {} \<Longrightarrow>
      rep (add_head n h (del n s)) l ws"
proof -
  have d: "distinct (h # xs @ n # ys)" using assms by (rule rep_distinct)
  have h: "rep (del n s) h (xs @ ys)" using assms by (rule rep_del)
  show "rep (add_head n h (del n s)) h (n # xs @ ys)"
    by (rule rep_add_head [OF h]) (use d in auto)
  assume l: "rep s l ws" "set (l # ws) \<inter> set (h # xs @ n # ys) = {}"
  have "rep (del n s) l ws" by (rule frame_del [OF l(1) assms l(2)])
  then show "rep (add_head n h (del n s)) l ws"
    by (rule frame_add_head [OF _ h]) (use l(2) in auto)
qed

lemma del_mem:
  assumes "rep s h xs" and "e \<in> set xs"
  shows "rep (del e s) h (remove1 e xs)"
proof -
  from assms(2) obtain ys zs where "xs = ys @ e # zs" and "e \<notin> set ys"
    by (meson split_list_first)
  with assms(1) rep_del show ?thesis by (auto simp: remove1_append)
qed

end

interpretation kl: intrusive_list is_list list_add list_add_tail list_del lnext list_empty
proof unfold_locales
  show "is_list s h xs \<Longrightarrow> distinct (h # xs)" for s h and xs :: "'a list"
    by (simp add: is_list_def)
qed (fact is_list_unique is_list_hd list_empty_iff list_add_is_list list_add_tail_is_list
  list_del_is_list list_add_tail_frame list_add_frame list_del_frame)+

end
