(* ===== verification/Kmalloc.thy ===== *)
theory Kmalloc
  imports Prelude "HOL-Library.Monad_Syntax"
begin

text \<open>
  The kernel heap of \<^verbatim>\<open>mm/kmalloc.c\<close> (the first half of the file): blocks with a 16-byte header
  laid end to end from \<^verbatim>\<open>KERNEL_HEAP_START\<close>, allocated first fit, split on allocation and
  coalesced on release.  The model keeps the headers as a store from addresses to
  \<open>block_hdr\<close> records, the payload bytes as a separate store, and the three static variables.
  The invariant \<open>heap_inv\<close> says that the header chain tiles the heap: that headers and payloads
  of a well-formed heap do not overlap is what makes the two stores a faithful view of one memory.
  The heap's pages are mapped on demand by the page-fault handler, which is not visible here.
\<close>

section \<open>State and operations\<close>

definition MAGIC_FREE :: u32 where "MAGIC_FREE = 0xFEEDFACE"
definition MAGIC_USED :: u32 where "MAGIC_USED = 0xDEADBEEF"
definition MIN_ALLOC :: u32 where "MIN_ALLOC = 16"
definition HDR_SIZE :: u32 where "HDR_SIZE = 16"

record block_hdr =
  magic :: u32
  bsize :: u32
  bnext :: uptr
  bprev :: uptr

record kheap =
  hdrs :: "uptr \<Rightarrow> block_hdr"
  payload :: "uptr \<Rightarrow> u8"
  heap_start :: uptr
  heap_cur :: uptr
  heap_end :: uptr

text \<open>An assignment to fields of the header at \<open>b\<close>.\<close>

definition upd_hdr :: "uptr \<Rightarrow> (block_hdr \<Rightarrow> block_hdr) \<Rightarrow> kheap \<Rightarrow> kheap" where
  "upd_hdr b f h = h\<lparr>hdrs := (hdrs h)(b := f (hdrs h b))\<rparr>"

definition heap_sbrk :: "u32 \<Rightarrow> kheap \<Rightarrow> uptr \<times> kheap" where
  "heap_sbrk bytes h =
     (let bytes = ALIGN_UP bytes PAGE_SIZE
      in if heap_cur h + bytes > heap_end h then (0, h)
         else (heap_cur h, h\<lparr>heap_cur := heap_cur h + bytes\<rparr>))"

text \<open>A failed \<^verbatim>\<open>ASSERT\<close> panics: \<open>None\<close>.\<close>

definition kmalloc_init :: "kheap \<Rightarrow> kheap option" where
  "kmalloc_init h =
     (let h = h\<lparr>heap_cur := KERNEL_HEAP_START, heap_end := KERNEL_HEAP_START + KERNEL_HEAP_SIZE\<rparr>;
          (mem, h) = heap_sbrk (PAGE_SIZE * 4) h
      in if mem = 0 then None
         else Some (upd_hdr mem (\<lambda>_. \<lparr>magic = MAGIC_FREE, bsize = PAGE_SIZE * 4 - HDR_SIZE,
                                      bnext = 0, bprev = 0\<rparr>) (h\<lparr>heap_start := mem\<rparr>)))"

definition split_block :: "uptr \<Rightarrow> u32 \<Rightarrow> kheap \<Rightarrow> kheap" where
  "split_block b need h =
     (if bsize (hdrs h b) < need + HDR_SIZE + MIN_ALLOC then h
      else let nb = b + HDR_SIZE + need;
               h = upd_hdr nb (\<lambda>x. x\<lparr>magic := MAGIC_FREE\<rparr>) h;
               h = upd_hdr nb (\<lambda>x. x\<lparr>bsize := bsize (hdrs h b) - need - HDR_SIZE\<rparr>) h;
               h = upd_hdr nb (\<lambda>x. x\<lparr>bnext := bnext (hdrs h b)\<rparr>) h;
               h = upd_hdr nb (\<lambda>x. x\<lparr>bprev := b\<rparr>) h;
               h = (if bnext (hdrs h b) \<noteq> 0
                    then upd_hdr (bnext (hdrs h b)) (\<lambda>x. x\<lparr>bprev := nb\<rparr>) h else h)
           in upd_hdr b (\<lambda>x. x\<lparr>bnext := nb, bsize := need\<rparr>) h)"

text \<open>The two loops of \<^verbatim>\<open>kmalloc\<close>: the search from a block on, and the walk to the last block.\<close>

partial_function (option) find_fit :: "kheap \<Rightarrow> u32 \<Rightarrow> uptr \<Rightarrow> uptr option" where
  "find_fit h sz b =
     (if b = 0 then Some 0
      else if magic (hdrs h b) = MAGIC_FREE \<and> bsize (hdrs h b) \<ge> sz then Some b
      else find_fit h sz (bnext (hdrs h b)))"

partial_function (option) last_block :: "kheap \<Rightarrow> uptr \<Rightarrow> uptr option" where
  "last_block h b = (if bnext (hdrs h b) \<noteq> 0 then last_block h (bnext (hdrs h b)) else Some b)"

text \<open>\<open>None\<close> is a call that never returns; a null result is \<open>Some (0, h)\<close>.\<close>

partial_function (option) kmalloc :: "u32 \<Rightarrow> kheap \<Rightarrow> (uptr \<times> kheap) option" where
  "kmalloc sz h =
     (if sz = 0 then Some (0, h)
      else let sz = ALIGN_UP sz 8
           in do {
             b \<leftarrow> find_fit h sz (heap_start h);
             if b \<noteq> 0
             then Some (b + HDR_SIZE, upd_hdr b (\<lambda>x. x\<lparr>magic := MAGIC_USED\<rparr>) (split_block b sz h))
             else let ext = ALIGN_UP (sz + HDR_SIZE) (PAGE_SIZE * 4);
                      (mem, h) = heap_sbrk ext h
                  in if mem = 0 then Some (0, h)
                     else let h = upd_hdr mem (\<lambda>x. x\<lparr>magic := MAGIC_FREE,
                                  bsize := ext - HDR_SIZE, bnext := 0\<rparr>) h
                          in do {
                            last \<leftarrow> last_block h (heap_start h);
                            let h = upd_hdr last (\<lambda>x. x\<lparr>bnext := mem\<rparr>) h;
                            let h = upd_hdr mem (\<lambda>x. x\<lparr>bprev := last\<rparr>) h;
                            kmalloc sz h
                          }
           })"

text \<open>The two coalescing steps of \<^verbatim>\<open>kfree\<close>.\<close>

definition coalesce_next :: "uptr \<Rightarrow> kheap \<Rightarrow> kheap" where
  "coalesce_next b h =
     (if bnext (hdrs h b) \<noteq> 0 \<and> magic (hdrs h (bnext (hdrs h b))) = MAGIC_FREE
      then let h = upd_hdr b (\<lambda>x. x\<lparr>bsize := bsize x + (HDR_SIZE + bsize (hdrs h (bnext x)))\<rparr>) h;
               n = bnext (hdrs h (bnext (hdrs h b)));
               h = (if n \<noteq> 0 then upd_hdr n (\<lambda>x. x\<lparr>bprev := b\<rparr>) h else h)
           in upd_hdr b (\<lambda>x. x\<lparr>bnext := n\<rparr>) h
      else h)"

definition coalesce_prev :: "uptr \<Rightarrow> kheap \<Rightarrow> kheap" where
  "coalesce_prev b h =
     (if bprev (hdrs h b) \<noteq> 0 \<and> magic (hdrs h (bprev (hdrs h b))) = MAGIC_FREE
      then let h = upd_hdr (bprev (hdrs h b))
                     (\<lambda>x. x\<lparr>bsize := bsize x + (HDR_SIZE + bsize (hdrs h b))\<rparr>) h;
               n = bnext (hdrs h b);
               h = (if n \<noteq> 0 then upd_hdr n (\<lambda>x. x\<lparr>bprev := bprev (hdrs h b)\<rparr>) h else h)
           in upd_hdr (bprev (hdrs h b)) (\<lambda>x. x\<lparr>bnext := n\<rparr>) h
      else h)"

definition kfree :: "uptr \<Rightarrow> kheap \<Rightarrow> kheap" where
  "kfree ptr h =
     (if ptr = 0 then h
      else let b = ptr - HDR_SIZE
           in if magic (hdrs h b) \<noteq> MAGIC_USED then h
              else coalesce_prev b (coalesce_next b (upd_hdr b (\<lambda>x. x\<lparr>magic := MAGIC_FREE\<rparr>) h)))"

text \<open>\<^verbatim>\<open>memset\<close> and \<^verbatim>\<open>memcpy\<close> on payload bytes.\<close>

definition pl_fill :: "uptr \<Rightarrow> u8 \<Rightarrow> u32 \<Rightarrow> kheap \<Rightarrow> kheap" where
  "pl_fill p v n h = h\<lparr>payload := (\<lambda>a. if a - p < n then v else payload h a)\<rparr>"

definition pl_copy :: "uptr \<Rightarrow> uptr \<Rightarrow> u32 \<Rightarrow> kheap \<Rightarrow> kheap" where
  "pl_copy dst src n h =
     h\<lparr>payload := (\<lambda>a. if a - dst < n then payload h (src + (a - dst)) else payload h a)\<rparr>"

definition kcalloc :: "u32 \<Rightarrow> u32 \<Rightarrow> kheap \<Rightarrow> (uptr \<times> kheap) option" where
  "kcalloc nmemb sz h =
     (let total = nmemb * sz
      in do {
        (p, h) \<leftarrow> kmalloc total h;
        Some (p, if p \<noteq> 0 then pl_fill p 0 total h else h)
      })"

definition krealloc :: "uptr \<Rightarrow> u32 \<Rightarrow> kheap \<Rightarrow> (uptr \<times> kheap) option" where
  "krealloc ptr sz h =
     (if ptr = 0 then kmalloc sz h
      else if sz = 0 then Some (0, kfree ptr h)
      else let b = ptr - HDR_SIZE
           in if bsize (hdrs h b) \<ge> sz then Some (ptr, h)
              else do {
                (np, h) \<leftarrow> kmalloc sz h;
                Some (np, if np \<noteq> 0 then kfree ptr (pl_copy np ptr (bsize (hdrs h b)) h) else h)
              })"

definition kmalloc_aligned :: "u32 \<Rightarrow> u32 \<Rightarrow> kheap \<Rightarrow> (uptr \<times> kheap) option" where
  "kmalloc_aligned sz align h =
     do {
       (p, h) \<leftarrow> kmalloc (sz + align) h;
       Some (if p = 0 then 0 else ALIGN_UP p align, h)
     }"

section \<open>The invariant\<close>

definition bend :: "kheap \<Rightarrow> uptr \<Rightarrow> nat" where
  "bend h b = unat b + 16 + unat (bsize (hdrs h b))"

definition block_ok :: "kheap \<Rightarrow> uptr \<Rightarrow> bool" where
  "block_ok h b \<longleftrightarrow> b \<noteq> 0 \<and> 8 dvd unat b \<and> 8 dvd unat (bsize (hdrs h b)) \<and>
     (magic (hdrs h b) = MAGIC_FREE \<or> magic (hdrs h b) = MAGIC_USED)"

text \<open>
  \<open>seg h p bs n e\<close>: the blocks \<open>bs\<close> follow each other in memory up to address \<open>e\<close> and are linked
  both ways, with \<open>p\<close> before the first and \<open>n\<close> after the last.
\<close>

fun seg :: "kheap \<Rightarrow> uptr \<Rightarrow> uptr list \<Rightarrow> uptr \<Rightarrow> nat \<Rightarrow> bool" where
  "seg h p [] n e \<longleftrightarrow> True"
| "seg h p (b # bs) n e \<longleftrightarrow>
     block_ok h b \<and> bprev (hdrs h b) = p \<and> bnext (hdrs h b) = hd (bs @ [n]) \<and>
     bend h b = (case bs of [] \<Rightarrow> e | c # _ \<Rightarrow> unat c) \<and> seg h b bs n e"

definition heap_inv :: "kheap \<Rightarrow> uptr list \<Rightarrow> bool" where
  "heap_inv h bs \<longleftrightarrow>
     bs \<noteq> [] \<and> hd bs = heap_start h \<and> heap_start h = KERNEL_HEAP_START \<and>
     heap_end h = KERNEL_HEAP_START + KERNEL_HEAP_SIZE \<and> heap_cur h \<le> heap_end h \<and>
     4096 dvd unat (heap_cur h) \<and> seg h 0 bs 0 (unat (heap_cur h))"

text \<open>The payloads in use, as address and length.\<close>

definition live :: "kheap \<Rightarrow> (nat \<times> nat) set" where
  "live h = {(unat b + 16, unat (bsize (hdrs h b))) | b bs.
               heap_inv h bs \<and> b \<in> set bs \<and> magic (hdrs h b) = MAGIC_USED}"

definition heap_ok :: "kheap \<Rightarrow> bool" where
  "heap_ok h \<longleftrightarrow> (\<exists>bs. heap_inv h bs)"

section \<open>Facts about tiled segments\<close>

lemma hdrs_upd_hdr [simp]: "hdrs (upd_hdr b f h) = (hdrs h)(b := f (hdrs h b))"
  and heap_start_upd_hdr [simp]: "heap_start (upd_hdr b f h) = heap_start h"
  and heap_cur_upd_hdr [simp]: "heap_cur (upd_hdr b f h) = heap_cur h"
  and heap_end_upd_hdr [simp]: "heap_end (upd_hdr b f h) = heap_end h"
  and payload_upd_hdr [simp]: "payload (upd_hdr b f h) = payload h"
  by (simp_all add: upd_hdr_def)

lemma MAGIC_neq [simp]: "MAGIC_FREE \<noteq> MAGIC_USED" "MAGIC_USED \<noteq> MAGIC_FREE"
  by (simp_all add: MAGIC_FREE_def MAGIC_USED_def)

lemma seg_append:
  "seg h p (xs @ b # ys) n e \<longleftrightarrow> seg h p xs b (unat b) \<and> seg h (last (p # xs)) (b # ys) n e"
  by (induction xs arbitrary: p) (auto split: list.splits simp: Cons_eq_append_conv hd_append)

lemma seg_cong:
  assumes "\<And>b. b \<in> set bs \<Longrightarrow> hdrs h b = hdrs g b"
  shows "seg h p bs n e = seg g p bs n e"
  using assms by (induction bs arbitrary: p) (auto simp: block_ok_def bend_def)

lemma seg_end_all: "seg h p bs n e \<Longrightarrow> \<forall>b\<in>set bs. bend h b \<le> e"
proof (induction bs arbitrary: p)
  case (Cons c cs)
  then have all: "\<forall>b\<in>set cs. bend h b \<le> e" by auto
  have "bend h c \<le> e"
  proof (cases cs)
    case (Cons d ds)
    with all have "unat d \<le> e" by (auto simp: bend_def)
    with Cons Cons.prems show ?thesis by simp
  qed (use Cons.prems in simp)
  with all show ?case by simp
qed simp

lemma seg_end: "seg h p bs n e \<Longrightarrow> b \<in> set bs \<Longrightarrow> bend h b \<le> e"
  using seg_end_all by blast

lemma seg_sorted: "seg h p bs n e \<Longrightarrow> sorted_wrt (\<lambda>b c. bend h b \<le> unat c) bs"
proof (induction bs arbitrary: p)
  case (Cons b bs)
  show ?case
  proof (cases bs)
    case (Cons c cs)
    with Cons.IH [of b] Cons.prems have s: "sorted_wrt (\<lambda>b c. bend h b \<le> unat c) (c # cs)"
      and b: "bend h b = unat c" by auto
    have "bend h b \<le> unat d" if "d \<in> set cs" for d
      using s b that by (auto simp: bend_def)
    with s b Cons show ?thesis by auto
  qed simp
qed simp

lemma seg_distinct: "seg h p bs n e \<Longrightarrow> distinct bs"
  by (drule seg_sorted, induction bs) (auto simp: bend_def)

lemma seg_blocks: "seg h p bs n e \<Longrightarrow> b \<in> set bs \<Longrightarrow> block_ok h b"
  by (induction bs arbitrary: p) auto

lemma seg_reprev:
  assumes "seg h p (y # ys) n e" and "hdrs g y = (hdrs h y)\<lparr>bprev := q\<rparr>"
    and "\<And>c. c \<in> set ys \<Longrightarrow> hdrs g c = hdrs h c"
  shows "seg g q (y # ys) n e"
proof -
  have "seg g y ys n e" using assms(1) seg_cong [of ys g h y n e] assms(3) by simp
  with assms(1,2) show ?thesis by (auto simp: block_ok_def bend_def)
qed

lemma seg_unique:
  "seg h p bs 0 e \<Longrightarrow> seg h q cs 0 e' \<Longrightarrow> hd (bs @ [0]) = hd (cs @ [0]) \<Longrightarrow> bs = cs"
proof (induction bs arbitrary: p q cs)
  case Nil
  then show ?case by (cases cs) (auto simp: block_ok_def)
next
  case (Cons b bs)
  then have "b \<noteq> 0" by (simp add: block_ok_def)
  with Cons.prems(3) obtain ds where cs: "cs = b # ds" by (cases cs) auto
  have "bs = ds"
    by (rule Cons.IH [of b b]) (use Cons.prems cs in simp_all)
  with cs show ?case by simp
qed

lemma heap_inv_unique: "heap_inv h bs \<Longrightarrow> heap_inv h cs \<Longrightarrow> bs = cs"
  unfolding heap_inv_def by (rule seg_unique) (auto simp: hd_append)

lemma live_eq:
  "heap_inv h bs \<Longrightarrow> live h = {(unat b + 16, unat (bsize (hdrs h b))) | b.
     b \<in> set bs \<and> magic (hdrs h b) = MAGIC_USED}"
  unfolding live_def using heap_inv_unique by blast

lemma heap_inv_seg: "heap_inv h bs \<Longrightarrow> seg h 0 bs 0 (unat (heap_cur h))"
  and heap_inv_cur: "heap_inv h bs \<Longrightarrow> unat (heap_cur h) \<le> 0xD4000000"
  and heap_inv_start: "heap_inv h bs \<Longrightarrow> hd bs = heap_start h"
  by (auto simp: heap_inv_def layout_defs word_le_nat_alt)

text \<open>A change of headers that keeps the first block and tiles the heap again keeps the invariant.\<close>

lemma heap_inv_retile:
  assumes "heap_inv h bs" and "heap_start g = heap_start h" and "heap_cur g = heap_cur h"
    and "heap_end g = heap_end h" and "cs \<noteq> []" and "hd cs = hd bs"
    and "seg g 0 cs 0 (unat (heap_cur h))"
  shows "heap_inv g cs"
  using assms by (auto simp: heap_inv_def)

lemma heap_inv_middle:
  assumes "heap_inv h (xs @ b # ys)"
  shows "\<And>c. c \<in> set xs \<Longrightarrow> bend h c \<le> unat b" and "\<And>c. c \<in> set ys \<Longrightarrow> bend h b \<le> unat c"
    and "bend h b \<le> 0xD4000000" and "b \<notin> set xs \<union> set ys" and "set xs \<inter> set ys = {}"
    and "distinct ys"
proof -
  note s = heap_inv_seg [OF assms]
  from seg_sorted [OF s] show "\<And>c. c \<in> set xs \<Longrightarrow> bend h c \<le> unat b"
    and "\<And>c. c \<in> set ys \<Longrightarrow> bend h b \<le> unat c"
    by (auto simp: sorted_wrt_append)
  from seg_end [OF s, of b] heap_inv_cur [OF assms] show "bend h b \<le> 0xD4000000" by simp
  from seg_distinct [OF s] show "b \<notin> set xs \<union> set ys" "set xs \<inter> set ys = {}" "distinct ys" by auto
qed

section \<open>Allocation\<close>

abbreviation fits :: "kheap \<Rightarrow> u32 \<Rightarrow> uptr \<Rightarrow> bool" where
  "fits h sz b \<equiv> magic (hdrs h b) = MAGIC_FREE \<and> bsize (hdrs h b) \<ge> sz"

lemma find_fit_seg:
  "seg h p bs 0 e \<Longrightarrow> find_fit h sz (hd (bs @ [0])) =
     Some (case find (fits h sz) bs of None \<Rightarrow> 0 | Some b \<Rightarrow> b)"
proof (induction bs arbitrary: p)
  case Nil
  then show ?case by (simp add: find_fit.simps)
next
  case (Cons b bs)
  then show ?case by (auto simp: find_fit.simps [of h sz b] block_ok_def)
qed

lemma last_block_seg: "seg h p bs 0 e \<Longrightarrow> bs \<noteq> [] \<Longrightarrow> last_block h (hd bs) = Some (last bs)"
proof (induction bs arbitrary: p)
  case (Cons b bs)
  then show ?case
    by (cases bs) (auto simp: last_block.simps [of h b] block_ok_def)
qed simp

text \<open>Taking a free block that is large enough, with or without splitting it.\<close>

definition take_block :: "uptr \<Rightarrow> u32 \<Rightarrow> kheap \<Rightarrow> kheap" where
  "take_block b need h = upd_hdr b (\<lambda>x. x\<lparr>magic := MAGIC_USED\<rparr>) (split_block b need h)"

definition same_use :: "kheap \<Rightarrow> kheap \<Rightarrow> uptr \<Rightarrow> bool" where
  "same_use h g c \<longleftrightarrow> magic (hdrs h c) = magic (hdrs g c) \<and> bsize (hdrs h c) = bsize (hdrs g c)"

lemma split_block_whole:
  assumes inv: "heap_inv h (xs @ b # ys)" and small: "bsize (hdrs h b) < need + HDR_SIZE + MIN_ALLOC"
  shows "heap_inv (take_block b need h) (xs @ b # ys)"
    and "hdrs (take_block b need h) = (hdrs h)(b := (hdrs h b)\<lparr>magic := MAGIC_USED\<rparr>)"
proof -
  let ?g = "take_block b need h"
  have g: "?g = upd_hdr b (\<lambda>x. x\<lparr>magic := MAGIC_USED\<rparr>) h"
    using small by (simp add: take_block_def split_block_def)
  then show "hdrs ?g = (hdrs h)(b := (hdrs h b)\<lparr>magic := MAGIC_USED\<rparr>)" by simp
  note m = heap_inv_middle [OF inv]
  have "seg ?g 0 xs b (unat b) = seg h 0 xs b (unat b)" "seg ?g b ys 0 e = seg h b ys 0 e" for e
    using m(4) by (auto intro!: seg_cong simp: g)
  with heap_inv_seg [OF inv] have "seg ?g 0 (xs @ b # ys) 0 (unat (heap_cur ?g))"
    by (auto simp: seg_append g block_ok_def bend_def split: list.splits)
  then show "heap_inv ?g (xs @ b # ys)"
    by (intro heap_inv_retile [OF inv]) (simp_all add: g)
qed

lemma unat_split:
  assumes inv: "heap_inv h (xs @ b # ys)" and "unat need \<le> unat (bsize (hdrs h b))"
    and "unat need \<le> 0x4000010"
    and big: "\<not> bsize (hdrs h b) < need + HDR_SIZE + MIN_ALLOC"
  shows "unat (b + HDR_SIZE + need) = unat b + 16 + unat need"
    and "unat (bsize (hdrs h b) - need - HDR_SIZE) = unat (bsize (hdrs h b)) - unat need - 16"
    and "unat need + 32 \<le> unat (bsize (hdrs h b))"
proof -
  note m = heap_inv_middle(3) [OF inv]
  have "unat (need + 32) = unat need + 32"
    using assms(3) by (intro trans [OF unat_add_nowrap]) auto
  with big show c: "unat need + 32 \<le> unat (bsize (hdrs h b))"
    by (simp add: HDR_SIZE_def MIN_ALLOC_def word_less_nat_alt not_less add.assoc)
  have "unat (b + 16) = unat b + 16"
    using m by (intro trans [OF unat_add_nowrap]) (auto simp: bend_def)
  then show "unat (b + HDR_SIZE + need) = unat b + 16 + unat need"
    using m assms(2) unfolding HDR_SIZE_def
    by (intro trans [OF unat_add_nowrap]) (auto simp: bend_def)
  have "unat (bsize (hdrs h b) - need) = unat (bsize (hdrs h b)) - unat need"
    using assms(2) by (simp add: unat_sub word_le_nat_alt)
  with c show "unat (bsize (hdrs h b) - need - HDR_SIZE) = unat (bsize (hdrs h b)) - unat need - 16"
    unfolding HDR_SIZE_def by (subst unat_sub) (auto simp: word_le_nat_alt)
qed

lemma hdrs_split_block:
  assumes "\<not> bsize (hdrs h b) < need + HDR_SIZE + MIN_ALLOC"
    and "nb = b + HDR_SIZE + need" and "nb \<noteq> b" and "bnext (hdrs h b) \<noteq> b"
    and "bnext (hdrs h b) \<noteq> nb"
  shows "hdrs (take_block b need h) =
    (let y = bnext (hdrs h b);
         f = (hdrs h)(nb := \<lparr>magic = MAGIC_FREE, bsize = bsize (hdrs h b) - need - HDR_SIZE,
                             bnext = y, bprev = b\<rparr>,
                      b := (hdrs h b)\<lparr>magic := MAGIC_USED, bnext := nb, bsize := need\<rparr>)
     in if y = 0 then f else f(y := (hdrs h y)\<lparr>bprev := nb\<rparr>))"
  using assms by (auto simp: take_block_def split_block_def Let_def fun_eq_iff)

lemma split_block_split:
  assumes inv: "heap_inv h (xs @ b # ys)" and le: "unat need \<le> unat (bsize (hdrs h b))"
    and dvd: "8 dvd unat need" and bound: "unat need \<le> 0x4000010"
    and big: "\<not> bsize (hdrs h b) < need + HDR_SIZE + MIN_ALLOC"
  defines "nb \<equiv> b + HDR_SIZE + need"
  shows "heap_inv (take_block b need h) (xs @ b # nb # ys)"
    and "\<And>c. c \<in> set xs \<union> set ys \<Longrightarrow> same_use (take_block b need h) h c"
    and "magic (hdrs (take_block b need h) b) = MAGIC_USED"
    and "bsize (hdrs (take_block b need h) b) = need"
    and "magic (hdrs (take_block b need h) nb) = MAGIC_FREE"
proof -
  let ?g = "take_block b need h" and ?y = "bnext (hdrs h b)"
  note m = heap_inv_middle [OF inv]
  note u = unat_split [OF inv le bound big, folded nb_def]
  from heap_inv_seg [OF inv] have sx: "seg h 0 xs b (unat b)" and sy: "seg h b ys 0 (unat (heap_cur h))"
    and b: "block_ok h b" "bprev (hdrs h b) = last (0 # xs)" "?y = hd (ys @ [0])"
      "bend h b = (case ys of [] \<Rightarrow> unat (heap_cur h) | c # _ \<Rightarrow> unat c)"
    by (auto simp: seg_append)
  have nbb: "nb \<noteq> b" using u(1) by auto
  have nbx: "nb \<notin> set xs" using u(1) m(1) [of nb] by (auto simp: bend_def)
  have nby: "nb \<notin> set ys" using u(1,3) m(2) [of nb] by (auto simp: bend_def)
  have y: "?y = 0 \<or> ?y \<in> set ys" using b(3) by (cases ys) auto
  have nz: "nb \<noteq> 0" using u(1) by auto
  have "?y \<noteq> b" "?y \<noteq> nb" using y m(4) nby nz b(1) by (auto simp: block_ok_def)
  note g = hdrs_split_block [OF big nb_def [THEN meta_eq_to_obj_eq] nbb this]
  have gx: "hdrs ?g c = hdrs h c" if "c \<in> set xs" for c
    using that y m(4,5) nbx b(1) seg_blocks [OF sx that] by (auto simp: g Let_def block_ok_def)
  have gb: "hdrs ?g b = (hdrs h b)\<lparr>magic := MAGIC_USED, bnext := nb, bsize := need\<rparr>"
    using \<open>?y \<noteq> b\<close> by (simp add: g Let_def)
  have gn: "hdrs ?g nb = \<lparr>magic = MAGIC_FREE, bsize = bsize (hdrs h b) - need - HDR_SIZE, bnext = ?y, bprev = b\<rparr>"
    using \<open>?y \<noteq> nb\<close> nbb by (simp add: g Let_def)
  have gy: "hdrs ?g c = (if c = ?y then (hdrs h c)\<lparr>bprev := nb\<rparr> else hdrs h c)" if "c \<in> set ys" for c
    using that m(4) nby seg_blocks [OF sy that] by (auto simp: g Let_def block_ok_def)
  show "magic (hdrs ?g b) = MAGIC_USED" "bsize (hdrs ?g b) = need"
    "magic (hdrs ?g nb) = MAGIC_FREE" by (simp_all add: gb gn)
  show "same_use ?g h c" if "c \<in> set xs \<union> set ys" for c
    using that gx gy by (auto simp: same_use_def)
  have "seg ?g 0 xs b (unat b)" using sx gx seg_cong [of xs ?g h] by auto
  moreover have "seg ?g nb ys 0 (unat (heap_cur h))"
  proof (cases ys)
    case (Cons c cs)
    with b(3) have "?y = c" by simp
    have rest: "hdrs ?g d = hdrs h d" if "d \<in> set cs" for d
      using that Cons m(6) \<open>?y = c\<close> by (subst gy) auto
    have first: "hdrs ?g c = (hdrs h c)\<lparr>bprev := nb\<rparr>"
      using Cons \<open>?y = c\<close> by (subst gy) auto
    show ?thesis unfolding Cons using seg_reprev [OF sy [unfolded Cons] first rest] by simp
  qed simp
  moreover have "8 dvd unat nb" "8 dvd unat (bsize (hdrs h b) - need - HDR_SIZE)"
    using b(1) dvd unfolding u block_ok_def by (auto intro!: dvd_add dvd_diff_nat)
  then have "block_ok ?g b" "block_ok ?g nb"
    using b(1) dvd nz by (auto simp: block_ok_def gb gn)
  moreover have "bend ?g b = unat nb" "bend ?g nb = bend h b"
    using u by (simp_all add: bend_def gb gn)
  ultimately have "seg ?g 0 (xs @ b # nb # ys) 0 (unat (heap_cur h))"
    using b by (auto simp: seg_append gb gn)
  then show "heap_inv ?g (xs @ b # nb # ys)"
    by (intro heap_inv_retile [OF inv])
      (auto simp: take_block_def split_block_def Let_def hd_append)
qed

lemma live_insert:
  assumes "heap_inv h (xs @ b # ys)" and "heap_inv g cs" and "set cs = set xs \<union> set ys \<union> {b} \<union> N"
    and "\<And>c. c \<in> set xs \<union> set ys \<Longrightarrow> same_use g h c"
    and "magic (hdrs h b) \<noteq> MAGIC_USED" and "magic (hdrs g b) = MAGIC_USED"
    and "\<And>c. c \<in> N \<Longrightarrow> magic (hdrs g c) \<noteq> MAGIC_USED"
  shows "live g = insert (unat b + 16, unat (bsize (hdrs g b))) (live h)"
proof -
  have "live h = {(unat c + 16, unat (bsize (hdrs h c))) | c.
    c \<in> set xs \<union> set ys \<and> magic (hdrs h c) = MAGIC_USED}"
    using live_eq [OF assms(1)] assms(5) by auto
  also have "\<dots> = {(unat c + 16, unat (bsize (hdrs g c))) | c.
    c \<in> set xs \<union> set ys \<and> magic (hdrs g c) = MAGIC_USED}"
    using assms(4) unfolding same_use_def by (metis (no_types, lifting))
  finally show ?thesis
    using live_eq [OF assms(2)] assms(3,6,7) by auto
qed

lemma take_block_spec:
  assumes inv: "heap_inv h (xs @ b # ys)" and free: "magic (hdrs h b) = MAGIC_FREE"
    and le: "unat need \<le> unat (bsize (hdrs h b))"
    and dvd: "8 dvd unat need" and bound: "unat need \<le> 0x4000010"
  shows "heap_ok (take_block b need h)"
    and "live (take_block b need h) =
      insert (unat b + 16, unat (bsize (hdrs (take_block b need h) b))) (live h)"
    and "unat need \<le> unat (bsize (hdrs (take_block b need h) b))"
proof -
  let ?g = "take_block b need h"
  have "heap_ok ?g \<and> live ?g = insert (unat b + 16, unat (bsize (hdrs ?g b))) (live h) \<and>
    unat need \<le> unat (bsize (hdrs ?g b))"
  proof (cases "bsize (hdrs h b) < need + HDR_SIZE + MIN_ALLOC")
    case True
    note w = split_block_whole [OF inv True]
    note m = heap_inv_middle [OF inv]
    have "live ?g = insert (unat b + 16, unat (bsize (hdrs ?g b))) (live h)"
      using m(4) free by (intro live_insert [OF inv w(1), where N = "{}"]) (auto simp: w(2) same_use_def)
    with w le show ?thesis by (auto simp: heap_ok_def)
  next
    case False
    note w = split_block_split [OF inv le dvd bound False]
    have "live ?g = insert (unat b + 16, unat (bsize (hdrs ?g b))) (live h)"
      using free w by (intro live_insert [OF inv w(1), where N = "{b + HDR_SIZE + need}"]) auto
    with w show ?thesis by (auto simp: heap_ok_def)
  qed
  then show "heap_ok ?g" "live ?g = insert (unat b + 16, unat (bsize (hdrs ?g b))) (live h)"
    "unat need \<le> unat (bsize (hdrs ?g b))" by auto
qed

subsection \<open>Growing the heap\<close>

definition grow :: "uptr \<Rightarrow> u32 \<Rightarrow> uptr \<Rightarrow> kheap \<Rightarrow> kheap" where
  "grow mem ext lst h =
     upd_hdr mem (\<lambda>x. x\<lparr>bprev := lst\<rparr>) (upd_hdr lst (\<lambda>x. x\<lparr>bnext := mem\<rparr>)
       (upd_hdr mem (\<lambda>x. x\<lparr>magic := MAGIC_FREE, bsize := ext - HDR_SIZE, bnext := 0\<rparr>)
         (h\<lparr>heap_cur := heap_cur h + ext\<rparr>)))"

lemma grow_inv:
  assumes inv: "heap_inv h (xs @ [l])" and ext: "4096 dvd unat ext" "0 < unat ext"
    and room: "unat (heap_cur h) + unat ext \<le> 0xD4000000"
  defines "g \<equiv> grow (heap_cur h) ext l h"
  shows "heap_inv g (xs @ [l, heap_cur h])" and "live g = live h"
    and "magic (hdrs g (heap_cur h)) = MAGIC_FREE"
    and "unat (bsize (hdrs g (heap_cur h))) = unat ext - 16"
    and "\<And>c. c \<in> set (xs @ [l]) \<Longrightarrow> same_use g h c"
proof -
  let ?m = "heap_cur h"
  note s = heap_inv_seg [OF inv]
  have fresh: "?m \<notin> set (xs @ [l])"
    using seg_end [OF s, of ?m] by (auto simp: bend_def)
  have cur: "unat (?m + ext) = unat ?m + unat ext"
    using room by (intro unat_add_nowrap) auto
  have e16: "16 \<le> unat ext" using ext by (auto elim!: dvdE)
  then have es: "unat (ext - HDR_SIZE) = unat ext - 16"
    by (simp add: HDR_SIZE_def unat_sub word_le_nat_alt)
  have gm: "hdrs g ?m = \<lparr>magic = MAGIC_FREE, bsize = ext - HDR_SIZE, bnext = 0, bprev = l\<rparr>"
    using fresh by (simp add: g_def grow_def)
  have gl: "hdrs g l = (hdrs h l)\<lparr>bnext := ?m\<rparr>"
    using fresh by (auto simp: g_def grow_def)
  have gx: "hdrs g c = hdrs h c" if "c \<in> set xs" for c
    using that fresh seg_distinct [OF s] by (auto simp: g_def grow_def)
  show su: "same_use g h c" if "c \<in> set (xs @ [l])" for c
    using that gx gl by (auto simp: same_use_def)
  show fr: "magic (hdrs g ?m) = MAGIC_FREE" and "unat (bsize (hdrs g ?m)) = unat ext - 16"
    by (simp_all add: gm es)
  have "4096 dvd unat ?m" using inv by (simp add: heap_inv_def)
  then have al: "8 dvd unat ?m" "8 dvd unat ext - 16"
    using ext(1) by (auto elim!: dvdE intro!: dvd_diff_nat)
  have nz: "?m \<noteq> 0" using seg_end [OF s, of l] by (auto simp: bend_def)
  from s have "seg h 0 xs l (unat l)" and l: "block_ok h l" "bprev (hdrs h l) = last (0 # xs)" "bend h l = unat ?m"
    by (auto simp: seg_append)
  with gx have "seg g 0 xs l (unat l)" using seg_cong [of xs g h] by auto
  moreover have "block_ok g ?m" "bend g ?m = unat ?m + unat ext"
    using al nz e16 by (auto simp: block_ok_def bend_def gm es)
  moreover have "block_ok g l" "bend g l = unat ?m"
    using l by (auto simp: block_ok_def bend_def gl)
  ultimately have "seg g 0 (xs @ [l, ?m]) 0 (unat (?m + ext))"
    using l by (auto simp: seg_append gl gm cur)
  moreover have "4096 dvd unat (?m + ext)" unfolding cur using \<open>4096 dvd unat ?m\<close> ext(1) by simp
  moreover have "?m + ext \<le> heap_end h"
    using inv room cur by (auto simp: heap_inv_def word_le_nat_alt layout_defs)
  ultimately show ginv: "heap_inv g (xs @ [l, ?m])"
    using inv by (auto simp: heap_inv_def g_def grow_def hd_append)
  show "live g = live h"
  proof -
    have "live g = {(unat c + 16, unat (bsize (hdrs g c))) | c.
        c \<in> set (xs @ [l]) \<and> magic (hdrs g c) = MAGIC_USED}"
      using live_eq [OF ginv] fr by auto
    also have "\<dots> = {(unat c + 16, unat (bsize (hdrs h c))) | c.
        c \<in> set (xs @ [l]) \<and> magic (hdrs h c) = MAGIC_USED}"
      using su unfolding same_use_def by (metis (no_types, lifting))
    finally show ?thesis using live_eq [OF inv] by simp
  qed
qed

subsection \<open>The whole allocation\<close>

lemma unat_ALIGN_UP_8:
  assumes "unat sz \<le> 0x4000000"
  shows "unat (ALIGN_UP (sz :: u32) 8) = (unat sz + 7) div 8 * 8"
proof -
  have "unat (sz + 7) = unat sz + 7"
    using assms by (intro trans [OF unat_add_nowrap]) auto
  moreover have "ALIGN_UP sz 8 = (sz + 7) AND NOT (mask 3)"
    by (simp add: ALIGN_UP_def mask_eq_exp_minus_1 add.commute)
  ultimately have "unat (ALIGN_UP sz 8) = (unat sz + 7) div 2 ^ 3 * 2 ^ 3"
    by (simp only: unat_simps)
  then show ?thesis by simp
qed

lemma ALIGN_UP_8:
  fixes sz :: u32
  assumes "unat sz \<le> 0x4000000"
  shows "unat sz \<le> unat (ALIGN_UP sz 8)" and "unat (ALIGN_UP sz 8) \<le> 0x4000000"
    and "8 dvd unat (ALIGN_UP sz 8)" and "ALIGN_UP (ALIGN_UP sz 8) 8 = ALIGN_UP sz 8"
    and "sz \<noteq> 0 \<Longrightarrow> ALIGN_UP sz 8 \<noteq> 0"
proof -
  note u = unat_ALIGN_UP_8 [OF assms]
  show le1: "unat sz \<le> unat (ALIGN_UP sz 8)" and "8 dvd unat (ALIGN_UP sz 8)"
    unfolding u by linarith simp
  have "(unat sz + 7) div 8 \<le> (0x4000000 + 7) div 8" by (rule div_le_mono) (use assms in simp)
  then show le2: "unat (ALIGN_UP sz 8) \<le> 0x4000000" unfolding u by simp
  show "ALIGN_UP (ALIGN_UP sz 8) 8 = ALIGN_UP sz 8"
    unfolding word_unat_eq_iff unat_ALIGN_UP_8 [OF le2] u by simp
  show "ALIGN_UP sz 8 \<noteq> 0" if "sz \<noteq> 0"
    using le1 that by (auto simp: word_unat_eq_iff)
qed

text \<open>The number of bytes the heap grows by for a request of \<open>n\<close> (aligned) bytes.\<close>

definition heap_ext :: "nat \<Rightarrow> nat" where
  "heap_ext n = (n + 16 + 16383) div 16384 * 16384"

lemma heap_ext_bounds: "n + 16 \<le> heap_ext n" "heap_ext n < n + 16 + 16384" "16384 dvd heap_ext n"
  unfolding heap_ext_def by linarith+ simp

lemma unat_ext:
  assumes "unat sz \<le> 0x4000000"
  shows "unat (ALIGN_UP (sz + HDR_SIZE) (PAGE_SIZE * 4)) = heap_ext (unat sz)"
    and "ALIGN_UP (ALIGN_UP (sz + HDR_SIZE) (PAGE_SIZE * 4)) PAGE_SIZE =
      ALIGN_UP (sz + HDR_SIZE) (PAGE_SIZE * 4)"
proof -
  let ?e = "ALIGN_UP (sz + HDR_SIZE) (PAGE_SIZE * 4)"
  have "unat (sz + 16399) = unat sz + 16399"
    using assms by (intro trans [OF unat_add_nowrap]) auto
  moreover have "?e = (sz + 16399) AND NOT (mask 14)"
    by (simp add: ALIGN_UP_def PAGE_SIZE_def HDR_SIZE_def mask_eq_exp_minus_1 algebra_simps)
  ultimately have "unat ?e = (unat sz + 16399) div 2 ^ 14 * 2 ^ 14"
    by (simp only: unat_simps)
  then show u: "unat ?e = heap_ext (unat sz)" by (simp add: heap_ext_def)
  have le: "unat ?e \<le> 4294963200" using u heap_ext_bounds(2) [of "unat sz"] assms by simp
  have "unat (ALIGN_UP ?e PAGE_SIZE) = unat ?e"
  proof -
    from heap_ext_bounds(3) [of "unat sz"] obtain k where k: "heap_ext (unat sz) = 16384 * k"
      by (auto elim: dvdE)
    show ?thesis unfolding unat_ALIGN_UP_page [OF le] u k by simp
  qed
  then show "ALIGN_UP ?e PAGE_SIZE = ?e" by (simp add: word_unat_eq_iff)
qed

lemma heap_sbrk_spec:
  assumes inv: "heap_inv h bs" and sz: "unat sz \<le> 0x4000000"
    and ext: "ext = ALIGN_UP (sz + HDR_SIZE) (PAGE_SIZE * 4)"
  shows "heap_sbrk ext h = (if unat (heap_cur h) + heap_ext (unat sz) \<le> 0xD4000000
    then (heap_cur h, h\<lparr>heap_cur := heap_cur h + ext\<rparr>) else (0, h))"
proof -
  note u = unat_ext [OF sz, folded ext]
  have "unat (heap_cur h + ext) = unat (heap_cur h) + heap_ext (unat sz)"
  proof -
    have "unat (heap_cur h) + heap_ext (unat sz) < 2 ^ 32"
      using heap_inv_cur [OF inv] heap_ext_bounds(2) [of "unat sz"] sz by simp
    then show ?thesis unfolding u(1) [symmetric] by (intro unat_add_nowrap) simp
  qed
  moreover have "unat (heap_end h) = 0xD4000000" using inv by (simp add: heap_inv_def layout_defs)
  ultimately show ?thesis
    by (auto simp: heap_sbrk_def u(2) word_less_nat_alt)
qed

lemma kmalloc_fit:
  assumes inv: "heap_inv h bs" and "sz \<noteq> 0"
    and find: "find (fits h (ALIGN_UP sz 8)) bs = Some b"
  shows "kmalloc sz h = Some (b + HDR_SIZE, take_block b (ALIGN_UP sz 8) h)" and "b \<noteq> 0"
proof -
  note s = heap_inv_seg [OF inv]
  have hd: "hd (bs @ [0]) = heap_start h"
    using inv by (auto simp: heap_inv_def hd_append)
  have "b \<in> set bs" using find by (auto simp: find_Some_iff)
  with s show "b \<noteq> 0" using seg_blocks by (auto simp: block_ok_def)
  with find_fit_seg [OF s, of "ALIGN_UP sz 8", unfolded hd] find assms(2)
  show "kmalloc sz h = Some (b + HDR_SIZE, take_block b (ALIGN_UP sz 8) h)"
    by (simp add: kmalloc.simps [of sz h] take_block_def)
qed

lemma kmalloc_nofit:
  assumes inv: "heap_inv h bs" and "sz \<noteq> 0" and sz: "unat sz \<le> 0x4000000"
    and find: "find (fits h (ALIGN_UP sz 8)) bs = None"
  defines "need \<equiv> ALIGN_UP sz 8" and "ext \<equiv> ALIGN_UP (ALIGN_UP sz 8 + HDR_SIZE) (PAGE_SIZE * 4)"
  shows "kmalloc sz h =
    (if unat (heap_cur h) + heap_ext (unat need) \<le> 0xD4000000
     then kmalloc need (grow (heap_cur h) ext (last bs) h) else Some (0, h))"
proof -
  note s = heap_inv_seg [OF inv]
  have hd: "hd (bs @ [0]) = heap_start h" and ne: "bs \<noteq> []"
    using inv by (auto simp: heap_inv_def hd_append)
  note ff = find_fit_seg [OF s, of need, unfolded hd need_def find, folded need_def]
  note sb = heap_sbrk_spec [OF inv, of need ext] ALIGN_UP_8(2) [OF sz]
  have nz: "heap_cur h \<noteq> 0" and fresh: "heap_cur h \<notin> set bs"
    using seg_end [OF s, of "hd bs"] seg_end [OF s, of "heap_cur h"] ne by (auto simp: bend_def)
  let ?k = "upd_hdr (heap_cur h) (\<lambda>x. x\<lparr>magic := MAGIC_FREE, bsize := ext - HDR_SIZE, bnext := 0\<rparr>)
    (h\<lparr>heap_cur := heap_cur h + ext\<rparr>)"
  have "seg ?k 0 bs 0 (unat (heap_cur h))"
    using s fresh by (subst seg_cong [of bs ?k h]) auto
  then have "last_block ?k (hd bs) = Some (last bs)" by (rule last_block_seg) (rule ne)
  moreover have "hd bs = heap_start h" using inv by (rule heap_inv_start)
  ultimately have lb: "last_block ?k (heap_start ?k) = Some (last bs)" by simp
  have sbe: "heap_sbrk ext h = (if unat (heap_cur h) + heap_ext (unat need) \<le> 0xD4000000
    then (heap_cur h, h\<lparr>heap_cur := heap_cur h + ext\<rparr>) else (0, h))"
    unfolding need_def ext_def by (rule sb(1) [unfolded need_def ext_def, OF sb(2) refl])
  show ?thesis
  proof (cases "unat (heap_cur h) + heap_ext (unat need) \<le> 0xD4000000")
    case True
    with sbe have sbe: "heap_sbrk ext h = (heap_cur h, h\<lparr>heap_cur := heap_cur h + ext\<rparr>)" by simp
    have "kmalloc sz h = kmalloc need (grow (heap_cur h) ext (last bs) h)"
      using ff assms(2) sbe nz lb unfolding need_def ext_def grow_def
      by (subst kmalloc.simps) (simp add: Let_def)
    with True show ?thesis by simp
  next
    case False
    with sbe have sbe: "heap_sbrk ext h = (0, h)" by simp
    have "kmalloc sz h = Some (0, h)"
      using ff assms(2) sbe unfolding need_def ext_def
      by (subst kmalloc.simps) (simp add: Let_def)
    with False show ?thesis by simp
  qed
qed

text \<open>The free payloads, as address and length.\<close>

definition avail :: "kheap \<Rightarrow> (nat \<times> nat) set" where
  "avail h = {(unat b + 16, unat (bsize (hdrs h b))) | b bs.
                heap_inv h bs \<and> b \<in> set bs \<and> magic (hdrs h b) = MAGIC_FREE}"

lemma kmalloc_take:
  assumes inv: "heap_inv h bs" and nz: "sz \<noteq> 0" and sz: "unat sz \<le> 0x4000000"
    and find: "find (fits h (ALIGN_UP sz 8)) bs = Some b"
  shows "\<exists>p g n. kmalloc sz h = Some (p, g) \<and> p \<noteq> 0 \<and> heap_ok g \<and> unat sz \<le> n \<and>
    live g = insert (unat p, n) (live h) \<and> (\<forall>m. (unat p, m) \<notin> live h) \<and> payload g = payload h"
proof -
  let ?need = "ALIGN_UP sz 8"
  note a = ALIGN_UP_8 [OF sz]
  from find have b: "b \<in> set bs" "fits h ?need b" by (auto simp: find_Some_iff)
  then obtain xs ys where bs: "bs = xs @ b # ys" by (meson split_list)
  have "unat ?need \<le> 0x4000010" "unat ?need \<le> unat (bsize (hdrs h b))"
    using a(2) b(2) by (auto simp: word_le_nat_alt)
  note t = take_block_spec [OF inv [unfolded bs] conjunct1 [OF b(2)] this(2) a(3) this(1)]
  have "unat (b + HDR_SIZE) = unat b + 16"
    using heap_inv_middle(3) [OF inv [unfolded bs]] unfolding HDR_SIZE_def
    by (intro trans [OF unat_add_nowrap]) (auto simp: bend_def)
  moreover from this have "b + HDR_SIZE \<noteq> 0" by auto
  moreover have "unat sz \<le> unat (bsize (hdrs (take_block b ?need h) b))"
    using a(1) t(3) by linarith
  moreover have "(unat b + 16, m) \<notin> live h" for m
    unfolding live_eq [OF inv] using b(2) by (auto simp flip: word_unat_eq_iff)
  moreover have "payload (take_block b ?need h) = payload h"
    by (simp add: take_block_def split_block_def Let_def)
  ultimately show ?thesis
    using kmalloc_fit(1) [OF inv nz find] t(1,2) by auto
qed

lemma find_append_None: "find P xs = None \<Longrightarrow> find P (xs @ ys) = find P ys"
  by (induction xs) auto

lemma find_cong_None: "find P xs = None \<Longrightarrow> (\<And>x. x \<in> set xs \<Longrightarrow> P x = Q x) \<Longrightarrow> find Q xs = None"
  by (auto simp: find_None_iff)

lemma kmalloc_spec:
  assumes inv: "heap_inv h bs" and nz: "sz \<noteq> 0" and sz: "unat sz \<le> 0x4000000"
  shows "\<exists>p g. kmalloc sz h = Some (p, g) \<and> heap_ok g \<and>
    (p = 0 \<longrightarrow> g = h \<and> find (fits h (ALIGN_UP sz 8)) bs = None \<and>
       0xD4000000 < unat (heap_cur h) + heap_ext (unat (ALIGN_UP sz 8))) \<and>
    (p \<noteq> 0 \<longrightarrow> (\<exists>n. unat sz \<le> n \<and> live g = insert (unat p, n) (live h) \<and>
       (\<forall>m. (unat p, m) \<notin> live h) \<and> payload g = payload h))"
proof (cases "find (fits h (ALIGN_UP sz 8)) bs")
  case (Some b)
  with kmalloc_take [OF inv nz sz Some] show ?thesis by fastforce
next
  case find: None
  let ?need = "ALIGN_UP sz 8" and ?m = "heap_cur h"
  let ?ext = "ALIGN_UP (?need + HDR_SIZE) (PAGE_SIZE * 4)" and ?g = "grow ?m
    (ALIGN_UP (?need + HDR_SIZE) (PAGE_SIZE * 4)) (last bs) h"
  note a = ALIGN_UP_8 [OF sz]
  note k = kmalloc_nofit [OF inv nz sz find]
  show ?thesis
  proof (cases "unat ?m + heap_ext (unat ?need) \<le> 0xD4000000")
    case True
    have bs: "bs = butlast bs @ [last bs]" using inv by (simp add: heap_inv_def)
    note u = unat_ext(1) [OF a(2)] and eb = heap_ext_bounds [of "unat ?need"]
    have "4096 dvd unat ?ext"
      unfolding u by (rule dvd_trans [OF _ eb(3)]) simp
    moreover have "0 < unat ?ext" "unat ?m + unat ?ext \<le> 0xD4000000"
      using eb(1) True by (simp_all add: u)
    ultimately have g: "heap_inv ?g (bs @ [?m])" "live ?g = live h"
      "magic (hdrs ?g ?m) = MAGIC_FREE" "unat (bsize (hdrs ?g ?m)) = unat ?ext - 16"
      "\<And>c. c \<in> set bs \<Longrightarrow> same_use ?g h c"
      using grow_inv [OF inv [unfolded bs [THEN arg_cong, of "heap_inv h"]]] bs
      by (metis append_Cons append_Nil append_assoc)+
    have "find (fits ?g ?need) bs = None"
      using g(5) by (intro find_cong_None [OF find]) (auto simp: same_use_def)
    moreover have "fits ?g ?need ?m"
      using g(3,4) eb(1) by (simp add: word_le_nat_alt u)
    ultimately have "find (fits ?g (ALIGN_UP ?need 8)) (bs @ [?m]) = Some ?m"
      by (simp add: a(4) find_append_None)
    from kmalloc_take [OF g(1) a(5) [OF nz] a(2) this] obtain p n g' where
      km: "kmalloc ?need ?g = Some (p, g')" "p \<noteq> 0" "heap_ok g'" "unat ?need \<le> n"
      "live g' = insert (unat p, n) (live ?g)" "\<forall>m. (unat p, m) \<notin> live ?g"
      "payload g' = payload ?g" by auto
    from a(1) km(4) have "unat sz \<le> n" by linarith
    moreover have "payload ?g = payload h" by (simp add: grow_def)
    ultimately show ?thesis using km k True g(2) by (auto intro!: exI [of _ n])
  next
    case False
    with k inv find show ?thesis by (auto simp: heap_ok_def)
  qed
qed

section \<open>Release\<close>

definition pay :: "kheap \<Rightarrow> uptr \<Rightarrow> nat \<times> nat" where
  "pay h b = (unat b + 16, unat (bsize (hdrs h b)))"

lemma avail_eq: "heap_inv h bs \<Longrightarrow> avail h = pay h ` {b \<in> set bs. magic (hdrs h b) = MAGIC_FREE}"
  unfolding avail_def pay_def using heap_inv_unique by blast

lemma pay_eq [simp]: "pay h b = pay g c \<longleftrightarrow> b = c \<and> bsize (hdrs h b) = bsize (hdrs g c)"
  by (auto simp: pay_def word_unat_eq_iff)

lemma filter_image: "{x \<in> f ` A. Q x} = f ` {a \<in> A. Q (f a)}"
  by auto

text \<open>The free blocks that begin where a block ends, and those that end where it begins.\<close>

lemma free_next:
  assumes inv: "heap_inv h (xs @ b # ys)"
  shows "{x \<in> avail h. fst x = unat b + 16 + unat (bsize (hdrs h b)) + 16} =
    pay h ` {c. ys \<noteq> [] \<and> c = hd ys \<and> magic (hdrs h c) = MAGIC_FREE}"
proof -
  note s = heap_inv_seg [OF inv]
  have nx: "bend h b = (case ys of [] \<Rightarrow> unat (heap_cur h) | c # _ \<Rightarrow> unat c)" using s by (auto simp: seg_append)
  have "ys \<noteq> [] \<and> c = hd ys" if "c \<in> set (xs @ b # ys)" "unat c = bend h b" for c
  proof (cases ys)
    case Nil
    then show ?thesis using nx that seg_end [OF s that(1)] by (simp add: bend_def)
  next
    case (Cons d ds)
    then show ?thesis using nx that(2) by (simp add: word_unat_eq_iff)
  qed
  moreover have "unat (hd ys) = bend h b" if "ys \<noteq> []" using that nx by (cases ys) auto
  ultimately have "c \<in> set (xs @ b # ys) \<and> unat c = bend h b \<longleftrightarrow> ys \<noteq> [] \<and> c = hd ys" for c by auto
  moreover have "{x \<in> avail h. fst x = unat b + 16 + unat (bsize (hdrs h b)) + 16} =
      pay h ` {c. (c \<in> set (xs @ b # ys) \<and> unat c = bend h b) \<and> magic (hdrs h c) = MAGIC_FREE}"
    unfolding avail_eq [OF inv] filter_image by (rule arg_cong [of _ _ "image (pay h)"]) (auto simp: pay_def bend_def)
  ultimately show ?thesis by (simp only: conj_assoc)
qed

lemma free_prev:
  assumes inv: "heap_inv h (xs @ b # ys)"
  shows "{x \<in> avail h. fst x + snd x = unat b} = pay h ` {c. xs \<noteq> [] \<and> c = last xs \<and> magic (hdrs h c) = MAGIC_FREE}"
proof -
  note s = heap_inv_seg [OF inv] and m = heap_inv_middle [OF inv]
  have lst: "xs \<noteq> [] \<Longrightarrow> bend h (last xs) = unat b"
    using s by (cases xs rule: rev_cases) (auto simp: seg_append)
  have "xs \<noteq> [] \<and> c = last xs" if c: "c \<in> set (xs @ b # ys)" "bend h c = unat b" for c
  proof -
    have "c \<noteq> b" "c \<notin> set ys" using c(2) m(2) [of c] by (auto simp: bend_def)
    with c(1) obtain ws a where xs: "xs = ws @ [a]" by (cases xs rule: rev_cases) auto
    have "bend h c \<le> unat a" if "c \<in> set ws" using seg_sorted [OF s] xs that by (auto simp: sorted_wrt_append)
    moreover have "bend h a = unat b" using lst xs by simp
    ultimately have "c \<notin> set ws" using c(2) by (auto simp: bend_def)
    with xs \<open>c \<noteq> b\<close> \<open>c \<notin> set ys\<close> c(1) show ?thesis by auto
  qed
  then have "c \<in> set (xs @ b # ys) \<and> bend h c = unat b \<longleftrightarrow> xs \<noteq> [] \<and> c = last xs" for c using lst by auto
  moreover have "{x \<in> avail h. fst x + snd x = unat b} =
      pay h ` {c. (c \<in> set (xs @ b # ys) \<and> bend h c = unat b) \<and> magic (hdrs h c) = MAGIC_FREE}"
    unfolding avail_eq [OF inv] filter_image by (rule arg_cong [of _ _ "image (pay h)"]) (auto simp: pay_def bend_def)
  ultimately show ?thesis by (simp only: conj_assoc)
qed

text \<open>Merging a block with its successor, when neither is in use.\<close>

lemma merge_inv:
  assumes inv: "heap_inv h (xs @ b # c # ys)"
    and free: "magic (hdrs h b) = MAGIC_FREE" "magic (hdrs h c) = MAGIC_FREE"
    and stat: "heap_start g = heap_start h" "heap_cur g = heap_cur h" "heap_end g = heap_end h"
    and g: "hdrs g = (let y = bnext (hdrs h c);
        f = (hdrs h)(b := (hdrs h b)\<lparr>bsize := bsize (hdrs h b) + (HDR_SIZE + bsize (hdrs h c)), bnext := y\<rparr>)
      in if y = 0 then f else f(y := (hdrs h y)\<lparr>bprev := b\<rparr>))"
  shows "heap_inv g (xs @ b # ys)" and "live g = live h"
    and "avail g = insert (unat b + 16, unat (bsize (hdrs h b)) + 16 + unat (bsize (hdrs h c))) (avail h - {pay h b, pay h c})"
    and "unat (bsize (hdrs g b)) = unat (bsize (hdrs h b)) + 16 + unat (bsize (hdrs h c))"
proof -
  let ?y = "bnext (hdrs h c)" and ?e = "unat (heap_cur h)"
  from heap_inv_seg [OF inv] have sx: "seg h 0 xs b (unat b)" and sy: "seg h c ys 0 ?e"
    and b: "block_ok h b" "bprev (hdrs h b) = last (0 # xs)" "bend h b = unat c"
    and c: "block_ok h c" "?y = hd (ys @ [0])" "bend h c = (case ys of [] \<Rightarrow> ?e | d # _ \<Rightarrow> unat d)"
    by (auto simp: seg_append)
  have d: "distinct (xs @ b # c # ys)" using heap_inv_seg [OF inv] by (rule seg_distinct)
  have yin: "?y = 0 \<or> ?y \<in> set ys" using c(2) by (cases ys) auto
  have gb: "hdrs g b = (hdrs h b)\<lparr>bsize := bsize (hdrs h b) + (HDR_SIZE + bsize (hdrs h c)), bnext := ?y\<rparr>"
    using yin d b(1) by (auto simp: g Let_def)
  have gx: "hdrs g a = hdrs h a" if "a \<in> set xs" for a
    using that yin d b(1) seg_blocks [OF sx that] by (auto simp: g Let_def block_ok_def)
  have gy: "hdrs g a = (if a = ?y then (hdrs h a)\<lparr>bprev := b\<rparr> else hdrs h a)" if "a \<in> set ys" for a
    using that d seg_blocks [OF sy that] by (auto simp: g Let_def block_ok_def)
  have fin: "bend h c \<le> 0xD4000000"
    using heap_inv_middle(3) [of h "xs @ [b]" c ys] inv by simp
  have us: "unat (bsize (hdrs h b) + (HDR_SIZE + bsize (hdrs h c))) =
      unat (bsize (hdrs h b)) + 16 + unat (bsize (hdrs h c))"
  proof -
    have "unat (HDR_SIZE + bsize (hdrs h c)) = 16 + unat (bsize (hdrs h c))"
      using fin unfolding HDR_SIZE_def by (intro trans [OF unat_add_nowrap]) (auto simp: bend_def)
    then show ?thesis using fin b(3) by (intro trans [OF unat_add_nowrap]) (auto simp: bend_def)
  qed
  have "seg g 0 xs b (unat b)" using sx gx seg_cong [of xs g h] by auto
  moreover have "seg g b ys 0 ?e"
  proof (cases ys)
    case (Cons z zs)
    then have first: "hdrs g z = (hdrs h z)\<lparr>bprev := b\<rparr>" using c(2) gy [of z] by simp
    have rest: "hdrs g a = hdrs h a" if "a \<in> set zs" for a
      using that Cons c(2) d gy [of a] by auto
    show ?thesis unfolding Cons by (rule seg_reprev [OF sy [unfolded Cons] first rest])
  qed simp
  moreover have "block_ok g b" "bend g b = bend h c"
    using b c(1) by (auto simp: block_ok_def bend_def gb us)
  ultimately have "seg g 0 (xs @ b # ys) 0 ?e"
    using b(2) c(2,3) by (auto simp: seg_append gb)
  then show ginv: "heap_inv g (xs @ b # ys)"
    by (intro heap_inv_retile [OF inv]) (auto simp: stat hd_append)
  have su: "same_use g h a" if "a \<in> set xs \<union> set ys" for a
    using that gx gy by (auto simp: same_use_def)
  have "live g = {(unat a + 16, unat (bsize (hdrs g a))) | a.
      a \<in> set xs \<union> set ys \<and> magic (hdrs g a) = MAGIC_USED}"
    using live_eq [OF ginv] free(1) by (auto simp: gb)
  also have "\<dots> = {(unat a + 16, unat (bsize (hdrs h a))) | a.
      a \<in> set xs \<union> set ys \<and> magic (hdrs h a) = MAGIC_USED}"
    using su unfolding same_use_def by (metis (no_types, lifting))
  finally show "live g = live h" using live_eq [OF inv] free by auto
  have pb: "pay g b = (unat b + 16, unat (bsize (hdrs h b)) + 16 + unat (bsize (hdrs h c)))" by (simp add: pay_def gb us)
  have "pay g a = pay h a" if "a \<in> set xs \<union> set ys" for a using su [OF that] by (simp add: same_use_def)
  then have "avail g = insert (pay g b) (pay h ` {a \<in> set xs \<union> set ys. magic (hdrs h a) = MAGIC_FREE})"
    unfolding avail_eq [OF ginv] using su free(1) by (auto simp: gb same_use_def image_iff)
  also have "pay h ` {a \<in> set xs \<union> set ys. magic (hdrs h a) = MAGIC_FREE} = avail h - {pay h b, pay h c}"
    unfolding avail_eq [OF inv] using d by auto
  finally show "avail g = insert (unat b + 16, unat (bsize (hdrs h b)) + 16 + unat (bsize (hdrs h c))) (avail h - {pay h b, pay h c})"
    unfolding pb .
  show "unat (bsize (hdrs g b)) = unat (bsize (hdrs h b)) + 16 + unat (bsize (hdrs h c))" by (simp add: gb us)
qed

lemma coalesce_next_spec:
  assumes inv: "heap_inv h (xs @ b # ys)" and free: "magic (hdrs h b) = MAGIC_FREE"
  defines "N \<equiv> {x \<in> avail h. fst x = unat b + 16 + unat (bsize (hdrs h b)) + 16}"
  shows "\<exists>zs. heap_inv (coalesce_next b h) (xs @ b # zs)" and "live (coalesce_next b h) = live h"
    and "magic (hdrs (coalesce_next b h) b) = MAGIC_FREE"
    and "avail (coalesce_next b h) = insert (pay (coalesce_next b h) b) (avail h - N - {pay h b})"
    and "unat b + 16 + unat (bsize (hdrs (coalesce_next b h) b)) =
      Max (insert (unat b + 16 + unat (bsize (hdrs h b))) ((\<lambda>x. fst x + snd x) ` N))"
proof -
  let ?g = "coalesce_next b h"
  have bA: "pay h b \<in> avail h" using free unfolding avail_eq [OF inv] by simp
  note fn = free_next [OF inv, folded N_def]
  from heap_inv_seg [OF inv] have nx: "bnext (hdrs h b) = hd (ys @ [0])"
    and sy: "seg h b ys 0 (unat (heap_cur h))" by (auto simp: seg_append)
  have "(\<exists>zs. heap_inv ?g (xs @ b # zs)) \<and> live ?g = live h \<and> magic (hdrs ?g b) = MAGIC_FREE \<and>
      avail ?g = insert (pay ?g b) (avail h - N - {pay h b}) \<and>
      unat b + 16 + unat (bsize (hdrs ?g b)) = Max (insert (unat b + 16 + unat (bsize (hdrs h b))) ((\<lambda>x. fst x + snd x) ` N))"
  proof (cases "bnext (hdrs h b) \<noteq> 0 \<and> magic (hdrs h (bnext (hdrs h b))) = MAGIC_FREE")
    case True
    with nx obtain c zs where ys: "ys = c # zs" by (cases ys) auto
    with nx have c: "bnext (hdrs h b) = c" by simp
    have d: "distinct (xs @ b # c # zs)" using seg_distinct [OF heap_inv_seg [OF inv]] ys by simp
    have y: "bnext (hdrs h c) = 0 \<or> bnext (hdrs h c) \<in> set zs"
      using sy ys by (cases zs) auto
    have "hdrs ?g = (let y = bnext (hdrs h c);
        f = (hdrs h)(b := (hdrs h b)\<lparr>bsize := bsize (hdrs h b) + (HDR_SIZE + bsize (hdrs h c)), bnext := y\<rparr>)
      in if y = 0 then f else f(y := (hdrs h y)\<lparr>bprev := b\<rparr>))"
      using True c d y by (auto simp: coalesce_next_def Let_def fun_eq_iff)
    note m = merge_inv [OF inv [unfolded ys] free _ _ _ _ this]
    moreover have "magic (hdrs ?g b) = MAGIC_FREE"
      using free by (auto simp: coalesce_next_def Let_def)
    moreover have N: "N = {pay h c}" using fn True c ys by auto
    moreover have st: "heap_start ?g = heap_start h" "heap_cur ?g = heap_cur h" "heap_end ?g = heap_end h"
      by (simp_all add: coalesce_next_def Let_def)
    moreover have "magic (hdrs h c) = MAGIC_FREE" using True c by simp
    ultimately have g: "heap_inv ?g (xs @ b # zs)" "live ?g = live h" "magic (hdrs ?g b) = MAGIC_FREE"
      "avail ?g = insert (unat b + 16, unat (bsize (hdrs h b)) + 16 + unat (bsize (hdrs h c))) (avail h - {pay h b, pay h c})"
      "unat (bsize (hdrs ?g b)) = unat (bsize (hdrs h b)) + 16 + unat (bsize (hdrs h c))" by blast+
    have "bend h b = unat c" using heap_inv_seg [OF inv] ys by (auto simp: seg_append)
    then have "unat b + 16 + unat (bsize (hdrs ?g b)) = Max (insert (unat b + 16 + unat (bsize (hdrs h b))) ((\<lambda>x. fst x + snd x) ` N))"
      unfolding N by (simp add: g(5) pay_def bend_def max_def)
    moreover have "avail ?g = insert (pay ?g b) (avail h - N - {pay h b})" unfolding N using g(4,5) by (auto simp: pay_def)
    ultimately show ?thesis using g(1-3) by blast
  next
    case False
    then have "?g = h" by (auto simp: coalesce_next_def)
    moreover have "N = {}" using fn False nx seg_blocks [OF sy] by (cases ys) (auto simp: block_ok_def)
    ultimately show ?thesis using inv free bA by auto
  qed
  then show "\<exists>zs. heap_inv ?g (xs @ b # zs)" "live ?g = live h" "magic (hdrs ?g b) = MAGIC_FREE"
    "avail ?g = insert (pay ?g b) (avail h - N - {pay h b})"
    "unat b + 16 + unat (bsize (hdrs ?g b)) = Max (insert (unat b + 16 + unat (bsize (hdrs h b))) ((\<lambda>x. fst x + snd x) ` N))" by auto
qed

lemma coalesce_prev_spec:
  assumes inv: "heap_inv h (xs @ b # ys)" and free: "magic (hdrs h b) = MAGIC_FREE"
  defines "P \<equiv> {x \<in> avail h. fst x + snd x = unat b}"
  shows "heap_ok (coalesce_prev b h) \<and> live (coalesce_prev b h) = live h \<and>
    (\<exists>a m. a = Min (insert (unat b + 16) (fst ` P)) \<and> a + m = unat b + 16 + unat (bsize (hdrs h b)) \<and>
       avail (coalesce_prev b h) = insert (a, m) (avail h - P - {pay h b}))"
proof (cases "bprev (hdrs h b) \<noteq> 0 \<and> magic (hdrs h (bprev (hdrs h b))) = MAGIC_FREE")
  case True
  let ?g = "coalesce_prev b h"
  from heap_inv_seg [OF inv] have pv: "bprev (hdrs h b) = last (0 # xs)"
    and nx: "bnext (hdrs h b) = hd (ys @ [0])" by (auto simp: seg_append)
  with True obtain ws a where xs: "xs = ws @ [a]" by (cases xs rule: rev_cases) auto
  with pv have a: "bprev (hdrs h b) = a" by simp
  have d: "distinct (ws @ a # b # ys)" using seg_distinct [OF heap_inv_seg [OF inv]] xs by simp
  have y: "bnext (hdrs h b) = 0 \<or> bnext (hdrs h b) \<in> set ys" using nx by (cases ys) auto
  have inv': "heap_inv h (ws @ a # b # ys)" using inv xs by simp
  have "hdrs ?g = (let y = bnext (hdrs h b);
      f = (hdrs h)(a := (hdrs h a)\<lparr>bsize := bsize (hdrs h a) + (HDR_SIZE + bsize (hdrs h b)), bnext := y\<rparr>)
    in if y = 0 then f else f(y := (hdrs h y)\<lparr>bprev := a\<rparr>))"
  proof -
    have "a \<noteq> 0" "b \<noteq> 0" using seg_blocks [OF heap_inv_seg [OF inv']] by (auto simp: block_ok_def)
    with d y have "a \<noteq> b" "bnext (hdrs h b) \<noteq> a" "bnext (hdrs h b) \<noteq> b" by auto
    with True [unfolded a] a show ?thesis
      by (simp add: coalesce_prev_def Let_def fun_upd_twist)
  qed
  note m = merge_inv [OF inv' _ free _ _ _ this]
  moreover have fa: "magic (hdrs h a) = MAGIC_FREE" using True a by simp
  moreover have "heap_start ?g = heap_start h" "heap_cur ?g = heap_cur h" "heap_end ?g = heap_end h"
    by (simp_all add: coalesce_prev_def Let_def)
  ultimately have g: "heap_inv ?g (ws @ a # ys)" "live ?g = live h"
    "avail ?g = insert (unat a + 16, unat (bsize (hdrs h a)) + 16 + unat (bsize (hdrs h b))) (avail h - {pay h a, pay h b})" by blast+
  have P: "P = {pay h a}" unfolding P_def free_prev [OF inv] using xs fa by auto
  have "bend h a = unat b" using heap_inv_seg [OF inv'] by (auto simp: seg_append)
  then have "unat a + 16 = Min (insert (unat b + 16) (fst ` P))"
    "unat a + 16 + (unat (bsize (hdrs h a)) + 16 + unat (bsize (hdrs h b))) = unat b + 16 + unat (bsize (hdrs h b))"
    unfolding P by (simp_all add: pay_def bend_def min_def)
  moreover have "avail ?g = insert (unat a + 16, unat (bsize (hdrs h a)) + 16 + unat (bsize (hdrs h b))) (avail h - P - {pay h b})"
    unfolding g(3) P by auto
  moreover have "heap_ok ?g" using g(1) by (auto simp: heap_ok_def)
  ultimately show ?thesis using g(2) by blast
next
  case False
  then have g: "coalesce_prev b h = h" by (auto simp: coalesce_prev_def)
  from heap_inv_seg [OF inv] have pv: "bprev (hdrs h b) = last (0 # xs)" and sx: "seg h 0 xs b (unat b)" by (auto simp: seg_append)
  have "P = {}" unfolding P_def free_prev [OF inv] using pv False seg_blocks [OF sx] by (auto simp: block_ok_def)
  moreover have "pay h b \<in> avail h" using free unfolding avail_eq [OF inv] by simp
  ultimately show ?thesis using inv g by (auto simp: heap_ok_def pay_def)
qed

lemma mark_free_spec:
  assumes inv: "heap_inv h (xs @ b # ys)"
  defines "g \<equiv> upd_hdr b (\<lambda>x. x\<lparr>magic := MAGIC_FREE\<rparr>) h"
  shows "heap_inv g (xs @ b # ys)"
    and "live g = live h - {(unat b + 16, unat (bsize (hdrs h b)))}" and "avail g = insert (pay h b) (avail h)"
proof -
  note m = heap_inv_middle [OF inv]
  have "seg g 0 xs b (unat b) = seg h 0 xs b (unat b)" "seg g b ys 0 e = seg h b ys 0 e" for e
    using m(4) by (auto intro!: seg_cong simp: g_def)
  with heap_inv_seg [OF inv] have "seg g 0 (xs @ b # ys) 0 (unat (heap_cur h))"
    by (auto simp: seg_append g_def block_ok_def bend_def split: list.splits)
  then show ginv: "heap_inv g (xs @ b # ys)"
    by (intro heap_inv_retile [OF inv]) (simp_all add: g_def)
  have "pay g = pay h" by (auto simp: pay_def g_def fun_eq_iff)
  then show "avail g = insert (pay h b) (avail h)"
    unfolding avail_eq [OF ginv] avail_eq [OF inv] by (auto simp: g_def)
  define F where "F c = (unat c + 16, unat (bsize (hdrs h c)))" for c
  define U where "U = {c \<in> set (xs @ b # ys). magic (hdrs h c) = MAGIC_USED}"
  have "live h = F ` U" unfolding live_eq [OF inv] F_def U_def by auto
  moreover have "live g = F ` (U - {b})"
    unfolding live_eq [OF ginv] F_def U_def by (auto simp: g_def)
  moreover have "F ` (U - {b}) = F ` U - {F b}"
    by (auto simp: F_def word_unat_eq_iff)
  ultimately show "live g = live h - {(unat b + 16, unat (bsize (hdrs h b)))}" by (simp add: F_def)
qed

lemma live_block:
  assumes "heap_inv h bs" and "(unat p, n) \<in> live h"
  shows "p - HDR_SIZE \<in> set bs" and "magic (hdrs h (p - HDR_SIZE)) = MAGIC_USED"
    and "n = unat (bsize (hdrs h (p - HDR_SIZE)))" and "unat p = unat (p - HDR_SIZE) + 16" and "p \<noteq> 0"
proof -
  from assms(2) obtain b where b: "b \<in> set bs" "magic (hdrs h b) = MAGIC_USED"
    "unat p = unat b + 16" "n = unat (bsize (hdrs h b))"
    unfolding live_eq [OF assms(1)] by auto
  from b(3) have "p - 16 = b"
    by (subst word_unat_eq_iff, subst unat_sub) (auto simp: word_le_nat_alt)
  with b show "p - HDR_SIZE \<in> set bs" "magic (hdrs h (p - HDR_SIZE)) = MAGIC_USED"
    "n = unat (bsize (hdrs h (p - HDR_SIZE)))" "unat p = unat (p - HDR_SIZE) + 16" "p \<noteq> 0"
    by (auto simp: HDR_SIZE_def)
qed

lemma kfree_spec:
  assumes "heap_ok h" and "(unat p, n) \<in> live h"
  defines "P \<equiv> {x \<in> avail h. fst x + snd x + 16 = unat p}" and "N \<equiv> {x \<in> avail h. fst x = unat p + n + 16}"
  shows "heap_ok (kfree p h) \<and> live (kfree p h) = live h - {(unat p, n)}"
    and "\<exists>a m. avail (kfree p h) = insert (a, m) (avail h - P - N) \<and>
      a = Min (insert (unat p) (fst ` P)) \<and> a + m = Max (insert (unat p + n) ((\<lambda>x. fst x + snd x) ` N))"
proof -
  let ?b = "p - HDR_SIZE" and ?g = "upd_hdr (p - HDR_SIZE) (\<lambda>x. x\<lparr>magic := MAGIC_FREE\<rparr>) h"
  let ?f = "coalesce_next ?b ?g"
  from assms(1) obtain bs where inv: "heap_inv h bs" by (auto simp: heap_ok_def)
  note l = live_block [OF inv assms(2)]
  then obtain xs ys where bs: "bs = xs @ ?b # ys" by (meson split_list)
  note f = mark_free_spec [OF inv [unfolded bs]]
  have "magic (hdrs ?g ?b) = MAGIC_FREE" by simp
  note n = coalesce_next_spec [OF f(1) this]
  from n(1) obtain zs where zs: "heap_inv ?f (xs @ ?b # zs)" by blast
  note c = coalesce_prev_spec [OF zs n(3)]
  have k: "kfree p h = coalesce_prev ?b ?f" using l by (simp add: kfree_def Let_def)
  show "heap_ok (kfree p h) \<and> live (kfree p h) = live h - {(unat p, n)}" using c n(2) f(2) l k by simp
  have pb: "pay h ?b = (unat p, n)" using l by (simp add: pay_def)
  have nb: "(unat p, k) \<notin> avail h" for k
  proof
    assume "(unat p, k) \<in> avail h"
    then obtain b where "magic (hdrs h b) = MAGIC_FREE" "unat p = unat b + 16" unfolding avail_eq [OF inv] by (auto simp: pay_def)
    moreover from this have "b = ?b" using l(4) by (simp add: word_unat_eq_iff)
    ultimately show False using l(2) by simp
  qed
  have pf: "pay ?f ?b = (unat p, unat (bsize (hdrs ?f ?b)))" using l(4) by (simp add: pay_def)
  have N: "{x \<in> avail ?g. fst x = unat ?b + 16 + unat (bsize (hdrs ?g ?b)) + 16} = N"
    unfolding f(3) N_def pb using l(3,4) by auto
  have pg: "pay ?g ?b = (unat p, n)" using pb by (simp add: pay_def)
  have "avail ?g - N - {pay ?g ?b} = avail h - N" unfolding f(3) pb pg using nb [of n] by auto
  then have av: "avail ?f = insert (pay ?f ?b) (avail h - N)" using n(4) [unfolded N] by simp
  have P: "{x \<in> avail ?f. fst x + snd x = unat ?b} = P" unfolding av pf P_def N_def using l(4) by auto
  have "avail ?f - P - {pay ?f ?b} = avail h - P - N" unfolding av pf using nb by auto
  moreover have "unat p + unat (bsize (hdrs ?f ?b)) = Max (insert (unat p + n) ((\<lambda>x. fst x + snd x) ` N))"
    using n(5) l unfolding N by simp
  ultimately show "\<exists>a m. avail (kfree p h) = insert (a, m) (avail h - P - N) \<and>
      a = Min (insert (unat p) (fst ` P)) \<and> a + m = Max (insert (unat p + n) ((\<lambda>x. fst x + snd x) ` N))"
    using c l(4) unfolding k P by auto
qed

section \<open>Separation\<close>

lemma live_bounds:
  assumes "heap_ok h" and "(a, n) \<in> live h"
  shows "0xD0000010 \<le> a" and "a + n \<le> unat (heap_cur h)" and "unat (heap_cur h) \<le> 0xD4000000"
    and "8 dvd a"
proof -
  from assms(1) obtain bs where inv: "heap_inv h bs" by (auto simp: heap_ok_def)
  from assms(2) obtain b where b: "b \<in> set bs" "a = unat b + 16" "n = unat (bsize (hdrs h b))"
    unfolding live_eq [OF inv] by auto
  note s = heap_inv_seg [OF inv]
  have "unat (hd bs) \<le> unat b"
  proof (cases bs)
    case (Cons c cs)
    with seg_sorted [OF s] b(1) show ?thesis by (auto simp: bend_def)
  qed (use b in simp)
  moreover have "hd bs = 0xD0000000" using inv by (simp add: heap_inv_def layout_defs)
  ultimately show "0xD0000010 \<le> a" using b(2) by simp
  show "a + n \<le> unat (heap_cur h)" using seg_end [OF s b(1)] b by (simp add: bend_def)
  show "unat (heap_cur h) \<le> 0xD4000000" by (rule heap_inv_cur [OF inv])
  show "8 dvd a" using seg_blocks [OF s b(1)] b(2) by (simp add: block_ok_def)
qed

lemma live_disjoint:
  assumes "heap_ok h" and "(a, m) \<in> live h" and "(b, n) \<in> live h" and "(a, m) \<noteq> (b, n)"
  shows "a + m + 16 \<le> b \<or> b + n + 16 \<le> a"
proof -
  from assms(1) obtain bs where inv: "heap_inv h bs" by (auto simp: heap_ok_def)
  from assms(2,3) obtain c d where
    c: "c \<in> set bs" "a = unat c + 16" "m = unat (bsize (hdrs h c))" and
    d: "d \<in> set bs" "b = unat d + 16" "n = unat (bsize (hdrs h d))"
    unfolding live_eq [OF inv] by auto
  with assms(4) have "c \<noteq> d" by auto
  then have "bend h c \<le> unat d \<or> bend h d \<le> unat c"
    using seg_sorted [OF heap_inv_seg [OF inv]] c(1) d(1)
    by (metis in_set_conv_nth linorder_neqE_nat sorted_wrt_iff_nth_less)
  with c d show ?thesis by (auto simp: bend_def)
qed

section \<open>The contract of a heap\<close>

text \<open>
  What the clients of \<^verbatim>\<open>kmalloc\<close> rely on: up to \<open>limit\<close> bytes a request returns, with a null
  result and an unchanged heap or with a block that was not in use; blocks in use never overlap;
  a release takes exactly the released block out.
\<close>

locale heap_allocator =
  fixes alloc :: "u32 \<Rightarrow> 's \<Rightarrow> (uptr \<times> 's) option"
    and release :: "uptr \<Rightarrow> 's \<Rightarrow> 's"
    and used :: "'s \<Rightarrow> (nat \<times> nat) set"
    and ok :: "'s \<Rightarrow> bool"
    and limit :: nat
  assumes alloc_returns: "ok s \<Longrightarrow> n \<noteq> 0 \<Longrightarrow> unat n \<le> limit \<Longrightarrow> \<exists>p s'. alloc n s = Some (p, s')"
    and alloc_ok: "ok s \<Longrightarrow> n \<noteq> 0 \<Longrightarrow> unat n \<le> limit \<Longrightarrow> alloc n s = Some (p, s') \<Longrightarrow> ok s'"
    and alloc_null: "ok s \<Longrightarrow> n \<noteq> 0 \<Longrightarrow> unat n \<le> limit \<Longrightarrow> alloc n s = Some (0, s') \<Longrightarrow> s' = s"
    and alloc_used: "ok s \<Longrightarrow> n \<noteq> 0 \<Longrightarrow> unat n \<le> limit \<Longrightarrow> alloc n s = Some (p, s') \<Longrightarrow> p \<noteq> 0 \<Longrightarrow>
      \<exists>m\<ge>unat n. used s' = insert (unat p, m) (used s) \<and> (\<forall>k. (unat p, k) \<notin> used s)"
    and used_disjoint: "ok s \<Longrightarrow> (a, m) \<in> used s \<Longrightarrow> (b, l) \<in> used s \<Longrightarrow> (a, m) \<noteq> (b, l) \<Longrightarrow>
      a + m \<le> b \<or> b + l \<le> a"
    and release_used: "ok s \<Longrightarrow> (unat p, m) \<in> used s \<Longrightarrow> used (release p s) = used s - {(unat p, m)}"
    and release_ok: "ok s \<Longrightarrow> (unat p, m) \<in> used s \<Longrightarrow> ok (release p s)"
begin

text \<open>A new block overlaps no block that was in use.\<close>

lemma alloc_separate:
  assumes "ok s" and "n \<noteq> 0" and "unat n \<le> limit" and "alloc n s = Some (p, s')" and "p \<noteq> 0"
    and "(a, k) \<in> used s"
  shows "unat p + unat n \<le> a \<or> a + k \<le> unat p"
proof -
  from alloc_used [OF assms(1-5)] obtain m where
    m: "unat n \<le> m" "used s' = insert (unat p, m) (used s)" "\<forall>k. (unat p, k) \<notin> used s" by auto
  with assms(6) have "(unat p, m) \<noteq> (a, k)" by auto
  with used_disjoint [OF alloc_ok [OF assms(1-4)], of "unat p" m a k] m assms(6) show ?thesis by auto
qed

text \<open>Releasing what was just allocated gives the same blocks in use.\<close>

lemma alloc_release:
  assumes "ok s" and "n \<noteq> 0" and "unat n \<le> limit" and "alloc n s = Some (p, s')" and "p \<noteq> 0"
  shows "used (release p s') = used s" and "ok (release p s')"
proof -
  from alloc_used [OF assms] obtain m where
    m: "used s' = insert (unat p, m) (used s)" "(unat p, m) \<notin> used s" by auto
  note s' = alloc_ok [OF assms(1-4)]
  from release_used [OF s', of p m] m show "used (release p s') = used s" by auto
  from release_ok [OF s', of p m] m show "ok (release p s')" by auto
qed

end

interpretation km: heap_allocator kmalloc kfree live heap_ok "0x4000000"
proof
  fix s s' and n p :: uptr assume a: "heap_ok s" "n \<noteq> 0" "unat n \<le> 0x4000000"
  from a(1) obtain bs where inv: "heap_inv s bs" by (auto simp: heap_ok_def)
  note k = kmalloc_spec [OF inv a(2,3)]
  show "\<exists>p s'. kmalloc n s = Some (p, s')" using k by blast
  show "heap_ok s'" if "kmalloc n s = Some (p, s')" using k that by auto
  show "s' = s" if "kmalloc n s = Some (0, s')" using k that by auto
  show "\<exists>m\<ge>unat n. live s' = insert (unat p, m) (live s) \<and> (\<forall>k. (unat p, k) \<notin> live s)"
    if "kmalloc n s = Some (p, s')" "p \<noteq> 0" using k that by auto
next
  fix s a m b n assume "heap_ok s" "(a, m) \<in> live s" "(b, n) \<in> live s" "(a, m) \<noteq> (b, n)"
  from live_disjoint [OF this] show "a + m \<le> b \<or> b + n \<le> a" by auto
qed (auto dest: kfree_spec)

section \<open>Payload bytes\<close>

lemma seg_payload: "seg (h\<lparr>payload := f\<rparr>) p bs n e = seg h p bs n e"
  by (rule seg_cong) simp

lemma heap_payload [simp]:
  "heap_inv (h\<lparr>payload := f\<rparr>) bs = heap_inv h bs"
  "live (h\<lparr>payload := f\<rparr>) = live h"
  "heap_ok (h\<lparr>payload := f\<rparr>) = heap_ok h"
  by (simp_all add: heap_inv_def live_def heap_ok_def seg_payload)

lemma kfree_payload [simp]: "payload (kfree p h) = payload h"
  by (simp add: kfree_def coalesce_prev_def coalesce_next_def Let_def)

lemma pl_copy_simps [simp]:
  "hdrs (pl_copy d s n h) = hdrs h" "heap_ok (pl_copy d s n h) = heap_ok h"
  "live (pl_copy d s n h) = live h"
  by (simp_all add: pl_copy_def)

text \<open>The bytes of an interval that does not wrap around.\<close>

lemma unat_offset: "unat p + n \<le> 2 ^ 32 \<Longrightarrow> i < n \<Longrightarrow> unat (p + of_nat i :: u32) = unat p + i"
  by (subst unat_add_nowrap) (auto simp: unat_of_nat)

lemma pl_copy_inside:
  "unat n \<le> 2 ^ 32 \<Longrightarrow> i < unat n \<Longrightarrow>
    payload (pl_copy d s n h) (d + of_nat i) = payload h (s + of_nat i)"
  using unsigned_less [of n] by (auto simp: pl_copy_def word_less_nat_alt unat_of_nat)

lemma pl_copy_outside:
  assumes "unat x < unat d \<or> unat d + unat n \<le> unat x" and "unat d + unat n \<le> 2 ^ 32"
  shows "payload (pl_copy d s n h) x = payload h x"
proof (cases "unat x < unat d")
  case True
  then have "unat (x - d) = 2 ^ 32 + unat x - unat d"
    using unat_less_2p32 [of d] by (simp add: unat_sub_if_size word_size)
  with assms(2) have "\<not> unat (x - d) < unat n" by simp
  then show ?thesis by (simp add: pl_copy_def word_less_nat_alt)
next
  case False
  with assms(1) have "unat (x - d) = unat x - unat d" "unat d + unat n \<le> unat x"
    by (auto simp: unat_sub word_le_nat_alt)
  then have "\<not> unat (x - d) < unat n" by simp
  then show ?thesis by (simp add: pl_copy_def word_less_nat_alt)
qed

lemma magic_coalesce [simp]:
  "magic (hdrs (coalesce_next b h) c) = magic (hdrs h c)"
  "magic (hdrs (coalesce_prev b h) c) = magic (hdrs h c)"
  by (auto simp: coalesce_next_def coalesce_prev_def Let_def)

text \<open>A heap right after \<^verbatim>\<open>kmalloc_init\<close>, for concrete instances.\<close>

definition kheap_boot :: kheap where
  "kheap_boot = \<lparr>hdrs = (\<lambda>_. \<lparr>magic = 0, bsize = 0, bnext = 0, bprev = 0\<rparr>)
      (0xD0000000 := \<lparr>magic = MAGIC_FREE, bsize = 16368, bnext = 0, bprev = 0\<rparr>),
    payload = (\<lambda>_. 0), heap_start = 0xD0000000, heap_cur = 0xD0004000, heap_end = 0xD4000000\<rparr>"

lemma kheap_boot_inv: "heap_inv kheap_boot [0xD0000000]"
  by (simp add: heap_inv_def kheap_boot_def layout_defs block_ok_def bend_def)

lemma kheap_boot_ok: "heap_ok kheap_boot"
  using kheap_boot_inv by (auto simp: heap_ok_def)

lemma kheap_boot_live: "live kheap_boot = {}"
  unfolding live_eq [OF kheap_boot_inv] by (simp add: kheap_boot_def)

section \<open>Properties\<close>



text \<open>
  C17: \<^verbatim>\<open>kfree\<close> of a block in use takes exactly that block out of the blocks in use and merges it with its free
  neighbours: the free block that ends where it begins and the one that begins where it ends, if there are such, leave the
  free blocks, and one block from the start of the first to the end of the last joins them; all other free blocks
  stay as they are.  The heap stays well formed and no payload byte changes; releasing the block a second time is
  detected by the magic number and changes nothing.
\<close>

theorem kfree_correct:
  assumes "heap_ok h" and "(unat p, n) \<in> live h"
    and "P = {x \<in> avail h. fst x + snd x + 16 = unat p}" and "N = {x \<in> avail h. fst x = unat p + n + 16}"
  shows "heap_ok (kfree p h) \<and> live (kfree p h) = live h - {(unat p, n)} \<and>
    (\<exists>a m. avail (kfree p h) = insert (a, m) (avail h - P - N) \<and> a = Min (insert (unat p) (fst ` P)) \<and>
       a + m = Max (insert (unat p + n) ((\<lambda>x. fst x + snd x) ` N))) \<and>
    payload (kfree p h) = payload h \<and> kfree p (kfree p h) = kfree p h"
proof -
  from assms(1) obtain bs where inv: "heap_inv h bs" by (auto simp: heap_ok_def)
  note l = live_block [OF inv assms(2)]
  have "magic (hdrs (kfree p h) (p - HDR_SIZE)) = MAGIC_FREE"
    using l by (simp add: kfree_def Let_def)
  then have "kfree p (kfree p h) = kfree p h"
    by (subst kfree_def) simp
  with kfree_spec [OF assms(1,2)] show ?thesis unfolding assms(3,4) by simp
qed

text \<open>A block in use between two free ones.\<close>

definition kheap_three :: kheap where
  "kheap_three = kheap_boot\<lparr>hdrs := (hdrs kheap_boot)
     (0xD0000000 := \<lparr>magic = MAGIC_FREE, bsize = 0x70, bnext = 0xD0000080, bprev = 0\<rparr>,
      0xD0000080 := \<lparr>magic = MAGIC_USED, bsize = 0x70, bnext = 0xD0000100, bprev = 0xD0000000\<rparr>,
      0xD0000100 := \<lparr>magic = MAGIC_FREE, bsize = 0x3EF0, bnext = 0, bprev = 0xD0000080\<rparr>)\<rparr>"

lemma kheap_three_inv: "heap_inv kheap_three [0xD0000000, 0xD0000080, 0xD0000100]"
  by (simp add: heap_inv_def kheap_three_def kheap_boot_def layout_defs block_ok_def bend_def)

lemma kheap_three_live: "live kheap_three = {(0xD0000090, 0x70)}" "heap_ok kheap_three"
  unfolding live_eq [OF kheap_three_inv] using kheap_three_inv
  by (auto simp: kheap_three_def heap_ok_def intro!: exI [of _ "0xD0000080 :: uptr"])

theorem kfree_correct_witness:
  "live kheap_three = {(0xD0000090, 0x70)} \<and> avail kheap_three = {(0xD0000010, 0x70), (0xD0000110, 0x3EF0)} \<and>
   live (kfree 0xD0000090 kheap_three) = {} \<and> avail (kfree 0xD0000090 kheap_three) = {(0xD0000010, 0x3FF0)}"
proof -
  let ?h = kheap_three
  note inv = kheap_three_inv and live = kheap_three_live(1) and ok = kheap_three_live(2)
  have "{b \<in> set [0xD0000000, 0xD0000080, 0xD0000100]. magic (hdrs ?h b) = MAGIC_FREE} = {0xD0000000, 0xD0000100}"
    by (auto simp: kheap_three_def)
  then have av: "avail ?h = {(0xD0000010, 0x70), (0xD0000110, 0x3EF0)}"
    unfolding avail_eq [OF inv] by (simp add: pay_def kheap_three_def)
  have sets: "{x \<in> avail ?h. fst x + snd x + 16 = unat (0xD0000090 :: u32)} = {(0xD0000010, 0x70)}"
    "{x \<in> avail ?h. fst x = unat (0xD0000090 :: u32) + 0x70 + 16} = {(0xD0000110, 0x3EF0)}" unfolding av by auto
  have m: "(unat (0xD0000090 :: u32), 0x70) \<in> live ?h" using live by simp
  from kfree_correct [OF ok m sets [symmetric]] live av show ?thesis by auto
qed

text \<open>
  After \<^verbatim>\<open>kmalloc_init\<close> the heap is well formed, nothing is in use and there is one free block
  of 16368 bytes.
\<close>

theorem kmalloc_init_correct:
  "\<exists>g. kmalloc_init h = Some g \<and> heap_ok g \<and> live g = {} \<and> avail g = {(0xD0000010, 16368)}"
proof -
  let ?g = "upd_hdr 0xD0000000 (\<lambda>_. \<lparr>magic = MAGIC_FREE, bsize = 16368, bnext = 0, bprev = 0\<rparr>)
    (h\<lparr>heap_cur := 0xD0004000, heap_end := 0xD4000000, heap_start := 0xD0000000\<rparr>)"
  have "ALIGN_UP 0x4000 0x1000 = (0x4000 :: u32)" by (simp add: ALIGN_UP_def)
  then have init: "kmalloc_init h = Some ?g"
    by (simp add: kmalloc_init_def heap_sbrk_def layout_defs HDR_SIZE_def Let_def)
  have inv: "heap_inv ?g [0xD0000000]"
    by (simp add: heap_inv_def layout_defs block_ok_def bend_def)
  moreover have "live ?g = {}" unfolding live_eq [OF inv] by simp
  moreover have "avail ?g = {(0xD0000010, 16368)}"
  proof -
    have "heap_inv ?g bs \<longleftrightarrow> bs = [0xD0000000]" for bs using inv heap_inv_unique by blast
    then show ?thesis unfolding avail_def by auto
  qed
  ultimately show ?thesis using init by (auto simp: heap_ok_def)
qed

lemma krealloc_spec:
  assumes "heap_ok h" and "(unat p, n) \<in> live h" and "sz \<noteq> 0" and "unat sz \<le> 0x4000000"
  shows "\<exists>q g. krealloc p sz h = Some (q, g) \<and> heap_ok g \<and>
    (if q = 0 then g = h
     else (\<exists>m\<ge>unat sz. live g = insert (unat q, m) (live h - {(unat p, n)}) \<and>
            (\<forall>(a, k) \<in> live h - {(unat p, n)}. (a, k) \<noteq> (unat q, m))) \<and>
       (\<forall>i<n. payload g (q + of_nat i) = payload h (p + of_nat i)) \<and>
       (\<forall>(a, k) \<in> live h - {(unat p, n)}. \<forall>x. a \<le> unat x \<and> unat x < a + k \<longrightarrow>
          payload g x = payload h x))"
proof -
  from assms(1) obtain bs where inv: "heap_inv h bs" by (auto simp: heap_ok_def)
  note l = live_block [OF inv assms(2)]
  let ?b = "p - HDR_SIZE"
  show ?thesis
  proof (cases "bsize (hdrs h ?b) \<ge> sz")
    case True
    with l assms(3) have "krealloc p sz h = Some (p, h)" by (simp add: krealloc_def Let_def)
    moreover have "live h = insert (unat p, n) (live h - {(unat p, n)})" using assms(2) by auto
    moreover have "unat sz \<le> n" using True l(3) by (simp add: word_le_nat_alt)
    ultimately show ?thesis using assms(1) l(5) by auto
  next
    case False
    obtain q g where k: "kmalloc sz h = Some (q, g)"
      using km.alloc_returns [OF assms(1,3,4)] by blast
    note gok = km.alloc_ok [OF assms(1,3,4) k]
    show ?thesis
    proof (cases "q = 0")
      case True
      with k km.alloc_null [OF assms(1,3,4)] False l assms(1,3) show ?thesis
        by (auto simp: krealloc_def Let_def)
    next
      case q: False
      from kmalloc_spec [OF inv assms(3,4)] k q obtain m where m: "unat sz \<le> m"
        "live g = insert (unat q, m) (live h)" "\<And>m. (unat q, m) \<notin> live h" "payload g = payload h"
        by auto
      then have pg: "(unat p, n) \<in> live g" using assms(2) by simp
      from gok obtain cs where "heap_inv g cs" by (auto simp: heap_ok_def)
      note lg = live_block [OF this pg]
      let ?c = "pl_copy q p (bsize (hdrs g ?b)) g"
      have kr: "krealloc p sz h = Some (q, kfree p ?c)"
        using False l assms(3) k q by (simp add: krealloc_def Let_def)
      have f: "heap_ok (kfree p ?c)" "live (kfree p ?c) = live g - {(unat p, n)}"
        using kfree_spec [of ?c p n] gok pg by simp_all
      have le: "n \<le> m"
        using False l(3) m(1) by (simp add: word_le_nat_alt)
      have bnd: "unat q + n \<le> 2 ^ 32"
        using live_bounds(2,3) [OF gok, of "unat q" m] m(2) le by simp
      have inside: "payload ?c (q + of_nat i) = payload h (p + of_nat i)" if "i < n" for i
        using that lg(3) m(4) bnd by (subst pl_copy_inside) auto
      have out: "payload ?c x = payload h x"
        if "(a, k) \<in> live h - {(unat p, n)}" "a \<le> unat x" "unat x < a + k" for a k x
      proof -
        have "unat q + m + 16 \<le> a \<or> a + k + 16 \<le> unat q"
          using live_disjoint [OF gok, of "unat q" m a k] m that(1) by auto
        with that le lg(3) bnd m(4) show ?thesis by (subst pl_copy_outside) auto
      qed
      have "live (kfree p ?c) = insert (unat q, m) (live h - {(unat p, n)})"
        using f(2) m(2,3) assms(2) by auto
      moreover have "\<forall>(a, k) \<in> live h - {(unat p, n)}. (a, k) \<noteq> (unat q, m)" using m(3) by auto
      ultimately have "\<exists>m\<ge>unat sz. live (kfree p ?c) = insert (unat q, m) (live h - {(unat p, n)}) \<and>
          (\<forall>(a, k) \<in> live h - {(unat p, n)}. (a, k) \<noteq> (unat q, m))" using m(1) by blast
      moreover have "\<forall>(a, k) \<in> live h - {(unat p, n)}. \<forall>x. a \<le> unat x \<and> unat x < a + k \<longrightarrow>
          payload (kfree p ?c) x = payload h x" using out by (auto simp del: Diff_iff)
      moreover have "\<forall>i<n. payload (kfree p ?c) (q + of_nat i) = payload h (p + of_nat i)"
        using inside by simp
      ultimately show ?thesis using kr f(1) q by (intro exI conjI) (assumption, assumption, simp)
    qed
  qed
qed

text \<open>\<^verbatim>\<open>krealloc\<close> as its callers use it: the old pointer is a block in use or null.\<close>

lemma krealloc_any:
  assumes "heap_ok h" and "sz \<noteq> 0" and "unat sz \<le> 0x4000000"
    and old: "if p = 0 then n = 0 \<and> L = live h else (unat p, n) \<in> live h \<and> L = live h - {(unat p, n)}"
  shows "\<exists>q g. krealloc p sz h = Some (q, g) \<and> heap_ok g \<and>
    (if q = 0 then g = h
     else (\<exists>m\<ge>unat sz. live g = insert (unat q, m) L \<and> (\<forall>(a, k) \<in> L. (a, k) \<noteq> (unat q, m))) \<and>
       (\<forall>i<n. payload g (q + of_nat i) = payload h (p + of_nat i)) \<and>
       (\<forall>(a, k) \<in> L. \<forall>x. a \<le> unat x \<and> unat x < a + k \<longrightarrow> payload g x = payload h x))"
proof (cases "p = 0")
  case True
  from assms(1) obtain bs where "heap_inv h bs" by (auto simp: heap_ok_def)
  from kmalloc_spec [OF this assms(2,3)] obtain q g where k: "kmalloc sz h = Some (q, g)" "heap_ok g"
    "q = 0 \<longrightarrow> g = h" "q \<noteq> 0 \<longrightarrow> (\<exists>m. unat sz \<le> m \<and> live g = insert (unat q, m) (live h) \<and>
       (\<forall>m. (unat q, m) \<notin> live h) \<and> payload g = payload h)" by blast
  have "krealloc p sz h = Some (q, g)" using True k(1) by (simp add: krealloc_def)
  moreover have "n = 0" "L = live h" using True old by simp_all
  ultimately show ?thesis using k(2-4) by (cases "q = 0") auto
next
  case False
  with old have o: "(unat p, n) \<in> live h" "L = live h - {(unat p, n)}" by simp_all
  from krealloc_spec [OF assms(1) o(1) assms(2,3)] obtain q g where r: "krealloc p sz h = Some (q, g)" "heap_ok g"
    "if q = 0 then g = h else (\<exists>m\<ge>unat sz. live g = insert (unat q, m) L \<and> (\<forall>(a, k) \<in> L. (a, k) \<noteq> (unat q, m))) \<and>
       (\<forall>i<n. payload g (q + of_nat i) = payload h (p + of_nat i)) \<and>
       (\<forall>(a, k) \<in> L. \<forall>x. a \<le> unat x \<and> unat x < a + k \<longrightarrow> payload g x = payload h x)"
    unfolding o(2) by blast
  then show ?thesis by blast
qed



text \<open>
  Sizes near and beyond the address space are not refused.  On the freshly initialised
  64 MiB heap a request of 768 MiB succeeds, because \<^verbatim>\<open>heap_cur + bytes\<close> wraps around to below
  \<^verbatim>\<open>heap_end\<close>, and a request of \<open>0xFFFFFFFF\<close> bytes returns a block with an empty payload, because
  rounding the size up to 8 wraps around to 0.
\<close>

theorem kmalloc_size_wraps:
  "(\<exists>g. kmalloc 0x30000000 kheap_boot = Some (0xD0004010, g)) \<and>
   (\<exists>g. kmalloc 0xFFFFFFFF kheap_boot = Some (0xD0000010, g) \<and> bsize (hdrs g 0xD0000000) = 0)"
proof
  let ?h = kheap_boot
  let ?m = "0xD0004000 :: u32"
  have al: "ALIGN_UP 0x30000000 8 = (0x30000000 :: u32)" "ALIGN_UP 0xFFFFFFFF 8 = (0 :: u32)"
    "ALIGN_UP 0x30000010 0x4000 = (0x30004000 :: u32)" "ALIGN_UP 0x30004000 0x1000 = (0x30004000 :: u32)"
    by (simp_all add: ALIGN_UP_def)
  have ff: "find_fit ?h 0x30000000 0xD0000000 = Some 0"
    by (simp add: find_fit.simps kheap_boot_def)
  have sb: "heap_sbrk 0x30004000 ?h = (?m, ?h\<lparr>heap_cur := 0x8000\<rparr>)"
    by (simp add: heap_sbrk_def kheap_boot_def PAGE_SIZE_def al)
  let ?k = "upd_hdr ?m (\<lambda>x. x\<lparr>magic := MAGIC_FREE, bsize := 0x30003FF0, bnext := 0\<rparr>) (?h\<lparr>heap_cur := 0x8000\<rparr>)"
  let ?g = "upd_hdr ?m (\<lambda>x. x\<lparr>bprev := 0xD0000000\<rparr>) (upd_hdr 0xD0000000 (\<lambda>x. x\<lparr>bnext := ?m\<rparr>) ?k)"
  have lb: "last_block ?k 0xD0000000 = Some 0xD0000000"
    by (simp add: last_block.simps kheap_boot_def)
  have ff': "find_fit ?g 0x30000000 0xD0000000 = Some ?m"
    by (simp add: find_fit.simps kheap_boot_def)
  have st: "heap_start ?h = 0xD0000000" by (simp add: kheap_boot_def)
  have "kmalloc 0x30000000 ?g = Some (0xD0004010, take_block ?m 0x30000000 ?g)"
    using ff' st by (subst kmalloc.simps) (simp add: al HDR_SIZE_def take_block_def)
  moreover have "kmalloc 0x30000000 ?h = kmalloc 0x30000000 ?g"
    using ff sb lb st by (subst kmalloc.simps) (simp add: al HDR_SIZE_def PAGE_SIZE_def Let_def)
  ultimately show "\<exists>g. kmalloc 0x30000000 ?h = Some (0xD0004010, g)" by simp
  have "find_fit ?h 0 0xD0000000 = Some 0xD0000000"
    by (simp add: find_fit.simps kheap_boot_def)
  then have "kmalloc 0xFFFFFFFF ?h = Some (0xD0000010, take_block 0xD0000000 0 ?h)"
    using st by (subst kmalloc.simps) (simp add: al HDR_SIZE_def take_block_def)
  moreover have "bsize (hdrs (take_block 0xD0000000 0 ?h) 0xD0000000) = 0"
    by (simp add: take_block_def split_block_def kheap_boot_def HDR_SIZE_def MIN_ALLOC_def)
  ultimately show "\<exists>g. kmalloc 0xFFFFFFFF ?h = Some (0xD0000010, g) \<and> bsize (hdrs g 0xD0000000) = 0"
    by blast
qed

end
