(* ===== verification/Slab.thy ===== *)
theory Slab
  imports Klist Kmalloc
begin

text \<open>
  The object caches of \<^verbatim>\<open>mm/kmalloc.c\<close> (second half of the file).  A cache keeps its slabs on three
  intrusive lists (full, partial, free); a slab is one \<^verbatim>\<open>kmalloc\<close> block that holds a header, a
  stack of free indices and the objects.  The state adds to the heap the cache and slab headers
  (typed views of the blocks they live in) and the pointer store of the lists, over nodes that
  name the three list heads of each cache and the link of each slab.  Sizes are those of the
  32-bit build: 40 bytes for \<^verbatim>\<open>struct kmem_cache\<close> and 32 for \<^verbatim>\<open>struct slab_hdr\<close>.
\<close>

section \<open>State and operations\<close>

datatype slab_node = FullHead uptr | PartialHead uptr | FreeHead uptr | SlabLink uptr

record kmem_cache =
  obj_size :: u32
  slab_capacity :: u32

record slab_hdr =
  slab_cache :: uptr
  inuse :: u32
  capacity :: u32
  free_list :: "nat \<Rightarrow> u32"
  free_top :: u32

record slabs =
  kheap_of :: kheap
  caches :: "uptr \<Rightarrow> kmem_cache"
  slab_hdrs :: "uptr \<Rightarrow> slab_hdr"
  slab_lists :: "slab_node list_store"

definition sizeof_kmem_cache :: u32 where "sizeof_kmem_cache = 40"
definition sizeof_slab_hdr :: u32 where "sizeof_slab_hdr = 32"

text \<open>
  \<^verbatim>\<open>list_entry(pos, struct slab_hdr, list)\<close>.  The operations apply it to slab links only: every
  use is guarded by \<^verbatim>\<open>list_empty\<close> or by the loop condition.
\<close>

fun slab_of :: "slab_node \<Rightarrow> uptr" where
  "slab_of (SlabLink s) = s"
| "slab_of _ = 0"

definition obj_area :: "uptr \<Rightarrow> uptr \<Rightarrow> slabs \<Rightarrow> uptr" where
  "obj_area c s st = s + sizeof_slab_hdr + slab_capacity (caches st c) * 4"

text \<open>A size of 0, also after rounding, is a division by zero.\<close>

definition kmem_cache_create :: "u32 \<Rightarrow> slabs \<Rightarrow> (uptr \<times> slabs) option" where
  "kmem_cache_create osz st =
     do {
       (c, h) \<leftarrow> kmalloc sizeof_kmem_cache (kheap_of st);
       let st = st\<lparr>kheap_of := h\<rparr>;
       if c = 0 then Some (0, st)
       else let osz = ALIGN_UP osz 8
            in if osz = 0 then None
               else Some (c, st\<lparr>caches := (caches st)(c := \<lparr>obj_size = osz,
                         slab_capacity = max 1 (PAGE_SIZE * 4 div osz)\<rparr>),
                        slab_lists := list_init (FreeHead c) (list_init (PartialHead c)
                         (list_init (FullHead c) (slab_lists st)))\<rparr>)
     }"

definition slab_new :: "uptr \<Rightarrow> slabs \<Rightarrow> (uptr \<times> slabs) option" where
  "slab_new c st =
     (let k = caches st c;
          overhead = sizeof_slab_hdr + slab_capacity k * 4;
          total = ALIGN_UP (overhead + slab_capacity k * obj_size k) PAGE_SIZE
      in do {
        (s, h) \<leftarrow> kmalloc total (kheap_of st);
        let st = st\<lparr>kheap_of := h\<rparr>;
        if s = 0 then Some (0, st)
        else Some (s, st\<lparr>slab_hdrs := (slab_hdrs st)(s := \<lparr>slab_cache = c, inuse = 0,
                           capacity = slab_capacity k, free_list = of_nat, free_top = slab_capacity k\<rparr>),
                         slab_lists := list_init (SlabLink s) (slab_lists st)\<rparr>)
      })"

text \<open>The part of \<^verbatim>\<open>kmem_cache_alloc\<close> after the slab has been chosen.\<close>

definition slab_take :: "uptr \<Rightarrow> uptr \<Rightarrow> slabs \<Rightarrow> uptr \<times> slabs" where
  "slab_take c s st =
     (let ls = list_del (SlabLink s) (slab_lists st);
          h = slab_hdrs st s;
          h = h\<lparr>free_top := free_top h - 1\<rparr>;
          idx = free_list h (unat (free_top h));
          h = h\<lparr>inuse := inuse h + 1\<rparr>;
          obj = obj_area c s st + idx * obj_size (caches st c);
          ls = (if inuse h = capacity h then list_add (SlabLink s) (FullHead c) ls
                else list_add (SlabLink s) (PartialHead c) ls)
      in (obj, st\<lparr>slab_hdrs := (slab_hdrs st)(s := h), slab_lists := ls\<rparr>))"

definition kmem_cache_alloc :: "uptr \<Rightarrow> slabs \<Rightarrow> (uptr \<times> slabs) option" where
  "kmem_cache_alloc c st =
     (if \<not> list_empty (PartialHead c) (slab_lists st)
      then Some (slab_take c (slab_of (lnext (slab_lists st) (PartialHead c))) st)
      else if \<not> list_empty (FreeHead c) (slab_lists st)
      then Some (slab_take c (slab_of (lnext (slab_lists st) (FreeHead c))) st)
      else do {
        (s, st) \<leftarrow> slab_new c st;
        if s = 0 then Some (0, st)
        else Some (slab_take c s (st\<lparr>slab_lists := list_add (SlabLink s) (FreeHead c) (slab_lists st)\<rparr>))
      })"

text \<open>The inner loop of \<^verbatim>\<open>kmem_cache_free\<close>: the first slab of a list whose objects contain \<open>o\<close>.\<close>

definition slab_holds :: "slabs \<Rightarrow> uptr \<Rightarrow> uptr \<Rightarrow> uptr \<Rightarrow> bool" where
  "slab_holds st c obj s \<longleftrightarrow>
     obj \<ge> obj_area c s st \<and>
     obj < obj_area c s st + capacity (slab_hdrs st s) * obj_size (caches st c)"

partial_function (option) find_slab ::
  "slabs \<Rightarrow> uptr \<Rightarrow> uptr \<Rightarrow> slab_node \<Rightarrow> slab_node \<Rightarrow> uptr option option" where
  "find_slab st c obj head pos =
     (if pos = head then Some None
      else if slab_holds st c obj (slab_of pos) then Some (Some (slab_of pos))
      else find_slab st c obj head (lnext (slab_lists st) pos))"

definition slab_put :: "uptr \<Rightarrow> uptr \<Rightarrow> uptr \<Rightarrow> slabs \<Rightarrow> slabs" where
  "slab_put c s obj st =
     (let h = slab_hdrs st s;
          idx = (obj - obj_area c s st) div obj_size (caches st c);
          h = h\<lparr>free_list := (free_list h)(unat (free_top h) := idx), free_top := free_top h + 1\<rparr>;
          h = h\<lparr>inuse := inuse h - 1\<rparr>;
          ls = list_del (SlabLink s) (slab_lists st);
          ls = (if inuse h = 0 then list_add (SlabLink s) (FreeHead c) ls
                else list_add (SlabLink s) (PartialHead c) ls)
      in st\<lparr>slab_hdrs := (slab_hdrs st)(s := h), slab_lists := ls\<rparr>)"

definition kmem_cache_free :: "uptr \<Rightarrow> uptr \<Rightarrow> slabs \<Rightarrow> slabs option" where
  "kmem_cache_free c obj st =
     (if obj = 0 then Some st
      else do {
        f \<leftarrow> find_slab st c obj (PartialHead c) (lnext (slab_lists st) (PartialHead c));
        (case f of
           Some s \<Rightarrow> Some (slab_put c s obj st)
         | None \<Rightarrow>
             do {
               f \<leftarrow> find_slab st c obj (FullHead c) (lnext (slab_lists st) (FullHead c));
               (case f of
                  Some s \<Rightarrow> Some (slab_put c s obj st)
                | None \<Rightarrow> Some st)
             })
      })"

text \<open>One of the three loops of \<^verbatim>\<open>kmem_cache_destroy\<close>: the next link is read before the release.\<close>

partial_function (option) free_slabs :: "slab_node list_store \<Rightarrow> slab_node \<Rightarrow> slab_node \<Rightarrow> kheap \<Rightarrow> kheap option" where
  "free_slabs ls head pos h =
     (if pos = head then Some h
      else free_slabs ls head (lnext ls pos) (kfree (slab_of pos) h))"

definition kmem_cache_destroy :: "uptr \<Rightarrow> slabs \<Rightarrow> slabs option" where
  "kmem_cache_destroy c st =
     (let ls = slab_lists st
      in do {
        h \<leftarrow> free_slabs ls (FreeHead c) (lnext ls (FreeHead c)) (kheap_of st);
        h \<leftarrow> free_slabs ls (PartialHead c) (lnext ls (PartialHead c)) h;
        h \<leftarrow> free_slabs ls (FullHead c) (lnext ls (FullHead c)) h;
        Some (st\<lparr>kheap_of := kfree c h\<rparr>)
      })"

section \<open>The invariant\<close>

text \<open>The free indices of a slab, bottom of the stack first.\<close>

definition free_idx :: "slab_hdr \<Rightarrow> nat list" where
  "free_idx h = map (\<lambda>i. unat (free_list h i)) [0..<unat (free_top h)]"

definition slab_bytes :: "kmem_cache \<Rightarrow> nat" where
  "slab_bytes k = 32 + unat (slab_capacity k) * 4 + unat (slab_capacity k) * unat (obj_size k)"

definition slab_wf :: "kheap \<Rightarrow> kmem_cache \<Rightarrow> slab_hdr \<Rightarrow> uptr \<Rightarrow> bool" where
  "slab_wf h k sh s \<longleftrightarrow>
     s \<noteq> 0 \<and> capacity sh = slab_capacity k \<and>
     unat (free_top sh) \<le> unat (slab_capacity k) \<and>
     unat (inuse sh) + unat (free_top sh) = unat (slab_capacity k) \<and>
     distinct (free_idx sh) \<and> set (free_idx sh) \<subseteq> {..<unat (slab_capacity k)} \<and>
     (\<exists>n\<ge>slab_bytes k. (unat s, n) \<in> live h)"

definition cache_wf :: "kmem_cache \<Rightarrow> bool" where
  "cache_wf k \<longleftrightarrow> 0 < unat (slab_capacity k) \<and> 0 < unat (obj_size k) \<and> slab_bytes k \<le> 0x3FFF000"

text \<open>The three lists of a cache, by what they hold; \<open>L k\<close> are the slabs on the list for \<open>k\<close>.\<close>

datatype slab_kind = Partial | Full | Empty

fun head_of :: "slab_kind \<Rightarrow> uptr \<Rightarrow> slab_node" where
  "head_of Partial c = PartialHead c"
| "head_of Full c = FullHead c"
| "head_of Empty c = FreeHead c"

fun kind_ok :: "slab_kind \<Rightarrow> slab_hdr \<Rightarrow> bool" where
  "kind_ok Partial sh \<longleftrightarrow> free_top sh \<noteq> 0 \<and> inuse sh \<noteq> 0"
| "kind_ok Full sh \<longleftrightarrow> free_top sh = 0"
| "kind_ok Empty sh \<longleftrightarrow> inuse sh = 0"

definition lists_ok :: "slab_node list_store \<Rightarrow> uptr \<Rightarrow> (slab_kind \<Rightarrow> uptr list) \<Rightarrow> bool" where
  "lists_ok ls c L \<longleftrightarrow>
     (\<forall>k. is_list ls (head_of k c) (map SlabLink (L k))) \<and>
     (\<forall>j k. j \<noteq> k \<longrightarrow> set (L j) \<inter> set (L k) = {})"

definition all_slabs :: "(slab_kind \<Rightarrow> uptr list) \<Rightarrow> uptr set" where
  "all_slabs L = (\<Union>k. set (L k))"

definition cache_ok :: "slabs \<Rightarrow> uptr \<Rightarrow> (slab_kind \<Rightarrow> uptr list) \<Rightarrow> bool" where
  "cache_ok st c L \<longleftrightarrow>
     cache_wf (caches st c) \<and> lists_ok (slab_lists st) c L \<and>
     (\<forall>k. \<forall>s\<in>set (L k). slab_wf (kheap_of st) (caches st c) (slab_hdrs st s) s \<and>
        kind_ok k (slab_hdrs st s))"

text \<open>The objects of a cache that are handed out, by address.\<close>

definition obj_addr :: "kmem_cache \<Rightarrow> uptr \<Rightarrow> nat \<Rightarrow> nat" where
  "obj_addr k s i = unat s + 32 + unat (slab_capacity k) * 4 + i * unat (obj_size k)"

definition slab_objs :: "kmem_cache \<Rightarrow> slab_hdr \<Rightarrow> uptr \<Rightarrow> nat set" where
  "slab_objs k sh s = obj_addr k s ` ({..<unat (slab_capacity k)} - set (free_idx sh))"

definition cache_objs :: "slabs \<Rightarrow> uptr \<Rightarrow> (slab_kind \<Rightarrow> uptr list) \<Rightarrow> nat set" where
  "cache_objs st c L = (\<Union>s\<in>all_slabs L. slab_objs (caches st c) (slab_hdrs st s) s)"

section \<open>Lists\<close>

lemma head_of_inj [simp]: "head_of j c = head_of k d \<longleftrightarrow> j = k \<and> c = d"
  by (cases j; cases k) auto

lemma head_of_link [simp]: "head_of k c \<noteq> SlabLink s" "SlabLink s \<noteq> head_of k c"
  by (cases k; simp)+

lemma in_link_map [simp]: "SlabLink s \<in> SlabLink ` A \<longleftrightarrow> s \<in> A" "head_of k c \<notin> SlabLink ` A"
  by auto

definition move_slab ::
  "slab_kind \<Rightarrow> slab_kind \<Rightarrow> uptr \<Rightarrow> (slab_kind \<Rightarrow> uptr list) \<Rightarrow> slab_kind \<Rightarrow> uptr list" where
  "move_slab a b s L = (let M = L(a := remove1 s (L a)) in M(b := s # M b))"

definition move_link :: "slab_kind \<Rightarrow> uptr \<Rightarrow> uptr \<Rightarrow> slab_node list_store \<Rightarrow> slab_node list_store" where
  "move_link b c s ls = list_add (SlabLink s) (head_of b c) (list_del (SlabLink s) ls)"

lemma link_sets_disjoint:
  "j \<noteq> k \<or> c \<noteq> d \<Longrightarrow> set xs \<inter> set ys = {} \<Longrightarrow>
   set (head_of j c # map SlabLink xs) \<inter> set (head_of k d # map SlabLink ys) = {}"
  by auto

lemma move_link_lists:
  assumes ok: "lists_ok ls c L" and s: "s \<in> set (L a)"
  shows "lists_ok (move_link b c s ls) c (move_slab a b s L)"
    and "all_slabs (move_slab a b s L) = all_slabs L"
proof -
  have il: "\<And>k. is_list ls (head_of k c) (map SlabLink (L k))"
    and dj: "\<And>j k. j \<noteq> k \<Longrightarrow> set (L j) \<inter> set (L k) = {}"
    using ok by (auto simp: lists_ok_def)
  have da: "distinct (L a)"
    using il [of a] by (simp add: is_list_def distinct_map)
  from s obtain xs ys where La: "L a = xs @ s # ys" by (meson split_list)
  with da have rem: "remove1 s (L a) = xs @ ys" by (auto simp: remove1_append)
  note ia = il [of a, unfolded La map_append list.map]
  have sets: "set (move_slab a b s L j) = (if j = b then insert s (set (L b)) else set (L j) - {s})" for j
    using da dj [of a b] dj [of a j] s unfolding move_slab_def by (auto simp: Let_def)
  show "all_slabs (move_slab a b s L) = all_slabs L"
    unfolding all_slabs_def sets using s by auto
  have "is_list (move_link b c s ls) (head_of j c) (map SlabLink (move_slab a b s L j))" for j
  proof (cases "a = b")
    case True
    show ?thesis
    proof (cases "j = a")
      case True
      with kl.to_front(1) [OF ia] \<open>a = b\<close> rem show ?thesis
        by (simp add: move_link_def move_slab_def)
    next
      case False
      have "is_list (move_link a c s ls) (head_of j c) (map SlabLink (L j))"
        unfolding move_link_def using link_sets_disjoint [of j a c c] dj [OF False] False La
        by (intro kl.to_front(2) [OF ia il]) auto
      with False True show ?thesis by (simp add: move_slab_def)
    qed
  next
    case False
    have disj: "set (head_of a c # map SlabLink xs @ SlabLink s # map SlabLink ys) \<inter>
        set (head_of b c # map SlabLink (L b)) = {}"
      using dj [OF False] False La by auto
    note m = kl.move [OF ia il disj]
    consider "j = a" | "j = b" | "j \<noteq> a" "j \<noteq> b" by blast
    then show ?thesis
    proof cases
      case 3
      then have "is_list (move_link b c s ls) (head_of j c) (map SlabLink (L j))"
        unfolding move_link_def using dj [of j a] dj [of j b] La by (intro m(3) il) auto
      with 3 show ?thesis by (simp add: move_slab_def)
    qed (use m(1,2) False in \<open>auto simp: move_link_def move_slab_def rem\<close>)
  qed
  moreover have "set (move_slab a b s L i) \<inter> set (move_slab a b s L j) = {}" if "i \<noteq> j" for i j
    unfolding sets using dj [OF that] that by auto
  ultimately show "lists_ok (move_link b c s ls) c (move_slab a b s L)" by (simp add: lists_ok_def)
qed

text \<open>The lists of another cache are not disturbed.\<close>

lemma move_link_other:
  assumes ok: "lists_ok ls c L" and s: "s \<in> set (L a)" and other: "lists_ok ls d M"
    and "c \<noteq> d" and dj: "all_slabs L \<inter> all_slabs M = {}"
  shows "lists_ok (move_link b c s ls) d M"
proof -
  from s obtain xs ys where La: "L a = xs @ s # ys" by (meson split_list)
  have il: "\<And>k. is_list ls (head_of k c) (map SlabLink (L k))"
    and im: "\<And>k. is_list ls (head_of k d) (map SlabLink (M k))"
    and dL: "\<And>j k. j \<noteq> k \<Longrightarrow> set (L j) \<inter> set (L k) = {}"
    using ok other by (auto simp: lists_ok_def)
  note ia = il [of a, unfolded La map_append list.map]
  have dM: "set (L j) \<inter> set (M k) = {}" for j k using dj by (auto simp: all_slabs_def)
  have "is_list (move_link b c s ls) (head_of k d) (map SlabLink (M k))" for k
  proof (cases "a = b")
    case True
    show ?thesis
      unfolding move_link_def True [symmetric]
      using dM [of a k] La \<open>c \<noteq> d\<close> by (intro kl.to_front(2) [OF ia im]) auto
  next
    case False
    have "set (head_of a c # map SlabLink xs @ SlabLink s # map SlabLink ys) \<inter>
        set (head_of b c # map SlabLink (L b)) = {}"
      using dL [OF False] False La by auto
    from kl.move(3) [OF ia il this im, of k] show ?thesis
      unfolding move_link_def using dM [of a k] dM [of b k] La \<open>c \<noteq> d\<close> by auto
  qed
  with other show ?thesis by (simp add: lists_ok_def)
qed

section \<open>One slab\<close>

lemma obj_addr_inj: "cache_wf k \<Longrightarrow> obj_addr k s i = obj_addr k s j \<longleftrightarrow> i = j"
  by (simp add: obj_addr_def cache_wf_def)

definition pop_hdr :: "slab_hdr \<Rightarrow> slab_hdr" where
  "pop_hdr sh = sh\<lparr>free_top := free_top sh - 1, inuse := inuse sh + 1\<rparr>"

definition push_hdr :: "u32 \<Rightarrow> slab_hdr \<Rightarrow> slab_hdr" where
  "push_hdr idx sh = sh\<lparr>free_list := (free_list sh)(unat (free_top sh) := idx),
     free_top := free_top sh + 1, inuse := inuse sh - 1\<rparr>"

lemma unat_dec: "x \<noteq> 0 \<Longrightarrow> unat (x - 1 :: u32) = unat x - 1"
  by (rule unat_minus_one)

lemma unat_inc: "unat (x :: u32) < unat (y :: u32) \<Longrightarrow> unat (x + 1) = unat x + 1"
  using unat_less_2p32 [of y] by (intro trans [OF unat_add_nowrap]) auto

lemma pop_hdr_spec:
  assumes wf: "slab_wf h k sh s" and k: "cache_wf k" and nz: "free_top sh \<noteq> 0"
  defines "i \<equiv> unat (free_list sh (unat (free_top sh - 1)))"
  shows "slab_wf h k (pop_hdr sh) s" and "i < unat (slab_capacity k)"
    and "slab_objs k (pop_hdr sh) s = insert (obj_addr k s i) (slab_objs k sh s)"
    and "obj_addr k s i \<notin> slab_objs k sh s"
    and "inuse (pop_hdr sh) \<noteq> 0" and "inuse (pop_hdr sh) = capacity (pop_hdr sh) \<longleftrightarrow> free_top (pop_hdr sh) = 0"
proof -
  have cap: "capacity sh = slab_capacity k" "unat (inuse sh) + unat (free_top sh) = unat (slab_capacity k)"
    using wf by (simp_all add: slab_wf_def)
  have ft: "unat (free_top sh - 1) = unat (free_top sh) - 1" "0 < unat (free_top sh)"
    using nz by (simp_all add: unat_dec unat_gt_0)
  then have iu: "unat (inuse sh + 1) = unat (inuse sh) + 1"
    using cap by (intro unat_inc [of _ "slab_capacity k"]) simp
  have snoc: "free_idx sh = free_idx (pop_hdr sh) @ [i]"
  proof -
    have "[0..<unat (free_top sh)] = [0..<unat (free_top sh) - 1] @ [unat (free_top sh) - 1]"
      using ft(2) by (metis Suc_diff_1 le0 upt_Suc_append)
    then show ?thesis by (simp add: free_idx_def pop_hdr_def ft i_def)
  qed
  from wf snoc show lt: "i < unat (slab_capacity k)" by (simp add: slab_wf_def)
  from wf snoc have d: "distinct (free_idx (pop_hdr sh))" "i \<notin> set (free_idx (pop_hdr sh))"
    "set (free_idx (pop_hdr sh)) \<subseteq> {..<unat (slab_capacity k)}"
    by (auto simp: slab_wf_def)
  show "slab_wf h k (pop_hdr sh) s"
    using wf d iu ft cap by (auto simp: slab_wf_def) (auto simp: pop_hdr_def)
  have "{..<unat (slab_capacity k)} - set (free_idx (pop_hdr sh)) =
      insert i ({..<unat (slab_capacity k)} - set (free_idx sh))"
    using lt d(2) snoc by auto
  then show "slab_objs k (pop_hdr sh) s = insert (obj_addr k s i) (slab_objs k sh s)"
    by (simp add: slab_objs_def)
  show "obj_addr k s i \<notin> slab_objs k sh s"
    using snoc by (auto simp: slab_objs_def obj_addr_inj [OF k])
  show "inuse (pop_hdr sh) \<noteq> 0" using iu by (auto simp: pop_hdr_def)
  show "inuse (pop_hdr sh) = capacity (pop_hdr sh) \<longleftrightarrow> free_top (pop_hdr sh) = 0"
    using cap iu ft by (auto simp: pop_hdr_def word_unat_eq_iff)
qed

lemma push_hdr_spec:
  assumes wf: "slab_wf h k sh s" and k: "cache_wf k"
    and i: "unat idx < unat (slab_capacity k)" "obj_addr k s (unat idx) \<in> slab_objs k sh s"
  shows "slab_wf h k (push_hdr idx sh) s"
    and "slab_objs k (push_hdr idx sh) s = slab_objs k sh s - {obj_addr k s (unat idx)}"
    and "free_top (push_hdr idx sh) \<noteq> 0"
proof -
  let ?C = "{..<unat (slab_capacity k)}" and ?i = "unat idx"
  have cap: "capacity sh = slab_capacity k" "unat (inuse sh) + unat (free_top sh) = unat (slab_capacity k)"
    "distinct (free_idx sh)" "set (free_idx sh) \<subseteq> ?C"
    using wf by (simp_all add: slab_wf_def)
  have fresh: "?i \<notin> set (free_idx sh)"
    using i(2) by (auto simp: slab_objs_def obj_addr_inj [OF k])
  have "length (free_idx sh) < unat (slab_capacity k)"
  proof -
    have "card (set (free_idx sh)) < card ?C"
      using i(1) fresh cap(4) by (intro psubset_card_mono) auto
    with cap(3) show ?thesis by (simp add: distinct_card)
  qed
  then have lt: "unat (free_top sh) < unat (slab_capacity k)" by (simp add: free_idx_def)
  then have ft: "unat (free_top sh + 1) = unat (free_top sh) + 1" by (rule unat_inc)
  have "inuse sh \<noteq> 0" using lt cap(2) by (auto simp: word_unat_eq_iff)
  then have iu: "unat (inuse sh - 1) = unat (inuse sh) - 1" "0 < unat (inuse sh)"
    by (simp_all add: unat_dec unat_gt_0)
  have snoc: "free_idx (push_hdr idx sh) = free_idx sh @ [?i]"
    by (auto simp: free_idx_def push_hdr_def ft)
  show "slab_wf h k (push_hdr idx sh) s"
    using wf fresh i(1) ft iu lt cap(2) by (auto simp: slab_wf_def snoc) (auto simp: push_hdr_def)
  have "?C - set (free_idx (push_hdr idx sh)) = (?C - set (free_idx sh)) - {?i}"
    using snoc by auto
  then have "slab_objs k (push_hdr idx sh) s = obj_addr k s ` ((?C - set (free_idx sh)) - {?i})"
    by (simp only: slab_objs_def)
  also have "\<dots> = slab_objs k sh s - obj_addr k s ` {?i}"
    unfolding slab_objs_def by (rule image_set_diff) (simp add: inj_def obj_addr_inj [OF k])
  finally show "slab_objs k (push_hdr idx sh) s = slab_objs k sh s - {obj_addr k s ?i}" by simp
  show "free_top (push_hdr idx sh) \<noteq> 0" using ft by (auto simp: push_hdr_def)
qed

section \<open>Several caches on one heap\<close>

definition slab_inv :: "slabs \<Rightarrow> uptr set \<Rightarrow> (uptr \<Rightarrow> slab_kind \<Rightarrow> uptr list) \<Rightarrow> bool" where
  "slab_inv st C L \<longleftrightarrow>
     heap_ok (kheap_of st) \<and> (\<forall>c\<in>C. cache_ok st c (L c)) \<and>
     (\<forall>c\<in>C. \<forall>d\<in>C. c \<noteq> d \<longrightarrow> all_slabs (L c) \<inter> all_slabs (L d) = {}) \<and>
     (\<forall>c\<in>C. (\<exists>n\<ge>40. (unat c, n) \<in> live (kheap_of st)) \<and> (\<forall>d\<in>C. c \<notin> all_slabs (L d)))"

lemma slab_inv_cache: "slab_inv st C L \<Longrightarrow> c \<in> C \<Longrightarrow> cache_ok st c (L c)"
  and slab_inv_heap: "slab_inv st C L \<Longrightarrow> heap_ok (kheap_of st)"
  by (simp_all add: slab_inv_def)

lemma all_slabs_mem: "s \<in> all_slabs L \<longleftrightarrow> (\<exists>k. s \<in> set (L k))"
  by (auto simp: all_slabs_def)

lemma all_slabs_eq: "all_slabs L = set (L Partial) \<union> set (L Full) \<union> set (L Empty)"
  unfolding all_slabs_def by (auto, metis slab_kind.exhaust)

lemma cache_ok_slab:
  "cache_ok st c L \<Longrightarrow> s \<in> all_slabs L \<Longrightarrow> slab_wf (kheap_of st) (caches st c) (slab_hdrs st s) s"
  by (auto simp: cache_ok_def all_slabs_mem)

text \<open>A slab and its objects lie inside one heap block.\<close>

lemma slab_wf_room:
  assumes "heap_ok h" and "slab_wf h k sh s"
  shows "unat s + slab_bytes k \<le> 0xD4000000"
proof -
  from assms(2) obtain n where n: "slab_bytes k \<le> n" "(unat s, n) \<in> live h" by (auto simp: slab_wf_def)
  from live_bounds [OF assms(1) n(2)] n(1) show ?thesis by simp
qed

lemma slab_bytes_obj: "i \<le> unat (slab_capacity k) \<Longrightarrow> obj_addr k s i \<le> unat s + slab_bytes k"
  by (simp add: obj_addr_def slab_bytes_def)

lemma unat_mult_nowrap:
  "unat (a :: u32) * unat b < 2 ^ 32 \<Longrightarrow> unat (a * b) = unat a * unat b"
  by (simp add: unat_word_ariths)

lemma unat_obj_area:
  assumes "heap_ok (kheap_of st)" and "slab_wf (kheap_of st) (caches st c) sh s"
  shows "unat (obj_area c s st) = obj_addr (caches st c) s 0"
proof -
  note r = slab_wf_room [OF assms]
  have cap: "unat (slab_capacity (caches st c) * 4) = unat (slab_capacity (caches st c)) * 4"
    using r by (intro trans [OF unat_mult_nowrap]) (auto simp: slab_bytes_def)
  have "unat (s + 32) = unat s + 32"
    using r by (intro trans [OF unat_add_nowrap]) (auto simp: slab_bytes_def)
  then show ?thesis
    unfolding obj_area_def sizeof_slab_hdr_def obj_addr_def
    using r cap by (intro trans [OF unat_add_nowrap]) (auto simp: slab_bytes_def)
qed

lemma unat_obj:
  assumes "heap_ok (kheap_of st)" and "slab_wf (kheap_of st) (caches st c) sh s"
    and "unat i \<le> unat (slab_capacity (caches st c))"
  shows "unat (obj_area c s st + i * obj_size (caches st c)) = obj_addr (caches st c) s (unat i)"
proof -
  let ?k = "caches st c"
  note r = slab_wf_room [OF assms(1,2)] and b = slab_bytes_obj [OF assms(3), of s]
  then have "unat (i * obj_size ?k) = unat i * unat (obj_size ?k)"
    by (intro unat_mult_nowrap) (auto simp: obj_addr_def)
  then show ?thesis
    using unat_obj_area [OF assms(1,2)] r b
    by (subst unat_add_nowrap) (auto simp: obj_addr_def)
qed

section \<open>Allocation from a slab\<close>

lemma slab_take_eq:
  "slab_take c s st =
     (let sh = slab_hdrs st s; p = pop_hdr sh
      in (obj_area c s st + free_list sh (unat (free_top sh - 1)) * obj_size (caches st c),
          st\<lparr>slab_hdrs := (slab_hdrs st)(s := p),
             slab_lists := move_link (if inuse p = capacity p then Full else Partial) c s (slab_lists st)\<rparr>))"
  by (simp add: slab_take_def pop_hdr_def move_link_def Let_def)

lemma cache_ok_update:
  assumes ok: "cache_ok st c L" and s: "s \<in> set (L a)"
    and wf: "slab_wf (kheap_of st) (caches st c) sh s" and b: "kind_ok b sh"
  defines "st' \<equiv> st\<lparr>slab_hdrs := (slab_hdrs st)(s := sh), slab_lists := move_link b c s (slab_lists st)\<rparr>"
  shows "cache_ok st' c (move_slab a b s L)"
    and "cache_objs st' c (move_slab a b s L) =
      slab_objs (caches st c) sh s \<union> (\<Union>t\<in>all_slabs L - {s}. slab_objs (caches st c) (slab_hdrs st t) t)"
proof -
  have lo: "lists_ok (slab_lists st) c L" using ok by (simp add: cache_ok_def)
  note m = move_link_lists [OF lo s, of b]
  have dj: "\<And>j k. j \<noteq> k \<Longrightarrow> set (L j) \<inter> set (L k) = {}" and da: "distinct (L a)"
    using lo by (auto simp: lists_ok_def is_list_def distinct_map)
  have mem: "(t \<in> set (L k) \<and> t \<noteq> s) \<or> (t = s \<and> k = b)" if "t \<in> set (move_slab a b s L k)" for t k
    using that da dj [of a k] s unfolding move_slab_def by (auto simp: Let_def split: if_splits)
  have "slab_wf (kheap_of st') (caches st' c) (slab_hdrs st' t) t \<and> kind_ok k (slab_hdrs st' t)"
    if "t \<in> set (move_slab a b s L k)" for t k
    using mem [OF that] ok wf b by (auto simp: cache_ok_def st'_def)
  with ok m(1) show "cache_ok st' c (move_slab a b s L)"
    by (simp add: cache_ok_def st'_def)
  have "s \<in> all_slabs L" using s by (auto simp: all_slabs_mem)
  then show "cache_objs st' c (move_slab a b s L) =
      slab_objs (caches st c) sh s \<union> (\<Union>t\<in>all_slabs L - {s}. slab_objs (caches st c) (slab_hdrs st t) t)"
    unfolding cache_objs_def m(2) st'_def by (auto split: if_splits)
qed

lemma cache_objs_split:
  "s \<in> all_slabs L \<Longrightarrow> cache_objs st c L = slab_objs (caches st c) (slab_hdrs st s) s \<union>
     (\<Union>t\<in>all_slabs L - {s}. slab_objs (caches st c) (slab_hdrs st t) t)"
  by (auto simp: cache_objs_def)

lemma slab_objs_range:
  assumes "x \<in> slab_objs k sh s"
  shows "unat s < x" and "x + unat (obj_size k) \<le> unat s + slab_bytes k"
proof -
  from assms obtain i where i: "i < unat (slab_capacity k)" "x = obj_addr k s i"
    by (auto simp: slab_objs_def)
  then show "unat s < x" by (simp add: obj_addr_def)
  have "Suc i * unat (obj_size k) \<le> unat (slab_capacity k) * unat (obj_size k)"
    using i(1) by (intro mult_le_mono1) simp
  then show "x + unat (obj_size k) \<le> unat s + slab_bytes k"
    by (simp add: i(2) obj_addr_def slab_bytes_def)
qed

lemma slabs_apart:
  assumes "heap_ok h" and "slab_wf h k sh s" and "slab_wf h k' sh' t" and "s \<noteq> t"
  shows "unat s + slab_bytes k \<le> unat t \<or> unat t + slab_bytes k' \<le> unat s"
proof -
  from assms(2,3) obtain m n where m: "slab_bytes k \<le> m" "(unat s, m) \<in> live h"
    and n: "slab_bytes k' \<le> n" "(unat t, n) \<in> live h" by (auto simp: slab_wf_def)
  from live_disjoint [OF assms(1) m(2) n(2)] assms(4) m n show ?thesis
    by (auto simp: word_unat_eq_iff)
qed

lemma other_slab_objs:
  assumes "heap_ok h" and "slab_wf h k sh s" and "slab_wf h k' sh' t" and "s \<noteq> t"
    and "x \<in> slab_objs k sh s" and "y \<in> slab_objs k' sh' t"
  shows "x + unat (obj_size k) \<le> y \<or> y + unat (obj_size k') \<le> x"
  using slabs_apart [OF assms(1-4)] slab_objs_range [OF assms(5)] slab_objs_range [OF assms(6)]
  by linarith

text \<open>An update of one cache that leaves the heap and the other slabs alone.\<close>

lemma slab_inv_update:
  assumes inv: "slab_inv st C L" and c: "c \<in> C" and s: "s \<in> set (L c a)"
    and st': "st' = st\<lparr>slab_hdrs := (slab_hdrs st)(s := sh), slab_lists := move_link b c s (slab_lists st)\<rparr>"
    and ok: "cache_ok st' c (move_slab a b s (L c))"
  defines "M \<equiv> L(c := move_slab a b s (L c))"
  shows "slab_inv st' C M" and "\<And>d. d \<in> C \<Longrightarrow> d \<noteq> c \<Longrightarrow> cache_objs st' d (M d) = cache_objs st d (L d)"
proof -
  have cok: "cache_ok st c (L c)" using inv c by (rule slab_inv_cache)
  then have lo: "lists_ok (slab_lists st) c (L c)" by (simp add: cache_ok_def)
  note m = move_link_lists [OF lo s, of b]
  have sa: "s \<in> all_slabs (L c)" using s by (auto simp: all_slabs_mem)
  have ns: "s \<notin> all_slabs (L d)" if "d \<in> C" "d \<noteq> c" for d
    using that inv c sa by (auto simp: slab_inv_def)
  have "cache_ok st' d (M d)" if d: "d \<in> C" for d
  proof (cases "d = c")
    case False
    have dok: "cache_ok st d (L d)" using inv d by (rule slab_inv_cache)
    have "lists_ok (slab_lists st') d (L d)"
      unfolding st' using dok inv c d False
      by (simp add: cache_ok_def move_link_other [OF lo s] slab_inv_def)
    moreover have "slab_hdrs st' t = slab_hdrs st t" if "t \<in> set (L d k)" for t k
      using that ns [OF d False] by (auto simp: st' all_slabs_mem)
    ultimately show ?thesis using dok False by (simp add: cache_ok_def M_def) (simp add: st')
  qed (use ok in \<open>simp add: M_def\<close>)
  moreover have "all_slabs (M d) = all_slabs (L d)" for d by (simp add: M_def m(2))
  ultimately show "slab_inv st' C M"
    using inv unfolding slab_inv_def by (simp add: st')
  show "cache_objs st' d (M d) = cache_objs st d (L d)" if d: "d \<in> C" "d \<noteq> c" for d
    using ns [OF d] d(2) unfolding cache_objs_def M_def st' by (auto split: if_splits)
qed

lemma slab_take_spec:
  assumes inv: "slab_inv st C L" and c: "c \<in> C" and s: "s \<in> set (L c a)"
    and nz: "free_top (slab_hdrs st s) \<noteq> 0" and t: "slab_take c s st = (obj, st')"
  shows "\<exists>M. slab_inv st' C M \<and> (\<forall>d\<in>C. d \<noteq> c \<longrightarrow> cache_objs st' d (M d) = cache_objs st d (L d)) \<and>
    cache_objs st' c (M c) = insert (unat obj) (cache_objs st c (L c)) \<and>
    unat obj \<notin> cache_objs st c (L c) \<and> obj \<noteq> 0"
proof -
  let ?k = "caches st c" and ?sh = "slab_hdrs st s"
  let ?b = "if inuse (pop_hdr ?sh) = capacity (pop_hdr ?sh) then Full else Partial"
  let ?i = "free_list ?sh (unat (free_top ?sh - 1))"
  note h = slab_inv_heap [OF inv]
  have cok: "cache_ok st c (L c)" using inv c by (rule slab_inv_cache)
  have sa: "s \<in> all_slabs (L c)" using s by (auto simp: all_slabs_mem)
  note wf = cache_ok_slab [OF cok sa]
  have k: "cache_wf ?k" using cok by (simp add: cache_ok_def)
  note p = pop_hdr_spec [OF wf k nz]
  have "kind_ok ?b (pop_hdr ?sh)" using p(5,6) by auto
  note u = cache_ok_update [OF cok s p(1) this]
  from t have st': "st' = st\<lparr>slab_hdrs := (slab_hdrs st)(s := pop_hdr ?sh),
      slab_lists := move_link ?b c s (slab_lists st)\<rparr>"
    and obj: "obj = obj_area c s st + ?i * obj_size ?k"
    by (auto simp: slab_take_eq Let_def)
  note su = slab_inv_update [OF inv c s st' u(1) [folded st']]
  have ua: "unat obj = obj_addr ?k s (unat ?i)"
    unfolding obj using p(2) by (intro unat_obj [OF h wf]) simp
  have new: "unat obj \<in> slab_objs ?k (pop_hdr ?sh) s" using p(3) ua by simp
  have "unat obj \<notin> slab_objs ?k (slab_hdrs st r) r" if r: "r \<in> all_slabs (L c) - {s}" for r
    using other_slab_objs [OF h p(1) cache_ok_slab [OF cok, of r] _ new, of "unat obj"] r k
    by (auto simp: cache_wf_def)
  then have fresh: "unat obj \<notin> cache_objs st c (L c)"
    using p(4) ua by (simp add: cache_objs_split [OF sa])
  have "cache_objs st' c (move_slab a ?b s (L c)) = insert (unat obj) (cache_objs st c (L c))"
    using u(2) [folded st'] p(3) ua by (simp add: cache_objs_split [OF sa])
  moreover have "obj \<noteq> 0" using ua by (auto simp: obj_addr_def)
  ultimately show ?thesis
    using su fresh by (intro exI [of _ "L(c := move_slab a ?b s (L c))"]) auto
qed

section \<open>A new slab\<close>

lemma slab_wf_mono: "slab_wf h k sh s \<Longrightarrow> live h \<subseteq> live g \<Longrightarrow> slab_wf g k sh s"
  by (auto simp: slab_wf_def)

lemma cache_ok_mono:
  "cache_ok st c L \<Longrightarrow> live (kheap_of st) \<subseteq> live h \<Longrightarrow> cache_ok (st\<lparr>kheap_of := h\<rparr>) c L"
  by (auto simp: cache_ok_def intro: slab_wf_mono)

lemma slab_inv_mono:
  "slab_inv st C L \<Longrightarrow> heap_ok h \<Longrightarrow> live (kheap_of st) \<subseteq> live h \<Longrightarrow> slab_inv (st\<lparr>kheap_of := h\<rparr>) C L"
  unfolding slab_inv_def by (simp add: cache_ok_mono) blast

lemma slab_total:
  assumes "cache_wf k"
  defines "t \<equiv> ALIGN_UP (sizeof_slab_hdr + slab_capacity k * 4 + slab_capacity k * obj_size k) PAGE_SIZE"
  shows "slab_bytes k \<le> unat t" and "unat t \<le> 0x4000000" and "t \<noteq> 0"
proof -
  have b: "slab_bytes k \<le> 0x3FFF000" using assms(1) by (simp add: cache_wf_def)
  have "unat (slab_capacity k * 4) = unat (slab_capacity k) * 4"
    using b by (intro trans [OF unat_mult_nowrap]) (auto simp: slab_bytes_def)
  moreover from this have "unat (sizeof_slab_hdr + slab_capacity k * 4) = 32 + unat (slab_capacity k) * 4"
    unfolding sizeof_slab_hdr_def using b by (intro trans [OF unat_add_nowrap]) (auto simp: slab_bytes_def)
  moreover have "unat (slab_capacity k * obj_size k) = unat (slab_capacity k) * unat (obj_size k)"
    using b by (intro unat_mult_nowrap) (auto simp: slab_bytes_def)
  ultimately have u: "unat (sizeof_slab_hdr + slab_capacity k * 4 + slab_capacity k * obj_size k) = slab_bytes k"
    using b by (intro trans [OF unat_add_nowrap]) (auto simp: slab_bytes_def)
  then have t: "unat t = (slab_bytes k + 4095) div 4096 * 4096"
    unfolding t_def using b by (subst unat_ALIGN_UP_page) auto
  show le: "slab_bytes k \<le> unat t" unfolding t by linarith
  have "(slab_bytes k + 4095) div 4096 \<le> (0x3FFF000 + 4095) div 4096" using b by (intro div_le_mono) simp
  then show "unat t \<le> 0x4000000" unfolding t by simp
  have "0 < slab_bytes k" by (simp add: slab_bytes_def)
  with le show "t \<noteq> 0" by auto
qed

definition new_hdr :: "uptr \<Rightarrow> u32 \<Rightarrow> slab_hdr" where
  "new_hdr c cap = \<lparr>slab_cache = c, inuse = 0, capacity = cap, free_list = of_nat, free_top = cap\<rparr>"

lemma new_hdr_wf:
  assumes "cache_wf k" and "s \<noteq> 0" and "(unat s, n) \<in> live h" and "slab_bytes k \<le> n"
  shows "slab_wf h k (new_hdr c (slab_capacity k)) s" and "slab_objs k (new_hdr c (slab_capacity k)) s = {}"
proof -
  have "unat (of_nat i :: u32) = i" if "i < unat (slab_capacity k)" for i
    using that unat_less_2p32 [of "slab_capacity k"] by (simp add: unat_of_nat)
  then have fi: "free_idx (new_hdr c (slab_capacity k)) = [0..<unat (slab_capacity k)]"
    unfolding free_idx_def new_hdr_def by (auto intro: map_idI)
  then show "slab_objs k (new_hdr c (slab_capacity k)) s = {}" by (auto simp: slab_objs_def)
  from fi assms show "slab_wf h k (new_hdr c (slab_capacity k)) s"
    by (auto simp: slab_wf_def) (auto simp: new_hdr_def)
qed

text \<open>Linking a slab that is on no list.\<close>

lemma lists_ok_init:
  assumes "lists_ok ls d M" and "s \<notin> all_slabs M"
  shows "lists_ok (list_init (SlabLink s) ls) d M"
proof -
  have "is_list (list_init (SlabLink s) ls) (head_of k d) (map SlabLink (M k))" for k
    using assms by (subst is_list_cong [of _ _ _ ls]) (auto simp: lists_ok_def list_op_defs all_slabs_mem)
  with assms(1) show ?thesis by (simp add: lists_ok_def)
qed

lemma lists_ok_add:
  assumes ok: "lists_ok ls c L" and new: "s \<notin> all_slabs L"
  shows "lists_ok (list_add (SlabLink s) (FreeHead c) ls) c (L(Empty := s # L Empty))"
proof -
  have il: "\<And>k. is_list ls (head_of k c) (map SlabLink (L k))"
    and dj: "\<And>j k. j \<noteq> k \<Longrightarrow> set (L j) \<inter> set (L k) = {}"
    using ok by (auto simp: lists_ok_def)
  have ns: "s \<notin> set (L k)" for k using new by (auto simp: all_slabs_mem)
  have "is_list (list_add (SlabLink s) (FreeHead c) ls) (head_of k c)
      (map SlabLink ((L(Empty := s # L Empty)) k))" for k
  proof (cases "k = Empty")
    case True
    with kl.rep_add_head [OF il [of Empty], of "SlabLink s"] ns [of Empty] show ?thesis by auto
  next
    case False
    have "is_list (list_add (SlabLink s) (head_of Empty c) ls) (head_of k c) (map SlabLink (L k))"
      by (rule kl.frame_add_head [OF il il link_sets_disjoint]) (use False dj [OF False] ns in auto)
    with False show ?thesis by simp
  qed
  moreover have "set ((L(Empty := s # L Empty)) i) \<inter> set ((L(Empty := s # L Empty)) j) = {}" if "i \<noteq> j" for i j
    using dj [OF that] ns that by auto
  ultimately show ?thesis by (simp add: lists_ok_def)
qed

lemma lists_ok_add_other:
  assumes ok: "lists_ok ls c L" and other: "lists_ok ls d M" and "c \<noteq> d"
    and "s \<notin> all_slabs M" and dj: "all_slabs L \<inter> all_slabs M = {}"
  shows "lists_ok (list_add (SlabLink s) (FreeHead c) ls) d M"
proof -
  have il: "is_list ls (head_of Empty c) (map SlabLink (L Empty))"
    and im: "\<And>k. is_list ls (head_of k d) (map SlabLink (M k))"
    using ok other unfolding lists_ok_def by blast+
  have "set (M k) \<inter> set (L Empty) = {}" for k using dj by (auto simp: all_slabs_def)
  then have "is_list (list_add (SlabLink s) (head_of Empty c) ls) (head_of k d) (map SlabLink (M k))" for k
    by (intro kl.frame_add_head [OF im il link_sets_disjoint])
      (use assms(3,4) in \<open>auto simp: all_slabs_mem\<close>)
  with other show ?thesis by (simp add: lists_ok_def)
qed

text \<open>The state after a new slab has been put on the list of free slabs.\<close>

lemma slab_inv_new:
  assumes inv: "slab_inv st C L" and c: "c \<in> C" and h: "heap_ok h"
    and live: "live h = insert (unat s, n) (live (kheap_of st))" "\<forall>m. (unat s, m) \<notin> live (kheap_of st)"
    and s: "s \<noteq> 0" "slab_bytes (caches st c) \<le> n"
  defines "st' \<equiv> st\<lparr>kheap_of := h, slab_hdrs := (slab_hdrs st)(s := new_hdr c (slab_capacity (caches st c))),
      slab_lists := list_add (SlabLink s) (FreeHead c) (list_init (SlabLink s) (slab_lists st))\<rparr>"
  defines "M \<equiv> L(c := (L c)(Empty := s # L c Empty))"
  shows "slab_inv st' C M" and "\<And>d. d \<in> C \<Longrightarrow> cache_objs st' d (M d) = cache_objs st d (L d)"
proof -
  let ?k = "caches st c" and ?ls = "list_init (SlabLink s) (slab_lists st)"
  have cok: "\<And>d. d \<in> C \<Longrightarrow> cache_ok st d (L d)" using inv by (simp add: slab_inv_def)
  have ns: "s \<notin> all_slabs (L d)" if "d \<in> C" for d
    using cache_ok_slab [OF cok [OF that], of s] live(2) by (auto simp: slab_wf_def)
  have nc: "s \<noteq> d" if "d \<in> C" for d using inv that live(2) by (auto simp: slab_inv_def)
  have k: "cache_wf ?k" using cok [OF c] by (simp add: cache_ok_def)
  have "(unat s, n) \<in> live h" using live(1) by simp
  note nw = new_hdr_wf [OF k s(1) this s(2), of c]
  have lo: "lists_ok ?ls d (L d)" if "d \<in> C" for d
    using cok [OF that] ns [OF that] by (simp add: cache_ok_def lists_ok_init)
  have old: "slab_wf h (caches st d) (slab_hdrs st' t) t \<and> kind_ok j (slab_hdrs st' t)"
    if "d \<in> C" "t \<in> set (L d j)" for d t j
  proof -
    have "t \<noteq> s" using that ns by (auto simp: all_slabs_mem)
    with that cok [OF that(1)] live(1) show ?thesis
      by (auto simp: cache_ok_def st'_def intro: slab_wf_mono)
  qed
  have all: "all_slabs (M d) = (if d = c then insert s (all_slabs (L c)) else all_slabs (L d))" for d
    by (auto simp: M_def all_slabs_eq)
  have "cache_ok st' d (M d)" if d: "d \<in> C" for d
  proof (cases "d = c")
    case True
    have "lists_ok (slab_lists st') c (M c)"
      unfolding st'_def M_def using lists_ok_add [OF lo [OF c] ns [OF c]] by simp
    moreover have "slab_wf h ?k (slab_hdrs st' t) t \<and> kind_ok j (slab_hdrs st' t)" if "t \<in> set (M c j)" for t j
    proof (cases "t = s")
      case True
      with that ns [OF c] have "j = Empty" by (auto simp: M_def all_slabs_mem split: if_splits)
      with True nw(1) show ?thesis by (simp add: st'_def) (simp add: new_hdr_def)
    next
      case False
      with that have "t \<in> set (L c j)" by (auto simp: M_def split: if_splits)
      then show ?thesis by (rule old [OF c])
    qed
    ultimately show ?thesis using True k by (simp add: cache_ok_def) (simp add: st'_def)
  next
    case False
    have "lists_ok (slab_lists st') d (L d)"
      unfolding st'_def using inv c d False
      by (simp add: lists_ok_add_other [OF lo [OF c] lo [OF d]] ns slab_inv_def)
    with old [OF d] cok [OF d] False show ?thesis by (simp add: cache_ok_def M_def) (simp add: st'_def)
  qed
  moreover have "a \<noteq> b \<longrightarrow> all_slabs (M a) \<inter> all_slabs (M b) = {}" if ab: "a \<in> C" "b \<in> C" for a b
  proof
    assume "a \<noteq> b"
    with inv ab have "all_slabs (L a) \<inter> all_slabs (L b) = {}" by (simp add: slab_inv_def)
    with \<open>a \<noteq> b\<close> ns [OF ab(1)] ns [OF ab(2)] show "all_slabs (M a) \<inter> all_slabs (M b) = {}"
      unfolding all by auto
  qed
  moreover have "(\<exists>n\<ge>40. (unat d, n) \<in> live h) \<and> (\<forall>e\<in>C. d \<notin> all_slabs (M e))" if "d \<in> C" for d
    using inv that nc [OF that] live(1) unfolding all slab_inv_def by auto
  ultimately show "slab_inv st' C M" using h by (simp add: slab_inv_def) (simp add: st'_def)
  show "cache_objs st' d (M d) = cache_objs st d (L d)" if "d \<in> C" for d
    using ns [OF that] nw(2) unfolding cache_objs_def all by (auto simp: st'_def split: if_splits)
qed

lemma slab_new_spec:
  assumes inv: "slab_inv st C L" and c: "c \<in> C"
  shows "\<exists>s st1. slab_new c st = Some (s, st1) \<and> (s = 0 \<longrightarrow> st1 = st) \<and>
    (s \<noteq> 0 \<longrightarrow> (\<exists>M. slab_inv (st1\<lparr>slab_lists := list_add (SlabLink s) (FreeHead c) (slab_lists st1)\<rparr>) C M \<and>
       s \<in> set (M c Empty) \<and> free_top (slab_hdrs st1 s) \<noteq> 0 \<and>
       (\<forall>d\<in>C. cache_objs (st1\<lparr>slab_lists := list_add (SlabLink s) (FreeHead c) (slab_lists st1)\<rparr>) d (M d) =
         cache_objs st d (L d))))"
proof -
  let ?k = "caches st c"
  let ?t = "ALIGN_UP (sizeof_slab_hdr + slab_capacity ?k * 4 + slab_capacity ?k * obj_size ?k) PAGE_SIZE"
  note h = slab_inv_heap [OF inv]
  have k: "cache_wf ?k" using slab_inv_cache [OF inv c] by (simp add: cache_ok_def)
  note t = slab_total [OF k]
  from km.alloc_returns [OF h t(3,2)] obtain s g where a: "kmalloc ?t (kheap_of st) = Some (s, g)" by blast
  show ?thesis
  proof (cases "s = 0")
    case True
    with a km.alloc_null [OF h t(3,2)] show ?thesis by (auto simp: slab_new_def Let_def)
  next
    case False
    from km.alloc_used [OF h t(3,2) a False] obtain n where n: "unat ?t \<le> n"
      "live g = insert (unat s, n) (live (kheap_of st))" "\<forall>m. (unat s, m) \<notin> live (kheap_of st)" by blast
    have "slab_bytes ?k \<le> n" using t(1) n(1) by linarith
    note new = slab_inv_new [OF inv c km.alloc_ok [OF h t(3,2) a] n(2,3) False this]
    have "unat (slab_capacity ?k) \<noteq> 0" using k by (simp add: cache_wf_def)
    then have ft: "slab_capacity ?k \<noteq> 0" by auto
    let ?st1 = "st\<lparr>kheap_of := g, slab_hdrs := (slab_hdrs st)(s := new_hdr c (slab_capacity ?k)),
      slab_lists := list_init (SlabLink s) (slab_lists st)\<rparr>"
    have "slab_new c st = Some (s, ?st1)"
      using a False by (simp add: slab_new_def Let_def new_hdr_def)
    moreover have "free_top (slab_hdrs ?st1 s) \<noteq> 0" using ft by (simp add: new_hdr_def)
    ultimately show ?thesis using False new
      by (intro exI [of _ s] exI [of _ ?st1]) (auto intro!: exI [of _ "L(c := (L c)(Empty := s # L c Empty))"])
  qed
qed

section \<open>Release into a slab\<close>

lemma find_slab_list:
  assumes "is_list (slab_lists st) hn (map SlabLink xs)"
  shows "find_slab st c obj hn (lnext (slab_lists st) hn) = Some (find (slab_holds st c obj) xs)"
proof -
  have "find_slab st c obj hn (lnext (slab_lists st) p) = Some (find (slab_holds st c obj) xs)"
    if "dseg (slab_lists st) p (map SlabLink xs) hn" "hn \<notin> set (map SlabLink xs)" for p
    using that
  proof (induction xs arbitrary: p)
    case Nil
    then show ?case by (simp add: find_slab.simps)
  next
    case (Cons x xs)
    then show ?case by (auto simp: find_slab.simps [of st c obj hn "SlabLink x"])
  qed
  with assms show ?thesis by (auto simp: is_list_def)
qed

lemma slab_holds_iff:
  assumes "heap_ok (kheap_of st)" and "slab_wf (kheap_of st) (caches st c) (slab_hdrs st s) s"
  shows "slab_holds st c obj s \<longleftrightarrow>
    obj_addr (caches st c) s 0 \<le> unat obj \<and> unat obj < unat s + slab_bytes (caches st c)"
proof -
  have "capacity (slab_hdrs st s) = slab_capacity (caches st c)" using assms(2) by (simp add: slab_wf_def)
  moreover have "obj_addr (caches st c) s (unat (slab_capacity (caches st c))) = unat s + slab_bytes (caches st c)"
    by (simp add: obj_addr_def slab_bytes_def)
  ultimately show ?thesis
    using unat_obj [OF assms, of "slab_capacity (caches st c)"] unat_obj_area [OF assms]
    by (simp add: slab_holds_def word_le_nat_alt word_less_nat_alt)
qed

lemma find_unique: "s \<in> set xs \<Longrightarrow> (\<And>t. t \<in> set xs \<Longrightarrow> P t \<longleftrightarrow> t = s) \<Longrightarrow> find P xs = Some s"
  by (induction xs) auto

lemma kmem_cache_free_finds:
  assumes inv: "slab_inv st C L" and c: "c \<in> C" and s: "s \<in> all_slabs (L c)"
    and obj: "unat obj \<in> slab_objs (caches st c) (slab_hdrs st s) s"
  shows "s \<in> set (L c Partial) \<union> set (L c Full)" and "kmem_cache_free c obj st = Some (slab_put c s obj st)"
proof -
  let ?k = "caches st c"
  note h = slab_inv_heap [OF inv] and cok = slab_inv_cache [OF inv c]
  note wf = cache_ok_slab [OF cok]
  have k: "cache_wf ?k" using cok by (simp add: cache_ok_def)
  note r = slab_objs_range [OF obj]
  have osz: "0 < unat (obj_size ?k)" using k by (simp add: cache_wf_def)
  have lo0: "obj_addr ?k s 0 \<le> unat obj" using obj by (auto simp: slab_objs_def obj_addr_def)
  have holds: "slab_holds st c obj t \<longleftrightarrow> t = s" if t: "t \<in> all_slabs (L c)" for t
  proof (cases "t = s")
    case False
    with slabs_apart [OF h wf [OF t] wf [OF s]] slab_holds_iff [OF h wf [OF t], of obj] r osz
    show ?thesis by (auto simp: obj_addr_def)
  qed (use slab_holds_iff [OF h wf [OF s], of obj] lo0 r osz in simp)
  have "s \<notin> set (L c Empty)"
  proof
    assume "s \<in> set (L c Empty)"
    then have "inuse (slab_hdrs st s) = 0" using cok unfolding cache_ok_def by (metis kind_ok.simps(3))
    with wf [OF s] have "unat (free_top (slab_hdrs st s)) = unat (slab_capacity ?k)"
      and d: "distinct (free_idx (slab_hdrs st s))" "set (free_idx (slab_hdrs st s)) \<subseteq> {..<unat (slab_capacity ?k)}"
      by (simp_all add: slab_wf_def)
    then have "length (free_idx (slab_hdrs st s)) = unat (slab_capacity ?k)" by (simp add: free_idx_def)
    with d have "set (free_idx (slab_hdrs st s)) = {..<unat (slab_capacity ?k)}"
      by (metis card_lessThan card_subset_eq distinct_card finite_lessThan)
    with obj show False by (auto simp: slab_objs_def)
  qed
  with s show mem: "s \<in> set (L c Partial) \<union> set (L c Full)" by (auto simp: all_slabs_eq)
  have lo: "is_list (slab_lists st) (head_of j c) (map SlabLink (L c j))"
    and dj: "set (L c Partial) \<inter> set (L c Full) = {}" for j
    using cok by (auto simp: cache_ok_def lists_ok_def)
  note f = find_slab_list [OF lo [of Partial, unfolded head_of.simps], of c obj]
    find_slab_list [OF lo [of Full, unfolded head_of.simps], of c obj]
  have sub: "set (L c j) \<subseteq> all_slabs (L c)" for j by (auto simp: all_slabs_mem)
  have nz: "obj \<noteq> 0" using r(1) by auto
  show "kmem_cache_free c obj st = Some (slab_put c s obj st)"
  proof (cases "s \<in> set (L c Partial)")
    case True
    have "find (slab_holds st c obj) (L c Partial) = Some s"
      using True holds sub by (intro find_unique) auto
    with f nz show ?thesis by (simp add: kmem_cache_free_def)
  next
    case False
    then have "find (slab_holds st c obj) (L c Partial) = None"
      using holds sub [of Partial] by (auto simp: find_None_iff)
    moreover have "find (slab_holds st c obj) (L c Full) = Some s"
      using False mem holds sub by (intro find_unique) auto
    ultimately show ?thesis using f nz by (simp add: kmem_cache_free_def)
  qed
qed

lemma slab_put_eq:
  "slab_put c s obj st =
     (let sh = push_hdr ((obj - obj_area c s st) div obj_size (caches st c)) (slab_hdrs st s)
      in st\<lparr>slab_hdrs := (slab_hdrs st)(s := sh),
            slab_lists := move_link (if inuse sh = 0 then Empty else Partial) c s (slab_lists st)\<rparr>)"
  by (simp add: slab_put_def push_hdr_def move_link_def Let_def)

lemma slab_put_spec:
  assumes inv: "slab_inv st C L" and c: "c \<in> C" and obj: "unat obj \<in> cache_objs st c (L c)"
  shows "\<exists>st' M. kmem_cache_free c obj st = Some st' \<and> slab_inv st' C M \<and>
    (\<forall>d\<in>C. d \<noteq> c \<longrightarrow> cache_objs st' d (M d) = cache_objs st d (L d)) \<and>
    cache_objs st' c (M c) = cache_objs st c (L c) - {unat obj}"
proof -
  let ?k = "caches st c"
  note h = slab_inv_heap [OF inv] and cok = slab_inv_cache [OF inv c]
  from obj obtain s where s: "s \<in> all_slabs (L c)" and os: "unat obj \<in> slab_objs ?k (slab_hdrs st s) s"
    by (auto simp: cache_objs_def)
  note f = kmem_cache_free_finds [OF inv c s os]
  from s obtain a where a: "s \<in> set (L c a)" by (auto simp: all_slabs_mem)
  note wf = cache_ok_slab [OF cok s]
  have k: "cache_wf ?k" using cok by (simp add: cache_ok_def)
  from os obtain i where i: "i < unat (slab_capacity ?k)" "unat obj = obj_addr ?k s i"
    by (auto simp: slab_objs_def)
  let ?idx = "(obj - obj_area c s st) div obj_size ?k"
  have "unat (obj - obj_area c s st) = i * unat (obj_size ?k)"
    using i(2) unat_obj_area [OF h wf] by (subst unat_sub) (auto simp: word_le_nat_alt obj_addr_def)
  then have idx: "unat ?idx = i" using k by (simp add: unat_div cache_wf_def)
  let ?sh = "push_hdr ?idx (slab_hdrs st s)" and ?b = "if inuse (push_hdr ?idx (slab_hdrs st s)) = 0 then Empty else Partial"
  have "unat ?idx < unat (slab_capacity ?k)" "obj_addr ?k s (unat ?idx) \<in> slab_objs ?k (slab_hdrs st s) s"
    using idx i os by simp_all
  note p = push_hdr_spec [OF wf k this]
  have "kind_ok ?b ?sh" using p(3) by simp
  note u = cache_ok_update [OF cok a p(1) this]
  let ?st' = "slab_put c s obj st"
  have st': "?st' = st\<lparr>slab_hdrs := (slab_hdrs st)(s := ?sh), slab_lists := move_link ?b c s (slab_lists st)\<rparr>"
    by (simp add: slab_put_eq Let_def)
  note su = slab_inv_update [OF inv c a st' u(1) [folded st']]
  have "unat obj \<notin> slab_objs ?k (slab_hdrs st r) r" if r: "r \<in> all_slabs (L c) - {s}" for r
    using other_slab_objs [OF h wf cache_ok_slab [OF cok, of r] _ os, of "unat obj"] r k
    by (auto simp: cache_wf_def)
  then have "cache_objs ?st' c (move_slab a ?b s (L c)) = cache_objs st c (L c) - {unat obj}"
    using u(2) [folded st'] p(2) idx i(2) by (auto simp: cache_objs_split [OF s])
  with su f show ?thesis
    by (intro exI [of _ ?st'] exI [of _ "L(c := move_slab a ?b s (L c))"]) auto
qed

text \<open>No slab of the cache has a free object and the heap has no block for a new slab.\<close>

definition cache_full :: "slabs \<Rightarrow> uptr \<Rightarrow> (slab_kind \<Rightarrow> uptr list) \<Rightarrow> bool" where
  "cache_full st c K \<longleftrightarrow> K Partial = [] \<and> K Empty = [] \<and> slab_new c st = Some (0, st)"

lemma kmem_cache_alloc_spec:
  assumes inv: "slab_inv st C L" and c: "c \<in> C"
  shows "\<exists>obj st' M. kmem_cache_alloc c st = Some (obj, st') \<and> slab_inv st' C M \<and>
    (\<forall>d\<in>C. d \<noteq> c \<longrightarrow> cache_objs st' d (M d) = cache_objs st d (L d)) \<and>
    (if cache_full st c (L c) then obj = 0 \<and> st' = st \<and> M = L
     else obj \<noteq> 0 \<and> cache_objs st' c (M c) = insert (unat obj) (cache_objs st c (L c)) \<and>
       unat obj \<notin> cache_objs st c (L c))"
proof -
  note cok = slab_inv_cache [OF inv c]
  have lo: "is_list (slab_lists st) (head_of j c) (map SlabLink (L c j))"
    and kd: "\<And>s. s \<in> set (L c j) \<Longrightarrow> kind_ok j (slab_hdrs st s)" for j
    using cok by (auto simp: cache_ok_def lists_ok_def)
  note P = lo [of Partial, unfolded head_of.simps] and E = lo [of Empty, unfolded head_of.simps]
  consider (part) s ss where "L c Partial = s # ss"
    | (empty) s ss where "L c Partial = []" "L c Empty = s # ss"
    | (new) "L c Partial = []" "L c Empty = []"
    by (cases "L c Partial"; cases "L c Empty") auto
  then show ?thesis
  proof cases
    case part
    then have s: "s \<in> set (L c Partial)" "free_top (slab_hdrs st s) \<noteq> 0" using kd [of s Partial] by auto
    obtain obj st' where t: "slab_take c s st = (obj, st')" by fastforce
    have "kmem_cache_alloc c st = Some (obj, st')"
      using P part t by (auto simp: kmem_cache_alloc_def list_empty_iff dest: is_list_hd)
    with slab_take_spec [OF inv c s t] part show ?thesis by (auto simp: cache_full_def)
  next
    case empty
    then have s: "s \<in> set (L c Empty)" "inuse (slab_hdrs st s) = 0" using kd [of s Empty] by auto
    have "s \<in> all_slabs (L c)" using s by (auto simp: all_slabs_mem)
    with cache_ok_slab [OF cok this] s cok have ft: "free_top (slab_hdrs st s) \<noteq> 0"
      by (auto simp: slab_wf_def cache_ok_def cache_wf_def)
    obtain obj st' where t: "slab_take c s st = (obj, st')" by fastforce
    have "kmem_cache_alloc c st = Some (obj, st')"
      using P E empty t by (auto simp: kmem_cache_alloc_def list_empty_iff dest: is_list_hd)
    with slab_take_spec [OF inv c s(1) ft t] empty show ?thesis by (auto simp: cache_full_def)
  next
    case new
    then have k: "kmem_cache_alloc c st = do {
        (s, st) \<leftarrow> slab_new c st;
        if s = 0 then Some (0, st)
        else Some (slab_take c s (st\<lparr>slab_lists := list_add (SlabLink s) (FreeHead c) (slab_lists st)\<rparr>)) }"
      using P E by (simp add: kmem_cache_alloc_def list_empty_iff)
    from slab_new_spec [OF inv c] obtain s st1 where n: "slab_new c st = Some (s, st1)"
      "s = 0 \<Longrightarrow> st1 = st" and M: "s \<noteq> 0 \<Longrightarrow> \<exists>M. slab_inv (st1\<lparr>slab_lists := list_add (SlabLink s) (FreeHead c) (slab_lists st1)\<rparr>) C M \<and>
       s \<in> set (M c Empty) \<and> free_top (slab_hdrs st1 s) \<noteq> 0 \<and>
       (\<forall>d\<in>C. cache_objs (st1\<lparr>slab_lists := list_add (SlabLink s) (FreeHead c) (slab_lists st1)\<rparr>) d (M d) =
         cache_objs st d (L d))" by blast
    let ?st2 = "st1\<lparr>slab_lists := list_add (SlabLink s) (FreeHead c) (slab_lists st1)\<rparr>"
    show ?thesis
    proof (cases "s = 0")
      case True
      with k n inv new show ?thesis by (auto simp: cache_full_def)
    next
      case False
      from M [OF False] obtain M where M: "slab_inv ?st2 C M" "s \<in> set (M c Empty)"
        "free_top (slab_hdrs ?st2 s) \<noteq> 0" "\<forall>d\<in>C. cache_objs ?st2 d (M d) = cache_objs st d (L d)" by auto
      obtain obj st' where t: "slab_take c s ?st2 = (obj, st')" by fastforce
      with k n False have "kmem_cache_alloc c st = Some (obj, st')" by simp
      moreover have "\<not> cache_full st c (L c)" using n(1) False by (simp add: cache_full_def)
      ultimately show ?thesis using slab_take_spec [OF M(1) c M(2,3) t] M(4) c by auto
    qed
  qed
qed

section \<open>Creating a cache\<close>

lemma cache_wf_create:
  assumes "0 < unat osz" and "unat osz \<le> 0x1000000"
  shows "cache_wf \<lparr>obj_size = ALIGN_UP osz 8, slab_capacity = max 1 (PAGE_SIZE * 4 div ALIGN_UP osz 8)\<rparr>"
proof -
  let ?o = "ALIGN_UP osz 8" and ?q = "16384 div unat (ALIGN_UP osz 8)"
  have o: "unat osz \<le> unat ?o" using assms by (intro ALIGN_UP_8(1)) simp
  have u: "unat ?o \<le> 0x1000000"
  proof -
    have "(unat osz + 7) div 8 \<le> (0x1000000 + 7) div 8" using assms(2) by (intro div_le_mono) simp
    then show ?thesis using assms(2) by (subst unat_ALIGN_UP_8) auto
  qed
  have cap: "unat (max 1 (PAGE_SIZE * 4 div ?o)) = max 1 ?q"
    by (simp add: max_def word_le_nat_alt unat_div PAGE_SIZE_def)
  have qo: "?q * unat ?o \<le> 16384" by (rule div_times_less_eq_dividend)
  have "max 1 ?q * unat ?o \<le> 0x1000000"
  proof (cases "?q = 0")
    case False
    then have "max 1 ?q = ?q" by simp
    then show ?thesis by (simp only:) (rule order_trans [OF qo], simp)
  qed (use u in simp)
  moreover have "max 1 ?q \<le> 16384" by (simp add: div_le_dividend)
  moreover have "0 < max 1 ?q" by simp
  ultimately obtain m where "unat (max 1 (PAGE_SIZE * 4 div ?o)) = m" "m * unat ?o \<le> 0x1000000"
    "m \<le> 16384" "0 < m" using cap by blast
  with o assms(1) show ?thesis
    by (simp add: cache_wf_def slab_bytes_def)
qed

lemma lists_ok_heads:
  assumes "lists_ok ls d M" and "c \<noteq> d"
  shows "lists_ok (list_init (FreeHead c) (list_init (PartialHead c) (list_init (FullHead c) ls))) d M"
proof -
  have "is_list (list_init (FreeHead c) (list_init (PartialHead c) (list_init (FullHead c) ls)))
      (head_of k d) (map SlabLink (M k))" for k
  proof -
    have "head_of k d \<noteq> FreeHead c" "head_of k d \<noteq> PartialHead c" "head_of k d \<noteq> FullHead c"
      using assms(2) by (cases k; simp)+
    moreover have "is_list ls (head_of k d) (map SlabLink (M k))"
      using assms(1) by (simp add: lists_ok_def)
    ultimately show ?thesis by (subst is_list_cong [where t = ls]) (auto simp: list_op_defs)
  qed
  with assms(1) show ?thesis by (simp add: lists_ok_def)
qed

lemma lists_ok_new:
  "lists_ok (list_init (FreeHead c) (list_init (PartialHead c) (list_init (FullHead c) ls))) c (\<lambda>_. [])"
proof -
  have "is_list (list_init (FreeHead c) (list_init (PartialHead c) (list_init (FullHead c) ls)))
      (head_of k c) []" for k
    by (cases k) (simp_all add: is_list_def list_op_defs)
  then show ?thesis by (simp add: lists_ok_def)
qed

lemma kmem_cache_create_spec:
  assumes inv: "slab_inv st C L" and osz: "0 < unat osz" "unat osz \<le> 0x1000000"
  shows "\<exists>c st'. kmem_cache_create osz st = Some (c, st') \<and>
    (if c = 0 then st' = st
     else c \<notin> C \<and> slab_inv st' (insert c C) (L(c := \<lambda>_. [])) \<and> obj_size (caches st' c) \<ge> osz \<and>
       cache_objs st' c (\<lambda>_. []) = {} \<and> (\<forall>d\<in>C. cache_objs st' d (L d) = cache_objs st d (L d)))"
proof -
  note h = slab_inv_heap [OF inv]
  have sz: "sizeof_kmem_cache \<noteq> 0" "unat sizeof_kmem_cache \<le> 0x4000000" "unat sizeof_kmem_cache = 40"
    by (simp_all add: sizeof_kmem_cache_def)
  from km.alloc_returns [OF h sz(1,2)] obtain c g where a: "kmalloc sizeof_kmem_cache (kheap_of st) = Some (c, g)"
    by blast
  show ?thesis
  proof (cases "c = 0")
    case True
    with a km.alloc_null [OF h sz(1,2)] show ?thesis by (simp add: kmem_cache_create_def)
  next
    case False
    from km.alloc_used [OF h sz(1,2) a False] sz(3) obtain n where n: "40 \<le> n"
      "live g = insert (unat c, n) (live (kheap_of st))" "\<forall>m. (unat c, m) \<notin> live (kheap_of st)" by auto
    let ?k = "\<lparr>obj_size = ALIGN_UP osz 8, slab_capacity = max 1 (PAGE_SIZE * 4 div ALIGN_UP osz 8)\<rparr>"
    let ?st' = "st\<lparr>kheap_of := g, caches := (caches st)(c := ?k), slab_lists := list_init (FreeHead c)
      (list_init (PartialHead c) (list_init (FullHead c) (slab_lists st)))\<rparr>"
    have "ALIGN_UP osz 8 \<noteq> 0" using cache_wf_create [OF osz] by (auto simp: cache_wf_def)
    then have cr: "kmem_cache_create osz st = Some (c, ?st')"
      using a False by (simp add: kmem_cache_create_def Let_def)
    have cC: "c \<notin> C" using inv n(3) by (auto simp: slab_inv_def)
    have cS: "c \<notin> all_slabs (L d)" if "d \<in> C" for d
      using cache_ok_slab [OF slab_inv_cache [OF inv that], of c] n(3) by (auto simp: slab_wf_def)
    have gok: "heap_ok g" by (rule km.alloc_ok [OF h sz(1,2) a])
    have "cache_ok ?st' d (L d)" if "d \<in> C" for d
    proof -
      have "d \<noteq> c" using that cC by auto
      with slab_inv_cache [OF inv that] n(2) show ?thesis
        by (auto simp: cache_ok_def lists_ok_heads intro: slab_wf_mono)
    qed
    moreover have "cache_ok ?st' c (\<lambda>_. [])"
      using cache_wf_create [OF osz] lists_ok_new by (simp add: cache_ok_def)
    moreover have "all_slabs (\<lambda>_. []) = {}" by (simp add: all_slabs_def)
    ultimately have "slab_inv ?st' (insert c C) (L(c := \<lambda>_. []))"
      using inv gok n(1,2) cC cS unfolding slab_inv_def by auto
    moreover have "ALIGN_UP osz 8 \<ge> osz"
      using ALIGN_UP_8(1) [of osz] osz by (simp add: word_le_nat_alt)
    moreover have "cache_objs ?st' d (L d) = cache_objs st d (L d)" if "d \<in> C" for d
      using that cC by (auto simp: cache_objs_def)
    ultimately show ?thesis
      using cr False cC by (auto simp: cache_objs_def all_slabs_def)
  qed
qed

section \<open>Destroying a cache\<close>

lemma free_slabs_list:
  assumes "is_list ls hn (map SlabLink xs)"
  shows "free_slabs ls hn (lnext ls hn) h = Some (fold kfree xs h)"
proof -
  have "free_slabs ls hn (lnext ls p) h = Some (fold kfree xs h)"
    if "dseg ls p (map SlabLink xs) hn" "hn \<notin> set (map SlabLink xs)" for p
    using that
  proof (induction xs arbitrary: p h)
    case Nil
    then show ?case by (simp add: free_slabs.simps)
  next
    case (Cons x xs)
    then show ?case by (auto simp: free_slabs.simps [of ls hn "SlabLink x"])
  qed
  with assms show ?thesis by (auto simp: is_list_def)
qed

lemma fold_kfree:
  assumes "heap_ok h" and "distinct xs" and "\<forall>x\<in>set xs. \<exists>n. (unat x, n) \<in> live h"
  shows "heap_ok (fold kfree xs h)"
    and "live (fold kfree xs h) = live h - {(a, n). \<exists>x\<in>set xs. a = unat x}"
proof -
  have "heap_ok (fold kfree xs h) \<and> live (fold kfree xs h) = live h - {(a, n). \<exists>x\<in>set xs. a = unat x}"
    using assms
  proof (induction xs arbitrary: h)
    case (Cons x xs)
    then obtain n where n: "(unat x, n) \<in> live h" by auto
    note f = kfree_spec [OF Cons.prems(1) n]
    have uniq: "m = n" if "(unat x, m) \<in> live h" for m
      using live_disjoint [OF Cons.prems(1) n that] by auto
    have "\<exists>n. (unat y, n) \<in> live (kfree x h)" if "y \<in> set xs" for y
    proof -
      have "unat y \<noteq> unat x" using that Cons.prems(2) by (auto simp flip: word_unat_eq_iff)
      with that Cons.prems(3) f show ?thesis by auto
    qed
    with Cons.IH [of "kfree x h"] Cons.prems(2) f
    have IH: "heap_ok (fold kfree xs (kfree x h))"
      "live (fold kfree xs (kfree x h)) = live h - {(unat x, n)} - {(a, n). \<exists>x\<in>set xs. a = unat x}"
      by simp_all
    have "p \<in> live h \<and> p \<noteq> (unat x, n) \<longleftrightarrow> p \<in> live h \<and> fst p \<noteq> unat x" for p
      using uniq by (cases p) auto
    then have "live h - {(unat x, n)} - {(a, n). \<exists>x\<in>set xs. a = unat x} =
        live h - {(a, n). \<exists>x\<in>set (x # xs). a = unat x}"
      by (intro set_eqI) (auto simp: split_beta)
    with IH show ?case by simp
  qed simp
  then show "heap_ok (fold kfree xs h)"
    "live (fold kfree xs h) = live h - {(a, n). \<exists>x\<in>set xs. a = unat x}" by auto
qed

lemma kmem_cache_destroy_spec:
  assumes inv: "slab_inv st C L" and c: "c \<in> C"
  shows "\<exists>st'. kmem_cache_destroy c st = Some st' \<and> slab_inv st' (C - {c}) L \<and>
    live (kheap_of st') = live (kheap_of st) - {(a, n). \<exists>x\<in>insert c (all_slabs (L c)). a = unat x}"
proof -
  let ?h = "kheap_of st" and ?xs = "L c Empty @ L c Partial @ L c Full @ [c]"
  let ?g = "fold kfree ?xs ?h"
  note h = slab_inv_heap [OF inv] and cok = slab_inv_cache [OF inv c]
  have lo: "is_list (slab_lists st) (head_of j c) (map SlabLink (L c j))"
    and dj: "\<And>i. i \<noteq> j \<Longrightarrow> set (L c i) \<inter> set (L c j) = {}" for j
    using cok by (auto simp: cache_ok_def lists_ok_def)
  note f = free_slabs_list [OF lo [of Empty, unfolded head_of.simps]]
    free_slabs_list [OF lo [of Partial, unfolded head_of.simps]]
    free_slabs_list [OF lo [of Full, unfolded head_of.simps]]
  have run: "kmem_cache_destroy c st = Some (st\<lparr>kheap_of := ?g\<rparr>)"
    by (simp add: kmem_cache_destroy_def f)
  have d: "distinct (L c j)" for j using lo [of j] by (simp add: is_list_def distinct_map)
  have nc: "c \<notin> all_slabs (L c)" using inv c by (simp add: slab_inv_def)
  have set: "set ?xs = insert c (all_slabs (L c))" by (auto simp: all_slabs_eq)
  have "distinct ?xs"
    using d dj [of Empty Partial] dj [of Empty Full] dj [of Partial Full] nc by (auto simp: all_slabs_eq)
  moreover have "\<exists>n. (unat x, n) \<in> live ?h" if "x \<in> set ?xs" for x
    using that [unfolded set] inv c cache_ok_slab [OF cok, of x] by (auto simp: slab_inv_def slab_wf_def)
  ultimately have g: "heap_ok ?g" "live ?g = live ?h - {(a, n). \<exists>x\<in>insert c (all_slabs (L c)). a = unat x}"
    using fold_kfree [OF h, of ?xs] unfolding set by blast+
  have keep: "(unat x, n) \<in> live ?g" if "(unat x, n) \<in> live ?h" "x \<notin> insert c (all_slabs (L c))" for x n
    using that unfolding g(2) by (auto simp flip: word_unat_eq_iff)
  have "cache_ok (st\<lparr>kheap_of := ?g\<rparr>) e (L e)" if e: "e \<in> C - {c}" for e
  proof -
    have eok: "cache_ok st e (L e)" using inv e by (simp add: slab_inv_def)
    have "slab_wf ?g (caches st e) (slab_hdrs st s) s" if "s \<in> set (L e j)" for s j
    proof -
      have s: "s \<in> all_slabs (L e)" using that by (auto simp: all_slabs_mem)
      then have "s \<notin> insert c (all_slabs (L c))" using inv c e by (auto simp: slab_inv_def)
      with cache_ok_slab [OF eok s] keep show ?thesis by (auto simp: slab_wf_def)
    qed
    with eok show ?thesis by (auto simp: cache_ok_def)
  qed
  moreover have "\<exists>n\<ge>40. (unat e, n) \<in> live ?g" if e: "e \<in> C - {c}" for e
  proof -
    have "e \<notin> insert c (all_slabs (L c))" using inv c e by (auto simp: slab_inv_def)
    moreover obtain n where "40 \<le> n" "(unat e, n) \<in> live ?h" using inv e by (auto simp: slab_inv_def)
    ultimately show ?thesis using keep by blast
  qed
  ultimately have "slab_inv (st\<lparr>kheap_of := ?g\<rparr>) (C - {c}) L"
    using inv g(1) by (simp add: slab_inv_def)
  with run g(2) show ?thesis by simp
qed

text \<open>A state with a freshly initialised heap and no caches, for concrete instances.\<close>

definition slab_boot :: slabs where
  "slab_boot = \<lparr>kheap_of = kheap_boot, caches = (\<lambda>_. \<lparr>obj_size = 0, slab_capacity = 0\<rparr>),
     slab_hdrs = (\<lambda>_. new_hdr 0 0), slab_lists = \<lparr>lnext = id, lprev = id\<rparr>\<rparr>"

lemma slab_boot_inv: "slab_inv slab_boot {} L"
  by (simp add: slab_inv_def slab_boot_def kheap_boot_ok)

lemma slab_boot_cache:
  "\<exists>c st. kmem_cache_create 24 slab_boot = Some (c, st) \<and> c \<noteq> 0 \<and> slab_inv st {c} (\<lambda>_ _. []) \<and>
     heap_cur (kheap_of st) = 0xD0004000 \<and> caches st c = \<lparr>obj_size = 24, slab_capacity = 682\<rparr>"
proof -
  have sz: "0 < unat (24 :: u32)" "unat (24 :: u32) \<le> 0x1000000" by simp_all
  from kmem_cache_create_spec [OF slab_boot_inv sz, of "\<lambda>_ _. []"] obtain c st where
    c: "kmem_cache_create 24 slab_boot = Some (c, st)"
    and inv: "c \<noteq> 0 \<Longrightarrow> slab_inv st {c} ((\<lambda>_ _. [])(c := \<lambda>_. []))"
    by (auto split: if_splits)
  have "find (fits kheap_boot (ALIGN_UP sizeof_kmem_cache 8)) [0xD0000000] = Some 0xD0000000"
    by (simp add: kheap_boot_def ALIGN_UP_def sizeof_kmem_cache_def)
  from kmalloc_fit(1) [OF kheap_boot_inv _ this]
  have "kmalloc sizeof_kmem_cache kheap_boot =
      Some (0xD0000010, take_block 0xD0000000 (ALIGN_UP sizeof_kmem_cache 8) kheap_boot)"
    by (simp add: HDR_SIZE_def sizeof_kmem_cache_def)
  moreover have "heap_cur (take_block b n kheap_boot) = 0xD0004000" for b n
    by (simp add: take_block_def split_block_def Let_def kheap_boot_def)
  moreover have "ALIGN_UP 24 8 = (24 :: u32)" by (simp add: ALIGN_UP_def)
  ultimately have "c \<noteq> 0" "heap_cur (kheap_of st) = 0xD0004000"
    "caches st c = \<lparr>obj_size = 24, slab_capacity = 682\<rparr>"
    using c by (auto simp: kmem_cache_create_def slab_boot_def Let_def PAGE_SIZE_def max_def)
  moreover have "((\<lambda>_ _. []) :: uptr \<Rightarrow> slab_kind \<Rightarrow> uptr list)(c := \<lambda>_. []) = (\<lambda>_ _. [])" by auto
  ultimately show ?thesis using c inv by auto
qed

lemma slab_one_partial:
  assumes inv: "slab_inv st {c} L" and o: "cache_objs st c (L c) = {unat (obj :: uptr)}" and cap: "slab_capacity (caches st c) = 682"
  shows "L c Partial \<noteq> []"
proof -
  note cok = slab_inv_cache [OF inv, of c, simplified]
  from o obtain s where s: "s \<in> all_slabs (L c)" "unat obj \<in> slab_objs (caches st c) (slab_hdrs st s) s"
    by (auto simp: cache_objs_def)
  have "s \<notin> set (L c Full)"
  proof
    assume "s \<in> set (L c Full)"
    then have "free_top (slab_hdrs st s) = 0" using cok unfolding cache_ok_def by (metis kind_ok.simps(2))
    then have "slab_objs (caches st c) (slab_hdrs st s) s = obj_addr (caches st c) s ` {..<682}"
      by (simp add: slab_objs_def free_idx_def cap)
    moreover have "slab_objs (caches st c) (slab_hdrs st s) s \<subseteq> {unat obj}"
      unfolding o [symmetric] cache_objs_def using s(1) by blast
    ultimately have "obj_addr (caches st c) s i = unat obj" if "i < 682" for i using that by blast
    from this [of 0] this [of 1] have "obj_addr (caches st c) s 0 = obj_addr (caches st c) s 1" by simp
    with cok show False by (simp add: obj_addr_inj cache_ok_def)
  qed
  with kmem_cache_free_finds(1) [OF inv, of c s obj] s show ?thesis by auto
qed

lemma slab_boot_object:
  "\<exists>c obj st0 st L. kmem_cache_create 24 slab_boot = Some (c, st0) \<and> c \<noteq> 0 \<and> kmem_cache_alloc c st0 = Some (obj, st) \<and> obj \<noteq> 0 \<and>
     slab_inv st0 {c} (\<lambda>_ _. []) \<and> slab_inv st {c} L \<and> cache_objs st c (L c) = {unat (obj :: uptr)} \<and>
     \<not> cache_full st c (L c)"
proof -
  from slab_boot_cache obtain c st where c: "kmem_cache_create 24 slab_boot = Some (c, st)" "c \<noteq> 0" and inv: "slab_inv st {c} (\<lambda>_ _. [])"
    and st: "heap_cur (kheap_of st) = 0xD0004000" "caches st c = \<lparr>obj_size = 24, slab_capacity = 682\<rparr>" by blast
  note h = slab_inv_heap [OF inv]
  from h obtain bs where bs: "heap_inv (kheap_of st) bs" by (auto simp: heap_ok_def)
  have t: "ALIGN_UP (sizeof_slab_hdr + 682 * 4 + 682 * 24) PAGE_SIZE = (20480 :: u32)"
    "ALIGN_UP 20480 8 = (20480 :: u32)"
    by (simp_all add: ALIGN_UP_def sizeof_slab_hdr_def PAGE_SIZE_def)
  from kmalloc_spec [OF bs, of 20480] st(1) obtain p g where
    k: "kmalloc 20480 (kheap_of st) = Some (p, g)" "p \<noteq> 0"
    by (auto simp: t heap_ext_def)
  have sz: "(20480 :: u32) \<noteq> 0" "unat (20480 :: u32) \<le> 0x4000000" by simp_all
  have "live g \<noteq> live (kheap_of st)" using km.alloc_used [OF h sz k] by auto
  have lo: "is_list (slab_lists st) (head_of j c) (map SlabLink [])" for j
    using inv by (simp add: slab_inv_def cache_ok_def lists_ok_def)
  have "slab_new c st = Some (p, st\<lparr>kheap_of := g, slab_hdrs := (slab_hdrs st)(p := new_hdr c 682),
      slab_lists := list_init (SlabLink p) (slab_lists st)\<rparr>)"
    using k st(2) t(1) by (simp add: slab_new_def Let_def new_hdr_def)
  then have "\<exists>obj st'. kmem_cache_alloc c st = Some (obj, st') \<and> kheap_of st' = g \<and> caches st' = caches st"
    using k(2) lo [of Partial] lo [of Empty]
    by (auto simp: kmem_cache_alloc_def list_empty_iff slab_take_def Let_def)
  moreover from kmem_cache_alloc_spec [OF inv, of c] obtain obj st' M where
    a: "kmem_cache_alloc c st = Some (obj, st')" "slab_inv st' {c} M"
      "if obj = 0 then st' = st \<and> M = (\<lambda>_ _. [])
       else cache_objs st' c (M c) = insert (unat obj) (cache_objs st c (\<lambda>_. []))"
    by (auto split: if_splits)
  ultimately have "obj \<noteq> 0" "caches st' = caches st" using \<open>live g \<noteq> live (kheap_of st)\<close> by auto
  moreover have "cache_objs st c (\<lambda>_. []) = {}" by (simp add: cache_objs_def all_slabs_def)
  ultimately have "cache_objs st' c (M c) = {unat obj}" "slab_capacity (caches st' c) = 682"
    using a(3) st(2) by simp_all
  moreover have "\<not> cache_full st' c (M c)" using slab_one_partial [OF a(2) calculation] by (simp add: cache_full_def)
  ultimately show ?thesis using a(1,2) c inv \<open>obj \<noteq> 0\<close> by blast
qed

lemma slab_boot_two_objects:
  "\<exists>c x y st0 st1 st. kmem_cache_create 24 slab_boot = Some (c, st0) \<and> c \<noteq> 0 \<and> kmem_cache_alloc c st0 = Some (x, st1) \<and>
     kmem_cache_alloc c st1 = Some (y, st) \<and> x \<noteq> 0 \<and> y \<noteq> 0 \<and> x \<noteq> y"
proof -
  from slab_boot_object obtain c obj st0 st L where inv: "slab_inv st {c} L"
    and r: "kmem_cache_create 24 slab_boot = Some (c, st0)" "c \<noteq> 0" "kmem_cache_alloc c st0 = Some (obj, st)" "obj \<noteq> 0"
    and o: "cache_objs st c (L c) = {unat (obj :: uptr)}" and nf: "\<not> cache_full st c (L c)" by blast
  from kmem_cache_alloc_spec [OF inv, of c] nf obtain y st' where "kmem_cache_alloc c st = Some (y, st')"
    "y \<noteq> 0" "unat y \<notin> cache_objs st c (L c)" by auto
  with r o show ?thesis by auto
qed

section \<open>The contract the clients rely on\<close>

text \<open>
  Clients keep records at the objects of a cache.  What they rely on: an allocation ends and gives
  an object that is not in use, a release of an object in use ends and takes back that object
  only, and the other caches are not affected.
\<close>

locale object_cache =
  fixes alloc :: "'c \<Rightarrow> 's \<Rightarrow> (uptr \<times> 's) option" and release :: "'c \<Rightarrow> uptr \<Rightarrow> 's \<Rightarrow> 's option"
    and inv :: "'s \<Rightarrow> 'c set \<Rightarrow> 'l \<Rightarrow> bool" and objs :: "'s \<Rightarrow> 'l \<Rightarrow> 'c \<Rightarrow> nat set"
  assumes alloc_ok: "inv st C L \<Longrightarrow> c \<in> C \<Longrightarrow>
      \<exists>obj st' M. alloc c st = Some (obj, st') \<and> inv st' C M \<and> (\<forall>d\<in>C. d \<noteq> c \<longrightarrow> objs st' M d = objs st L d) \<and>
        (if obj = 0 then objs st' M c = objs st L c
         else objs st' M c = insert (unat obj) (objs st L c) \<and> unat obj \<notin> objs st L c)"
    and release_ok: "inv st C L \<Longrightarrow> c \<in> C \<Longrightarrow> unat obj \<in> objs st L c \<Longrightarrow>
      \<exists>st' M. release c obj st = Some st' \<and> inv st' C M \<and> (\<forall>d\<in>C. d \<noteq> c \<longrightarrow> objs st' M d = objs st L d) \<and>
        objs st' M c = objs st L c - {unat obj}"
begin

text \<open>A new object is none of those a client holds already.\<close>

lemma alloc_new:
  assumes "inv st C L" and "c \<in> C" and "unat ` set xs \<subseteq> objs st L c"
  shows "\<exists>obj st' M. alloc c st = Some (obj, st') \<and> inv st' C M \<and> (\<forall>d\<in>C. d \<noteq> c \<longrightarrow> objs st' M d = objs st L d) \<and>
    unat ` set xs \<subseteq> objs st' M c \<and> (obj \<noteq> 0 \<longrightarrow> obj \<notin> set xs \<and> unat obj \<in> objs st' M c)"
proof -
  from alloc_ok [OF assms(1,2)] obtain obj st' M where a: "alloc c st = Some (obj, st')" "inv st' C M"
    "\<forall>d\<in>C. d \<noteq> c \<longrightarrow> objs st' M d = objs st L d"
    "if obj = 0 then objs st' M c = objs st L c
     else objs st' M c = insert (unat obj) (objs st L c) \<and> unat obj \<notin> objs st L c" by blast
  with assms(3) show ?thesis by (intro exI [of _ obj] exI [of _ st'] exI [of _ M]) (auto split: if_splits)
qed

text \<open>Giving one object back leaves the others in use.\<close>

lemma release_one:
  assumes "inv st C L" and "c \<in> C" and "unat ` set (x # xs) \<subseteq> objs st L c" and "x \<notin> set xs"
  shows "\<exists>st' M. release c x st = Some st' \<and> inv st' C M \<and> (\<forall>d\<in>C. d \<noteq> c \<longrightarrow> objs st' M d = objs st L d) \<and>
    unat ` set xs \<subseteq> objs st' M c"
proof -
  have "unat x \<in> objs st L c" using assms(3) by simp
  from release_ok [OF assms(1,2) this] obtain st' M where r: "release c x st = Some st'" "inv st' C M"
    "\<forall>d\<in>C. d \<noteq> c \<longrightarrow> objs st' M d = objs st L d" "objs st' M c = objs st L c - {unat x}" by blast
  have "unat y \<noteq> unat x" if "y \<in> set xs" for y using that assms(4) by (auto simp: word_unat_eq_iff [symmetric])
  with r assms(3) show ?thesis by (intro exI [of _ st'] exI [of _ M]) auto
qed

end

interpretation oc: object_cache kmem_cache_alloc kmem_cache_free slab_inv "\<lambda>st L c. cache_objs st c (L c)"
proof
  show "slab_inv st C L \<Longrightarrow> c \<in> C \<Longrightarrow>
      \<exists>obj st' M. kmem_cache_alloc c st = Some (obj, st') \<and> slab_inv st' C M \<and>
        (\<forall>d\<in>C. d \<noteq> c \<longrightarrow> cache_objs st' d (M d) = cache_objs st d (L d)) \<and>
        (if obj = 0 then cache_objs st' c (M c) = cache_objs st c (L c)
         else cache_objs st' c (M c) = insert (unat obj) (cache_objs st c (L c)) \<and> unat obj \<notin> cache_objs st c (L c))"
    for st C L c using kmem_cache_alloc_spec [of st C L c] by (fastforce split: if_splits)
qed (rule slab_put_spec)

section \<open>Properties\<close>

text \<open>
  C8: \<^verbatim>\<open>kmem_cache_alloc\<close> hands out fresh objects.  With any number of well-formed caches on one
  well-formed heap it returns; a non-null result is an object of the cache that was not handed
  out before, exactly that object joins the objects handed out by the cache, the other caches
  keep theirs, and all caches and the heap stay well formed.  A null result changes nothing, and is returned exactly when
  the cache has neither a partial nor a free slab and the heap has no block for a new one.
\<close>

theorem kmem_cache_alloc_correct:
  assumes "slab_inv st C L" and "c \<in> C"
  shows "\<exists>obj st' M. kmem_cache_alloc c st = Some (obj, st') \<and> slab_inv st' C M \<and>
    (\<forall>d\<in>C. d \<noteq> c \<longrightarrow> cache_objs st' d (M d) = cache_objs st d (L d)) \<and>
    (if cache_full st c (L c) then obj = 0 \<and> st' = st \<and> M = L
     else obj \<noteq> 0 \<and> cache_objs st' c (M c) = insert (unat obj) (cache_objs st c (L c)) \<and>
       unat obj \<notin> cache_objs st c (L c))"
  by (rule kmem_cache_alloc_spec [OF assms])

theorem kmem_cache_alloc_correct_witness:
  "\<exists>c st obj st' M. slab_inv st {c} (\<lambda>_ _. []) \<and> kmem_cache_alloc c st = Some (obj, st') \<and> obj \<noteq> 0 \<and>
     slab_inv st' {c} M \<and> cache_objs st' c (M c) = {unat obj}"
proof -
  from slab_boot_object obtain c obj st0 st where inv: "slab_inv st0 {c} (\<lambda>_ _. [])"
    and a: "kmem_cache_alloc c st0 = Some (obj, st)" "obj \<noteq> 0" by blast
  have "cache_objs st0 c (\<lambda>_. []) = {}" by (simp add: cache_objs_def all_slabs_def)
  with kmem_cache_alloc_correct [OF inv, of c] a obtain M where "slab_inv st {c} M" "cache_objs st c (M c) = {unat obj}"
    by (auto split: if_splits)
  with inv a show ?thesis by blast
qed

text \<open>
  C19: \<^verbatim>\<open>kmem_cache_free\<close> of an object the cache has handed out finds its slab and returns; exactly
  that object is taken back, the other caches keep theirs, and all caches stay well formed.
\<close>

theorem kmem_cache_free_correct:
  assumes "slab_inv st C L" and "c \<in> C" and "unat obj \<in> cache_objs st c (L c)"
  shows "\<exists>st' M. kmem_cache_free c obj st = Some st' \<and> slab_inv st' C M \<and>
    (\<forall>d\<in>C. d \<noteq> c \<longrightarrow> cache_objs st' d (M d) = cache_objs st d (L d)) \<and>
    cache_objs st' c (M c) = cache_objs st c (L c) - {unat obj}"
  by (rule slab_put_spec [OF assms])

theorem kmem_cache_free_correct_witness:
  "\<exists>c obj st st' M. unat obj \<in> cache_objs st c (M c) \<and> kmem_cache_free c obj st = Some st'"
proof -
  from slab_boot_object obtain c obj st L where
    inv: "slab_inv st {c} L" "cache_objs st c (L c) = {unat (obj :: uptr)}" by blast
  with kmem_cache_free_correct [OF inv(1), of c obj] have "\<exists>st'. kmem_cache_free c obj st = Some st'" by auto
  moreover have "unat obj \<in> cache_objs st c (L c)" using inv(2) by simp
  ultimately show ?thesis by blast
qed

lemma slab_objects_apart:
  assumes inv: "slab_inv st C L" and c: "c \<in> C" "x \<in> cache_objs st c (L c)"
    and d: "d \<in> C" "y \<in> cache_objs st d (L d)" and ne: "(c, x) \<noteq> (d, y)"
  shows "0xD0000010 \<le> x \<and> x + unat (obj_size (caches st c)) \<le> 0xD4000000 \<and>
    (x + unat (obj_size (caches st c)) \<le> y \<or> y + unat (obj_size (caches st d)) \<le> x)"
proof -
  note h = slab_inv_heap [OF inv]
  note cok = slab_inv_cache [OF inv c(1)] and dok = slab_inv_cache [OF inv d(1)]
  from c(2) obtain s where s: "s \<in> all_slabs (L c)" "x \<in> slab_objs (caches st c) (slab_hdrs st s) s"
    by (auto simp: cache_objs_def)
  from d(2) obtain t where t: "t \<in> all_slabs (L d)" "y \<in> slab_objs (caches st d) (slab_hdrs st t) t"
    by (auto simp: cache_objs_def)
  note ws = cache_ok_slab [OF cok s(1)] and wt = cache_ok_slab [OF dok t(1)]
  note rs = slab_objs_range [OF s(2)]
  from ws obtain n where "(unat s, n) \<in> live (kheap_of st)" by (auto simp: slab_wf_def)
  note b = live_bounds [OF h this]
  have "x + unat (obj_size (caches st c)) \<le> y \<or> y + unat (obj_size (caches st d)) \<le> x"
  proof (cases "s = t")
    case False
    then show ?thesis using other_slab_objs [OF h ws wt _ s(2) t(2)] by simp
  next
    case True
    with s(1) t(1) inv c(1) d(1) have cd: "c = d" by (auto simp: slab_inv_def)
    from s(2) t(2) True cd obtain i j where "x = obj_addr (caches st c) s i" "y = obj_addr (caches st c) s j"
      by (auto simp: slab_objs_def)
    moreover from this ne cd have "Suc i \<le> j \<or> Suc j \<le> i" by (metis Suc_leI linorder_neqE_nat)
    then have "Suc i * unat (obj_size (caches st c)) \<le> j * unat (obj_size (caches st c)) \<or>
      Suc j * unat (obj_size (caches st c)) \<le> i * unat (obj_size (caches st c))"
      using mult_le_mono1 by blast
    ultimately show ?thesis using cd by (auto simp: obj_addr_def)
  qed
  with b slab_wf_room [OF h ws] rs show ?thesis by simp
qed

text \<open>
  The histories of the caches: \<open>C\<close> are the caches created so far, \<open>H\<close> the objects their clients hold, each with
  its cache.  A client gives back only what it holds.
\<close>

inductive cache_reach :: "slabs \<Rightarrow> uptr set \<Rightarrow> (uptr \<times> uptr) set \<Rightarrow> bool" where
  start: "heap_ok (kheap_of st) \<Longrightarrow> cache_reach st {} {}"
| create: "cache_reach st C H \<Longrightarrow> 0 < unat osz \<Longrightarrow> unat osz \<le> 0x1000000 \<Longrightarrow> kmem_cache_create osz st = Some (c, st') \<Longrightarrow>
    cache_reach st' (if c = 0 then C else insert c C) H"
| alloc: "cache_reach st C H \<Longrightarrow> c \<in> C \<Longrightarrow> kmem_cache_alloc c st = Some (obj, st') \<Longrightarrow>
    cache_reach st' C (if obj = 0 then H else insert (c, obj) H)"
| free: "cache_reach st C H \<Longrightarrow> (c, obj) \<in> H \<Longrightarrow> kmem_cache_free c obj st = Some st' \<Longrightarrow> cache_reach st' C (H - {(c, obj)})"

definition held :: "(uptr \<times> uptr) set \<Rightarrow> uptr \<Rightarrow> nat set" where
  "held H c = unat ` {x. (c, x) \<in> H}"

lemma held_simps: "held {} c = {}"
  "held (insert (d, x) H) c = (if c = d then insert (unat x) (held H c) else held H c)"
  "held (H - {(d, x)}) c = (if c = d then held H c - {unat x} else held H c)"
  by (auto simp: held_def word_unat_eq_iff)

lemma cache_reach_inv:
  assumes "cache_reach st C H"
  shows "\<exists>L. slab_inv st C L \<and> fst ` H \<subseteq> C \<and> (\<forall>c\<in>C. cache_objs st c (L c) = held H c)"
  using assms
proof induction
  case (start st)
  then show ?case by (simp add: slab_inv_def)
next
  case (create st C H osz c st')
  from create.IH obtain L where L: "slab_inv st C L" "fst ` H \<subseteq> C" "\<forall>c\<in>C. cache_objs st c (L c) = held H c" by blast
  from kmem_cache_create_spec [OF L(1) create.hyps(2,3)] create.hyps(4)
  have c: "if c = 0 then st' = st else c \<notin> C \<and> slab_inv st' (insert c C) (L(c := \<lambda>_. [])) \<and>
      cache_objs st' c (\<lambda>_. []) = {} \<and> (\<forall>d\<in>C. cache_objs st' d (L d) = cache_objs st d (L d))" by (auto split: if_splits)
  show ?case
  proof (cases "c = 0")
    case False
    then have "held H c = {}" using c L(2) by (force simp: held_def)
    moreover have "\<forall>d\<in>insert c C. cache_objs st' d ((L(c := \<lambda>_. [])) d) = held H d" using False c L(3) calculation by auto
    moreover have "slab_inv st' (insert c C) (L(c := \<lambda>_. []))" "fst ` H \<subseteq> insert c C" using False c L(2) by auto
    ultimately show ?thesis unfolding if_not_P [OF False] by blast
  qed (use c L in auto)
next
  case (alloc st C H c obj st')
  from alloc.IH obtain L where L: "slab_inv st C L" "fst ` H \<subseteq> C" "\<forall>c\<in>C. cache_objs st c (L c) = held H c" by blast
  from oc.alloc_ok [OF L(1) alloc.hyps(2)] obtain y t M where M: "kmem_cache_alloc c st = Some (y, t)" "slab_inv t C M"
    "\<forall>d\<in>C. d \<noteq> c \<longrightarrow> cache_objs t d (M d) = cache_objs st d (L d)"
    "if y = 0 then cache_objs t c (M c) = cache_objs st c (L c)
     else cache_objs t c (M c) = insert (unat y) (cache_objs st c (L c)) \<and> unat y \<notin> cache_objs st c (L c)" by blast
  then have "\<forall>d\<in>C. cache_objs st' d (M d) = held (if obj = 0 then H else insert (c, obj) H) d"
    using L(3) alloc.hyps(2,3) by (auto simp: held_simps split: if_splits)
  moreover have "fst ` (if obj = 0 then H else insert (c, obj) H) \<subseteq> C" using L(2) alloc.hyps(2) by auto
  ultimately show ?case using M(1,2) alloc.hyps(3) by auto
next
  case (free st C H c obj st')
  from free.IH obtain L where L: "slab_inv st C L" "fst ` H \<subseteq> C" "\<forall>c\<in>C. cache_objs st c (L c) = held H c" by blast
  then have c: "c \<in> C" "unat obj \<in> cache_objs st c (L c)" using free.hyps(2) by (force simp: held_def)+
  from oc.release_ok [OF L(1) c] obtain t M where M: "kmem_cache_free c obj st = Some t" "slab_inv t C M"
    "\<forall>d\<in>C. d \<noteq> c \<longrightarrow> cache_objs t d (M d) = cache_objs st d (L d)"
    "cache_objs t c (M c) = cache_objs st c (L c) - {unat obj}" by blast
  then have "\<forall>d\<in>C. cache_objs st' d (M d) = held (H - {(c, obj)}) d"
    using L(3) c(1) free.hyps(3) by (auto simp: held_simps)
  moreover have "fst ` (H - {(c, obj)}) \<subseteq> C" using L(2) by auto
  ultimately show ?case using M(1,2) free.hyps(3) by auto
qed

text \<open>
  C20: in every history of creating caches, allocating objects and giving them back, on a heap that is well formed
  at its start and has no other user, two objects that clients hold, of one cache or of two, do not overlap, and
  each lies inside the heap window; allocating from a cache and giving back an object that is held always return.
\<close>

theorem slab_objects_separate:
  assumes "cache_reach st C H" and "(c, x) \<in> H" and "(d, y) \<in> H" and "(c, x) \<noteq> (d, y)"
  shows "0xD0000010 \<le> unat x \<and> unat x + unat (obj_size (caches st c)) \<le> 0xD4000000 \<and>
    (unat x + unat (obj_size (caches st c)) \<le> unat y \<or> unat y + unat (obj_size (caches st d)) \<le> unat x) \<and>
    kmem_cache_alloc c st \<noteq> None \<and> kmem_cache_free c x st \<noteq> None"
proof -
  from cache_reach_inv [OF assms(1)] obtain L where
    L: "slab_inv st C L" "fst ` H \<subseteq> C" "\<forall>c\<in>C. cache_objs st c (L c) = held H c" by blast
  have c: "c \<in> C" "unat x \<in> cache_objs st c (L c)" and d: "d \<in> C" "unat y \<in> cache_objs st d (L d)"
    using L(2,3) assms(2,3) by (force simp: held_def)+
  have "(c, unat x) \<noteq> (d, unat y)" using assms(4) by (simp add: word_unat_eq_iff)
  from slab_objects_apart [OF L(1) c d this] oc.alloc_ok [OF L(1) c(1)] oc.release_ok [OF L(1) c] show ?thesis by auto
qed

theorem slab_objects_separate_witness:
  "\<exists>c x y st. cache_reach st {c} {(c, x), (c, y)} \<and> x \<noteq> y \<and>
     (unat x + unat (obj_size (caches st c)) \<le> unat y \<or> unat y + unat (obj_size (caches st c)) \<le> unat x)"
proof -
  from slab_boot_two_objects obtain c x y st0 st1 st where r: "kmem_cache_create 24 slab_boot = Some (c, st0)" "c \<noteq> 0"
    "kmem_cache_alloc c st0 = Some (x, st1)" "kmem_cache_alloc c st1 = Some (y, st)" "x \<noteq> 0" "y \<noteq> 0" "x \<noteq> y" by blast
  have "cache_reach slab_boot {} {}" by (rule cache_reach.start) (simp add: slab_boot_def kheap_boot_ok)
  from cache_reach.create [OF this _ _ r(1)] r(2) have "cache_reach st0 {c} {}" by simp
  from cache_reach.alloc [OF this _ r(3)] r(5) have "cache_reach st1 {c} {(c, x)}" by simp
  from cache_reach.alloc [OF this _ r(4)] r(6) have "cache_reach st {c} {(c, y), (c, x)}" by simp
  then have reach: "cache_reach st {c} {(c, x), (c, y)}" by (simp add: insert_commute)
  from slab_objects_separate [OF this, of c x c y] r(7) reach show ?thesis by auto
qed

text \<open>
  \<^verbatim>\<open>kmem_cache_create\<close> adds a well-formed cache without objects to the caches of the heap, or
  returns null and changes nothing; \<^verbatim>\<open>kmem_cache_destroy\<close> returns, gives exactly the blocks of the
  cache and of its slabs back to the heap, and keeps the other caches well formed.
\<close>

theorem kmem_cache_create_destroy:
  assumes "slab_inv st C L" and "0 < unat osz" and "unat osz \<le> 0x1000000"
  shows "(\<exists>c st'. kmem_cache_create osz st = Some (c, st') \<and>
      (if c = 0 then st' = st
       else c \<notin> C \<and> slab_inv st' (insert c C) (L(c := \<lambda>_. [])) \<and> obj_size (caches st' c) \<ge> osz \<and>
         cache_objs st' c (\<lambda>_. []) = {} \<and> (\<forall>d\<in>C. cache_objs st' d (L d) = cache_objs st d (L d)))) \<and>
    (\<forall>c\<in>C. \<exists>st'. kmem_cache_destroy c st = Some st' \<and> slab_inv st' (C - {c}) L \<and>
      live (kheap_of st') =
        live (kheap_of st) - {(a, n). \<exists>x\<in>insert c (all_slabs (L c)). a = unat x})"
  using kmem_cache_create_spec [OF assms] kmem_cache_destroy_spec [OF assms(1)] by blast

theorem kmem_cache_create_destroy_witness:
  "\<exists>c st'. kmem_cache_create 24 slab_boot = Some (c, st')"
proof -
  have "0 < unat (24 :: u32)" "unat (24 :: u32) \<le> 0x1000000" by simp_all
  from kmem_cache_create_destroy [OF slab_boot_inv this, of "\<lambda>_ _. []"] show ?thesis by blast
qed

end
