(* ===== verification/Pmm.thy ===== *)
theory Pmm
  imports Prelude "HOL-Library.Monad_Syntax"
begin

text \<open>
  The physical page allocator of \<^verbatim>\<open>mm/pmm.c\<close>: a bitmap with one bit per 4 KiB page (1 means
  free), a count of free pages and a count of all usable pages.  The model keeps the bitmap
  as the array of 32-bit words it is and translates the bit macros, the scans and the boot-time
  set-up.  Its abstraction is the set of free page numbers, \<open>free_set\<close>, and the invariant
  \<open>pmm_inv\<close> says that the free count is the size of that set and that page 0 is never free
  (address 0 is the failure value of the allocators).
\<close>

section \<open>State and bit operations\<close>

definition BITMAP_BITS :: nat where
  [layout_defs]: "BITMAP_BITS = 1024 * 1024 * 1024 div 4096"

definition BITMAP_WORDS :: nat where
  [layout_defs]: "BITMAP_WORDS = BITMAP_BITS div 32"

definition PHYS_MEM_MAX :: u32 where
  [layout_defs]: "PHYS_MEM_MAX = 1024 * 1024 * 1024"

type_synonym bitmap = "nat \<Rightarrow> u32"

definition BIT_SET :: "nat \<Rightarrow> bitmap \<Rightarrow> bitmap" where
  "BIT_SET i b = b(i div 32 := b (i div 32) OR push_bit (i mod 32) 1)"

definition BIT_CLR :: "nat \<Rightarrow> bitmap \<Rightarrow> bitmap" where
  "BIT_CLR i b = b(i div 32 := b (i div 32) AND NOT (push_bit (i mod 32) 1))"

definition BIT_TST :: "bitmap \<Rightarrow> nat \<Rightarrow> bool" where
  "BIT_TST b i \<longleftrightarrow> drop_bit (i mod 32) (b (i div 32)) AND 1 \<noteq> 0"

record pmm =
  bitmap :: bitmap
  total_pages_count :: u32
  free_pages_count :: u32

record mb2_mmap_entry =
  base_addr :: u64
  mlength :: u64
  mtype :: u32

section \<open>Operations\<close>

subsection \<open>Marking and boot-time set-up\<close>

text \<open>One iteration of the loop of \<^verbatim>\<open>pmm_mark_used\<close>.\<close>

definition pmm_mark_page :: "uptr \<Rightarrow> pmm \<Rightarrow> pmm" where
  "pmm_mark_page p s =
     (let idx = unat (p div PAGE_SIZE)
      in if idx < BITMAP_BITS \<and> BIT_TST (bitmap s) idx
         then s\<lparr>bitmap := BIT_CLR idx (bitmap s),
                free_pages_count :=
                  (if free_pages_count s \<noteq> 0 then free_pages_count s - 1 else free_pages_count s)\<rparr>
         else s)"

definition pmm_mark_used :: "uptr \<Rightarrow> uptr \<Rightarrow> pmm \<Rightarrow> pmm" where
  "pmm_mark_used start stop s =
     fold pmm_mark_page (page_steps (ALIGN_DOWN start PAGE_SIZE) (ALIGN_UP stop PAGE_SIZE)) s"

text \<open>One iteration of the loop that releases an available region.\<close>

definition pmm_add_page :: "uptr \<Rightarrow> pmm \<Rightarrow> pmm" where
  "pmm_add_page p s =
     (let idx = unat (p div PAGE_SIZE)
      in if idx < BITMAP_BITS
         then s\<lparr>bitmap := BIT_SET idx (bitmap s),
                total_pages_count := total_pages_count s + 1,
                free_pages_count := free_pages_count s + 1\<rparr>
         else s)"

definition MB2_MEM_AVAILABLE :: u32 where
  "MB2_MEM_AVAILABLE = 1"

text \<open>The casts to \<^verbatim>\<open>uptr\<close> keep the low 32 bits of the aligned 64-bit addresses.\<close>

definition pmm_add_entry :: "mb2_mmap_entry \<Rightarrow> pmm \<Rightarrow> pmm" where
  "pmm_add_entry e s =
     (if mtype e = MB2_MEM_AVAILABLE
      then let base = base_addr e; len = mlength e;
               page_base = ucast (ALIGN_UP base 4096) :: uptr;
               page_end = ucast (ALIGN_DOWN (base + len) 4096) :: uptr
           in fold pmm_add_page (page_steps page_base page_end) s
      else s)"

text \<open>
  The walk over the memory-map entries the boot loader left in memory (\<open>rd\<close> reads the entry
  at an address); with an entry size of 0 it does not end.
\<close>

partial_function (option) pmm_init_entries ::
  "(uptr \<Rightarrow> mb2_mmap_entry) \<Rightarrow> u32 \<Rightarrow> uptr \<Rightarrow> uptr \<Rightarrow> pmm \<Rightarrow> pmm option" where
  "pmm_init_entries rd entry_size e stop s =
     (if e < stop
      then pmm_init_entries rd entry_size (e + entry_size) stop (pmm_add_entry (rd e) s)
      else Some s)"

definition pmm_init_fallback :: "pmm \<Rightarrow> pmm" where
  "pmm_init_fallback s =
     fold (\<lambda>i s. s\<lparr>bitmap := BIT_SET i (bitmap s),
                    total_pages_count := total_pages_count s + 1,
                    free_pages_count := free_pages_count s + 1\<rparr>) [256..<16384] s"

text \<open>
  \<open>kernel_phys_end\<close> is the linker's end-of-kernel symbol; \<open>entry_size\<close> is the field of the tag
  at \<open>mmap_addr\<close>.  The counters start at 0 and are not reset here.
\<close>

definition pmm_init ::
  "(uptr \<Rightarrow> mb2_mmap_entry) \<Rightarrow> u32 \<Rightarrow> uptr \<Rightarrow> uptr \<Rightarrow> u32 \<Rightarrow> pmm \<Rightarrow> pmm option" where
  "pmm_init rd entry_size kernel_phys_end mmap_addr mmap_len s =
     do {
       s \<leftarrow> (let s = s\<lparr>bitmap := (\<lambda>_. 0)\<rparr>
            in if mmap_addr \<noteq> 0
               then let tag = phys_to_virt mmap_addr
                    in pmm_init_entries rd entry_size (tag + 16) (tag + mmap_len) s
               else Some (pmm_init_fallback s));
       let kend = ALIGN_UP kernel_phys_end PAGE_SIZE;
       let s = pmm_mark_used 0 (kend + PAGE_SIZE * 16) s;
       Some (s\<lparr>bitmap := BIT_CLR 0 (bitmap s)\<rparr>)
     }"

subsection \<open>Allocation and release\<close>

function pmm_scan :: "bitmap \<Rightarrow> nat \<Rightarrow> nat option" where
  "pmm_scan b w =
     (if w < BITMAP_WORDS then (if b w \<noteq> 0 then Some w else pmm_scan b (Suc w)) else None)"
  by pat_completeness auto
termination
  by (relation "measure (\<lambda>(b, w). BITMAP_WORDS - w)") auto

declare pmm_scan.simps [simp del]

text \<open>\<^verbatim>\<open>__builtin_ctz\<close>: the number of trailing zero bits of a nonzero word.\<close>

definition ctz :: "u32 \<Rightarrow> nat" where
  "ctz x = length (takeWhile (\<lambda>i. \<not> bit x i) [0..<32])"

definition pmm_alloc :: "pmm \<Rightarrow> uptr \<times> pmm" where
  "pmm_alloc s =
     (case pmm_scan (bitmap s) 0 of
        None \<Rightarrow> (0, s)
      | Some w \<Rightarrow>
          let b = ctz (bitmap s w)
          in (of_nat (w * 32 + b) * PAGE_SIZE,
              s\<lparr>bitmap := BIT_CLR (w * 32 + b) (bitmap s),
                free_pages_count := free_pages_count s - 1\<rparr>))"

definition pmm_free :: "uptr \<Rightarrow> pmm \<Rightarrow> pmm" where
  "pmm_free phys s =
     (if phys = 0 \<or> phys \<ge> PHYS_MEM_MAX then s
      else let idx = unat (phys div PAGE_SIZE)
           in if \<not> BIT_TST (bitmap s) idx
              then s\<lparr>bitmap := BIT_SET idx (bitmap s),
                     free_pages_count := free_pages_count s + 1\<rparr>
              else s)"

text \<open>The scan of \<^verbatim>\<open>pmm_alloc_contiguous\<close>: \<open>found\<close> free pages in a row so far, from \<open>start\<close>.\<close>

function pmm_find_run :: "bitmap \<Rightarrow> nat \<Rightarrow> nat \<Rightarrow> nat \<Rightarrow> nat \<Rightarrow> nat option" where
  "pmm_find_run b n i found start =
     (if i < BITMAP_BITS
      then if BIT_TST b i
           then let start = (if found = 0 then i else start); found = found + 1
                in if found = n then Some start else pmm_find_run b n (Suc i) found start
           else pmm_find_run b n (Suc i) 0 start
      else None)"
  by pat_completeness auto
termination
  by (relation "measure (\<lambda>(b, n, i, found, start). BITMAP_BITS - i)") auto

declare pmm_find_run.simps [simp del]

definition pmm_alloc_contiguous :: "u32 \<Rightarrow> pmm \<Rightarrow> uptr \<times> pmm" where
  "pmm_alloc_contiguous n s =
     (if n = 0 then (0, s)
      else case pmm_find_run (bitmap s) (unat n) 1 0 0 of
        None \<Rightarrow> (0, s)
      | Some start \<Rightarrow>
          (of_nat start * PAGE_SIZE,
           s\<lparr>bitmap := fold BIT_CLR [start..<start + unat n] (bitmap s),
             free_pages_count := free_pages_count s - n\<rparr>))"

definition pmm_free_contiguous :: "uptr \<Rightarrow> u32 \<Rightarrow> pmm \<Rightarrow> pmm" where
  "pmm_free_contiguous phys n s =
     fold (\<lambda>i. pmm_free (phys + of_nat i * PAGE_SIZE)) [0..<unat n] s"

definition pmm_free_pages :: "pmm \<Rightarrow> u32" where
  "pmm_free_pages s = free_pages_count s"

definition pmm_total_pages :: "pmm \<Rightarrow> u32" where
  "pmm_total_pages s = total_pages_count s"

section \<open>Abstraction and invariant\<close>

definition free_set :: "pmm \<Rightarrow> nat set" where
  "free_set s = {i. i < BITMAP_BITS \<and> BIT_TST (bitmap s) i}"

definition pmm_inv :: "pmm \<Rightarrow> bool" where
  "pmm_inv s \<longleftrightarrow> unat (free_pages_count s) = card (free_set s) \<and> 0 \<notin> free_set s"

abbreviation pfn :: "uptr \<Rightarrow> nat" where
  "pfn p \<equiv> unat p div 4096"

section \<open>Bits\<close>

lemma BIT_TST_bit: "BIT_TST b i \<longleftrightarrow> bit (b (i div 32)) (i mod 32)"
  by (simp add: BIT_TST_def bit_iff_odd_drop_bit and_one_eq mod2_eq_if)

lemma div_mod_32_eq: "i div 32 = j div 32 \<Longrightarrow> i mod 32 = j mod 32 \<Longrightarrow> i = j" for i j :: nat
  by (metis div_mult_mod_eq)

lemma BIT_TST_SET [simp]: "BIT_TST (BIT_SET i b) j \<longleftrightarrow> i = j \<or> BIT_TST b j"
  by (auto simp: BIT_TST_bit BIT_SET_def bit_simps dest: div_mod_32_eq)

lemma BIT_TST_CLR [simp]: "BIT_TST (BIT_CLR i b) j \<longleftrightarrow> i \<noteq> j \<and> BIT_TST b j"
  by (auto simp: BIT_TST_bit BIT_CLR_def bit_simps dest: div_mod_32_eq)

lemma BIT_TST_fold_CLR: "BIT_TST (fold BIT_CLR is b) j \<longleftrightarrow> j \<notin> set is \<and> BIT_TST b j"
  by (induction "is" arbitrary: b) auto

lemma finite_free_set [simp]: "finite (free_set s)"
  by (simp add: free_set_def)

lemma card_free_set: "card (free_set s) \<le> BITMAP_BITS"
  by (rule order_trans [OF card_mono [of "{..<BITMAP_BITS}"]]) (auto simp: free_set_def)

lemma card_free_set_less: "card (free_set s) < 2 ^ 32"
  using card_free_set [of s] by (simp add: layout_defs)

text \<open>How a single bit write moves the abstraction.\<close>

lemma free_set_CLR [simp]:
  "free_set (s\<lparr>bitmap := BIT_CLR i b\<rparr>) = free_set (s\<lparr>bitmap := b\<rparr>) - {i}"
  "free_set (s\<lparr>bitmap := BIT_CLR i b, free_pages_count := c\<rparr>) = free_set (s\<lparr>bitmap := b\<rparr>) - {i}"
  by (auto simp: free_set_def)

lemma free_set_SET [simp]:
  "i < BITMAP_BITS \<Longrightarrow>
    free_set (s\<lparr>bitmap := BIT_SET i b, free_pages_count := c\<rparr>) = insert i (free_set (s\<lparr>bitmap := b\<rparr>))"
  "i < BITMAP_BITS \<Longrightarrow>
    free_set (s\<lparr>bitmap := BIT_SET i b, total_pages_count := d, free_pages_count := c\<rparr>) =
    insert i (free_set (s\<lparr>bitmap := b\<rparr>))"
  by (auto simp: free_set_def)

lemma pmm_upd_bitmap_same [simp]: "s\<lparr>bitmap := bitmap s\<rparr> = s"
  by simp

lemma free_set_mem: "i \<in> free_set s \<longleftrightarrow> i < BITMAP_BITS \<and> BIT_TST (bitmap s) i"
  by (simp add: free_set_def)

text \<open>Counting: one page leaves or joins the free set.\<close>

lemma unat_dec_card:
  assumes "unat c = card (free_set s)" and "i \<in> free_set s"
  shows "unat (c - 1) = card (free_set s - {i})"
proof -
  have "0 < unat c" using assms by (auto simp: card_gt_0_iff)
  then have "unat (c - 1) = unat c - 1"
    by (metis gr_implies_not0 unat_0 unat_minus_one)
  with assms show ?thesis by simp
qed

lemma unat_inc_card:
  assumes "unat (c :: u32) = card (free_set s)" and "i \<notin> free_set s" and "i < BITMAP_BITS"
  shows "unat (c + 1) = card (insert i (free_set s))"
proof -
  have "card (free_set s) < 2 ^ 32 - 1"
    using card_free_set [of s] by (simp add: layout_defs)
  then have "unat (c + 1) = unat c + 1"
    using assms(1) by (subst unat_add_nowrap) auto
  with assms show ?thesis by simp
qed

section \<open>Allocating one page\<close>

lemma ctz_props:
  assumes "x \<noteq> 0"
  shows "ctz x < 32" and "bit x (ctz x)" and "i < ctz x \<Longrightarrow> \<not> bit x i"
proof -
  from assms obtain j where j: "bit x j" by (auto simp: bit_eq_iff)
  then have "j < 32" using bit_imp_le_length [of x j] by simp
  with j have "length (takeWhile (\<lambda>i. \<not> bit x i) [0..<32]) < length [0..<32]"
    by (intro length_takeWhile_lt [of j]) auto
  then show "ctz x < 32" by (simp add: ctz_def)
  then show "bit x (ctz x)"
    unfolding ctz_def
    using nth_length_takeWhile [of "\<lambda>i. \<not> bit x i" "[0..<32]"] by simp
  show "\<not> bit x i" if "i < ctz x"
  proof -
    let ?xs = "takeWhile (\<lambda>i. \<not> bit x i) [0..<32]"
    have "?xs ! i = i" using that \<open>ctz x < 32\<close> by (simp add: ctz_def takeWhile_nth)
    moreover have "?xs ! i \<in> set ?xs" using that by (intro nth_mem) (simp add: ctz_def)
    ultimately show ?thesis by (auto dest: set_takeWhileD)
  qed
qed

lemma pmm_scan_Some:
  "pmm_scan b w = Some v \<Longrightarrow> w \<le> v \<and> v < BITMAP_WORDS \<and> b v \<noteq> 0 \<and> (\<forall>u. w \<le> u \<and> u < v \<longrightarrow> b u = 0)"
proof (induction b w rule: pmm_scan.induct)
  case (1 b w)
  show ?case
  proof (cases "w < BITMAP_WORDS \<and> b w = 0")
    case True
    with 1 have "Suc w \<le> v \<and> v < BITMAP_WORDS \<and> b v \<noteq> 0 \<and> (\<forall>u. Suc w \<le> u \<and> u < v \<longrightarrow> b u = 0)"
      by (simp add: pmm_scan.simps [of b w])
    with True show ?thesis by (metis Suc_leD Suc_leI le_neq_implies_less)
  next
    case False
    with 1 show ?thesis by (auto simp: pmm_scan.simps [of b w] split: if_splits)
  qed
qed

lemma pmm_scan_None: "pmm_scan b w = None \<Longrightarrow> w \<le> u \<Longrightarrow> u < BITMAP_WORDS \<Longrightarrow> b u = 0"
proof (induction b w rule: pmm_scan.induct)
  case (1 b w)
  then show ?case
    by (cases "u = w") (auto simp: pmm_scan.simps [of b w] split: if_splits)
qed

lemma pmm_scan_free_set:
  shows "pmm_scan (bitmap s) 0 = None \<Longrightarrow> free_set s = {}"
    and "pmm_scan (bitmap s) 0 = Some w \<Longrightarrow>
      free_set s \<noteq> {} \<and> w * 32 + ctz (bitmap s w) = Min (free_set s)"
proof -
  have words: "i < BITMAP_BITS \<longleftrightarrow> i div 32 < BITMAP_WORDS" for i
    by (auto simp: layout_defs)
  show "free_set s = {}" if "pmm_scan (bitmap s) 0 = None"
    using pmm_scan_None [OF that] by (auto simp: free_set_def BIT_TST_bit words)
  show "free_set s \<noteq> {} \<and> w * 32 + ctz (bitmap s w) = Min (free_set s)"
    if w: "pmm_scan (bitmap s) 0 = Some w"
  proof -
    let ?i = "w * 32 + ctz (bitmap s w)"
    from pmm_scan_Some [OF w] have w1: "w < BITMAP_WORDS" "bitmap s w \<noteq> 0"
      and w2: "\<And>u. u < w \<Longrightarrow> bitmap s u = 0" by auto
    note c = ctz_props [OF w1(2)]
    have mem: "?i \<in> free_set s"
      using w1 c by (simp add: free_set_mem words BIT_TST_bit)
    moreover have "?i \<le> j" if "j \<in> free_set s" for j
    proof -
      from that have bj: "bit (bitmap s (j div 32)) (j mod 32)" by (simp add: free_set_mem BIT_TST_bit)
      then have "\<not> j div 32 < w" using w2 by fastforce
      then consider "w < j div 32" | "j div 32 = w" by linarith
      then show ?thesis
      proof cases
        case 1
        then show ?thesis using c(1) by linarith
      next
        case 2
        with bj c(3) have "ctz (bitmap s w) \<le> j mod 32" by (meson not_le_imp_less)
        with 2 show ?thesis by (metis add_le_cancel_left div_mult_mod_eq)
      qed
    qed
    ultimately show ?thesis by (metis Min_eqI emptyE finite_free_set)
  qed
qed

lemma pmm_alloc_empty: "free_set s = {} \<Longrightarrow> pmm_alloc s = (0, s)"
  using pmm_scan_free_set(2) [of s] by (auto simp: pmm_alloc_def split: option.splits)

lemma pmm_alloc_nonempty:
  assumes "free_set s \<noteq> {}"
  shows "pmm_alloc s = (of_nat (Min (free_set s)) * PAGE_SIZE,
    s\<lparr>bitmap := BIT_CLR (Min (free_set s)) (bitmap s), free_pages_count := free_pages_count s - 1\<rparr>)"
proof -
  obtain w where "pmm_scan (bitmap s) 0 = Some w"
    using assms pmm_scan_free_set(1) [of s] by blast
  with pmm_scan_free_set(2) [OF this] show ?thesis
    by (simp add: pmm_alloc_def Let_def del: of_nat_add of_nat_mult)
qed

lemma unat_page_addr: "i < BITMAP_BITS \<Longrightarrow> unat (of_nat i * PAGE_SIZE :: uptr) = i * 4096"
  by (simp add: layout_defs unat_word_ariths unat_of_nat)

text \<open>The lowest free page is taken, its bit cleared and the count adjusted.\<close>

lemma pmm_alloc_Min:
  assumes "pmm_inv s" and "free_set s \<noteq> {}" and "pmm_alloc s = (p, s')"
  shows "unat p = Min (free_set s) * 4096" and "p \<noteq> 0"
    and "free_set s' = free_set s - {Min (free_set s)}"
    and "pmm_inv s'" and "total_pages_count s' = total_pages_count s"
proof -
  let ?m = "Min (free_set s)"
  have m: "?m \<in> free_set s" using assms(2) by simp
  then have lt: "?m < BITMAP_BITS" by (simp add: free_set_mem)
  have nz: "?m \<noteq> 0" using m assms(1) by (metis pmm_inv_def)
  from assms(3) have p: "p = of_nat ?m * PAGE_SIZE"
    and s': "s' = s\<lparr>bitmap := BIT_CLR ?m (bitmap s), free_pages_count := free_pages_count s - 1\<rparr>"
    by (auto simp: pmm_alloc_nonempty [OF assms(2)])
  show up: "unat p = ?m * 4096" using lt by (simp add: p unat_page_addr)
  with nz show "p \<noteq> 0" by auto
  show fs: "free_set s' = free_set s - {?m}" by (simp add: s')
  show "pmm_inv s'"
    using assms(1) m by (auto simp: pmm_inv_def fs) (simp add: s' unat_dec_card)
  show "total_pages_count s' = total_pages_count s" by (simp add: s')
qed

section \<open>Releasing one page\<close>

lemma pfn_div: "unat (p div PAGE_SIZE) = pfn p"
  by (simp add: PAGE_SIZE_def unat_div)

lemma pfn_bound: "p < PHYS_MEM_MAX \<Longrightarrow> pfn p < BITMAP_BITS"
  by (simp add: layout_defs word_less_nat_alt)

lemma pmm_free_ignored: "p = 0 \<or> p \<ge> PHYS_MEM_MAX \<Longrightarrow> pmm_free p s = s"
  by (simp add: pmm_free_def)

lemma pmm_free_set:
  assumes "p \<noteq> 0" and "p < PHYS_MEM_MAX"
  shows "free_set (pmm_free p s) = insert (pfn p) (free_set s)"
proof (cases "BIT_TST (bitmap s) (pfn p)")
  case True
  with assms pfn_bound [OF assms(2)] show ?thesis
    by (simp add: pmm_free_def pfn_div not_le [symmetric] insert_absorb free_set_mem)
next
  case False
  with assms pfn_bound [OF assms(2)] show ?thesis
    by (simp add: pmm_free_def pfn_div not_le [symmetric])
qed

lemma pmm_free_inv:
  assumes "pmm_inv s" and "4096 \<le> unat p"
  shows "pmm_inv (pmm_free p s)"
proof (cases "p < PHYS_MEM_MAX")
  case lt: True
  have nz: "p \<noteq> 0" using assms(2) by auto
  show ?thesis
  proof (cases "BIT_TST (bitmap s) (pfn p)")
    case True
    with assms show ?thesis by (simp add: pmm_free_def pfn_div)
  next
    case False
    with lt nz pfn_bound [OF lt] have eq: "pmm_free p s =
      s\<lparr>bitmap := BIT_SET (pfn p) (bitmap s), free_pages_count := free_pages_count s + 1\<rparr>"
      and "pfn p \<notin> free_set s"
      by (auto simp: pmm_free_def pfn_div free_set_mem)
    with assms pfn_bound [OF lt] unat_inc_card show ?thesis
      by (auto simp: pmm_inv_def eq)
  qed
next
  case False
  with assms(1) show ?thesis by (simp add: pmm_free_ignored not_less)
qed

lemma pmm_free_total [simp]: "total_pages_count (pmm_free p s) = total_pages_count s"
  by (simp add: pmm_free_def Let_def)

section \<open>Contiguous runs\<close>

definition free_run :: "bitmap \<Rightarrow> nat \<Rightarrow> nat \<Rightarrow> bool" where
  "free_run b k n \<longleftrightarrow> (\<forall>j. k \<le> j \<and> j < k + n \<longrightarrow> j < BITMAP_BITS \<and> BIT_TST b j)"

lemma free_run_mem: "free_run b k n \<Longrightarrow> k \<le> j \<Longrightarrow> j < k + n \<Longrightarrow> j < BITMAP_BITS \<and> BIT_TST b j"
  by (auto simp: free_run_def)

lemma free_run_extend:
  "free_run b k n \<Longrightarrow> k + n < BITMAP_BITS \<Longrightarrow> BIT_TST b (k + n) \<Longrightarrow> free_run b k (Suc n)"
  by (auto simp: free_run_def less_Suc_eq)

lemma free_run_one: "i < BITMAP_BITS \<Longrightarrow> BIT_TST b i \<Longrightarrow> free_run b i (Suc 0)"
  by (auto simp: free_run_def less_Suc_eq_le)

text \<open>
  What the scan knows at position \<open>i\<close>: the current run, and that no run of the wanted length
  starts before it.
\<close>

definition run_inv :: "bitmap \<Rightarrow> nat \<Rightarrow> nat \<Rightarrow> nat \<Rightarrow> nat \<Rightarrow> bool" where
  "run_inv b n i found start \<longleftrightarrow>
     found < n \<and> 1 \<le> i \<and>
     (0 < found \<longrightarrow> start + found = i \<and> 1 \<le> start \<and> free_run b start found) \<and>
     (\<forall>k. 1 \<le> k \<and> free_run b k n \<longrightarrow> (if found = 0 then i else start) \<le> k)"

lemma run_inv_next_free:
  assumes "run_inv b n i found start" and "i < BITMAP_BITS" and "BIT_TST b i"
    and "st = (if found = 0 then i else start)"
  shows "free_run b st (Suc found)" and "1 \<le> st"
    and "\<And>k. 1 \<le> k \<Longrightarrow> free_run b k n \<Longrightarrow> st \<le> k"
    and "Suc found \<noteq> n \<Longrightarrow> run_inv b n (Suc i) (Suc found) st"
proof -
  show run: "free_run b st (Suc found)"
    using assms free_run_extend [of b start found] by (auto simp: run_inv_def free_run_one)
  show ge: "1 \<le> st" using assms by (auto simp: run_inv_def)
  show min: "\<And>k. 1 \<le> k \<Longrightarrow> free_run b k n \<Longrightarrow> st \<le> k"
    using assms by (auto simp: run_inv_def)
  show "Suc found \<noteq> n \<Longrightarrow> run_inv b n (Suc i) (Suc found) st"
    using assms run ge min by (auto simp: run_inv_def)
qed

lemma run_inv_next_used:
  assumes "run_inv b n i found start" and "\<not> BIT_TST b i"
  shows "run_inv b n (Suc i) 0 start"
proof -
  have "Suc i \<le> k" if k: "1 \<le> k" "free_run b k n" for k
  proof (rule ccontr)
    assume "\<not> Suc i \<le> k"
    then have "k \<le> i" by simp
    moreover have "i < k + n"
      using assms(1) k by (auto simp: run_inv_def split: if_splits)
    ultimately show False using free_run_mem [OF k(2)] assms(2) by blast
  qed
  with assms(1) show ?thesis by (auto simp: run_inv_def)
qed

lemma pmm_find_run_correct:
  "run_inv b n i found start \<Longrightarrow>
   (case pmm_find_run b n i found start of
      None \<Rightarrow> \<forall>k\<ge>1. \<not> free_run b k n
    | Some st \<Rightarrow> 1 \<le> st \<and> free_run b st n \<and> (\<forall>k. 1 \<le> k \<and> k < st \<longrightarrow> \<not> free_run b k n))"
proof (induction b n i found start rule: pmm_find_run.induct)
  case (1 b n i found start)
  let ?st = "if found = 0 then i else start"
  consider (stop) "\<not> i < BITMAP_BITS" | (used) "i < BITMAP_BITS" "\<not> BIT_TST b i"
    | (hit) "i < BITMAP_BITS" "BIT_TST b i" "Suc found = n"
    | (more) "i < BITMAP_BITS" "BIT_TST b i" "Suc found \<noteq> n" by blast
  then show ?case
  proof cases
    case stop
    have "\<not> free_run b k n" if "1 \<le> k" for k
    proof
      assume k: "free_run b k n"
      have "0 < n" using "1.prems" by (simp add: run_inv_def)
      then have "k + n - 1 < BITMAP_BITS"
        using free_run_mem [OF k, of "k + n - 1"] by linarith
      with stop "1.prems" that k show False by (auto simp: run_inv_def split: if_splits)
    qed
    with stop show ?thesis by (simp add: pmm_find_run.simps [of b n i])
  next
    case used
    with "1.IH"(2) run_inv_next_used [OF "1.prems"] show ?thesis
      by (simp add: pmm_find_run.simps [of b n i])
  next
    case hit
    note facts = run_inv_next_free [OF "1.prems" hit(1,2) refl]
    have "\<not> free_run b k n" if "1 \<le> k" "k < ?st" for k
      using facts(3) [OF that(1)] that(2) by auto
    with hit facts(1,2) show ?thesis by (simp add: pmm_find_run.simps [of b n i] Let_def)
  next
    case more
    with "1.IH"(1) [OF more(1,2) refl refl] run_inv_next_free(4) [OF "1.prems" more(1,2) refl]
    show ?thesis by (simp add: pmm_find_run.simps [of b n i] Let_def)
  qed
qed

lemma run_inv_start: "0 < n \<Longrightarrow> run_inv b n 1 0 0"
  by (simp add: run_inv_def)

lemma free_run_subset: "free_run (bitmap s) k n \<longleftrightarrow> {k..<k + n} \<subseteq> free_set s"
  by (auto simp: free_run_def free_set_mem)

lemma free_set_fold_CLR:
  "free_set (s\<lparr>bitmap := fold BIT_CLR is (bitmap s), free_pages_count := c\<rparr>) = free_set s - set is"
  by (auto simp: free_set_def BIT_TST_fold_CLR)

lemma pmm_alloc_contiguous_Some:
  assumes "n \<noteq> 0" and "pmm_alloc_contiguous n s = (p, s')"
    and "1 \<le> k" and "{k..<k + unat n} \<subseteq> free_set s"
    and first: "\<And>j. 1 \<le> j \<Longrightarrow> j < k \<Longrightarrow> \<not> {j..<j + unat n} \<subseteq> free_set s"
  shows "unat p = k * 4096" and "free_set s' = free_set s - {k..<k + unat n}"
    and "free_pages_count s' = free_pages_count s - n"
proof -
  have n: "0 < unat n" using assms(1) by (simp add: unat_gt_0)
  note run = pmm_find_run_correct [OF run_inv_start [OF n], of "bitmap s"]
  from run assms(3,4) obtain st where st: "pmm_find_run (bitmap s) (unat n) 1 0 0 = Some st"
    by (auto simp: free_run_subset split: option.splits)
  with run have "1 \<le> st" "{st..<st + unat n} \<subseteq> free_set s"
    "\<forall>j. 1 \<le> j \<and> j < st \<longrightarrow> \<not> {j..<j + unat n} \<subseteq> free_set s"
    by (simp_all add: free_run_subset)
  with first assms(3,4) have "st = k" by (metis linorder_neqE_nat)
  with st assms(1,2) have eq: "p = of_nat k * PAGE_SIZE"
    "s' = s\<lparr>bitmap := fold BIT_CLR [k..<k + unat n] (bitmap s), free_pages_count := free_pages_count s - n\<rparr>"
    by (auto simp: pmm_alloc_contiguous_def)
  have "k \<in> free_set s" using n assms(4) by auto
  then show "unat p = k * 4096" by (simp add: eq unat_page_addr free_set_mem)
  show "free_set s' = free_set s - {k..<k + unat n}"
    unfolding eq free_set_fold_CLR by simp
  show "free_pages_count s' = free_pages_count s - n" by (simp add: eq)
qed

lemma pmm_alloc_contiguous_None:
  assumes "n = 0 \<or> (\<forall>k\<ge>1. \<not> {k..<k + unat n} \<subseteq> free_set s)"
  shows "pmm_alloc_contiguous n s = (0, s)"
proof (cases "n = 0")
  case False
  then have n: "0 < unat n" by (simp add: unat_gt_0)
  from pmm_find_run_correct [OF run_inv_start [OF n], of "bitmap s"] assms False
  show ?thesis
    by (auto simp: pmm_alloc_contiguous_def free_run_subset split: option.splits)
qed (simp add: pmm_alloc_contiguous_def)

lemma pmm_alloc_contiguous_inv:
  assumes "pmm_inv s" and "pmm_alloc_contiguous n s = (p, s')"
  shows "pmm_inv s'"
proof (cases "n = 0 \<or> (\<forall>k\<ge>1. \<not> {k..<k + unat n} \<subseteq> free_set s)")
  case True
  with assms show ?thesis by (simp add: pmm_alloc_contiguous_None)
next
  case False
  define k where "k = (LEAST k. 1 \<le> k \<and> {k..<k + unat n} \<subseteq> free_set s)"
  from False have "\<exists>k. 1 \<le> k \<and> {k..<k + unat n} \<subseteq> free_set s" by auto
  from LeastI_ex [OF this] have k: "1 \<le> k" "{k..<k + unat n} \<subseteq> free_set s"
    unfolding k_def by auto
  have "\<not> {j..<j + unat n} \<subseteq> free_set s" if "1 \<le> j" "j < k" for j
    using that not_less_Least [of j] unfolding k_def by blast
  note sp = pmm_alloc_contiguous_Some [OF _ assms(2) k this]
  have "unat n = card {k..<k + unat n}" by simp
  also have "\<dots> \<le> card (free_set s)" using k(2) by (intro card_mono) auto
  finally have "unat (free_pages_count s - n) = card (free_set s) - unat n"
    using assms(1) by (simp add: pmm_inv_def unat_sub word_le_nat_alt)
  moreover have "card (free_set s - {k..<k + unat n}) = card (free_set s) - unat n"
    using k(2) by (simp add: card_Diff_subset)
  ultimately show ?thesis
    using False assms(1) sp by (auto simp: pmm_inv_def)
qed

section \<open>Marking a range as used\<close>

lemma pmm_mark_page_props:
  shows "free_set (pmm_mark_page p s) = free_set s - {pfn p}"
    and "total_pages_count (pmm_mark_page p s) = total_pages_count s"
    and "unat (free_pages_count s) = card (free_set s) \<Longrightarrow>
      unat (free_pages_count (pmm_mark_page p s)) = card (free_set (pmm_mark_page p s))"
proof -
  show fs: "free_set (pmm_mark_page p s) = free_set s - {pfn p}"
    by (auto simp: pmm_mark_page_def pfn_div Let_def) (auto simp: free_set_mem)
  show "total_pages_count (pmm_mark_page p s) = total_pages_count s"
    by (simp add: pmm_mark_page_def Let_def)
  assume cnt: "unat (free_pages_count s) = card (free_set s)"
  show "unat (free_pages_count (pmm_mark_page p s)) = card (free_set (pmm_mark_page p s))"
  proof (cases "pfn p \<in> free_set s")
    case True
    then have "free_pages_count s \<noteq> 0" using cnt by (auto simp: unat_eq_0)
    with True have "free_pages_count (pmm_mark_page p s) = free_pages_count s - 1"
      by (simp add: pmm_mark_page_def pfn_div free_set_mem)
    with True cnt show ?thesis by (simp add: fs unat_dec_card)
  next
    case False
    then have "pmm_mark_page p s = s" by (auto simp: pmm_mark_page_def pfn_div free_set_mem Let_def)
    with cnt show ?thesis by simp
  qed
qed

lemma pmm_mark_pages:
  shows "free_set (fold pmm_mark_page ps s) = free_set s - pfn ` set ps"
    and "total_pages_count (fold pmm_mark_page ps s) = total_pages_count s"
    and "unat (free_pages_count s) = card (free_set s) \<Longrightarrow>
      unat (free_pages_count (fold pmm_mark_page ps s)) = card (free_set (fold pmm_mark_page ps s))"
  by (induction ps arbitrary: s) (auto simp: pmm_mark_page_props)

lemma pmm_mark_used_set:
  assumes "unat stop \<le> 4294963200"
  shows "free_set (pmm_mark_used start stop s) =
    free_set s - {pfn start ..< (unat stop + 4095) div 4096}"
proof -
  have "pfn ` set (page_steps (ALIGN_DOWN start PAGE_SIZE) (ALIGN_UP stop PAGE_SIZE)) =
    {pfn start ..< (unat stop + 4095) div 4096}"
    using assms by (subst page_steps_pages(1)) (auto simp: unat_simps unat_ALIGN_UP_page)
  then show ?thesis by (simp add: pmm_mark_used_def pmm_mark_pages)
qed

lemma pmm_mark_used_inv: "pmm_inv s \<Longrightarrow> pmm_inv (pmm_mark_used start stop s)"
  by (auto simp: pmm_inv_def pmm_mark_used_def pmm_mark_pages)

section \<open>Boot-time set-up\<close>

text \<open>The counters while regions are being released: both count the free pages.\<close>

definition boot_counts :: "pmm \<Rightarrow> bool" where
  "boot_counts s \<longleftrightarrow> unat (free_pages_count s) = card (free_set s) \<and>
     total_pages_count s = free_pages_count s"

lemma pmm_add_page_props:
  shows "free_set (pmm_add_page p s) = free_set s \<union> ({pfn p} \<inter> {..<BITMAP_BITS})"
    and "boot_counts s \<Longrightarrow> pfn p \<notin> free_set s \<Longrightarrow> boot_counts (pmm_add_page p s)"
proof -
  show fs: "free_set (pmm_add_page p s) = free_set s \<union> ({pfn p} \<inter> {..<BITMAP_BITS})"
    by (auto simp: pmm_add_page_def pfn_div Let_def)
  show "boot_counts (pmm_add_page p s)" if "boot_counts s" "pfn p \<notin> free_set s"
    using that unat_inc_card [of "free_pages_count s" s "pfn p"]
    by (auto simp: boot_counts_def pmm_add_page_def pfn_div Let_def)
qed

lemma pmm_add_pages_set:
  "free_set (fold pmm_add_page ps s) = free_set s \<union> (pfn ` set ps \<inter> {..<BITMAP_BITS})"
  by (induction ps arbitrary: s) (auto simp: pmm_add_page_props(1))

lemma disjoint_add_one: "x \<notin> A \<Longrightarrow> A \<inter> F = {} \<Longrightarrow> A \<inter> (F \<union> ({x} \<inter> B)) = {}"
  by auto

lemma pmm_add_pages_counts:
  assumes "boot_counts s" and "distinct (map pfn ps)" and "pfn ` set ps \<inter> free_set s = {}"
  shows "boot_counts (fold pmm_add_page ps s)"
  using assms
proof (induction ps arbitrary: s)
  case (Cons p ps)
  have "boot_counts (pmm_add_page p s)"
    using Cons.prems by (intro pmm_add_page_props(2)) auto
  moreover have "pfn ` set ps \<inter> free_set (pmm_add_page p s) = {}"
  proof -
    have "pfn p \<notin> pfn ` set ps" "pfn ` set ps \<inter> free_set s = {}"
      using Cons.prems(2,3) by simp_all
    then show ?thesis
      unfolding pmm_add_page_props(1) by (rule disjoint_add_one)
  qed
  ultimately show ?case using Cons.IH [of "pmm_add_page p s"] Cons.prems(2) by simp
qed simp

text \<open>The pages of an available region that ends below 4 GiB.\<close>

definition entry_fits :: "mb2_mmap_entry \<Rightarrow> bool" where
  "entry_fits e \<longleftrightarrow> unat (base_addr e) + unat (mlength e) \<le> 4294963200"

definition entry_pages :: "mb2_mmap_entry \<Rightarrow> nat set" where
  "entry_pages e =
     (if mtype e = MB2_MEM_AVAILABLE
      then {(unat (base_addr e) + 4095) div 4096 ..< (unat (base_addr e) + unat (mlength e)) div 4096}
           \<inter> {..<BITMAP_BITS}
      else {})"

lemma page_mask64: "(4096 :: u64) - 1 = mask 12"
  by (simp add: mask_eq_exp_minus_1)

lemma entry_bounds:
  assumes "entry_fits e"
  shows "unat (ucast (ALIGN_UP (base_addr e) 4096) :: uptr) = (unat (base_addr e) + 4095) div 4096 * 4096"
    and "unat (ucast (ALIGN_DOWN (base_addr e + mlength e) 4096) :: uptr) =
      (unat (base_addr e) + unat (mlength e)) div 4096 * 4096"
proof -
  let ?b = "base_addr e" and ?l = "mlength e"
  from assms have f: "unat ?b + unat ?l \<le> 4294963200" by (simp add: entry_fits_def)
  have "unat (?b + 4095) = unat ?b + 4095"
    using f by (intro trans [OF unat_add_nowrap]) auto
  moreover have "ALIGN_UP ?b 4096 = (?b + 4095) AND NOT (mask 12)"
    by (simp add: ALIGN_UP_def mask_eq_exp_minus_1 add.commute)
  ultimately have "unat (ALIGN_UP ?b 4096) = (unat ?b + 4095) div 2 ^ 12 * 2 ^ 12"
    by (simp only: unat_simps)
  moreover have "(unat ?b + 4095) div 4096 * 4096 \<le> 4294963200 + 4095" using f by linarith
  ultimately show "unat (ucast (ALIGN_UP ?b 4096) :: uptr) = (unat ?b + 4095) div 4096 * 4096"
    by (simp add: unsigned_ucast_eq take_bit_eq_mod)
  have "unat (?b + ?l) = unat ?b + unat ?l"
    using f by (intro unat_add_nowrap) auto
  then have "unat (ALIGN_DOWN (?b + ?l) 4096) = (unat ?b + unat ?l) div 2 ^ 12 * 2 ^ 12"
    unfolding ALIGN_DOWN_def page_mask64 by (simp add: unat_simps)
  moreover have "(unat ?b + unat ?l) div 4096 * 4096 \<le> 4294963200" using f by linarith
  ultimately show "unat (ucast (ALIGN_DOWN (?b + ?l) 4096) :: uptr) =
      (unat ?b + unat ?l) div 4096 * 4096"
    by (simp add: unsigned_ucast_eq take_bit_eq_mod)
qed

lemma pmm_add_entry_props:
  assumes "entry_fits e"
  shows "free_set (pmm_add_entry e s) = free_set s \<union> entry_pages e"
    and "boot_counts s \<Longrightarrow> entry_pages e \<inter> free_set s = {} \<Longrightarrow> boot_counts (pmm_add_entry e s)"
proof -
  let ?a = "ucast (ALIGN_UP (base_addr e) 4096) :: uptr"
  let ?z = "ucast (ALIGN_DOWN (base_addr e + mlength e) 4096) :: uptr"
  note b = entry_bounds [OF assms]
  have al: "4096 dvd unat ?a" "4096 dvd unat ?z" by (simp_all add: b)
  have pages: "pfn ` set (page_steps ?a ?z) =
    {(unat (base_addr e) + 4095) div 4096 ..< (unat (base_addr e) + unat (mlength e)) div 4096}"
    using page_steps_pages(1) [OF al] by (simp add: b)
  have eq: "pmm_add_entry e s = (if mtype e = MB2_MEM_AVAILABLE then fold pmm_add_page (page_steps ?a ?z) s else s)"
    by (simp add: pmm_add_entry_def Let_def)
  show "free_set (pmm_add_entry e s) = free_set s \<union> entry_pages e"
    by (auto simp: eq pmm_add_pages_set pages entry_pages_def)
  show "boot_counts (pmm_add_entry e s)" if "boot_counts s" "entry_pages e \<inter> free_set s = {}"
  proof (cases "mtype e = MB2_MEM_AVAILABLE")
    case True
    with that(2) have "pfn ` set (page_steps ?a ?z) \<inter> free_set s = {}"
      unfolding pages entry_pages_def by (auto simp: free_set_mem)
    with True that(1) page_steps_pages(3) [OF al] show ?thesis
      by (auto simp: eq intro: pmm_add_pages_counts)
  qed (simp add: eq that)
qed

lemma pmm_add_entries_set:
  assumes "\<And>e. e \<in> set es \<Longrightarrow> entry_fits e"
  shows "free_set (fold pmm_add_entry es s) = free_set s \<union> (\<Union>e\<in>set es. entry_pages e)"
  using assms
proof (induction es arbitrary: s)
  case (Cons e es)
  then show ?case using pmm_add_entry_props(1) [of e s] by auto
qed simp

lemma pmm_add_entries_counts:
  assumes "\<And>e. e \<in> set es \<Longrightarrow> entry_fits e"
    and "boot_counts s" and "\<And>e. e \<in> set es \<Longrightarrow> entry_pages e \<inter> free_set s = {}"
    and "sorted_wrt (\<lambda>e f. entry_pages e \<inter> entry_pages f = {}) es"
  shows "boot_counts (fold pmm_add_entry es s)"
  using assms
proof (induction es arbitrary: s)
  case (Cons e es)
  note ep = pmm_add_entry_props [of e s]
  have "boot_counts (pmm_add_entry e s)" using Cons.prems ep(2) by simp
  moreover have "entry_pages f \<inter> free_set (pmm_add_entry e s) = {}" if "f \<in> set es" for f
    using Cons.prems ep(1) that by (auto simp: Int_Un_distrib Int_commute)
  ultimately show ?case using Cons.IH [of "pmm_add_entry e s"] Cons.prems by simp
qed simp

text \<open>The walk over \<open>n\<close> entries of nonzero size visits each of them once.\<close>

lemma pmm_init_entries_walk:
  assumes "0 < unat sz" and "unat e + n * unat sz < 2 ^ 32" and "unat stop = unat e + n * unat sz"
  shows "pmm_init_entries rd sz e stop s =
    Some (fold pmm_add_entry (map (\<lambda>i. rd (e + of_nat i * sz)) [0..<n]) s)"
  using assms(2,3)
proof (induction n arbitrary: e s)
  case 0
  then have "e = stop" by (simp add: word_unat_eq_iff)
  then show ?case by (simp add: pmm_init_entries.simps)
next
  case (Suc n)
  have lt: "e < stop" using Suc.prems assms(1) by (simp add: word_less_nat_alt)
  have ue: "unat (e + sz) = unat e + unat sz"
    using Suc.prems by (intro unat_add_nowrap) auto
  have "pmm_init_entries rd sz (e + sz) stop (pmm_add_entry (rd e) s) =
    Some (fold pmm_add_entry (map (\<lambda>i. rd (e + sz + of_nat i * sz)) [0..<n]) (pmm_add_entry (rd e) s))"
    using Suc.prems by (intro Suc.IH) (auto simp: ue)
  moreover have "map (\<lambda>i. rd (e + of_nat i * sz)) [0..<Suc n] =
    rd e # map (\<lambda>i. rd (e + sz + of_nat i * sz)) [0..<n]"
    by (simp add: upt_conv_Cons map_Suc_upt [symmetric] algebra_simps del: upt_Suc)
  ultimately show ?case
    using lt by (simp add: pmm_init_entries.simps [of rd sz e])
qed

lemma pmm_init_finish:
  assumes "boot_counts s" and "unat kend \<le> 1073741824"
  defines "s' \<equiv> pmm_mark_used 0 (ALIGN_UP kend PAGE_SIZE + PAGE_SIZE * 16) s"
  shows "free_set (s'\<lparr>bitmap := BIT_CLR 0 (bitmap s')\<rparr>) = free_set s - {0..<(unat kend + 4095) div 4096 + 16}"
    and "pmm_inv (s'\<lparr>bitmap := BIT_CLR 0 (bitmap s')\<rparr>)"
    and "total_pages_count (s'\<lparr>bitmap := BIT_CLR 0 (bitmap s')\<rparr>) = total_pages_count s"
proof -
  have up: "unat (ALIGN_UP kend PAGE_SIZE) = (unat kend + 4095) div 4096 * 4096"
    using assms(2) by (intro unat_ALIGN_UP_page) simp
  have un: "unat (ALIGN_UP kend PAGE_SIZE + PAGE_SIZE * 16) = (unat kend + 4095) div 4096 * 4096 + 65536"
  proof -
    have "(unat kend + 4095) div 4096 * 4096 \<le> 1073745919" using assms(2) by linarith
    with up show ?thesis by (subst unat_add_nowrap) (auto simp: PAGE_SIZE_def)
  qed
  have "free_set s' = free_set s - {0..<(unat kend + 4095) div 4096 + 16}"
    unfolding s'_def using assms(2) by (subst pmm_mark_used_set) (auto simp: un)
  then show fs: "free_set (s'\<lparr>bitmap := BIT_CLR 0 (bitmap s')\<rparr>) = free_set s - {0..<(unat kend + 4095) div 4096 + 16}"
    by auto
  have "unat (free_pages_count s') = card (free_set s')"
    using assms(1) by (simp add: s'_def pmm_mark_used_def pmm_mark_pages(3) boot_counts_def)
  with fs \<open>free_set s' = _\<close> show "pmm_inv (s'\<lparr>bitmap := BIT_CLR 0 (bitmap s')\<rparr>)"
    by (simp add: pmm_inv_def)
  show "total_pages_count (s'\<lparr>bitmap := BIT_CLR 0 (bitmap s')\<rparr>) = total_pages_count s"
    by (simp add: s'_def pmm_mark_used_def pmm_mark_pages(2))
qed

lemma boot_counts_reset [simp]:
  assumes "total_pages_count s = 0" and "free_pages_count s = 0"
  shows "free_set (s\<lparr>bitmap := (\<lambda>_. 0)\<rparr>) = {}" and "boot_counts (s\<lparr>bitmap := (\<lambda>_. 0)\<rparr>)"
proof -
  show "free_set (s\<lparr>bitmap := (\<lambda>_. 0)\<rparr>) = {}"
    by (simp add: free_set_def BIT_TST_bit)
  with assms show "boot_counts (s\<lparr>bitmap := (\<lambda>_. 0)\<rparr>)" by (simp add: boot_counts_def)
qed

section \<open>The contract of a page allocator\<close>

text \<open>
  What the rest of the kernel relies on: an allocation takes a page that was free, is page
  aligned and is not address 0, or fails with 0 when none is free; a release puts the page
  back.
\<close>

locale page_allocator =
  fixes alloc :: "'s \<Rightarrow> uptr \<times> 's"
    and release :: "uptr \<Rightarrow> 's \<Rightarrow> 's"
    and avail :: "'s \<Rightarrow> nat set"
    and inv :: "'s \<Rightarrow> bool"
    and owned :: "uptr \<Rightarrow> bool"
  assumes alloc_fail: "inv s \<Longrightarrow> avail s = {} \<Longrightarrow> alloc s = (0, s)"
    and alloc_ok: "inv s \<Longrightarrow> avail s \<noteq> {} \<Longrightarrow> alloc s = (p, s') \<Longrightarrow>
      p \<noteq> 0 \<and> owned p \<and> 4096 dvd unat p \<and> pfn p \<in> avail s \<and> avail s' = avail s - {pfn p}"
    and alloc_inv: "inv s \<Longrightarrow> alloc s = (p, s') \<Longrightarrow> inv s'"
    and release_avail: "inv s \<Longrightarrow> owned p \<Longrightarrow> avail (release p s) = insert (pfn p) (avail s)"
    and release_inv: "inv s \<Longrightarrow> owned p \<Longrightarrow> inv (release p s)"
begin

lemma alloc_nonzero:
  assumes "inv s" and "alloc s = (p, s')" and "p \<noteq> 0"
  shows "owned p" and "4096 dvd unat p" and "pfn p \<in> avail s" and "avail s' = avail s - {pfn p}"
    and "inv s'"
proof -
  have "avail s \<noteq> {}" using assms alloc_fail by auto
  from alloc_ok [OF assms(1) this assms(2)] alloc_inv [OF assms(1,2)]
  show "owned p" and "4096 dvd unat p" and "pfn p \<in> avail s" and "avail s' = avail s - {pfn p}"
    and "inv s'"
    by simp_all
qed

lemma alloc_zero:
  assumes "inv s" and "alloc s = (0, s')"
  shows "s' = s" and "avail s = {}"
proof -
  show "avail s = {}" using alloc_ok [OF assms(1) _ assms(2)] by blast
  with assms show "s' = s" by (simp add: alloc_fail)
qed

text \<open>Releasing what was just allocated gives the same set of free pages back.\<close>

lemma alloc_release:
  assumes "inv s" and "alloc s = (p, s')" and "p \<noteq> 0"
  shows "avail (release p s') = avail s"
proof -
  note a = alloc_nonzero [OF assms]
  from a(1,5) have "avail (release p s') = insert (pfn p) (avail s')" by (rule release_avail [rotated])
  with a(3,4) show ?thesis by (simp add: insert_absorb)
qed

text \<open>Two allocations in a row never return the same page.\<close>

lemma alloc_twice_distinct:
  assumes "inv s" and "alloc s = (p, s')" and "p \<noteq> 0" and "alloc s' = (q, s'')" and "q \<noteq> 0"
  shows "p \<noteq> q"
proof -
  note a = alloc_nonzero [OF assms(1-3)]
  from alloc_nonzero(3) [OF a(5) assms(4,5)] a(4) show ?thesis by auto
qed

end

definition pmm_owned :: "uptr \<Rightarrow> bool" where
  "pmm_owned p \<longleftrightarrow> 4096 \<le> unat p \<and> p < PHYS_MEM_MAX"

interpretation pm: page_allocator pmm_alloc pmm_free free_set pmm_inv pmm_owned
proof
  show "pmm_inv s \<Longrightarrow> free_set s = {} \<Longrightarrow> pmm_alloc s = (0, s)" for s
    by (simp add: pmm_alloc_empty)
next
  fix s s' p
  assume a: "pmm_inv s" "free_set s \<noteq> {}" "pmm_alloc s = (p, s')"
  note m = pmm_alloc_Min [OF a]
  have mem: "Min (free_set s) \<in> free_set s" using a(2) by simp
  then have "Min (free_set s) < BITMAP_BITS" by (simp add: free_set_mem)
  moreover have "Min (free_set s) \<noteq> 0" using mem a(1) by (metis pmm_inv_def)
  ultimately have "pmm_owned p"
    using m(1) by (simp add: pmm_owned_def word_less_nat_alt layout_defs)
  with m mem show "p \<noteq> 0 \<and> pmm_owned p \<and> 4096 dvd unat p \<and> pfn p \<in> free_set s \<and> free_set s' = free_set s - {pfn p}"
    by simp
next
  fix s s' p
  assume "pmm_inv s" "pmm_alloc s = (p, s')"
  then show "pmm_inv s'"
    by (cases "free_set s = {}") (auto simp: pmm_alloc_empty pmm_alloc_Min(4))
next
  fix s p
  assume s: "pmm_inv s" and p: "pmm_owned p"
  then have "p \<noteq> 0" by (auto simp: pmm_owned_def)
  with p show "free_set (pmm_free p s) = insert (pfn p) (free_set s)"
    by (simp add: pmm_owned_def pmm_free_set)
  from s p show "pmm_inv (pmm_free p s)" by (simp add: pmm_owned_def pmm_free_inv)
qed

section \<open>Histories of the allocator\<close>

text \<open>
  Every way the rest of the kernel changes the allocator after boot: the callers release page
  addresses they own.
\<close>

inductive pmm_step :: "pmm \<Rightarrow> pmm \<Rightarrow> bool" where
  alloc: "pmm_alloc s = (p, s') \<Longrightarrow> pmm_step s s'"
| alloc_contiguous: "pmm_alloc_contiguous n s = (p, s') \<Longrightarrow> pmm_step s s'"
| free: "pmm_owned p \<Longrightarrow> pmm_step s (pmm_free p s)"
| free_contiguous:
    "(\<And>i. i < unat n \<Longrightarrow> pmm_owned (p + of_nat i * PAGE_SIZE)) \<Longrightarrow> pmm_step s (pmm_free_contiguous p n s)"
| mark_used: "pmm_step s (pmm_mark_used start stop s)"

inductive pmm_reach :: "pmm \<Rightarrow> pmm \<Rightarrow> bool" where
  start: "pmm_reach s s"
| more: "pmm_reach s t \<Longrightarrow> pmm_step t u \<Longrightarrow> pmm_reach s u"

lemma pmm_free_contiguous_inv:
  assumes "pmm_inv s" and "\<And>i. i < n \<Longrightarrow> pmm_owned (p + of_nat i * PAGE_SIZE)"
  shows "pmm_inv (fold (\<lambda>i. pmm_free (p + of_nat i * PAGE_SIZE)) [0..<n] s)"
  using assms by (induction n) (auto intro: pm.release_inv)

lemma pmm_step_inv: "pmm_step s t \<Longrightarrow> pmm_inv s \<Longrightarrow> pmm_inv t"
proof (induction rule: pmm_step.induct)
  case (free_contiguous n p s)
  then show ?case by (simp add: pmm_free_contiguous_def pmm_free_contiguous_inv)
qed (auto intro: pm.alloc_inv pm.release_inv pmm_alloc_contiguous_inv pmm_mark_used_inv)

text \<open>A small allocator state for concrete instances: pages 2, 5 and 6 are free.\<close>

definition pmm_example :: pmm where
  "pmm_example =
     \<lparr>bitmap = (\<lambda>w. if w = 0 then 0x64 else 0), total_pages_count = 3, free_pages_count = 3\<rparr>"

lemma pmm_example_free: "free_set pmm_example = {2, 5, 6}"
proof -
  have bits: "bit (0x64 :: u32) i \<longleftrightarrow> i = 2 \<or> i = 5 \<or> i = 6" if "i < 32" for i
    using that by (auto simp: numeral_eq_Suc less_Suc_eq)
  have "BIT_TST (bitmap pmm_example) i \<longleftrightarrow> i = 2 \<or> i = 5 \<or> i = 6" for i
    using bits [of "i mod 32"]
    by (auto simp: BIT_TST_bit pmm_example_def mod_eq_self_iff_div_eq_0 [symmetric])
  then show ?thesis by (auto simp: free_set_def layout_defs)
qed

lemma pmm_example_inv: "pmm_inv pmm_example"
  by (simp add: pmm_inv_def pmm_example_free) (simp add: pmm_example_def)

section \<open>Properties\<close>

text \<open>
  C6: \<^verbatim>\<open>pmm_alloc\<close> is first fit.  With no free page it returns 0 and changes nothing; otherwise it
  returns the address of the lowest free page, which is page aligned and not 0, takes exactly
  that page out of the free set, counts it out, and keeps the allocator's invariant.
\<close>

theorem pmm_alloc_first_fit:
  assumes "pmm_inv s"
  shows "if free_set s = {} then pmm_alloc s = (0, s)
    else \<exists>p s'. pmm_alloc s = (p, s') \<and> p \<noteq> 0 \<and> unat p = Min (free_set s) * 4096 \<and>
      free_set s' = free_set s - {Min (free_set s)} \<and>
      unat (free_pages_count s') + 1 = unat (free_pages_count s) \<and> pmm_inv s'"
proof (cases "free_set s = {}")
  case False
  obtain p s' where a: "pmm_alloc s = (p, s')" by fastforce
  note m = pmm_alloc_Min [OF assms False a]
  have "card (free_set s') + 1 = card (free_set s)"
    using False by (simp only: m(3)) (rule card_remove_1, auto)
  with m a assms False show ?thesis by (auto simp: pmm_inv_def)
qed (simp add: pmm_alloc_empty)

theorem pmm_alloc_first_fit_witness:
  "pmm_inv pmm_example \<and> fst (pmm_alloc pmm_example) = 0x2000 \<and>
   free_set (snd (pmm_alloc pmm_example)) = {5, 6}"
proof -
  from pmm_alloc_first_fit [OF pmm_example_inv] pmm_example_free obtain p s' where
    a: "pmm_alloc pmm_example = (p, s')" "unat p = 2 * 4096" "free_set s' = {5, 6}" by auto
  then have "p = 0x2000" by (simp add: word_unat_eq_iff)
  with a pmm_example_inv show ?thesis by simp
qed

text \<open>
  C14: \<^verbatim>\<open>pmm_alloc_contiguous\<close> is first fit for runs.  For \<open>n > 0\<close> it returns the lowest run of \<open>n\<close>
  free pages when there is one, and then takes exactly those pages; it returns 0 and changes
  nothing exactly when there is no such run.  The invariant is kept either way.
\<close>

theorem pmm_alloc_contiguous_first_fit:
  assumes "pmm_inv s" and "n \<noteq> 0" and "pmm_alloc_contiguous n s = (p, s')"
  shows "pmm_inv s' \<and>
    (p = 0 \<longleftrightarrow> (\<forall>k\<ge>1. \<not> {k..<k + unat n} \<subseteq> free_set s)) \<and> (p = 0 \<longrightarrow> s' = s) \<and>
    (p \<noteq> 0 \<longrightarrow> (\<exists>k\<ge>1. unat p = k * 4096 \<and> {k..<k + unat n} \<subseteq> free_set s \<and>
      (\<forall>j. 1 \<le> j \<and> j < k \<longrightarrow> \<not> {j..<j + unat n} \<subseteq> free_set s) \<and>
      free_set s' = free_set s - {k..<k + unat n}))"
proof (cases "\<forall>k\<ge>1. \<not> {k..<k + unat n} \<subseteq> free_set s")
  case True
  with assms show ?thesis by (simp add: pmm_alloc_contiguous_None)
next
  case False
  define k where "k = (LEAST k. 1 \<le> k \<and> {k..<k + unat n} \<subseteq> free_set s)"
  from False have "\<exists>k. 1 \<le> k \<and> {k..<k + unat n} \<subseteq> free_set s" by auto
  from LeastI_ex [OF this] have k: "1 \<le> k" "{k..<k + unat n} \<subseteq> free_set s"
    unfolding k_def by auto
  have least: "\<And>j. 1 \<le> j \<Longrightarrow> j < k \<Longrightarrow> \<not> {j..<j + unat n} \<subseteq> free_set s"
    using not_less_Least unfolding k_def by blast
  note sp = pmm_alloc_contiguous_Some [OF assms(2,3) k least]
  from sp(1) k(1) have "p \<noteq> 0" by auto
  with False sp k least pmm_alloc_contiguous_inv [OF assms(1,3)] show ?thesis by blast
qed

theorem pmm_alloc_contiguous_first_fit_witness:
  "pmm_inv pmm_example \<and> fst (pmm_alloc_contiguous 2 pmm_example) = 0x5000 \<and>
   free_set (snd (pmm_alloc_contiguous 2 pmm_example)) = {2}"
proof -
  obtain p s' where a: "pmm_alloc_contiguous 2 pmm_example = (p, s')" by fastforce
  have two: "{k..<k + unat (2 :: u32)} = {k, Suc k}" for k :: nat by auto
  have "(2 :: u32) \<noteq> 0" by simp
  note t = pmm_alloc_contiguous_first_fit [OF pmm_example_inv this a, unfolded two pmm_example_free]
  have "(1 :: nat) \<le> 5" "{5, Suc 5} \<subseteq> {2, 5, 6}" by simp_all
  with t have "p \<noteq> 0" by blast
  with t obtain k where k: "unat p = k * 4096" "{k, Suc k} \<subseteq> {2, 5, 6}"
    "free_set s' = {2, 5, 6} - {k, Suc k}"
    by blast
  from k(2) have "k = 5" by auto
  then have "unat p = unat (0x5000 :: u32)" using k(1) by simp
  then have "p = 0x5000" by (rule word_unat_eq_iff [THEN iffD2])
  moreover have "free_set s' = {2}" unfolding k(3) \<open>k = 5\<close> by auto
  ultimately show ?thesis using a pmm_example_inv by simp
qed

text \<open>
  C15: in every history of allocations, releases of owned pages and reservations, the free count
  is the number of free pages and page 0 is never free, so no allocation hands out address 0
  as if it were a page.
\<close>

theorem pmm_reach_inv: "pmm_reach s t \<Longrightarrow> pmm_inv s \<Longrightarrow> pmm_inv t"
  by (induction rule: pmm_reach.induct) (auto intro: pmm_step_inv)

theorem pmm_reach_inv_witness:
  "pmm_reach pmm_example (pmm_free 0x7000 (snd (pmm_alloc pmm_example))) \<and>
   pmm_inv (pmm_free 0x7000 (snd (pmm_alloc pmm_example)))"
proof -
  have "pmm_step pmm_example (snd (pmm_alloc pmm_example))"
    by (rule pmm_step.alloc [of _ "fst (pmm_alloc pmm_example)"]) simp
  moreover have "pmm_owned 0x7000" by (simp add: pmm_owned_def layout_defs)
  ultimately have "pmm_reach pmm_example (pmm_free 0x7000 (snd (pmm_alloc pmm_example)))"
    by (meson pmm_reach.intros pmm_step.free)
  with pmm_reach_inv [OF this pmm_example_inv] show ?thesis by simp
qed

text \<open>
  C16: boot-time set-up.  From zeroed counters and a memory map of \<open>n\<close> entries whose available
  regions end below 4 GiB and do not overlap, \<^verbatim>\<open>pmm_init\<close> ends, and then the free pages are exactly
  the whole pages of the available regions below 1 GiB, less the kernel image and the 16 pages
  after it; the total counts the pages of the regions, and the invariant holds.
\<close>

theorem pmm_init_correct:
  assumes counters: "total_pages_count s = 0" "free_pages_count s = 0"
    and tag: "mmap_addr \<noteq> 0" "unat mmap_len = 16 + n * unat sz" "0 < unat sz"
      "unat (phys_to_virt mmap_addr) + unat mmap_len < 2 ^ 32"
    and es: "es = map (\<lambda>i. rd (phys_to_virt mmap_addr + 16 + of_nat i * sz)) [0..<n]"
    and fits: "\<And>e. e \<in> set es \<Longrightarrow> entry_fits e"
    and disj: "sorted_wrt (\<lambda>e f. entry_pages e \<inter> entry_pages f = {}) es"
    and kend: "unat kend \<le> 1073741824"
  shows "\<exists>s'. pmm_init rd sz kend mmap_addr mmap_len s = Some s' \<and> pmm_inv s' \<and>
    free_set s' = (\<Union>e\<in>set es. entry_pages e) - {0..<(unat kend + 4095) div 4096 + 16} \<and>
    unat (total_pages_count s') = card (\<Union>e\<in>set es. entry_pages e)"
proof -
  let ?tag = "phys_to_virt mmap_addr" and ?z = "s\<lparr>bitmap := (\<lambda>_. 0)\<rparr>"
  let ?t = "fold pmm_add_entry es ?z"
  have u: "unat (?tag + 16) = unat ?tag + 16" "unat (?tag + mmap_len) = unat ?tag + unat mmap_len"
    using tag by (auto intro!: trans [OF unat_add_nowrap])
  have walk: "pmm_init_entries rd sz (?tag + 16) (?tag + mmap_len) ?z = Some ?t"
    using tag u unfolding es by (intro pmm_init_entries_walk) auto
  have z: "free_set ?z = {}" "boot_counts ?z" using counters by simp_all
  have fs: "free_set ?t = (\<Union>e\<in>set es. entry_pages e)"
    using pmm_add_entries_set [of es ?z] fits z by simp
  have bc: "boot_counts ?t"
    by (rule pmm_add_entries_counts) (use fits z disj in auto)
  note fin = pmm_init_finish [OF bc kend]
  have "unat (total_pages_count ?t) = card (free_set ?t)" using bc by (simp add: boot_counts_def)
  with fin walk tag(1) fs show ?thesis by (auto simp: pmm_init_def Let_def)
qed

theorem pmm_init_correct_witness:
  "\<exists>s'. pmm_init (\<lambda>_. \<lparr>base_addr = 0x100000, mlength = 0x40000, mtype = 1\<rparr>) 24 0x101000 0x9000 40
     \<lparr>bitmap = (\<lambda>_. 0), total_pages_count = 0, free_pages_count = 0\<rparr> = Some s' \<and>
     free_set s' = {273..<320}"
proof -
  let ?e = "\<lparr>base_addr = 0x100000, mlength = 0x40000, mtype = 1\<rparr>"
  let ?s = "\<lparr>bitmap = (\<lambda>_. 0), total_pages_count = 0, free_pages_count = 0\<rparr>"
  have pages: "entry_pages ?e = {256..<320}"
    by (auto simp: entry_pages_def MB2_MEM_AVAILABLE_def layout_defs)
  have "entry_fits ?e" by (simp add: entry_fits_def)
  then have "\<exists>s'. pmm_init (\<lambda>_. ?e) 24 0x101000 0x9000 40 ?s = Some s' \<and> pmm_inv s' \<and>
    free_set s' = (\<Union>e\<in>set [?e]. entry_pages e) - {0..<(unat (0x101000 :: u32) + 4095) div 4096 + 16} \<and>
    unat (total_pages_count s') = card (\<Union>e\<in>set [?e]. entry_pages e)"
    by (intro pmm_init_correct [where n = 1]) (simp_all add: phys_to_virt_def KERNEL_VIRT_BASE_def)
  then show ?thesis by (auto simp: pages)
qed

text \<open>
  The casts to 32 bits alias high memory.  An available page at physical address
  \<open>0x130000000\<close> (above 4 GiB, so not addressable through \<^verbatim>\<open>uptr\<close>) is entered into the bitmap as the
  page at \<open>0x30000000\<close>, whatever that page was before.
\<close>

theorem pmm_high_region_aliases:
  "0x30000 \<in> free_set (pmm_add_entry \<lparr>base_addr = 0x130000000, mlength = 0x1000, mtype = 1\<rparr> s)"
proof -
  let ?e = "\<lparr>base_addr = 0x130000000, mlength = 0x1000, mtype = 1\<rparr>"
  have "ucast (ALIGN_UP (0x130000000 :: u64) 4096) = (0x30000000 :: uptr)"
    "ucast (ALIGN_DOWN (0x130000000 + 0x1000 :: u64) 4096) = (0x30001000 :: uptr)"
    by (simp_all add: ALIGN_UP_def ALIGN_DOWN_def)
  then have "pmm_add_entry ?e s = fold pmm_add_page (page_steps 0x30000000 0x30001000) s"
    by (simp add: pmm_add_entry_def MB2_MEM_AVAILABLE_def)
  also have "page_steps 0x30000000 0x30001000 = [0x30000000]"
    by (simp add: page_steps_def)
  finally show ?thesis
    by (simp add: pmm_add_page_props(1) layout_defs)
qed

end
