(* ===== verification/Vmm.thy ===== *)
theory Vmm
  imports Pmm
begin

text \<open>
  Page tables, after the first half of \<^verbatim>\<open>mm/vmm.c\<close>: looking entries up, mapping, unmapping and
  translating pages, and creating, cloning and destroying page directories.  The state holds the
  page allocator, physical memory as a function from addresses to 32-bit words (the tables and
  the pages are read and written in words), the kernel's page directory and the register CR3.
  Physical memory is reached through the kernel's direct map (\<^verbatim>\<open>phys_to_virt\<close>); the model addresses
  it by physical address.  Flushing the TLB has no effect on this state.

  The abstraction of a page directory is \<open>pgmap\<close>: a partial map from virtual page numbers to page
  table entries.
\<close>

section \<open>State and operations\<close>

record vmm =
  frames :: pmm
  mem :: "uptr \<Rightarrow> u32"
  kernel_pgdir :: uptr
  cr3 :: uptr

definition PAGE_MASK :: u32 where
  "PAGE_MASK = NOT (PAGE_SIZE - 1)"

definition PTE_PRESENT :: u32 where "PTE_PRESENT = 1"
definition PTE_WRITE :: u32 where "PTE_WRITE = 2"
definition PTE_USER :: u32 where "PTE_USER = 4"
definition PTE_PCD :: u32 where "PTE_PCD = 16"
definition PDE_PRESENT :: u32 where "PDE_PRESENT = 1"
definition PDE_WRITE :: u32 where "PDE_WRITE = 2"
definition PDE_USER :: u32 where "PDE_USER = 4"
definition VM_READ :: u32 where "VM_READ = 1"
definition VM_WRITE :: u32 where "VM_WRITE = 2"
definition VM_EXEC :: u32 where "VM_EXEC = 4"
definition VM_USER :: u32 where "VM_USER = 8"
definition VM_NOCACHE :: u32 where "VM_NOCACHE = 16"

definition PTE_ADDR :: "u32 \<Rightarrow> uptr" where
  "PTE_ADDR pte = pte AND PAGE_MASK"

definition PD_INDEX :: "uptr \<Rightarrow> nat" where
  "PD_INDEX va = unat (drop_bit 22 va)"

definition PT_INDEX :: "uptr \<Rightarrow> nat" where
  "PT_INDEX va = unat (drop_bit 12 va AND 0x3FF)"

text \<open>The address of entry \<open>i\<close> of a table of 32-bit entries at \<open>p\<close>.\<close>

definition entry :: "uptr \<Rightarrow> nat \<Rightarrow> uptr" where
  "entry p i = p + of_nat i * 4"

text \<open>The ranges of the index loops: all entries of a table, and the two halves of a directory.\<close>

definition all_entries :: "nat list" where "all_entries = [0..<1024]"
definition user_half :: "nat list" where "user_half = [0..<768]"
definition kernel_half :: "nat list" where "kernel_half = [768..<1024]"

definition mem_write :: "uptr \<Rightarrow> u32 \<Rightarrow> vmm \<Rightarrow> vmm" where
  "mem_write a v s = s\<lparr>mem := (mem s)(a := v)\<rparr>"

text \<open>\<^verbatim>\<open>memset(p, 0, PAGE_SIZE)\<close> and \<^verbatim>\<open>memcpy(d, p, PAGE_SIZE)\<close> on physical pages.\<close>

definition zero_page :: "uptr \<Rightarrow> vmm \<Rightarrow> vmm" where
  "zero_page p s = s\<lparr>mem := (\<lambda>a. if a - p < PAGE_SIZE then 0 else mem s a)\<rparr>"

definition copy_page :: "uptr \<Rightarrow> uptr \<Rightarrow> vmm \<Rightarrow> vmm" where
  "copy_page d p s = s\<lparr>mem := (\<lambda>a. if a - d < PAGE_SIZE then mem s (p + (a - d)) else mem s a)\<rparr>"

definition alloc_page :: "vmm \<Rightarrow> uptr \<times> vmm" where
  "alloc_page s = (case pmm_alloc (frames s) of (p, f) \<Rightarrow> (p, s\<lparr>frames := f\<rparr>))"

definition free_page :: "uptr \<Rightarrow> vmm \<Rightarrow> vmm" where
  "free_page p s = s\<lparr>frames := pmm_free p (frames s)\<rparr>"

definition pmm_alloc_zero :: "vmm \<Rightarrow> uptr \<times> vmm" where
  "pmm_alloc_zero s = (case alloc_page s of (p, s) \<Rightarrow> (p, if p \<noteq> 0 then zero_page p s else s))"

definition get_pte :: "uptr \<Rightarrow> uptr \<Rightarrow> bool \<Rightarrow> vmm \<Rightarrow> uptr option \<times> vmm" where
  "get_pte pd va create s =
     (let pde_ptr = entry pd (PD_INDEX va)
      in if mem s pde_ptr AND PDE_PRESENT = 0
         then if \<not> create then (None, s)
              else case pmm_alloc_zero s of
                (pt_phys, s) \<Rightarrow>
                  if pt_phys = 0 then (None, s)
                  else (Some (entry pt_phys (PT_INDEX va)),
                        mem_write pde_ptr (pt_phys OR PDE_PRESENT OR PDE_WRITE OR PDE_USER) s)
         else (Some (entry (PTE_ADDR (mem s pde_ptr)) (PT_INDEX va)), s))"

definition pte_flags :: "u32 \<Rightarrow> u32" where
  "pte_flags flags =
     PTE_PRESENT OR (if flags AND VM_WRITE \<noteq> 0 then PTE_WRITE else 0)
       OR (if flags AND VM_USER \<noteq> 0 then PTE_USER else 0)
       OR (if flags AND VM_NOCACHE \<noteq> 0 then PTE_PCD else 0)"

text \<open>\<open>None\<close> is the result 0.\<close>

definition map_page :: "uptr \<Rightarrow> uptr \<Rightarrow> uptr \<Rightarrow> u32 \<Rightarrow> vmm \<Rightarrow> errno option \<times> vmm" where
  "map_page pd va pa flags s =
     (case get_pte pd va True s of
        (None, s) \<Rightarrow> (Some ENOMEM, s)
      | (Some pte, s) \<Rightarrow> (None, mem_write pte ((pa AND PAGE_MASK) OR pte_flags flags) s))"

fun map_pages_from :: "uptr \<Rightarrow> uptr \<Rightarrow> uptr \<Rightarrow> u32 \<Rightarrow> nat list \<Rightarrow> vmm \<Rightarrow> errno option \<times> vmm" where
  "map_pages_from pd va pa flags [] s = (None, s)"
| "map_pages_from pd va pa flags (i # is) s =
     (case map_page pd (va + of_nat i * PAGE_SIZE) (pa + of_nat i * PAGE_SIZE) flags s of
        (Some e, s) \<Rightarrow> (Some e, s)
      | (None, s) \<Rightarrow> map_pages_from pd va pa flags is s)"

definition map_pages :: "uptr \<Rightarrow> uptr \<Rightarrow> uptr \<Rightarrow> u32 \<Rightarrow> u32 \<Rightarrow> vmm \<Rightarrow> errno option \<times> vmm" where
  "map_pages pd va pa n flags s = map_pages_from pd va pa flags [0..<unat n] s"

definition unmap_page :: "uptr \<Rightarrow> uptr \<Rightarrow> vmm \<Rightarrow> vmm" where
  "unmap_page pd va s =
     (case get_pte pd va False s of
        (Some pte, s) \<Rightarrow> if mem s pte AND PTE_PRESENT \<noteq> 0 then mem_write pte 0 s else s
      | (None, s) \<Rightarrow> s)"

definition unmap_pages :: "uptr \<Rightarrow> uptr \<Rightarrow> u32 \<Rightarrow> vmm \<Rightarrow> vmm" where
  "unmap_pages pd va n s = fold (\<lambda>i. unmap_page pd (va + of_nat i * PAGE_SIZE)) [0..<unat n] s"

definition virt_to_phys_pd :: "uptr \<Rightarrow> uptr \<Rightarrow> vmm \<Rightarrow> uptr" where
  "virt_to_phys_pd pd va s =
     (case get_pte pd va False s of
        (None, s) \<Rightarrow> 0
      | (Some pte, s) \<Rightarrow>
          if mem s pte AND PTE_PRESENT = 0 then 0
          else PTE_ADDR (mem s pte) OR (va AND (PAGE_SIZE - 1)))"

definition paging_switch :: "uptr \<Rightarrow> vmm \<Rightarrow> vmm" where
  "paging_switch pd s = s\<lparr>cr3 := pd\<rparr>"

text \<open>A failed \<^verbatim>\<open>ASSERT\<close> panics: \<open>None\<close>.  The results of \<^verbatim>\<open>map_page\<close> are not looked at.\<close>

definition paging_init :: "vmm \<Rightarrow> vmm option" where
  "paging_init s =
     (case pmm_alloc_zero s of
        (pd, s) \<Rightarrow>
          if pd = 0 then None
          else let s = s\<lparr>kernel_pgdir := pd\<rparr>;
                   s = fold (\<lambda>p s. snd (map_page pd (KERNEL_VIRT_BASE + p) p VM_WRITE s))
                         (page_steps 0 (4 * 1024 * 1024)) s
               in Some (paging_switch pd s))"

definition pgdir_create :: "vmm \<Rightarrow> uptr \<times> vmm" where
  "pgdir_create s =
     (case pmm_alloc_zero s of
        (pd, s) \<Rightarrow>
          if pd = 0 then (0, s)
          else (pd, fold (\<lambda>i s. mem_write (entry pd i) (mem s (entry (kernel_pgdir s) i)) s) kernel_half s))"

text \<open>The loops of \<^verbatim>\<open>pgdir_destroy\<close>: the entries of one table, then the tables of the user half.\<close>

definition destroy_table :: "uptr \<Rightarrow> vmm \<Rightarrow> vmm" where
  "destroy_table pt s =
     fold (\<lambda>i s. if mem s (entry pt i) AND PTE_PRESENT \<noteq> 0
                 then free_page (PTE_ADDR (mem s (entry pt i))) s else s) all_entries s"

definition destroy_tables :: "uptr \<Rightarrow> vmm \<Rightarrow> vmm" where
  "destroy_tables pd s =
     fold (\<lambda>i s. if mem s (entry pd i) AND PDE_PRESENT = 0 then s
                 else let pt = PTE_ADDR (mem s (entry pd i))
                      in free_page pt (destroy_table pt s)) user_half s"

definition pgdir_destroy :: "uptr \<Rightarrow> vmm \<Rightarrow> vmm" where
  "pgdir_destroy pd s =
     (if pd = 0 \<or> pd = kernel_pgdir s then s else free_page pd (destroy_tables pd s))"

text \<open>The loops of \<^verbatim>\<open>pgdir_clone\<close>; the boolean says whether the loop ran to its end.\<close>

fun clone_ptes :: "uptr \<Rightarrow> uptr \<Rightarrow> nat list \<Rightarrow> vmm \<Rightarrow> bool \<times> vmm" where
  "clone_ptes spt dpt [] s = (True, s)"
| "clone_ptes spt dpt (i # is) s =
     (if mem s (entry spt i) AND PTE_PRESENT = 0 then clone_ptes spt dpt is s
      else case alloc_page s of
        (page, s) \<Rightarrow>
          if page = 0 then (False, s)
          else let s = copy_page page (PTE_ADDR (mem s (entry spt i))) s;
                   s = mem_write (entry dpt i) (page OR (mem s (entry spt i) AND (PAGE_SIZE - 1))) s
               in clone_ptes spt dpt is s)"

fun clone_pdes :: "uptr \<Rightarrow> uptr \<Rightarrow> nat list \<Rightarrow> vmm \<Rightarrow> bool \<times> vmm" where
  "clone_pdes src dst [] s = (True, s)"
| "clone_pdes src dst (i # is) s =
     (if mem s (entry src i) AND PDE_PRESENT = 0 then clone_pdes src dst is s
      else case pmm_alloc_zero s of
        (pt, s) \<Rightarrow>
          if pt = 0 then (False, s)
          else case clone_ptes (PTE_ADDR (mem s (entry src i))) pt all_entries s of
            (False, s) \<Rightarrow> (False, s)
          | (True, s) \<Rightarrow>
              clone_pdes src dst is
                (mem_write (entry dst i) (pt OR (mem s (entry src i) AND (PAGE_SIZE - 1))) s))"

definition pgdir_clone :: "uptr \<Rightarrow> vmm \<Rightarrow> uptr \<times> vmm" where
  "pgdir_clone src s =
     (case pgdir_create s of
        (dst, s) \<Rightarrow>
          if dst = 0 then (0, s)
          else case clone_pdes src dst user_half s of
            (True, s) \<Rightarrow> (dst, s)
          | (False, s) \<Rightarrow> (0, pgdir_destroy dst s))"

lemma set_halves [simp]:
  "set all_entries = {..<1024}" "set user_half = {..<768}" "set kernel_half = {768..<1024}"
  by (simp_all only: all_entries_def user_half_def kernel_half_def set_upt atLeast0LessThan)

lemma distinct_halves [simp]: "distinct all_entries" "distinct user_half"
  by (simp_all only: all_entries_def user_half_def distinct_upt)

section \<open>Page-aligned words\<close>

abbreviation aligned :: "uptr \<Rightarrow> bool" where
  "aligned p \<equiv> 4096 dvd unat p"

lemma aligned_bits: "aligned p \<longleftrightarrow> (\<forall>n<12. \<not> bit p n)"
proof -
  have "aligned p \<longleftrightarrow> unat (take_bit 12 p) = 0"
    by (simp add: unat_take_bit_mod dvd_eq_mod_eq_0)
  also have "\<dots> \<longleftrightarrow> take_bit 12 p = 0" by (simp add: unat_eq_0)
  also have "\<dots> \<longleftrightarrow> (\<forall>n<12. \<not> bit p n)"
    by (auto simp: bit_eq_iff bit_take_bit_iff)
  finally show ?thesis .
qed

lemma PAGE_MASK_bit: "bit PAGE_MASK n \<longleftrightarrow> 12 \<le> n \<and> n < 32"
  unfolding PAGE_MASK_def PAGE_SIZE_def page_mask_eq by (auto simp: bit_simps)

lemma PTE_ADDR_aligned [simp]: "aligned (PTE_ADDR x)"
  by (auto simp: aligned_bits PTE_ADDR_def bit_and_iff PAGE_MASK_bit)

lemma aligned_and_mask [simp]: "aligned (x AND PAGE_MASK)"
  using PTE_ADDR_aligned [of x] by (simp add: PTE_ADDR_def)

lemma small_bits: "f < 4096 \<Longrightarrow> bit f n \<Longrightarrow> n < 12" for f :: u32
proof -
  assume "f < 4096" "bit f n"
  have "unat (take_bit 12 f) = unat f" using \<open>f < 4096\<close> by (simp add: unat_take_bit_mod word_less_nat_alt)
  then have "take_bit 12 f = f" by (simp add: word_unat_eq_iff)
  with \<open>bit f n\<close> show "n < 12" by (metis bit_take_bit_iff)
qed

lemma PTE_ADDR_or: "aligned p \<Longrightarrow> f < 4096 \<Longrightarrow> PTE_ADDR (p OR f) = p"
proof (rule bit_word_eqI)
  fix n assume a: "aligned p" "f < 4096" and n: "n < LENGTH(32)"
  have "\<not> bit f n" if "12 \<le> n" using that small_bits [OF a(2)] by fastforce
  with a(1) n show "bit (PTE_ADDR (p OR f)) n = bit p n"
    by (cases "12 \<le> n") (auto simp: PTE_ADDR_def bit_simps PAGE_MASK_bit aligned_bits)
qed

lemma low_bits_less: "x AND (PAGE_SIZE - 1) < 4096"
  unfolding PAGE_SIZE_def page_mask_eq by (simp add: word_less_nat_alt unat_simps)

lemma or_low_bits: "aligned p \<Longrightarrow> f < 4096 \<Longrightarrow> (p OR f) AND (PAGE_SIZE - 1) = f"
proof (rule bit_word_eqI)
  fix n assume a: "aligned p" "f < 4096" and n: "n < LENGTH(32)"
  have "bit f n \<longleftrightarrow> n < 12 \<and> bit f n" using small_bits [OF a(2)] by blast
  with a(1) n show "bit ((p OR f) AND (PAGE_SIZE - 1)) n = bit f n"
    unfolding PAGE_SIZE_def page_mask_eq by (auto simp: bit_simps aligned_bits)
qed

lemma and_mask_or_low: "(va AND PAGE_MASK) OR (va AND (PAGE_SIZE - 1)) = va"
  unfolding PAGE_MASK_def by (rule bit_word_eqI) (auto simp: bit_simps)

text \<open>Virtual page numbers and the two indices.\<close>

abbreviation vpn :: "uptr \<Rightarrow> nat" where
  "vpn va \<equiv> unat va div 4096"

lemma PD_INDEX_vpn: "PD_INDEX va = vpn va div 1024"
  by (simp add: PD_INDEX_def drop_bit_eq_div unat_div div_mult2_eq [symmetric])

lemma PT_INDEX_vpn: "PT_INDEX va = vpn va mod 1024"
proof -
  have "(0x3FF :: u32) = mask 10" by (simp add: mask_eq_exp_minus_1)
  then have "PT_INDEX va = unat (drop_bit 12 va) mod 2 ^ 10"
    unfolding PT_INDEX_def by (simp only: unat_and_mask)
  then show ?thesis by (simp add: drop_bit_eq_div unat_div)
qed

lemma vpn_bound: "vpn va < 1048576"
  using unat_less_2p32 [of va] by simp

lemma PD_INDEX_bound: "PD_INDEX va < 1024"
  unfolding PD_INDEX_vpn using vpn_bound [of va] by simp

lemma PT_INDEX_bound: "PT_INDEX va < 1024"
  unfolding PT_INDEX_vpn by simp

text \<open>Entries of tables at page-aligned addresses.\<close>

lemma aligned_room: "aligned p \<Longrightarrow> unat p + 4096 \<le> 4294967296"
  using unat_less_2p32 [of p] by (auto elim!: dvdE)

lemma unat_entry: "aligned p \<Longrightarrow> i < 1024 \<Longrightarrow> unat (entry p i) = unat p + 4 * i"
proof -
  assume "aligned p" "i < 1024"
  then have "unat p + 4 * i < 4294967296" using aligned_room [of p] by simp
  moreover have "entry p i = p + of_nat (4 * i)" by (simp add: entry_def)
  ultimately show ?thesis
    by (simp only:) (subst unat_add_nowrap, simp_all add: unat_of_nat unat_word_ariths)
qed

lemma pfn_entry: "aligned p \<Longrightarrow> i < 1024 \<Longrightarrow> pfn (entry p i) = pfn p"
  by (auto simp: unat_entry elim!: dvdE)

lemma aligned_eq: "aligned p \<Longrightarrow> aligned q \<Longrightarrow> p = q \<longleftrightarrow> pfn p = pfn q"
  by (auto simp: word_unat_eq_iff elim!: dvdE)

lemma entry_eq:
  assumes "aligned p" and "aligned q" and "i < 1024" and "j < 1024"
  shows "entry p i = entry q j \<longleftrightarrow> p = q \<and> i = j"
proof
  assume e: "entry p i = entry q j"
  then have "pfn p = pfn q" using assms by (metis pfn_entry)
  with assms have "p = q" by (simp add: aligned_eq)
  have "unat (entry p i) = unat (entry q j)" using e by simp
  with unat_entry [OF assms(1,3)] unat_entry [OF assms(2,4)] \<open>p = q\<close> show "p = q \<and> i = j" by simp
qed simp

lemma page_div_iff: "n div 4096 = k \<longleftrightarrow> 4096 * k \<le> n \<and> n < 4096 * k + 4096" for n k :: nat
proof
  assume "n div 4096 = k"
  then show "4096 * k \<le> n \<and> n < 4096 * k + 4096"
    using div_mult_mod_eq [of n 4096] mod_less_divisor [of 4096 n] by linarith
next
  assume "4096 * k \<le> n \<and> n < 4096 * k + 4096"
  then show "n div 4096 = k" by (intro div_nat_eqI) simp_all
qed

lemma in_page: "aligned p \<Longrightarrow> a - p < PAGE_SIZE \<longleftrightarrow> pfn a = pfn p"
proof -
  assume p: "aligned p"
  then obtain k where k: "unat p = 4096 * k" by (auto elim: dvdE)
  note r = aligned_room [OF p]
  show "a - p < PAGE_SIZE \<longleftrightarrow> pfn a = pfn p"
  proof (cases "p \<le> a")
    case True
    then have "unat (a - p) = unat a - unat p" by (simp add: unat_sub)
    moreover have "4096 * k \<le> unat a" using True k by (simp add: word_le_nat_alt)
    ultimately show ?thesis
      using page_div_iff [of "unat a" k] k by (simp add: PAGE_SIZE_def word_less_nat_alt) linarith
  next
    case False
    then have "unat (a - p) = 4294967296 + unat a - unat p"
      using unat_less_2p32 [of p] by (simp add: unat_sub_if_size word_size word_le_nat_alt)
    moreover have "unat a < 4096 * k" using False k by (simp add: word_le_nat_alt not_le)
    ultimately show ?thesis
      using page_div_iff [of "unat a" k] k r by (simp add: PAGE_SIZE_def word_less_nat_alt)
  qed
qed

section \<open>Reading and writing memory\<close>

lemma mem_write_mem [simp]: "mem (mem_write a v s) = (mem s)(a := v)"
  and frames_mem_write [simp]: "frames (mem_write a v s) = frames s"
  and kernel_pgdir_mem_write [simp]: "kernel_pgdir (mem_write a v s) = kernel_pgdir s"
  by (simp_all add: mem_write_def)

lemma zero_page_simps [simp]:
  "aligned p \<Longrightarrow> mem (zero_page p s) a = (if pfn a = pfn p then 0 else mem s a)"
  "frames (zero_page p s) = frames s" "kernel_pgdir (zero_page p s) = kernel_pgdir s"
  by (simp_all add: zero_page_def in_page)

lemma copy_page_simps [simp]:
  "frames (copy_page d p s) = frames s" "kernel_pgdir (copy_page d p s) = kernel_pgdir s"
  "aligned d \<Longrightarrow> pfn a \<noteq> pfn d \<Longrightarrow> mem (copy_page d p s) a = mem s a"
  by (simp_all add: copy_page_def in_page)

lemma copy_page_entry:
  "aligned d \<Longrightarrow> i < 1024 \<Longrightarrow> mem (copy_page d p s) (entry d i) = mem s (entry p i)"
  by (simp add: copy_page_def in_page pfn_entry) (simp add: entry_def)

text \<open>Pages allocated and released through the allocator's contract.\<close>

lemma alloc_page_0:
  assumes "pmm_inv (frames s)" and "alloc_page s = (0, s')"
  shows "s' = s" and "free_set (frames s) = {}"
  using assms pm.alloc_zero [of "frames s"] by (auto simp: alloc_page_def split: prod.splits)

lemma alloc_page_ok:
  assumes "pmm_inv (frames s)" and "alloc_page s = (p, s')" and "p \<noteq> 0"
  shows "pmm_owned p" and "aligned p" and "pfn p \<in> free_set (frames s)"
    and "free_set (frames s') = free_set (frames s) - {pfn p}" and "pmm_inv (frames s')"
    and "mem s' = mem s" and "kernel_pgdir s' = kernel_pgdir s"
proof -
  from assms(2) obtain f where f: "pmm_alloc (frames s) = (p, f)" "s' = s\<lparr>frames := f\<rparr>"
    by (auto simp: alloc_page_def split: prod.splits)
  from pm.alloc_nonzero [OF assms(1) f(1) assms(3)] f(2)
  show "pmm_owned p" "aligned p" "pfn p \<in> free_set (frames s)"
    "free_set (frames s') = free_set (frames s) - {pfn p}" "pmm_inv (frames s')"
    "mem s' = mem s" "kernel_pgdir s' = kernel_pgdir s"
    by simp_all
qed

lemma pmm_alloc_zero_0:
  assumes "pmm_inv (frames s)" and "pmm_alloc_zero s = (0, s')"
  shows "s' = s" and "free_set (frames s) = {}"
  using assms alloc_page_0 [of s] by (auto simp: pmm_alloc_zero_def split: prod.splits if_splits)

lemma pmm_alloc_zero_ok:
  assumes "pmm_inv (frames s)" and "pmm_alloc_zero s = (p, s')" and "p \<noteq> 0"
  shows "pmm_owned p" and "aligned p" and "pfn p \<in> free_set (frames s)"
    and "free_set (frames s') = free_set (frames s) - {pfn p}" and "pmm_inv (frames s')"
    and "mem s' a = (if pfn a = pfn p then 0 else mem s a)" and "kernel_pgdir s' = kernel_pgdir s"
proof -
  from assms(2,3) obtain t where t: "alloc_page s = (p, t)" "s' = zero_page p t"
    by (auto simp: pmm_alloc_zero_def split: prod.splits)
  note a = alloc_page_ok [OF assms(1) t(1) assms(3)]
  from a t(2) show "pmm_owned p" "aligned p" "pfn p \<in> free_set (frames s)"
    "free_set (frames s') = free_set (frames s) - {pfn p}" "pmm_inv (frames s')"
    "mem s' a = (if pfn a = pfn p then 0 else mem s a)" "kernel_pgdir s' = kernel_pgdir s" by simp_all
qed

section \<open>The abstraction of a page directory\<close>

definition has_table :: "vmm \<Rightarrow> uptr \<Rightarrow> nat \<Rightarrow> bool" where
  "has_table s pd i \<longleftrightarrow> mem s (entry pd i) AND PDE_PRESENT \<noteq> 0"

definition table :: "vmm \<Rightarrow> uptr \<Rightarrow> nat \<Rightarrow> uptr" where
  "table s pd i = PTE_ADDR (mem s (entry pd i))"

definition pgmap :: "vmm \<Rightarrow> uptr \<Rightarrow> nat \<Rightarrow> u32 option" where
  "pgmap s pd v =
     (if has_table s pd (v div 1024)
      then let pte = mem s (entry (table s pd (v div 1024)) (v mod 1024))
           in if pte AND PTE_PRESENT = 0 then None else Some pte
      else None)"

text \<open>
  A well-formed directory: it and its tables are allocated pages, the tables are different from
  each other and from the directory.
\<close>

definition dir_ok :: "vmm \<Rightarrow> uptr \<Rightarrow> bool" where
  "dir_ok s pd \<longleftrightarrow>
     pmm_owned pd \<and> aligned pd \<and> pfn pd \<notin> free_set (frames s) \<and>
     (\<forall>i<1024. has_table s pd i \<longrightarrow>
        pmm_owned (table s pd i) \<and> pfn (table s pd i) \<notin> free_set (frames s) \<and> table s pd i \<noteq> pd \<and>
        (\<forall>j<1024. has_table s pd j \<and> table s pd i = table s pd j \<longrightarrow> i = j))"

lemma table_aligned [simp]: "aligned (table s pd i)"
  by (simp add: table_def)

lemma dir_ok_dir: "dir_ok s pd \<Longrightarrow> aligned pd" "dir_ok s pd \<Longrightarrow> pfn pd \<notin> free_set (frames s)"
  by (simp_all add: dir_ok_def)

lemma dir_ok_table:
  assumes "dir_ok s pd" and "i < 1024" and "has_table s pd i"
  shows "pmm_owned (table s pd i)" and "pfn (table s pd i) \<notin> free_set (frames s)"
    and "table s pd i \<noteq> pd"
    and "\<And>j. j < 1024 \<Longrightarrow> has_table s pd j \<Longrightarrow> table s pd i = table s pd j \<Longrightarrow> i = j"
  using assms unfolding dir_ok_def by blast+

lemma get_pte_lookup:
  "get_pte pd va False s =
     (if has_table s pd (PD_INDEX va)
      then Some (entry (table s pd (PD_INDEX va)) (PT_INDEX va)) else None, s)"
  by (simp add: get_pte_def has_table_def table_def Let_def)

lemma virt_to_phys_pd_pgmap:
  "virt_to_phys_pd pd va s =
     (case pgmap s pd (vpn va) of None \<Rightarrow> 0 | Some pte \<Rightarrow> PTE_ADDR pte OR (va AND (PAGE_SIZE - 1)))"
  by (simp add: virt_to_phys_pd_def get_pte_lookup pgmap_def PD_INDEX_vpn PT_INDEX_vpn Let_def)

text \<open>\<open>pgmap\<close> and \<open>dir_ok\<close> depend on the memory of the directory and of its tables only.\<close>

lemma has_table_cong: "mem s' (entry pd i) = mem s (entry pd i) \<Longrightarrow> has_table s' pd i = has_table s pd i"
  and table_cong: "mem s' (entry pd i) = mem s (entry pd i) \<Longrightarrow> table s' pd i = table s pd i"
  by (simp_all add: has_table_def table_def)

lemma pgmap_cong:
  assumes "v < 1048576" and "mem s' (entry pd (v div 1024)) = mem s (entry pd (v div 1024))"
    and "has_table s pd (v div 1024) \<Longrightarrow>
      mem s' (entry (table s pd (v div 1024)) (v mod 1024)) = mem s (entry (table s pd (v div 1024)) (v mod 1024))"
  shows "pgmap s' pd v = pgmap s pd v"
  using assms(3) by (simp add: pgmap_def has_table_cong [of s', OF assms(2)] table_cong [of s', OF assms(2)])

text \<open>
  What a change leaves alone: pages that were not free and are not listed.  \<open>free_set\<close> only shrinks.
\<close>

definition keeps :: "vmm \<Rightarrow> vmm \<Rightarrow> nat set \<Rightarrow> bool" where
  "keeps s s' X \<longleftrightarrow>
     free_set (frames s') \<subseteq> free_set (frames s) \<and> kernel_pgdir s' = kernel_pgdir s \<and>
     (\<forall>a. pfn a \<notin> free_set (frames s) \<longrightarrow> pfn a \<notin> X \<longrightarrow> mem s' a = mem s a)"

lemma keeps_refl [simp]: "keeps s s X"
  by (simp add: keeps_def)

lemma keeps_mono: "keeps s s' X \<Longrightarrow> X \<subseteq> Y \<Longrightarrow> keeps s s' Y"
  by (auto simp: keeps_def)

lemma keeps_mem: "keeps s s' X \<Longrightarrow> pfn a \<notin> free_set (frames s) \<Longrightarrow> pfn a \<notin> X \<Longrightarrow> mem s' a = mem s a"
  by (simp add: keeps_def)

lemma keeps_trans:
  assumes "keeps s s' X" and "keeps s' s'' Y" and "Y \<subseteq> X \<union> free_set (frames s)"
  shows "keeps s s'' X"
proof -
  have sub: "free_set (frames s') \<subseteq> free_set (frames s)" "free_set (frames s'') \<subseteq> free_set (frames s')"
    and kp: "kernel_pgdir s'' = kernel_pgdir s"
    using assms(1,2) by (simp_all add: keeps_def)
  have "mem s'' a = mem s a" if a: "pfn a \<notin> free_set (frames s)" "pfn a \<notin> X" for a
  proof -
    have "mem s'' a = mem s' a" by (rule keeps_mem [OF assms(2)]) (use sub(1) assms(3) a in blast)+
    also have "\<dots> = mem s a" by (rule keeps_mem [OF assms(1) a])
    finally show ?thesis .
  qed
  with sub kp show ?thesis unfolding keeps_def by blast
qed

lemma keeps_alloc_zero:
  assumes "pmm_inv (frames s)" and "pmm_alloc_zero s = (p, s')"
  shows "keeps s s' {}"
proof (cases "p = 0")
  case True
  with assms pmm_alloc_zero_0 [of s s'] show ?thesis by simp
next
  case False
  from pmm_alloc_zero_ok(3,4,6,7) [OF assms False] show ?thesis by (auto simp: keeps_def)
qed

lemma keeps_write: "keeps s (mem_write a v s) {pfn a}"
  by (auto simp: keeps_def)

text \<open>A directory whose pages are not touched keeps its shape and its mappings.\<close>

definition dir_pages :: "vmm \<Rightarrow> uptr \<Rightarrow> nat set" where
  "dir_pages s pd = insert (pfn pd) {pfn (table s pd i) | i. i < 1024 \<and> has_table s pd i}"

lemma dir_keeps:
  assumes ok: "dir_ok s q" and k: "keeps s s' X" and X: "dir_pages s q \<inter> X = {}"
  shows "dir_ok s' q" and "v < 1048576 \<Longrightarrow> pgmap s' q v = pgmap s q v"
    and "i < 1024 \<Longrightarrow> has_table s' q i = has_table s q i" and "i < 1024 \<Longrightarrow> table s' q i = table s q i"
proof -
  have nf: "pfn q \<notin> free_set (frames s)" "pfn q \<notin> X" "aligned q"
    using ok X by (auto simp: dir_ok_def dir_pages_def)
  have e: "mem s' (entry q i) = mem s (entry q i)" if "i < 1024" for i
    using nf that by (intro keeps_mem [OF k]) (simp_all add: pfn_entry)
  show ht: "has_table s' q i = has_table s q i" if "i < 1024" for i
    using e [OF that] by (rule has_table_cong)
  show tb: "table s' q i = table s q i" if "i < 1024" for i
    using e [OF that] by (rule table_cong)
  have sub: "free_set (frames s') \<subseteq> free_set (frames s)" using k by (simp add: keeps_def)
  show "dir_ok s' q"
    using ok sub unfolding dir_ok_def by (auto simp: ht tb)
  show "pgmap s' q v = pgmap s q v" if v: "v < 1048576"
  proof (rule pgmap_cong [OF v])
    show "mem s' (entry q (v div 1024)) = mem s (entry q (v div 1024))" using v by (intro e) simp
    assume h: "has_table s q (v div 1024)"
    have i: "v div 1024 < 1024" using v by simp
    have "pfn (table s q (v div 1024)) \<notin> X" using X h i by (auto simp: dir_pages_def)
    with dir_ok_table(2) [OF ok i h]
    show "mem s' (entry (table s q (v div 1024)) (v mod 1024)) = mem s (entry (table s q (v div 1024)) (v mod 1024))"
      by (intro keeps_mem [OF k]) (simp_all add: pfn_entry)
  qed
qed

section \<open>Mapping and unmapping\<close>

lemma flag_words:
  "PDE_PRESENT OR PDE_WRITE OR PDE_USER = 7" "(7 :: u32) < 4096" "(7 :: u32) AND 1 = 1"
  by (simp_all add: PDE_PRESENT_def PDE_WRITE_def PDE_USER_def)

lemma pte_flags_props: "pte_flags f < 4096" "pte_flags f AND 1 = 1"
  by (auto simp: pte_flags_def PTE_PRESENT_def PTE_WRITE_def PTE_USER_def PTE_PCD_def)

lemma present_bit: "x AND 1 \<noteq> 0 \<longleftrightarrow> bit x 0" for x :: u32
  by (simp add: and_one_eq mod2_eq_if bit_0)

lemma or_present: "f AND 1 = 1 \<Longrightarrow> (p OR f) AND 1 \<noteq> 0" for p f :: u32
proof -
  assume "f AND 1 = 1"
  then have "bit f 0" by (simp flip: present_bit)
  then show "(p OR f) AND 1 \<noteq> 0" unfolding present_bit by (simp add: bit_or_iff)
qed

text \<open>Writing an entry of a table of the directory.\<close>

lemma table_write:
  fixes x :: u32
  assumes ok: "dir_ok s pd" and i: "i < 1024" "has_table s pd i" and k: "k < 1024"
  defines "s' \<equiv> mem_write (entry (table s pd i) k) x s"
  shows "dir_ok s' pd"
    and "v < 1048576 \<Longrightarrow> pgmap s' pd v =
      (if v = i * 1024 + k then if x AND PTE_PRESENT = 0 then None else Some x else pgmap s pd v)"
    and "\<And>j. j < 1024 \<Longrightarrow> mem s' (entry pd j) = mem s (entry pd j)"
proof -
  note t = dir_ok_table [OF ok i]
  have al: "aligned pd" using ok by (rule dir_ok_dir)
  show e: "\<And>j. j < 1024 \<Longrightarrow> mem s' (entry pd j) = mem s (entry pd j)"
    using t(3) k al by (simp add: s'_def entry_eq)
  have ht: "has_table s' pd j = has_table s pd j" and tb: "table s' pd j = table s pd j" if "j < 1024" for j
    using has_table_cong [of s', OF e [OF that]] table_cong [of s', OF e [OF that]] by simp_all
  show "dir_ok s' pd"
    using ok unfolding dir_ok_def by (auto simp: ht tb) (auto simp: s'_def)
  assume v: "v < 1048576"
  have vd: "v div 1024 < 1024" using v by simp
  show "pgmap s' pd v =
      (if v = i * 1024 + k then if x AND PTE_PRESENT = 0 then None else Some x else pgmap s pd v)"
  proof (cases "v = i * 1024 + k")
    case True
    with k have "v div 1024 = i" "v mod 1024 = k" by simp_all
    with True i(2) show ?thesis by (simp add: pgmap_def ht [OF i(1)] tb [OF i(1)]) (simp add: s'_def)
  next
    case False
    have "mem s' (entry (table s pd (v div 1024)) (v mod 1024)) = mem s (entry (table s pd (v div 1024)) (v mod 1024))"
      if h: "has_table s pd (v div 1024)"
    proof -
      have "\<not> (table s pd (v div 1024) = table s pd i \<and> v mod 1024 = k)"
        using t(4) [OF vd h] False div_mult_mod_eq [of v 1024] by auto
      then show ?thesis using k by (auto simp: s'_def entry_eq)
    qed
    with False show ?thesis by (simp add: pgmap_cong [OF v e [OF vd]])
  qed
qed

lemma get_pte_create:
  assumes ok: "dir_ok s pd" and inv: "pmm_inv (frames s)" and none: "\<not> has_table s pd i"
    and i: "i = PD_INDEX va" and p: "pmm_alloc_zero s = (p, s1)" "p \<noteq> 0"
  defines "s' \<equiv> mem_write (entry pd i) (p OR PDE_PRESENT OR PDE_WRITE OR PDE_USER) s1"
  shows "get_pte pd va True s = (Some (entry p (PT_INDEX va)), s')"
    and "dir_ok s' pd" and "pmm_inv (frames s')" and "has_table s' pd i" and "table s' pd i = p"
    and "keeps s s' {pfn pd}" and "v < 1048576 \<Longrightarrow> pgmap s' pd v = pgmap s pd v"
proof -
  note a = pmm_alloc_zero_ok [OF inv p]
  have i1: "i < 1024" using PD_INDEX_bound i by simp
  have al: "aligned pd" and nf: "pfn pd \<notin> free_set (frames s)" using ok by (simp_all add: dir_ok_dir)
  have pp: "pfn p \<noteq> pfn pd" "p \<noteq> pd" using a(3) nf by auto
  have "mem s (entry pd (PD_INDEX va)) AND PDE_PRESENT = 0" using none i by (simp add: has_table_def)
  then show "get_pte pd va True s = (Some (entry p (PT_INDEX va)), s')"
    using p by (simp add: get_pte_def s'_def i Let_def)
  have w: "p OR PDE_PRESENT OR PDE_WRITE OR PDE_USER = p OR 7"
    using flag_words(1) by (simp add: or.assoc)
  have ei: "mem s' (entry pd i) = p OR 7" by (simp add: s'_def w)
  show hi: "has_table s' pd i"
    unfolding has_table_def ei using or_present [OF flag_words(3)] by (simp add: PDE_PRESENT_def)
  show ti: "table s' pd i = p"
    unfolding table_def ei by (rule PTE_ADDR_or [OF a(2) flag_words(2)])
  have ej: "mem s' (entry pd j) = mem s (entry pd j)" if "j < 1024" "j \<noteq> i" for j
    using that i1 al pp a(6) by (simp add: s'_def entry_eq pfn_entry)
  have ht: "has_table s' pd j = has_table s pd j" and tb: "table s' pd j = table s pd j"
    if "j < 1024" "j \<noteq> i" for j
    using has_table_cong [of s', OF ej [OF that]] table_cong [of s', OF ej [OF that]] by simp_all
  show "pmm_inv (frames s')" using a(5) by (simp add: s'_def)
  have fs: "free_set (frames s') = free_set (frames s) - {pfn p}" using a(4) by (simp add: s'_def)
  show "keeps s s' {pfn pd}"
    using a(6,7) fs al i1 a(3) unfolding keeps_def s'_def by (auto simp: pfn_entry)
  have pt: "p \<noteq> table s pd j" if "j < 1024" "has_table s pd j" for j
    using dir_ok_table(2) [OF ok that] a(3) by auto
  have old: "pmm_owned (table s pd j) \<and> pfn (table s pd j) \<notin> free_set (frames s') \<and> table s pd j \<noteq> pd"
    if "j < 1024" "has_table s pd j" for j
    using dir_ok_table(1-3) [OF ok that] fs by simp
  have "pmm_owned (table s' pd j) \<and> pfn (table s' pd j) \<notin> free_set (frames s') \<and> table s' pd j \<noteq> pd \<and>
      (\<forall>l<1024. has_table s' pd l \<and> table s' pd j = table s' pd l \<longrightarrow> j = l)"
    if j: "j < 1024" "has_table s' pd j" for j
  proof (cases "j = i")
    case True
    have "i = l" if "l < 1024" "has_table s' pd l" "p = table s' pd l" for l
      using that pt [of l] ht [of l] tb [of l] by (cases "l = i") auto
    with a(1) pp fs ti True show ?thesis by auto
  next
    case False
    with j ht have hj: "has_table s pd j" by simp
    have "j = l" if "l < 1024" "has_table s' pd l" "table s pd j = table s' pd l" for l
      using that dir_ok_table(4) [OF ok j(1) hj, of l] pt [OF j(1) hj] ti ht tb by (cases "l = i") auto
    with old [OF j(1) hj] tb [OF j(1) False] show ?thesis by auto
  qed
  with ok nf fs show "dir_ok s' pd" unfolding dir_ok_def by auto
  assume v: "v < 1048576"
  then have vd: "v div 1024 < 1024" by simp
  show "pgmap s' pd v = pgmap s pd v"
  proof (cases "v div 1024 = i")
    case True
    have "mem s' (entry p (v mod 1024)) = 0"
      using pp a(2,6) i1 al by (simp add: s'_def entry_eq pfn_entry)
    with True none hi ti show ?thesis by (simp add: pgmap_def PTE_PRESENT_def)
  next
    case False
    show ?thesis
    proof (rule pgmap_cong [OF v ej [OF vd False]])
      assume h: "has_table s pd (v div 1024)"
      have "pfn (table s pd (v div 1024)) \<noteq> pfn p"
        using pt [OF vd h] a(2) by (auto simp: aligned_eq)
      moreover have "table s pd (v div 1024) \<noteq> pd" using dir_ok_table(3) [OF ok vd h] .
      ultimately show "mem s' (entry (table s pd (v div 1024)) (v mod 1024)) =
          mem s (entry (table s pd (v div 1024)) (v mod 1024))"
        using a(6) i1 al by (simp add: s'_def entry_eq pfn_entry)
    qed
  qed
qed

text \<open>What \<^verbatim>\<open>map_page\<close> does, on both branches.\<close>

lemma map_page_spec:
  fixes va pa :: uptr and flags :: u32
  assumes ok: "dir_ok s pd" and inv: "pmm_inv (frames s)"
  defines "i \<equiv> PD_INDEX va" and "pte \<equiv> (pa AND PAGE_MASK) OR pte_flags flags"
  shows "\<exists>r s'. map_page pd va pa flags s = (r, s') \<and>
    (if \<not> has_table s pd i \<and> free_set (frames s) = {} then r = Some ENOMEM \<and> s' = s
     else r = None \<and> dir_ok s' pd \<and> pmm_inv (frames s') \<and>
       (\<forall>v<1048576. pgmap s' pd v = (if v = vpn va then Some pte else pgmap s pd v)) \<and>
       keeps s s' (insert (pfn pd) (if has_table s pd i then {pfn (table s pd i)} else {})))"
proof -
  have i: "i < 1024" "PT_INDEX va < 1024" "i * 1024 + PT_INDEX va = vpn va"
    unfolding i_def using PD_INDEX_bound PT_INDEX_bound by (simp_all add: PD_INDEX_vpn PT_INDEX_vpn)
  have pr: "pte AND PTE_PRESENT \<noteq> 0"
    unfolding pte_def PTE_PRESENT_def using or_present [OF pte_flags_props(2)] .
  show ?thesis
  proof (cases "has_table s pd i")
    case True
    let ?s' = "mem_write (entry (table s pd i) (PT_INDEX va)) pte s"
    have "get_pte pd va True s = (Some (entry (table s pd i) (PT_INDEX va)), s)"
      using True by (simp add: get_pte_def has_table_def table_def i_def)
    then have m: "map_page pd va pa flags s = (None, ?s')"
      by (simp add: map_page_def pte_def)
    note w = table_write [OF ok i(1) True i(2), where x = pte]
    have "keeps s ?s' (insert (pfn pd) {pfn (table s pd i)})"
      using keeps_mono [OF keeps_write] i by (simp add: pfn_entry)
    with m w True pr inv i(3) show ?thesis by simp
  next
    case False
    obtain p s1 where p: "pmm_alloc_zero s = (p, s1)" by fastforce
    show ?thesis
    proof (cases "p = 0")
      case True
      with p pmm_alloc_zero_0 [OF inv] have "s1 = s" "free_set (frames s) = {}" by simp_all
      with False p True show ?thesis
        by (simp add: map_page_def get_pte_def has_table_def i_def)
    next
      case p0: False
      note g = get_pte_create [OF ok inv False _ p p0, of va, folded i_def, OF refl]
      let ?t = "mem_write (entry pd i) (p OR PDE_PRESENT OR PDE_WRITE OR PDE_USER) s1"
      let ?s' = "mem_write (entry (table ?t pd i) (PT_INDEX va)) pte ?t"
      have m: "map_page pd va pa flags s = (None, ?s')"
        using g(1,5) by (simp add: map_page_def pte_def)
      note w = table_write [OF g(2) i(1) g(4) i(2), where x = pte]
      note a = pmm_alloc_zero_ok(3) [OF inv p p0]
      have "keeps ?t ?s' {pfn p}" using keeps_write g(5) i pmm_alloc_zero_ok(2) [OF inv p p0]
        by (metis pfn_entry)
      then have "keeps s ?s' {pfn pd}" by (rule keeps_trans [OF g(6)]) (use a in auto)
      with m w g(3,7) False a pr i(3) show ?thesis by auto
    qed
  qed
qed

lemma map_page_ok:
  assumes "dir_ok s pd" and "pmm_inv (frames s)" and "map_page pd va pa flags s = (r, s')"
    and "has_table s pd (PD_INDEX va) \<or> free_set (frames s) \<noteq> {}"
  shows "r = None" and "dir_ok s' pd" and "pmm_inv (frames s')"
    and "v < 1048576 \<Longrightarrow> pgmap s' pd v = (if v = vpn va then Some ((pa AND PAGE_MASK) OR pte_flags flags) else pgmap s pd v)"
    and "keeps s s' (insert (pfn pd) (if has_table s pd (PD_INDEX va) then {pfn (table s pd (PD_INDEX va))} else {}))"
    and "kernel_pgdir s' = kernel_pgdir s" and "free_set (frames s') \<subseteq> free_set (frames s)"
proof -
  let ?X = "insert (pfn pd) (if has_table s pd (PD_INDEX va) then {pfn (table s pd (PD_INDEX va))} else {})"
  have "\<not> (\<not> has_table s pd (PD_INDEX va) \<and> free_set (frames s) = {})" using assms(4) by blast
  then have c: "r = None \<and> dir_ok s' pd \<and> pmm_inv (frames s') \<and>
    (\<forall>v<1048576. pgmap s' pd v = (if v = vpn va then Some ((pa AND PAGE_MASK) OR pte_flags flags) else pgmap s pd v)) \<and>
    keeps s s' ?X"
    using map_page_spec [OF assms(1,2), of va pa flags, unfolded assms(3)] by (simp only: if_False) blast
  then show "r = None" "dir_ok s' pd" "pmm_inv (frames s')" "keeps s s' ?X"
    "v < 1048576 \<Longrightarrow> pgmap s' pd v = (if v = vpn va then Some ((pa AND PAGE_MASK) OR pte_flags flags) else pgmap s pd v)"
    by blast+
  from c show "kernel_pgdir s' = kernel_pgdir s" "free_set (frames s') \<subseteq> free_set (frames s)"
    by (simp_all add: keeps_def)
qed

lemma dir_pages_cong:
  "(\<And>i. i < 1024 \<Longrightarrow> mem s' (entry pd i) = mem s (entry pd i)) \<Longrightarrow> dir_pages s' pd = dir_pages s pd"
  unfolding dir_pages_def has_table_def table_def
  by (rule arg_cong [of _ _ "insert _"], rule Collect_cong, rule ex_cong1) auto

text \<open>A mapping takes at most one page, which becomes a page of the directory.\<close>

lemma map_page_pages:
  assumes ok: "dir_ok s pd" and inv: "pmm_inv (frames s)" and m: "map_page pd va pa flags s = (r, s')"
  shows "\<exists>N. N \<subseteq> free_set (frames s) \<and> card N \<le> 1 \<and> free_set (frames s') = free_set (frames s) - N \<and>
    dir_pages s' pd = dir_pages s pd \<union> N"
proof -
  let ?i = "PD_INDEX va"
  have i: "?i < 1024" "PT_INDEX va < 1024" using PD_INDEX_bound PT_INDEX_bound by simp_all
  obtain p s1 where p: "pmm_alloc_zero s = (p, s1)" by fastforce
  have same: "dir_pages (mem_write (entry (table t pd ?i) (PT_INDEX va)) x t) pd = dir_pages t pd"
    if "dir_ok t pd" "has_table t pd ?i" for t x
    using table_write(3) [OF that(1) i(1) that(2) i(2), where x = x] by (rule dir_pages_cong)
  consider (has) "has_table s pd ?i" | (full) "\<not> has_table s pd ?i" "p = 0" | (new) "\<not> has_table s pd ?i" "p \<noteq> 0"
    by blast
  then show ?thesis
  proof cases
    case has
    then have "s' = mem_write (entry (table s pd ?i) (PT_INDEX va)) ((pa AND PAGE_MASK) OR pte_flags flags) s"
      using m by (simp add: map_page_def get_pte_def has_table_def table_def)
    with same [OF ok has] show ?thesis by (intro exI [of _ "{}"]) simp
  next
    case full
    with p pmm_alloc_zero_0 [OF inv] have "s1 = s" by simp
    with full p m have "s' = s" by (simp add: map_page_def get_pte_def has_table_def)
    then show ?thesis by (intro exI [of _ "{}"]) simp
  next
    case new
    note g = get_pte_create [OF ok inv new(1) refl p new(2)]
    note a = pmm_alloc_zero_ok [OF inv p new(2)]
    let ?t = "mem_write (entry pd ?i) (p OR PDE_PRESENT OR PDE_WRITE OR PDE_USER) s1"
    have s': "s' = mem_write (entry (table ?t pd ?i) (PT_INDEX va)) ((pa AND PAGE_MASK) OR pte_flags flags) ?t"
      using m g(1,5) by (simp add: map_page_def)
    have al: "aligned pd" "pfn p \<noteq> pfn pd" using ok a(3) by (auto simp: dir_ok_def)
    have e: "mem ?t (entry pd j) = mem s (entry pd j)" if "j < 1024" "j \<noteq> ?i" for j
      using that i(1) al a(6) by (simp add: entry_eq pfn_entry)
    have "has_table ?t pd j \<longleftrightarrow> j = ?i \<or> has_table s pd j" "j \<noteq> ?i \<Longrightarrow> table ?t pd j = table s pd j" if "j < 1024" for j
      using e [OF that] g(4) by (cases "j = ?i"; simp add: has_table_def table_def)+
    then have "dir_pages ?t pd = dir_pages s pd \<union> {pfn p}"
      unfolding dir_pages_def using new(1) g(5) i(1) by (auto; metis)
    with same [OF g(2,4)] a(3,4) show ?thesis unfolding s' by (intro exI [of _ "{pfn p}"]) simp
  qed
qed

lemma unmap_page_spec:
  assumes ok: "dir_ok s pd"
  shows "dir_ok (unmap_page pd va s) pd" and "frames (unmap_page pd va s) = frames s"
    and "v < 1048576 \<Longrightarrow> pgmap (unmap_page pd va s) pd v = (if v = vpn va then None else pgmap s pd v)"
proof -
  let ?i = "PD_INDEX va" and ?k = "PT_INDEX va" and ?s' = "unmap_page pd va s"
  have i: "?i < 1024" "?k < 1024" "?i * 1024 + ?k = vpn va"
    using PD_INDEX_bound PT_INDEX_bound by (simp_all add: PD_INDEX_vpn PT_INDEX_vpn)
  have "dir_ok ?s' pd \<and> frames ?s' = frames s \<and>
    (\<forall>v<1048576. pgmap ?s' pd v = (if v = vpn va then None else pgmap s pd v))"
  proof (cases "has_table s pd ?i \<and> mem s (entry (table s pd ?i) ?k) AND PTE_PRESENT \<noteq> 0")
    case True
    then have u: "?s' = mem_write (entry (table s pd ?i) ?k) 0 s"
      by (simp add: unmap_page_def get_pte_lookup)
    note w = table_write [OF ok i(1) conjunct1 [OF True] i(2), where x = 0]
    from w i(3) show ?thesis unfolding u by simp
  next
    case False
    then have u: "?s' = s" by (auto simp: unmap_page_def get_pte_lookup)
    from False have "pgmap s pd (vpn va) = None"
      by (auto simp: pgmap_def PD_INDEX_vpn PT_INDEX_vpn)
    with ok show ?thesis unfolding u by auto
  qed
  then show "dir_ok ?s' pd" "frames ?s' = frames s"
    "v < 1048576 \<Longrightarrow> pgmap ?s' pd v = (if v = vpn va then None else pgmap s pd v)" by auto
qed

section \<open>Creating a directory\<close>

lemma copy_entries:
  assumes "aligned pd" and "aligned k" and "pd \<noteq> k" and "set is \<subseteq> {..<1024}"
    and "kernel_pgdir s = k"
  defines "r \<equiv> fold (\<lambda>i s. mem_write (entry pd i) (mem s (entry (kernel_pgdir s) i)) s) is s"
  shows "frames r = frames s" and "kernel_pgdir r = k"
    and "i \<in> set is \<Longrightarrow> mem r (entry pd i) = mem s (entry k i)"
    and "a \<notin> entry pd ` set is \<Longrightarrow> mem r a = mem s a"
proof -
  have "frames r = frames s \<and> kernel_pgdir r = k \<and> (\<forall>i\<in>set is. mem r (entry pd i) = mem s (entry k i)) \<and>
    (\<forall>a. a \<notin> entry pd ` set is \<longrightarrow> mem r a = mem s a)"
    unfolding r_def using assms(4,5)
  proof (induction "is" arbitrary: s)
    case (Cons j js)
    let ?t = "mem_write (entry pd j) (mem s (entry (kernel_pgdir s) j)) s"
    have j: "j < 1024" and js: "set js \<subseteq> {..<1024}" and k: "kernel_pgdir ?t = k" using Cons.prems by auto
    have ne: "entry k i \<noteq> entry pd j" if "i < 1024" for i
      using entry_eq [OF assms(2,1) that j] assms(3) by auto
    note IH = Cons.IH [OF js k]
    have "mem (fold (\<lambda>i s. mem_write (entry pd i) (mem s (entry (kernel_pgdir s) i)) s) js ?t) (entry pd i) =
        mem s (entry k i)" if i: "i \<in> set (j # js)" for i
    proof (cases "i \<in> set js")
      case True
      then have "i < 1024" using js by auto
      with True IH ne show ?thesis by simp
    next
      case False
      with i have ij: "i = j" by simp
      have "entry pd j \<notin> entry pd ` set js"
        using False ij js j entry_eq [OF assms(1,1)] by (metis imageE lessThan_iff subset_iff)
      with IH ij Cons.prems(2) show ?thesis by simp
    qed
    with IH show ?case by auto
  qed simp
  then show "frames r = frames s" "kernel_pgdir r = k"
    "i \<in> set is \<Longrightarrow> mem r (entry pd i) = mem s (entry k i)"
    "a \<notin> entry pd ` set is \<Longrightarrow> mem r a = mem s a" by auto
qed

lemma pgdir_create_spec:
  assumes k: "dir_ok s (kernel_pgdir s)" and inv: "pmm_inv (frames s)" and c: "pgdir_create s = (pd, s')"
  shows "pd = 0 \<Longrightarrow> s' = s \<and> free_set (frames s) = {}"
    and "pd \<noteq> 0 \<Longrightarrow> dir_ok s' pd" and "pd \<noteq> 0 \<Longrightarrow> pfn pd \<in> free_set (frames s)"
    and "pd \<noteq> 0 \<Longrightarrow> free_set (frames s') = free_set (frames s) - {pfn pd}"
    and "pd \<noteq> 0 \<Longrightarrow> pmm_inv (frames s')" and "pd \<noteq> 0 \<Longrightarrow> keeps s s' {}"
    and "pd \<noteq> 0 \<Longrightarrow> v < 1048576 \<Longrightarrow>
      pgmap s' pd v = (if v < 786432 then None else pgmap s (kernel_pgdir s) v)"
    and "pd \<noteq> 0 \<Longrightarrow> i < 768 \<Longrightarrow> mem s' (entry pd i) = 0"
proof -
  let ?k = "kernel_pgdir s"
  obtain p s1 where p: "pmm_alloc_zero s = (p, s1)" by fastforce
  show "s' = s \<and> free_set (frames s) = {}" if "pd = 0"
  proof -
    have "p = 0" "s' = s1" using that c p by (auto simp: pgdir_create_def split: if_splits)
    with pmm_alloc_zero_0 [OF inv, of s1] p show ?thesis by simp
  qed
  assume "pd \<noteq> 0"
  with c p have pp: "p = pd" and s': "s' = fold (\<lambda>i s. mem_write (entry pd i) (mem s (entry (kernel_pgdir s) i)) s) kernel_half s1"
    by (auto simp: pgdir_create_def split: if_splits)
  note a = pmm_alloc_zero_ok [OF inv p [unfolded pp] \<open>pd \<noteq> 0\<close>]
  have kal: "aligned ?k" "pfn ?k \<notin> free_set (frames s)" using k by (simp_all add: dir_ok_dir)
  have ne: "pfn pd \<noteq> pfn ?k" "pd \<noteq> ?k" using kal(2) a(3) by auto
  have sub: "set kernel_half \<subseteq> {..<1024 :: nat}" by auto
  note e = copy_entries [OF a(2) kal(1) ne(2) sub a(7), folded s']
  have m1: "mem s1 x = (if pfn x = pfn pd then 0 else mem s x)" for x by (rule a(6))
  have hi: "mem s' (entry pd i) = mem s (entry ?k i)" if "768 \<le> i" "i < 1024" for i
    using that e(3) [of i] m1 kal(1) ne(1) by (simp add: pfn_entry)
  show lo: "mem s' (entry pd i) = 0" if "i < 768" for i
  proof -
    have "entry pd i \<notin> entry pd ` set kernel_half"
      using that entry_eq [OF a(2,2)] by auto
    with that a(2) show ?thesis by (simp add: e(4) m1 pfn_entry)
  qed
  have oth: "mem s' x = mem s x" if "pfn x \<noteq> pfn pd" for x
  proof -
    have "x \<notin> entry pd ` set kernel_half" using that a(2) by (auto simp: pfn_entry)
    with that show ?thesis by (simp add: e(4) m1)
  qed
  show "pfn pd \<in> free_set (frames s)" by (rule a(3))
  show fs: "free_set (frames s') = free_set (frames s) - {pfn pd}" using a(4) e(1) by simp
  show "pmm_inv (frames s')" using a(5) e(1) by simp
  have "mem s' x = mem s x" if "pfn x \<notin> free_set (frames s)" for x
    using that a(3) by (intro oth) auto
  with fs e(2) show "keeps s s' {}" unfolding keeps_def by auto
  have ht: "has_table s' pd i \<longleftrightarrow> 768 \<le> i \<and> has_table s ?k i" if "i < 1024" for i
    using that hi [of i] lo [of i] by (cases "i < 768") (auto simp: has_table_def PDE_PRESENT_def)
  have tb: "table s' pd i = table s ?k i" if "768 \<le> i" "i < 1024" for i
    using hi [OF that] by (simp add: table_def)
  have "table s ?k i \<noteq> pd" if "i < 1024" "has_table s ?k i" for i
    using dir_ok_table(2) [OF k that] a(3) by auto
  with k a(1,2) fs show "dir_ok s' pd"
    unfolding dir_ok_def by (auto simp: ht tb)
  assume v: "v < 1048576"
  have vd: "v div 1024 < 1024" using v by simp
  show "pgmap s' pd v = (if v < 786432 then None else pgmap s ?k v)"
  proof (cases "v < 786432")
    case True
    then have "v div 1024 < 768" by simp
    with True ht [OF vd] show ?thesis by (simp add: pgmap_def)
  next
    case False
    then have v1: "768 \<le> v div 1024" by simp
    have "mem s' (entry (table s ?k (v div 1024)) (v mod 1024)) = mem s (entry (table s ?k (v div 1024)) (v mod 1024))"
      if "has_table s ?k (v div 1024)"
      using dir_ok_table(2) [OF k vd that] a(3) by (intro oth) (auto simp: pfn_entry)
    with False v1 show ?thesis by (simp add: pgmap_def ht [OF vd] tb [OF v1 vd])
  qed
qed

section \<open>Destroying a directory\<close>

definition freeable :: "uptr \<Rightarrow> bool" where
  "freeable p \<longleftrightarrow> p \<noteq> 0 \<and> p < PHYS_MEM_MAX"

lemma free_page_simps [simp]:
  "mem (free_page p s) = mem s" "kernel_pgdir (free_page p s) = kernel_pgdir s"
  by (simp_all add: free_page_def)

lemma free_page_set:
  "free_set (frames (free_page p s)) = free_set (frames s) \<union> pfn ` ({p} \<inter> Collect freeable)"
proof (cases "freeable p")
  case True
  then show ?thesis by (simp add: free_page_def freeable_def pmm_free_set)
next
  case False
  then show ?thesis by (auto simp: free_page_def freeable_def pmm_free_ignored not_less)
qed

lemma free_page_inv: "pmm_inv (frames s) \<Longrightarrow> aligned p \<Longrightarrow> pmm_inv (frames (free_page p s))"
proof (cases "p = 0")
  case False
  assume inv: "pmm_inv (frames s)" and "aligned p"
  then obtain k where "unat p = 4096 * k" by (auto elim: dvdE)
  with False have "4096 \<le> unat p" by (cases k) (auto simp: word_unat_eq_iff)
  with inv show ?thesis by (simp add: free_page_def pmm_free_inv)
qed (simp add: free_page_def pmm_free_ignored)

text \<open>A loop that releases, for some indices, a page read from memory.\<close>

lemma fold_free_pages:
  assumes "\<And>i s. i \<in> set is \<Longrightarrow> mem (f i s) = mem s \<and> kernel_pgdir (f i s) = kernel_pgdir s"
    and "\<And>i t. i \<in> set is \<Longrightarrow> mem t = mem s \<Longrightarrow>
      free_set (frames (f i t)) = free_set (frames t) \<union> pfn ` (P i \<inter> Collect freeable)"
    and "\<And>i t. i \<in> set is \<Longrightarrow> pmm_inv (frames t) \<Longrightarrow> pmm_inv (frames (f i t))"
  shows "mem (fold f is s) = mem s" and "kernel_pgdir (fold f is s) = kernel_pgdir s"
    and "free_set (frames (fold f is s)) = free_set (frames s) \<union> pfn ` ((\<Union>i\<in>set is. P i) \<inter> Collect freeable)"
    and "pmm_inv (frames s) \<Longrightarrow> pmm_inv (frames (fold f is s))"
proof -
  have "mem (fold f is t) = mem s \<and> kernel_pgdir (fold f is t) = kernel_pgdir t \<and>
    free_set (frames (fold f is t)) = free_set (frames t) \<union> pfn ` ((\<Union>i\<in>set is. P i) \<inter> Collect freeable) \<and>
    (pmm_inv (frames t) \<longrightarrow> pmm_inv (frames (fold f is t)))" if "mem t = mem s" for t
    using that assms
  proof (induction "is" arbitrary: t)
    case (Cons i js)
    have "mem (f i t) = mem s" "kernel_pgdir (f i t) = kernel_pgdir t" using Cons.prems(1,2) by auto
    with Cons.IH [of "f i t"] Cons.prems show ?case by (auto simp: Int_Un_distrib2)
  qed simp
  from this [of s] show "mem (fold f is s) = mem s" "kernel_pgdir (fold f is s) = kernel_pgdir s"
    "free_set (frames (fold f is s)) = free_set (frames s) \<union> pfn ` ((\<Union>i\<in>set is. P i) \<inter> Collect freeable)"
    "pmm_inv (frames s) \<Longrightarrow> pmm_inv (frames (fold f is s))" by auto
qed

definition table_frames :: "vmm \<Rightarrow> uptr \<Rightarrow> uptr set" where
  "table_frames s pt = {PTE_ADDR (mem s (entry pt i)) | i. i < 1024 \<and> mem s (entry pt i) AND PTE_PRESENT \<noteq> 0}"

lemma destroy_table_spec:
  shows "mem (destroy_table pt s) = mem s" and "kernel_pgdir (destroy_table pt s) = kernel_pgdir s"
    and "free_set (frames (destroy_table pt s)) = free_set (frames s) \<union> pfn ` (table_frames s pt \<inter> Collect freeable)"
    and "pmm_inv (frames s) \<Longrightarrow> pmm_inv (frames (destroy_table pt s))"
proof -
  define P where "P i = (if mem s (entry pt i) AND PTE_PRESENT \<noteq> 0 then {PTE_ADDR (mem s (entry pt i))} else {})" for i
  have "table_frames s pt = (\<Union>i\<in>set all_entries. P i)" by (auto simp: table_frames_def P_def)
  moreover note f = fold_free_pages [of "all_entries" "\<lambda>i s. if mem s (entry pt i) AND PTE_PRESENT \<noteq> 0
    then free_page (PTE_ADDR (mem s (entry pt i))) s else s" s P]
  ultimately show "mem (destroy_table pt s) = mem s" "kernel_pgdir (destroy_table pt s) = kernel_pgdir s"
    "free_set (frames (destroy_table pt s)) = free_set (frames s) \<union> pfn ` (table_frames s pt \<inter> Collect freeable)"
    "pmm_inv (frames s) \<Longrightarrow> pmm_inv (frames (destroy_table pt s))"
    by (auto simp: destroy_table_def P_def free_page_set free_page_inv)
qed

text \<open>The frames a directory maps in its user half, and the tables of that half.\<close>

definition user_frames :: "vmm \<Rightarrow> uptr \<Rightarrow> uptr set" where
  "user_frames s pd = {PTE_ADDR pte | v pte. v < 786432 \<and> pgmap s pd v = Some pte}"

definition user_tables :: "vmm \<Rightarrow> uptr \<Rightarrow> uptr set" where
  "user_tables s pd = {table s pd i | i. i < 768 \<and> has_table s pd i}"

lemma user_frames_tables:
  "user_frames s pd = (\<Union>i\<in>{i. i < 768 \<and> has_table s pd i}. table_frames s (table s pd i))"
proof (intro equalityI subsetI)
  fix p assume "p \<in> user_frames s pd"
  then obtain v where v: "v < 786432" "has_table s pd (v div 1024)"
    "mem s (entry (table s pd (v div 1024)) (v mod 1024)) AND PTE_PRESENT \<noteq> 0"
    "p = PTE_ADDR (mem s (entry (table s pd (v div 1024)) (v mod 1024)))"
    by (auto simp: user_frames_def pgmap_def Let_def split: if_splits)
  have "p \<in> table_frames s (table s pd (v div 1024))"
    unfolding table_frames_def using v(3,4) by (intro CollectI exI [of _ "v mod 1024"]) simp
  moreover have "v div 1024 \<in> {i. i < 768 \<and> has_table s pd i}" using v(1,2) by simp
  ultimately show "p \<in> (\<Union>i\<in>{i. i < 768 \<and> has_table s pd i}. table_frames s (table s pd i))" by blast
next
  fix p assume "p \<in> (\<Union>i\<in>{i. i < 768 \<and> has_table s pd i}. table_frames s (table s pd i))"
  then obtain i k where i: "i < 768" "has_table s pd i" "k < 1024"
    "mem s (entry (table s pd i) k) AND PTE_PRESENT \<noteq> 0" "p = PTE_ADDR (mem s (entry (table s pd i) k))"
    by (auto simp: table_frames_def)
  then have "i * 1024 + k < 786432" "pgmap s pd (i * 1024 + k) = Some (mem s (entry (table s pd i) k))"
    by (simp_all add: pgmap_def)
  with i(5) show "p \<in> user_frames s pd" by (auto simp: user_frames_def)
qed

lemma destroy_tables_spec:
  shows "mem (destroy_tables pd s) = mem s" and "kernel_pgdir (destroy_tables pd s) = kernel_pgdir s"
    and "free_set (frames (destroy_tables pd s)) =
      free_set (frames s) \<union> pfn ` ((user_tables s pd \<union> user_frames s pd) \<inter> Collect freeable)"
    and "pmm_inv (frames s) \<Longrightarrow> pmm_inv (frames (destroy_tables pd s))"
proof -
  define f where "f i t = (if mem t (entry pd i) AND PDE_PRESENT = 0 then t
      else let pt = PTE_ADDR (mem t (entry pd i)) in free_page pt (destroy_table pt t))" for i t
  define P where "P i = (if has_table s pd i then insert (table s pd i) (table_frames s (table s pd i)) else {})" for i
  have P: "(\<Union>i\<in>set user_half. P i) = user_tables s pd \<union> user_frames s pd"
    unfolding user_frames_tables by (auto simp: P_def user_tables_def split: if_splits)
  have tf: "table_frames t pt = table_frames s pt" if "mem t = mem s" for t pt
    using that by (simp add: table_frames_def)
  have fr: "free_set (frames (f i t)) = free_set (frames t) \<union> pfn ` (P i \<inter> Collect freeable)"
    if "mem t = mem s" for i t
  proof (cases "has_table s pd i")
    case True
    then have "f i t = free_page (table s pd i) (destroy_table (table s pd i) t)"
      using that by (simp add: f_def has_table_def table_def Let_def)
    with True show ?thesis
      by (auto simp: free_page_set destroy_table_spec(3) tf [OF that] P_def)
  next
    case False
    then show ?thesis using that by (simp add: f_def has_table_def P_def)
  qed
  have dt: "destroy_tables pd s = fold f user_half s"
    unfolding destroy_tables_def f_def by simp
  note ff = fold_free_pages [of user_half f s P, folded dt, unfolded P]
  show "mem (destroy_tables pd s) = mem s" "kernel_pgdir (destroy_tables pd s) = kernel_pgdir s"
    "free_set (frames (destroy_tables pd s)) =
      free_set (frames s) \<union> pfn ` ((user_tables s pd \<union> user_frames s pd) \<inter> Collect freeable)"
    "pmm_inv (frames s) \<Longrightarrow> pmm_inv (frames (destroy_tables pd s))"
    by (rule ff; (simp only: fr)?; simp add: f_def destroy_table_spec free_page_inv Let_def)+
qed

lemma pgdir_destroy_spec:
  assumes "pd \<noteq> 0" and "pd \<noteq> kernel_pgdir s"
  shows "mem (pgdir_destroy pd s) = mem s" and "kernel_pgdir (pgdir_destroy pd s) = kernel_pgdir s"
    and "free_set (frames (pgdir_destroy pd s)) = free_set (frames s) \<union>
      pfn ` (({pd} \<union> user_tables s pd \<union> user_frames s pd) \<inter> Collect freeable)"
    and "pmm_inv (frames s) \<Longrightarrow> aligned pd \<Longrightarrow> pmm_inv (frames (pgdir_destroy pd s))"
  using assms by (auto simp: pgdir_destroy_def destroy_tables_spec free_page_set free_page_inv)

section \<open>Cloning a directory\<close>

text \<open>
  \<open>copy_of s s' p q\<close>: entry \<open>q\<close> of the later state has the flags of entry \<open>p\<close> of the earlier one, and
  its frame is a page taken from the allocator in between with the same contents.
\<close>

definition copy_of :: "vmm \<Rightarrow> vmm \<Rightarrow> u32 \<Rightarrow> u32 \<Rightarrow> bool" where
  "copy_of s s' p q \<longleftrightarrow>
     q AND (PAGE_SIZE - 1) = p AND (PAGE_SIZE - 1) \<and> pmm_owned (PTE_ADDR q) \<and>
     pfn (PTE_ADDR q) \<in> free_set (frames s) \<and> pfn (PTE_ADDR q) \<notin> free_set (frames s') \<and>
     (\<forall>i<1024. mem s' (entry (PTE_ADDR q) i) = mem s (entry (PTE_ADDR p) i))"

lemma copy_of_later:
  assumes "copy_of s t p q" and "keeps t s' X" and "pfn (PTE_ADDR q) \<notin> X"
  shows "copy_of s s' p q"
proof -
  have nf: "pfn (PTE_ADDR q) \<notin> free_set (frames t)" using assms(1) by (simp add: copy_of_def)
  have "mem s' (entry (PTE_ADDR q) i) = mem t (entry (PTE_ADDR q) i)" if "i < 1024" for i
    using that nf assms(3) by (intro keeps_mem [OF assms(2)]) (simp_all add: pfn_entry)
  with assms(1,2) nf show ?thesis by (auto simp: copy_of_def keeps_def)
qed

lemma copy_of_earlier:
  assumes "keeps s t X" and "copy_of t s' p q"
    and "pfn (PTE_ADDR p) \<notin> free_set (frames s)" and "pfn (PTE_ADDR p) \<notin> X"
  shows "copy_of s s' p q"
proof -
  have "mem t (entry (PTE_ADDR p) i) = mem s (entry (PTE_ADDR p) i)" if "i < 1024" for i
    using that assms(3,4) by (intro keeps_mem [OF assms(1)]) (simp_all add: pfn_entry)
  with assms(1,2) show ?thesis by (auto simp: copy_of_def keeps_def)
qed

lemma copy_of_present: "copy_of s s' p q \<Longrightarrow> q AND PTE_PRESENT = 0 \<longleftrightarrow> p AND PTE_PRESENT = 0"
proof -
  have low: "x AND 1 = (x AND (PAGE_SIZE - 1)) AND 1" for x :: u32
    by (simp add: PAGE_SIZE_def and.assoc)
  assume "copy_of s s' p q"
  then show ?thesis unfolding PTE_PRESENT_def copy_of_def by (metis low)
qed

text \<open>
  \<open>ptes_copied\<close>: the entries \<open>I\<close> of table \<open>dpt\<close> copy those of \<open>spt\<close>, each present one with a page of its own.
\<close>

definition ptes_copied :: "vmm \<Rightarrow> vmm \<Rightarrow> uptr \<Rightarrow> uptr \<Rightarrow> nat set \<Rightarrow> bool" where
  "ptes_copied s s' spt dpt I \<longleftrightarrow>
     (\<forall>i\<in>I. if mem s (entry spt i) AND PTE_PRESENT \<noteq> 0
             then copy_of s s' (mem s (entry spt i)) (mem s' (entry dpt i))
             else mem s' (entry dpt i) = 0) \<and>
     (\<forall>i\<in>I. \<forall>j\<in>I. i \<noteq> j \<and> mem s (entry spt i) AND PTE_PRESENT \<noteq> 0 \<and>
             mem s (entry spt j) AND PTE_PRESENT \<noteq> 0 \<longrightarrow>
             PTE_ADDR (mem s' (entry dpt i)) \<noteq> PTE_ADDR (mem s' (entry dpt j)))"

text \<open>\<open>source_table s spt X\<close>: a table in use, as are its frames; none of these pages is in \<open>X\<close>.\<close>

definition source_table :: "vmm \<Rightarrow> uptr \<Rightarrow> nat set \<Rightarrow> bool" where
  "source_table s spt X \<longleftrightarrow>
     aligned spt \<and> (\<forall>p \<in> insert spt (table_frames s spt). pfn p \<notin> free_set (frames s) \<and> pfn p \<notin> X)"

lemma keeps_table:
  assumes "keeps s t X" and "aligned pt" and "pfn pt \<notin> free_set (frames s)" and "pfn pt \<notin> X"
  shows "i < 1024 \<Longrightarrow> mem t (entry pt i) = mem s (entry pt i)" and "table_frames t pt = table_frames s pt"
proof -
  show e: "mem t (entry pt i) = mem s (entry pt i)" if "i < 1024" for i
    using that assms(2-4) by (intro keeps_mem [OF assms(1)]) (simp_all add: pfn_entry)
  show "table_frames t pt = table_frames s pt"
    unfolding table_frames_def by (rule Collect_cong, rule ex_cong1) (auto simp: e)
qed

lemma source_table_keeps:
  assumes "source_table s spt X" and "keeps s t Y" and "Y \<subseteq> X"
  shows "source_table t spt X" and "i < 1024 \<Longrightarrow> mem t (entry spt i) = mem s (entry spt i)"
    and "table_frames t spt = table_frames s spt"
proof -
  have sp: "aligned spt" "pfn spt \<notin> free_set (frames s)" "pfn spt \<notin> Y"
    using assms(1,3) by (auto simp: source_table_def)
  note kt = keeps_table [OF assms(2) sp]
  from kt show "i < 1024 \<Longrightarrow> mem t (entry spt i) = mem s (entry spt i)" "table_frames t spt = table_frames s spt"
    by simp_all
  have "free_set (frames t) \<subseteq> free_set (frames s)" using assms(2) by (simp add: keeps_def)
  with assms(1) kt(2) show "source_table t spt X" unfolding source_table_def by auto
qed

lemma source_frame:
  assumes "source_table s spt X" and "i < 1024" and "mem s (entry spt i) AND PTE_PRESENT \<noteq> 0"
  shows "pfn (PTE_ADDR (mem s (entry spt i))) \<notin> free_set (frames s)"
    and "pfn (PTE_ADDR (mem s (entry spt i))) \<notin> X"
proof -
  have "PTE_ADDR (mem s (entry spt i)) \<in> table_frames s spt" using assms(2,3) by (auto simp: table_frames_def)
  with assms(1) show "pfn (PTE_ADDR (mem s (entry spt i))) \<notin> free_set (frames s)"
    "pfn (PTE_ADDR (mem s (entry spt i))) \<notin> X" by (auto simp: source_table_def)
qed

lemma ptes_copied_earlier:
  assumes k: "keeps s t X" and I: "ptes_copied t s' spt dpt I" "I \<subseteq> {..<1024}" and src: "source_table s spt X"
  shows "ptes_copied s s' spt dpt I"
proof -
  have e: "mem t (entry spt i) = mem s (entry spt i)" if "i \<in> I" for i
    using source_table_keeps(2) [OF src k] that I(2) by auto
  have "copy_of s s' (mem s (entry spt i)) (mem s' (entry dpt i))"
    if i: "i \<in> I" "mem s (entry spt i) AND PTE_PRESENT \<noteq> 0" for i
  proof (rule copy_of_earlier [OF k])
    show "copy_of t s' (mem s (entry spt i)) (mem s' (entry dpt i))"
      using I(1) i e [OF i(1)] by (auto simp: ptes_copied_def)
    show "pfn (PTE_ADDR (mem s (entry spt i))) \<notin> free_set (frames s)"
      "pfn (PTE_ADDR (mem s (entry spt i))) \<notin> X" using source_frame [OF src] i I(2) by auto
  qed
  then show ?thesis using I(1) e unfolding ptes_copied_def by auto
qed

lemma ptes_copied_later:
  assumes k: "keeps t s' X" and I: "ptes_copied s t spt dpt I" "I \<subseteq> {..<1024}"
    and dpt: "aligned dpt" "pfn dpt \<notin> free_set (frames t)" "pfn dpt \<notin> X" and X: "X \<inter> free_set (frames s) = {}"
  shows "ptes_copied s s' spt dpt I"
proof -
  have e: "mem s' (entry dpt i) = mem t (entry dpt i)" if "i \<in> I" for i
    using keeps_table(1) [OF k dpt] that I(2) by auto
  have "copy_of s s' (mem s (entry spt i)) (mem t (entry dpt i))"
    if i: "i \<in> I" "mem s (entry spt i) AND PTE_PRESENT \<noteq> 0" for i
  proof -
    have c: "copy_of s t (mem s (entry spt i)) (mem t (entry dpt i))"
      using I(1) i by (auto simp: ptes_copied_def)
    then have "pfn (PTE_ADDR (mem t (entry dpt i))) \<notin> X" using X by (auto simp: copy_of_def)
    with copy_of_later [OF c k] show ?thesis by simp
  qed
  with I(1) e show ?thesis unfolding ptes_copied_def by auto
qed

lemma clone_pte_step:
  assumes inv: "pmm_inv (frames s)" and dpt: "aligned dpt" "pfn dpt \<notin> free_set (frames s)"
    and i: "i < 1024" and a: "alloc_page s = (page, t)" "page \<noteq> 0"
    and p: "pfn (PTE_ADDR p) \<notin> free_set (frames s)"
    and s': "s' = mem_write (entry dpt i) (page OR (p AND (PAGE_SIZE - 1))) (copy_page page (PTE_ADDR p) t)"
  shows "pmm_inv (frames s')" and "keeps s s' {pfn dpt}" and "free_set (frames s') = free_set (frames s) - {pfn page}"
    and "copy_of s s' p (mem s' (entry dpt i))" and "PTE_ADDR (mem s' (entry dpt i)) = page"
    and "\<And>j. j < 1024 \<Longrightarrow> j \<noteq> i \<Longrightarrow> mem s' (entry dpt j) = mem s (entry dpt j)"
proof -
  note o = alloc_page_ok [OF inv a]
  have ne: "pfn dpt \<noteq> pfn page" "pfn (PTE_ADDR p) \<noteq> pfn page" "dpt \<noteq> page" using o(3) dpt(2) p by auto
  show "pmm_inv (frames s')" using o(5) by (simp add: s')
  show fs: "free_set (frames s') = free_set (frames s) - {pfn page}" using o(4) by (simp add: s')
  have "mem s' x = mem s x" if "pfn x \<notin> free_set (frames s)" "pfn x \<notin> {pfn dpt}" for x
  proof -
    have "pfn x \<noteq> pfn page" "x \<noteq> entry dpt i" using that o(3) i dpt(1) by (auto simp: pfn_entry)
    with o(2,6) show ?thesis by (simp add: s')
  qed
  then show "keeps s s' {pfn dpt}" using fs o(7) unfolding keeps_def by (auto simp: s')
  have q: "mem s' (entry dpt i) = page OR (p AND (PAGE_SIZE - 1))" by (simp add: s')
  show pq: "PTE_ADDR (mem s' (entry dpt i)) = page"
    unfolding q by (rule PTE_ADDR_or [OF o(2) low_bits_less])
  have "mem s' (entry page k) = mem s (entry (PTE_ADDR p) k)" if "k < 1024" for k
    using that o(2,6) ne dpt i by (simp add: s' entry_eq copy_page_entry)
  with o(1,3) fs pq show "copy_of s s' p (mem s' (entry dpt i))"
    unfolding copy_of_def using or_low_bits [OF o(2) low_bits_less] by (simp add: q)
  show "mem s' (entry dpt j) = mem s (entry dpt j)" if "j < 1024" "j \<noteq> i" for j
    using that i dpt(1) ne o(2,6) by (simp add: s' entry_eq pfn_entry)
qed

lemma ptes_copied_insert:
  assumes k: "keeps s u {pfn dpt}" and src: "source_table s spt {pfn dpt}" and i: "i < 1024" "i \<notin> J"
    and fs: "free_set (frames u) = free_set (frames s) - {pfn page}"
    and p: "PTE_ADDR (mem u (entry dpt i)) = page" "pfn page \<noteq> pfn dpt"
    and c: "copy_of s u (mem s (entry spt i)) (mem u (entry dpt i))"
    and J: "ptes_copied u s' spt dpt J" "J \<subseteq> {..<1024}" and k': "keeps u s' {pfn dpt}"
    and hi: "mem s' (entry dpt i) = mem u (entry dpt i)" and pr: "mem s (entry spt i) AND PTE_PRESENT \<noteq> 0"
  shows "ptes_copied s s' spt dpt (insert i J)"
proof -
  have "ptes_copied s s' spt dpt J" by (rule ptes_copied_earlier [OF k J src])
  moreover have "copy_of s s' (mem s (entry spt i)) (mem s' (entry dpt i))"
    unfolding hi by (rule copy_of_later [OF c k']) (use p in auto)
  moreover have "PTE_ADDR (mem s' (entry dpt j)) \<noteq> PTE_ADDR (mem s' (entry dpt i))"
    if "j \<in> J" "mem s (entry spt j) AND PTE_PRESENT \<noteq> 0" for j
  proof -
    have "mem u (entry spt j) = mem s (entry spt j)"
      using source_table_keeps(2) [OF src k] that(1) J(2) by auto
    with J(1) that have "copy_of u s' (mem u (entry spt j)) (mem s' (entry dpt j))"
      by (auto simp: ptes_copied_def)
    then have "pfn (PTE_ADDR (mem s' (entry dpt j))) \<in> free_set (frames u)" by (simp add: copy_of_def)
    moreover have "pfn (PTE_ADDR (mem s' (entry dpt i))) \<notin> free_set (frames u)" unfolding hi p(1) fs by simp
    ultimately show ?thesis by metis
  qed
  ultimately show ?thesis using pr unfolding ptes_copied_def by (auto dest: sym)
qed

lemma clone_ptes_spec:
  assumes "clone_ptes spt dpt is s = (ok, s')" and "pmm_inv (frames s)" and "distinct is" "set is \<subseteq> {..<1024}"
    and "aligned dpt" "pfn dpt \<notin> free_set (frames s)" and "source_table s spt {pfn dpt}"
    and "\<forall>i\<in>set is. mem s (entry dpt i) = 0"
  shows "pmm_inv (frames s') \<and> keeps s s' {pfn dpt} \<and> (ok \<longrightarrow> ptes_copied s s' spt dpt (set is)) \<and>
    (\<forall>j<1024. j \<notin> set is \<longrightarrow> mem s' (entry dpt j) = mem s (entry dpt j))"
  using assms
proof (induction "is" arbitrary: s)
  case Nil
  then show ?case by (simp add: ptes_copied_def)
next
  case (Cons i js)
  let ?p = "mem s (entry spt i)"
  have i: "i < 1024" "i \<notin> set js" and js: "distinct js" "set js \<subseteq> {..<1024}" using Cons.prems(3,4) by auto
  obtain page t where a: "alloc_page s = (page, t)" by fastforce
  consider (skip) "?p AND PTE_PRESENT = 0" | (full) "?p AND PTE_PRESENT \<noteq> 0" "page = 0"
    | (copy) "?p AND PTE_PRESENT \<noteq> 0" "page \<noteq> 0" by blast
  then show ?case
  proof cases
    case skip
    with Cons.prems have "clone_ptes spt dpt js s = (ok, s')" by simp
    note IH = Cons.IH [OF this Cons.prems(2) js Cons.prems(5-7)]
    with skip i Cons.prems(8) show ?thesis by (auto simp: ptes_copied_def)
  next
    case full
    with a alloc_page_0 [OF Cons.prems(2)] have "t = s" by simp
    with Cons.prems(1,2) full a show ?thesis by simp
  next
    case copy
    define u where "u = mem_write (entry dpt i) (page OR (?p AND (PAGE_SIZE - 1))) (copy_page page (PTE_ADDR ?p) t)"
    note st = clone_pte_step [OF Cons.prems(2,5,6) i(1) a copy(2) source_frame(1) [OF Cons.prems(7) i(1) copy(1)] u_def]
    note o = alloc_page_ok [OF Cons.prems(2) a copy(2)]
    have "pfn spt \<noteq> pfn page" "aligned spt" "pfn dpt \<noteq> pfn page"
      using o(3) Cons.prems(6,7) by (auto simp: source_table_def)
    then have "mem (copy_page page (PTE_ADDR ?p) t) (entry spt i) = ?p"
      using o(2,6) i(1) by (simp add: pfn_entry)
    with Cons.prems(1) copy a o(6) have c: "clone_ptes spt dpt js u = (ok, s')"
      by (simp add: u_def Let_def)
    have "pmm_inv (frames s') \<and> keeps u s' {pfn dpt} \<and> (ok \<longrightarrow> ptes_copied u s' spt dpt (set js)) \<and>
      (\<forall>j<1024. j \<notin> set js \<longrightarrow> mem s' (entry dpt j) = mem u (entry dpt j))"
    proof (rule Cons.IH [OF c st(1) js Cons.prems(5)])
      show "pfn dpt \<notin> free_set (frames u)" using st(3) Cons.prems(6) by simp
      show "source_table u spt {pfn dpt}" using source_table_keeps(1) [OF Cons.prems(7) st(2)] by simp
      have "j < 1024 \<and> j \<noteq> i" if "j \<in> set js" for j using that js(2) i(2) by auto
      with st(6) Cons.prems(8) show "\<forall>j\<in>set js. mem u (entry dpt j) = 0" by simp
    qed
    then have IH: "pmm_inv (frames s')" "keeps u s' {pfn dpt}" "ok \<Longrightarrow> ptes_copied u s' spt dpt (set js)"
      "\<And>j. j < 1024 \<Longrightarrow> j \<notin> set js \<Longrightarrow> mem s' (entry dpt j) = mem u (entry dpt j)" by auto
    have "keeps s s' {pfn dpt}" by (rule keeps_trans [OF st(2) IH(2)]) simp
    moreover have "ptes_copied s s' spt dpt (set (i # js))" if ok
      using ptes_copied_insert [OF st(2) Cons.prems(7) i st(3,5) _ st(4) IH(3) [OF that] js(2) IH(2) _ copy(1)]
        IH(4) [OF i] \<open>pfn dpt \<noteq> pfn page\<close> by simp
    moreover have "mem s' (entry dpt j) = mem s (entry dpt j)" if "j < 1024" "j \<notin> set (i # js)" for j
      using that IH(4) st(6) by simp
    ultimately show ?thesis using IH(1) by auto
  qed
qed

text \<open>The pages an entry of a directory stands for: the table and its frames.\<close>

definition table_pages :: "vmm \<Rightarrow> u32 \<Rightarrow> uptr set" where
  "table_pages s d = insert (PTE_ADDR d) (table_frames s (PTE_ADDR d))"

definition table_copied :: "vmm \<Rightarrow> vmm \<Rightarrow> u32 \<Rightarrow> u32 \<Rightarrow> bool" where
  "table_copied s s' e d \<longleftrightarrow>
     d AND (PAGE_SIZE - 1) = e AND (PAGE_SIZE - 1) \<and> pmm_owned (PTE_ADDR d) \<and>
     pfn (PTE_ADDR d) \<in> free_set (frames s) \<and> pfn (PTE_ADDR d) \<notin> free_set (frames s') \<and>
     ptes_copied s s' (PTE_ADDR e) (PTE_ADDR d) {..<1024} \<and> PTE_ADDR d \<notin> table_frames s' (PTE_ADDR d)"

definition pdes_copied :: "vmm \<Rightarrow> vmm \<Rightarrow> uptr \<Rightarrow> uptr \<Rightarrow> nat set \<Rightarrow> bool" where
  "pdes_copied s s' src dst I \<longleftrightarrow>
     (\<forall>i\<in>I. if has_table s src i then table_copied s s' (mem s (entry src i)) (mem s' (entry dst i))
             else mem s' (entry dst i) = 0) \<and>
     (\<forall>i\<in>I. \<forall>j\<in>I. i \<noteq> j \<and> has_table s src i \<and> has_table s src j \<longrightarrow>
             table_pages s' (mem s' (entry dst i)) \<inter> table_pages s' (mem s' (entry dst j)) = {})"

lemma ptes_copiedD:
  "ptes_copied s s' spt dpt I \<Longrightarrow> i \<in> I \<Longrightarrow>
    if mem s (entry spt i) AND PTE_PRESENT \<noteq> 0
    then copy_of s s' (mem s (entry spt i)) (mem s' (entry dpt i)) else mem s' (entry dpt i) = 0"
  unfolding ptes_copied_def by blast

lemma ptes_copied_frames:
  assumes "ptes_copied s s' spt dpt {..<1024}" and "p \<in> table_frames s' dpt"
  shows "pfn p \<in> free_set (frames s)" and "pfn p \<notin> free_set (frames s')"
proof -
  from assms(2) obtain i where i: "i < 1024" "mem s' (entry dpt i) AND PTE_PRESENT \<noteq> 0"
    "p = PTE_ADDR (mem s' (entry dpt i))" by (auto simp: table_frames_def)
  have "copy_of s s' (mem s (entry spt i)) (mem s' (entry dpt i))"
    using ptes_copiedD [OF assms(1), of i] i(1,2) by (auto split: if_splits)
  with i(3) show "pfn p \<in> free_set (frames s)" "pfn p \<notin> free_set (frames s')" by (simp_all add: copy_of_def)
qed

lemma table_copied_pages:
  assumes "table_copied s s' e d" and "p \<in> table_pages s' d"
  shows "pfn p \<in> free_set (frames s)" and "pfn p \<notin> free_set (frames s')"
  using assms ptes_copied_frames [of s s' "PTE_ADDR e" "PTE_ADDR d" p]
  by (auto simp: table_copied_def table_pages_def)

lemma table_copied_earlier:
  assumes "keeps s t X" and "table_copied t s' e d" and "source_table s (PTE_ADDR e) X"
  shows "table_copied s s' e d"
  using assms ptes_copied_earlier [OF assms(1) _ _ assms(3)] by (auto simp: table_copied_def keeps_def)

lemma table_copied_later:
  assumes k: "keeps t s' X" and d: "table_copied s t e d" and X: "X \<inter> free_set (frames s) = {}"
  shows "table_copied s s' e d" and "table_pages s' d = table_pages t d"
proof -
  have dp: "aligned (PTE_ADDR d)" "pfn (PTE_ADDR d) \<notin> free_set (frames t)" "pfn (PTE_ADDR d) \<notin> X"
    using d X by (auto simp: table_copied_def)
  note tf = keeps_table(2) [OF k dp]
  then show "table_pages s' d = table_pages t d" by (simp add: table_pages_def)
  have "ptes_copied s s' (PTE_ADDR e) (PTE_ADDR d) {..<1024}"
    using d by (intro ptes_copied_later [OF k _ _ dp X]) (simp_all add: table_copied_def)
  moreover have "free_set (frames s') \<subseteq> free_set (frames t)" using k by (simp add: keeps_def)
  ultimately show "table_copied s s' e d" using d tf unfolding table_copied_def by auto
qed

lemma clone_table_step:
  assumes inv: "pmm_inv (frames s)" and dst: "aligned dst" "pfn dst \<notin> free_set (frames s)" and i: "i < 1024"
    and a: "pmm_alloc_zero s = (pt, t)" "pt \<noteq> 0" and src: "source_table s (PTE_ADDR e) {pfn dst}"
    and c: "clone_ptes (PTE_ADDR e) pt all_entries t = (ok, u)"
    and w: "w = mem_write (entry dst i) (pt OR (e AND (PAGE_SIZE - 1))) u"
  shows "pmm_inv (frames u)" and "keeps s u {}" and "keeps s w {pfn dst}"
    and "ok \<Longrightarrow> table_copied s w e (mem w (entry dst i))"
    and "\<And>j. j < 1024 \<Longrightarrow> j \<noteq> i \<Longrightarrow> mem w (entry dst j) = mem s (entry dst j)"
proof -
  note o = pmm_alloc_zero_ok [OF inv a]
  have ne: "pfn pt \<noteq> pfn dst" using o(3) dst(2) by auto
  have k0: "keeps s t {}" by (rule keeps_alloc_zero [OF inv a(1)])
  have "source_table s (PTE_ADDR e) (insert (pfn pt) {pfn dst})" using src o(3) by (auto simp: source_table_def)
  from source_table_keeps(1) [OF this k0] have src': "source_table t (PTE_ADDR e) {pfn pt}"
    by (auto simp: source_table_def)
  have "pmm_inv (frames u) \<and> keeps t u {pfn pt} \<and> (ok \<longrightarrow> ptes_copied t u (PTE_ADDR e) pt (set all_entries)) \<and>
    (\<forall>j<1024. j \<notin> set all_entries \<longrightarrow> mem u (entry pt j) = mem t (entry pt j))"
    by (rule clone_ptes_spec [OF c o(5) _ _ o(2) _ src']) (use o(2,4,6) in \<open>simp_all add: pfn_entry\<close>)
  then have cu: "pmm_inv (frames u)" "keeps t u {pfn pt}" "ok \<Longrightarrow> ptes_copied t u (PTE_ADDR e) pt {..<1024}"
    by auto
  show "pmm_inv (frames u)" by (rule cu(1))
  show k1: "keeps s u {}" by (rule keeps_trans [OF k0 cu(2)]) (use o(3) in simp)
  have k2: "keeps u w {pfn dst}" unfolding w using keeps_write [of u "entry dst i"] dst(1) i by (simp add: pfn_entry)
  show "keeps s w {pfn dst}" by (rule keeps_trans [OF keeps_mono [OF k1] k2]) simp_all
  have d: "mem w (entry dst i) = pt OR (e AND (PAGE_SIZE - 1))" by (simp add: w)
  have pd: "PTE_ADDR (mem w (entry dst i)) = pt" unfolding d by (rule PTE_ADDR_or [OF o(2) low_bits_less])
  show "mem w (entry dst j) = mem s (entry dst j)" if j: "j < 1024" "j \<noteq> i" for j
  proof -
    have "mem w (entry dst j) = mem u (entry dst j)" using j i dst(1) by (simp add: w entry_eq)
    also have "\<dots> = mem s (entry dst j)" using keeps_table(1) [OF k1 dst] j(1) by simp
    finally show ?thesis .
  qed
  assume ok
  have sub: "free_set (frames u) \<subseteq> free_set (frames t)" using cu(2) by (simp add: keeps_def)
  have ptu: "pfn pt \<notin> free_set (frames u)" "pfn pt \<notin> free_set (frames t)" using sub o(4) by auto
  have pc: "ptes_copied s u (PTE_ADDR e) pt {..<1024}"
    using src by (intro ptes_copied_earlier [OF k0 cu(3) [OF \<open>ok\<close>]]) (auto simp: source_table_def)
  have "ptes_copied s w (PTE_ADDR e) pt {..<1024}"
    by (rule ptes_copied_later [OF k2 pc _ o(2) ptu(1)]) (use ne dst(2) in auto)
  moreover have "pt \<notin> table_frames u pt" using ptes_copied_frames(1) [OF cu(3) [OF \<open>ok\<close>]] ptu(2) by blast
  moreover have "table_frames w pt = table_frames u pt"
    by (rule keeps_table(2) [OF k2 o(2) ptu(1)]) (use ne in simp)
  moreover have "frames w = frames u" by (simp add: w)
  moreover have "mem w (entry dst i) AND (PAGE_SIZE - 1) = e AND (PAGE_SIZE - 1)"
    unfolding d by (rule or_low_bits [OF o(2) low_bits_less])
  ultimately show "table_copied s w e (mem w (entry dst i))"
    unfolding table_copied_def pd using o(1,3) ptu(1) by simp
qed

lemma pdes_copied_insert:
  assumes k: "keeps s w {pfn dst}" and dst: "pfn dst \<notin> free_set (frames s)" and i: "i \<notin> J"
    and J: "pdes_copied w s' src dst J" and k': "keeps w s' {pfn dst}"
    and e: "\<forall>j\<in>insert i J. mem w (entry src j) = mem s (entry src j)"
    and src: "\<forall>j\<in>J. has_table s src j \<longrightarrow> source_table s (table s src j) {pfn dst}"
    and hi: "mem s' (entry dst i) = mem w (entry dst i)"
    and c: "table_copied s w (mem s (entry src i)) (mem w (entry dst i))" and h: "has_table s src i"
  shows "pdes_copied s s' src dst (insert i J)"
proof -
  have ht: "has_table w src j = has_table s src j" if "j \<in> J" for j using e that by (simp add: has_table_def)
  have cj: "table_copied w s' (mem s (entry src j)) (mem s' (entry dst j))" if "j \<in> J" "has_table s src j" for j
    using J that ht [OF that(1)] e unfolding pdes_copied_def by auto
  have z: "mem s' (entry dst j) = 0" if "j \<in> J" "\<not> has_table s src j" for j
    using J that ht [OF that(1)] unfolding pdes_copied_def by auto
  have cj': "table_copied s s' (mem s (entry src j)) (mem s' (entry dst j))" if "j \<in> J" "has_table s src j" for j
    using table_copied_earlier [OF k cj [OF that]] src that by (auto simp: table_def)
  have X: "{pfn dst} \<inter> free_set (frames s) = {}" using dst by simp
  note ci = table_copied_later [OF k' c X, folded hi]
  have dis: "table_pages s' (mem s' (entry dst i)) \<inter> table_pages s' (mem s' (entry dst j)) = {}"
    if "j \<in> J" "has_table s src j" for j
    using table_copied_pages(1) [OF cj [OF that]] table_copied_pages(2) [OF c] 
    unfolding hi table_copied_later(2) [OF k' c X] by blast
  have JJ: "table_pages s' (mem s' (entry dst j)) \<inter> table_pages s' (mem s' (entry dst l)) = {}"
    if "j \<in> J" "l \<in> J" "j \<noteq> l" "has_table s src j" "has_table s src l" for j l
    using J that ht unfolding pdes_copied_def by blast
  show ?thesis unfolding pdes_copied_def
  proof (intro conjI ballI impI)
    fix j assume "j \<in> insert i J"
    then show "if has_table s src j then table_copied s s' (mem s (entry src j)) (mem s' (entry dst j))
        else mem s' (entry dst j) = 0" using ci(1) cj' z h by auto
  next
    fix j l assume "j \<in> insert i J" "l \<in> insert i J" and "j \<noteq> l \<and> has_table s src j \<and> has_table s src l"
    then show "table_pages s' (mem s' (entry dst j)) \<inter> table_pages s' (mem s' (entry dst l)) = {}"
      using dis [of l] dis [of j] JJ [of j l] by (auto simp: Int_commute)
  qed
qed

text \<open>\<open>source_dir s src X\<close>: a directory whose user half can be copied; \<open>X\<close> holds none of its pages.\<close>

definition source_dir :: "vmm \<Rightarrow> uptr \<Rightarrow> nat set \<Rightarrow> nat set \<Rightarrow> bool" where
  "source_dir s src I X \<longleftrightarrow>
     aligned src \<and> pfn src \<notin> free_set (frames s) \<and> pfn src \<notin> X \<and> I \<subseteq> {..<1024} \<and>
     (\<forall>i\<in>I. has_table s src i \<longrightarrow> source_table s (table s src i) X)"

lemma source_dir_keeps:
  assumes "source_dir s src I X" and "keeps s t Y" and "Y \<subseteq> X"
  shows "source_dir t src I X" and "i \<in> I \<Longrightarrow> mem t (entry src i) = mem s (entry src i)"
proof -
  have e: "mem t (entry src i) = mem s (entry src i)" if "i \<in> I" for i
    using keeps_table(1) [OF assms(2), of src i] that assms(1,3) unfolding source_dir_def by auto
  then show "i \<in> I \<Longrightarrow> mem t (entry src i) = mem s (entry src i)" .
  have "source_table t (table t src i) X" if "i \<in> I" "has_table t src i" for i
  proof -
    have "has_table s src i" "table t src i = table s src i" using that e by (simp_all add: has_table_def table_def)
    with that(1) assms(1) source_table_keeps(1) [OF _ assms(2,3)] show ?thesis by (simp add: source_dir_def)
  qed
  moreover have "free_set (frames t) \<subseteq> free_set (frames s)" using assms(2) by (simp add: keeps_def)
  ultimately show "source_dir t src I X" using assms(1) unfolding source_dir_def by auto
qed

lemma clone_pdes_spec:
  assumes "clone_pdes src dst is s = (ok, s')" and "pmm_inv (frames s)" and "distinct is"
    and "aligned dst" "pfn dst \<notin> free_set (frames s)" and "source_dir s src (set is) {pfn dst}"
    and "\<forall>i\<in>set is. mem s (entry dst i) = 0"
  shows "pmm_inv (frames s') \<and> keeps s s' {pfn dst} \<and> (ok \<longrightarrow> pdes_copied s s' src dst (set is)) \<and>
    (\<forall>j<1024. j \<notin> set is \<longrightarrow> mem s' (entry dst j) = mem s (entry dst j))"
  using assms
proof (induction "is" arbitrary: s)
  case Nil
  then show ?case by (simp add: pdes_copied_def)
next
  case (Cons i js)
  let ?e = "mem s (entry src i)"
  have i: "i < 1024" "i \<notin> set js" and js: "distinct js" "\<And>j. j \<in> set js \<Longrightarrow> j < 1024"
    and sd: "source_dir s src (set js) {pfn dst}"
    using Cons.prems(3,6) by (auto simp: source_dir_def)
  obtain pt t where a: "pmm_alloc_zero s = (pt, t)" by fastforce
  obtain ok1 u where u: "clone_ptes (PTE_ADDR ?e) pt all_entries t = (ok1, u)" by fastforce
  consider (skip) "\<not> has_table s src i" | (full) "has_table s src i" "pt = 0"
    | (copy) "has_table s src i" "pt \<noteq> 0" by blast
  then show ?case
  proof cases
    case skip
    with Cons.prems(1) have "clone_pdes src dst js s = (ok, s')" by (simp add: has_table_def)
    note IH = Cons.IH [OF this Cons.prems(2) js(1) Cons.prems(4,5) sd]
    with skip i Cons.prems(7) show ?thesis by (auto simp: pdes_copied_def)
  next
    case full
    with a pmm_alloc_zero_0 [OF Cons.prems(2)] have "t = s" by simp
    with Cons.prems(1,2) full a show ?thesis by (simp add: has_table_def)
  next
    case copy
    define w where "w = mem_write (entry dst i) (pt OR (?e AND (PAGE_SIZE - 1))) u"
    have st: "source_table s (PTE_ADDR ?e) {pfn dst}"
      using Cons.prems(6) copy(1) by (simp add: source_dir_def table_def)
    note cs = clone_table_step [OF Cons.prems(2,4,5) i(1) a copy(2) st u w_def]
    have et: "mem t (entry src i) = ?e" and eu: "mem u (entry src i) = ?e"
      using source_dir_keeps(2) [OF Cons.prems(6) keeps_alloc_zero [OF Cons.prems(2) a]]
        source_dir_keeps(2) [OF Cons.prems(6) cs(2)] by simp_all
    show ?thesis
    proof (cases ok1)
      case False
      with Cons.prems(1) copy a u et have "ok = False" "s' = u" by (simp_all add: has_table_def)
      moreover have "mem u (entry dst j) = mem s (entry dst j)" if "j < 1024" for j
        using keeps_table(1) [OF cs(2) Cons.prems(4,5) _ that] by simp
      ultimately show ?thesis using cs(1) keeps_mono [OF cs(2)] by simp
    next
      case True
      with Cons.prems(1) copy a u et eu have c: "clone_pdes src dst js w = (ok, s')"
        by (simp add: has_table_def w_def)
      have "pmm_inv (frames s') \<and> keeps w s' {pfn dst} \<and> (ok \<longrightarrow> pdes_copied w s' src dst (set js)) \<and>
        (\<forall>j<1024. j \<notin> set js \<longrightarrow> mem s' (entry dst j) = mem w (entry dst j))"
      proof (rule Cons.IH [OF c _ js(1) Cons.prems(4)])
        show "pmm_inv (frames w)" using cs(1) by (simp add: w_def)
        show "pfn dst \<notin> free_set (frames w)" using cs(3) Cons.prems(5) by (auto simp: keeps_def)
        show "source_dir w src (set js) {pfn dst}" by (rule source_dir_keeps(1) [OF sd cs(3)]) simp
        have "j \<noteq> i" if "j \<in> set js" for j using that i(2) by auto
        with cs(5) js(2) Cons.prems(7) show "\<forall>j\<in>set js. mem w (entry dst j) = 0" by simp
      qed
      then have IH: "pmm_inv (frames s')" "keeps w s' {pfn dst}" "ok \<Longrightarrow> pdes_copied w s' src dst (set js)"
        "\<And>j. j < 1024 \<Longrightarrow> j \<notin> set js \<Longrightarrow> mem s' (entry dst j) = mem w (entry dst j)" by auto
      have "pdes_copied s s' src dst (set (i # js))" if ok
        unfolding list.set(2)
      proof (rule pdes_copied_insert [OF cs(3) Cons.prems(5) i(2) IH(3) [OF that] IH(2) _ _ IH(4) [OF i] cs(4) [OF True] copy(1)])
        show "\<forall>j\<in>insert i (set js). mem w (entry src j) = mem s (entry src j)"
          using source_dir_keeps(2) [OF Cons.prems(6) cs(3)] by simp
        show "\<forall>j\<in>set js. has_table s src j \<longrightarrow> source_table s (table s src j) {pfn dst}"
          using sd by (simp add: source_dir_def)
      qed
      moreover have "keeps s s' {pfn dst}" by (rule keeps_trans [OF cs(3) IH(2)]) simp
      moreover have "mem s' (entry dst j) = mem s (entry dst j)" if "j < 1024" "j \<notin> set (i # js)" for j
        using that IH(4) cs(5) by simp
      ultimately show ?thesis using IH(1) by auto
    qed
  qed
qed

lemma table_copied_present:
  "table_copied s s' e d \<Longrightarrow> d AND PDE_PRESENT = 0 \<longleftrightarrow> e AND PDE_PRESENT = 0"
proof -
  have low: "x AND 1 = (x AND (PAGE_SIZE - 1)) AND 1" for x :: u32
    by (simp add: PAGE_SIZE_def and.assoc)
  assume "table_copied s s' e d"
  then show ?thesis unfolding PDE_PRESENT_def table_copied_def by (metis low)
qed

text \<open>What the copied tables say about the new directory.\<close>

lemma pdes_copied_tables:
  assumes c: "pdes_copied s s' src dst {..<768}" and i: "i < 768"
  shows "has_table s' dst i \<longleftrightarrow> has_table s src i"
    and "has_table s src i \<Longrightarrow> table_copied s s' (mem s (entry src i)) (mem s' (entry dst i))"
    and "has_table s src i \<Longrightarrow> pmm_owned (table s' dst i)"
    and "has_table s src i \<Longrightarrow> pfn (table s' dst i) \<in> free_set (frames s)"
    and "has_table s src i \<Longrightarrow> pfn (table s' dst i) \<notin> free_set (frames s')"
    and "j < 768 \<Longrightarrow> i \<noteq> j \<Longrightarrow> has_table s src i \<Longrightarrow> has_table s src j \<Longrightarrow>
      table_pages s' (mem s' (entry dst i)) \<inter> table_pages s' (mem s' (entry dst j)) = {}"
proof -
  have r: "if has_table s src i then table_copied s s' (mem s (entry src i)) (mem s' (entry dst i))
      else mem s' (entry dst i) = 0" using c i unfolding pdes_copied_def by blast
  then show t: "has_table s src i \<Longrightarrow> table_copied s s' (mem s (entry src i)) (mem s' (entry dst i))" by simp
  then show "has_table s src i \<Longrightarrow> pmm_owned (table s' dst i)"
    "has_table s src i \<Longrightarrow> pfn (table s' dst i) \<in> free_set (frames s)"
    "has_table s src i \<Longrightarrow> pfn (table s' dst i) \<notin> free_set (frames s')"
    by (simp_all add: table_copied_def table_def)
  show "has_table s' dst i \<longleftrightarrow> has_table s src i"
    using r table_copied_present [OF t] by (auto simp: has_table_def split: if_splits)
  show "j < 768 \<Longrightarrow> i \<noteq> j \<Longrightarrow> has_table s src i \<Longrightarrow> has_table s src j \<Longrightarrow>
      table_pages s' (mem s' (entry dst i)) \<inter> table_pages s' (mem s' (entry dst j)) = {}"
    using c i unfolding pdes_copied_def by blast
qed

lemma pdes_copied_pgmap:
  assumes c: "pdes_copied s s' src dst {..<768}" and v: "v < 786432"
  shows "pgmap s src v = None \<Longrightarrow> pgmap s' dst v = None"
    and "pgmap s src v = Some p \<Longrightarrow>
      \<exists>q. pgmap s' dst v = Some q \<and> copy_of s s' p q \<and> PTE_ADDR q \<in> table_frames s' (table s' dst (v div 1024))"
proof -
  let ?i = "v div 1024" and ?k = "v mod 1024"
  have i: "?i < 768" and k: "?k \<in> {..<1024}" using v by simp_all
  note t = pdes_copied_tables [OF c i]
  have r: "if mem s (entry (table s src ?i) ?k) AND PTE_PRESENT \<noteq> 0
    then copy_of s s' (mem s (entry (table s src ?i) ?k)) (mem s' (entry (table s' dst ?i) ?k))
    else mem s' (entry (table s' dst ?i) ?k) = 0" if "has_table s src ?i"
    using ptes_copiedD [OF _ k] t(2) [OF that] unfolding table_copied_def table_def by blast
  show "pgmap s' dst v = None" if "pgmap s src v = None"
    using that r t(1) by (auto simp: pgmap_def split: if_splits)
  assume "pgmap s src v = Some p"
  then have h: "has_table s src ?i" "p = mem s (entry (table s src ?i) ?k)" "p AND PTE_PRESENT \<noteq> 0"
    by (auto simp: pgmap_def Let_def split: if_splits)
  let ?q = "mem s' (entry (table s' dst ?i) ?k)"
  have q: "copy_of s s' p ?q" using r [OF h(1)] h(2,3) by simp
  then have "?q AND PTE_PRESENT \<noteq> 0" using copy_of_present [OF q] h(3) by simp
  then have "pgmap s' dst v = Some ?q" "PTE_ADDR ?q \<in> table_frames s' (table s' dst ?i)"
    using t(1) h(1) k by (auto simp: pgmap_def table_frames_def)
  with q show "\<exists>q. pgmap s' dst v = Some q \<and> copy_of s s' p q \<and> PTE_ADDR q \<in> table_frames s' (table s' dst ?i)"
    by blast
qed

lemma pdes_copied_distinct:
  assumes c: "pdes_copied s s' src dst {..<768}" and v: "v < 786432" "w < 786432" "v \<noteq> w"
    and p: "pgmap s' dst v = Some p" "pgmap s' dst w = Some q"
  shows "PTE_ADDR p \<noteq> PTE_ADDR q"
proof (cases "v div 1024 = w div 1024")
  case True
  let ?i = "v div 1024" and ?t = "\<lambda>v. mem s (entry (table s src (v div 1024)) (v mod 1024))"
  have i: "?i < 768" using v by simp
  have e: "has_table s' dst ?i" "p = mem s' (entry (table s' dst ?i) (v mod 1024))"
    "q = mem s' (entry (table s' dst ?i) (w mod 1024))"
    using p True by (auto simp: pgmap_def Let_def split: if_splits)
  have "pgmap s src v \<noteq> None" "pgmap s src w \<noteq> None" using pdes_copied_pgmap(1) [OF c] v p by fastforce+
  then have pr: "?t v AND PTE_PRESENT \<noteq> 0" "?t w AND PTE_PRESENT \<noteq> 0"
    by (auto simp: pgmap_def Let_def split: if_splits)
  have "v mod 1024 \<noteq> w mod 1024" using True v(3) div_mult_mod_eq [of v 1024] div_mult_mod_eq [of w 1024] by auto
  moreover have "ptes_copied s s' (table s src ?i) (table s' dst ?i) {..<1024}"
    using pdes_copied_tables(1,2) [OF c i] e(1) by (simp add: table_copied_def table_def)
  ultimately show ?thesis using pr True unfolding e(2,3) ptes_copied_def by simp
next
  case False
  have "\<exists>p'. pgmap s src v = Some p'" "\<exists>q'. pgmap s src w = Some q'"
    using pdes_copied_pgmap(1) [OF c] v p by fastforce+
  then obtain p' q' where pq: "pgmap s src v = Some p'" "pgmap s src w = Some q'" by blast
  have "PTE_ADDR p \<in> table_frames s' (table s' dst (v div 1024))" "PTE_ADDR q \<in> table_frames s' (table s' dst (w div 1024))"
    using pdes_copied_pgmap(2) [OF c v(1) pq(1)] pdes_copied_pgmap(2) [OF c v(2) pq(2)] p by auto
  moreover have "has_table s src (v div 1024)" "has_table s src (w div 1024)"
    using pq by (auto simp: pgmap_def split: if_splits)
  moreover have "v div 1024 < 768" "w div 1024 < 768" using v by simp_all
  ultimately show ?thesis
    using pdes_copied_tables(6) [OF c, of "v div 1024" "w div 1024"] False by (auto simp: table_pages_def table_def)
qed

section \<open>How many pages a clone takes\<close>

definition need_ptes :: "vmm \<Rightarrow> uptr \<Rightarrow> nat list \<Rightarrow> nat" where
  "need_ptes s spt is = length (filter (\<lambda>i. mem s (entry spt i) AND PTE_PRESENT \<noteq> 0) is)"

definition need_pdes :: "vmm \<Rightarrow> uptr \<Rightarrow> nat list \<Rightarrow> nat" where
  "need_pdes s src is =
     sum_list (map (\<lambda>i. if has_table s src i then 1 + need_ptes s (table s src i) all_entries else 0) is)"

lemma need_ptes_cong:
  "(\<And>i. i \<in> set is \<Longrightarrow> mem t (entry spt i) = mem s (entry spt i)) \<Longrightarrow> need_ptes t spt is = need_ptes s spt is"
  unfolding need_ptes_def by (induction "is") auto

lemma need_pdes_keeps:
  assumes "source_dir s src (set is) X" and "keeps s t Y" and "Y \<subseteq> X"
  shows "need_pdes t src is = need_pdes s src is"
proof -
  have "(if has_table t src i then 1 + need_ptes t (table t src i) all_entries else 0) =
    (if has_table s src i then 1 + need_ptes s (table s src i) all_entries else 0)" if i: "i \<in> set is" for i
  proof -
    have e: "has_table t src i = has_table s src i" "table t src i = table s src i"
      using source_dir_keeps(2) [OF assms i] by (simp_all add: has_table_def table_def)
    have "need_ptes t (table s src i) all_entries = need_ptes s (table s src i) all_entries" if "has_table s src i"
      using that i assms(1) source_table_keeps(2) [OF _ assms(2,3)]
      by (intro need_ptes_cong) (auto simp: source_dir_def)
    with e show ?thesis by simp
  qed
  then show ?thesis unfolding need_pdes_def by (intro arg_cong [of _ _ sum_list] map_cong refl)
qed

lemma card_take_page: "free_set f' = free_set f - {x} \<Longrightarrow> x \<in> free_set f \<Longrightarrow> card (free_set f) = Suc (card (free_set f'))"
  using card_Suc_Diff1 [OF finite_free_set, of x f] by (simp only:)

lemma clone_ptes_count:
  assumes "clone_ptes spt dpt is s = (ok, s')" and "pmm_inv (frames s)" and "set is \<subseteq> {..<1024}"
    and "aligned dpt" "pfn dpt \<notin> free_set (frames s)" and "source_table s spt {pfn dpt}"
  shows "(ok \<longleftrightarrow> need_ptes s spt is \<le> card (free_set (frames s))) \<and>
    (ok \<longrightarrow> card (free_set (frames s)) = card (free_set (frames s')) + need_ptes s spt is)"
  using assms
proof (induction "is" arbitrary: s)
  case Nil
  then show ?case by (simp add: need_ptes_def)
next
  case (Cons i js)
  let ?p = "mem s (entry spt i)"
  have i: "i < 1024" and js: "set js \<subseteq> {..<1024}" using Cons.prems(3) by auto
  obtain page t where a: "alloc_page s = (page, t)" by fastforce
  consider (skip) "?p AND PTE_PRESENT = 0" | (full) "?p AND PTE_PRESENT \<noteq> 0" "page = 0"
    | (copy) "?p AND PTE_PRESENT \<noteq> 0" "page \<noteq> 0" by blast
  then show ?case
  proof cases
    case skip
    then have "need_ptes s spt (i # js) = need_ptes s spt js" by (simp add: need_ptes_def)
    with Cons.IH [of s] Cons.prems skip js show ?thesis by simp
  next
    case full
    with a alloc_page_0 [OF Cons.prems(2)] have "free_set (frames s) = {}" by simp
    with Cons.prems(1) full a show ?thesis by (auto simp: need_ptes_def)
  next
    case copy
    define u where "u = mem_write (entry dpt i) (page OR (?p AND (PAGE_SIZE - 1))) (copy_page page (PTE_ADDR ?p) t)"
    note st = clone_pte_step [OF Cons.prems(2,4,5) i a copy(2) source_frame(1) [OF Cons.prems(6) i copy(1)] u_def]
    note o = alloc_page_ok [OF Cons.prems(2) a copy(2)]
    have "pfn spt \<noteq> pfn page" "aligned spt" using o(3) Cons.prems(6) by (auto simp: source_table_def)
    then have "mem (copy_page page (PTE_ADDR ?p) t) (entry spt i) = ?p" using o(2,6) i by (simp add: pfn_entry)
    with Cons.prems(1) copy a o(6) have c: "clone_ptes spt dpt js u = (ok, s')" by (simp add: u_def Let_def)
    note sk = source_table_keeps [OF Cons.prems(6) st(2) order_refl]
    have d: "pfn dpt \<notin> free_set (frames u)" using st(3) Cons.prems(5) by simp
    have "need_ptes u spt js = need_ptes s spt js" by (rule need_ptes_cong) (use sk(2) js in auto)
    then have n: "need_ptes s spt (i # js) = Suc (need_ptes u spt js)"
      using copy(1) by (simp add: need_ptes_def)
    show ?thesis using Cons.IH [OF c st(1) js Cons.prems(4) d sk(1)] card_take_page [OF st(3) o(3)]
      unfolding n by simp
  qed
qed

lemma clone_pdes_count:
  assumes "clone_pdes src dst is s = (ok, s')" and "pmm_inv (frames s)"
    and "aligned dst" "pfn dst \<notin> free_set (frames s)" and "source_dir s src (set is) {pfn dst}"
  shows "(ok \<longleftrightarrow> need_pdes s src is \<le> card (free_set (frames s))) \<and>
    (ok \<longrightarrow> card (free_set (frames s)) = card (free_set (frames s')) + need_pdes s src is)"
  using assms
proof (induction "is" arbitrary: s)
  case Nil
  then show ?case by (simp add: need_pdes_def)
next
  case (Cons i js)
  let ?e = "mem s (entry src i)"
  have i: "i < 1024" and sd: "source_dir s src (set js) {pfn dst}" using Cons.prems(5) by (auto simp: source_dir_def)
  obtain pt t where a: "pmm_alloc_zero s = (pt, t)" by fastforce
  obtain ok1 u where u: "clone_ptes (PTE_ADDR ?e) pt all_entries t = (ok1, u)" by fastforce
  consider (skip) "\<not> has_table s src i" | (full) "has_table s src i" "pt = 0"
    | (copy) "has_table s src i" "pt \<noteq> 0" by blast
  then show ?case
  proof cases
    case skip
    then have "need_pdes s src (i # js) = need_pdes s src js" by (simp add: need_pdes_def)
    with Cons.IH [of s] Cons.prems skip sd show ?thesis by (simp add: has_table_def)
  next
    case full
    with a pmm_alloc_zero_0 [OF Cons.prems(2)] have "free_set (frames s) = {}" by simp
    with Cons.prems(1) full a show ?thesis by (auto simp: need_pdes_def has_table_def)
  next
    case copy
    define w where "w = mem_write (entry dst i) (pt OR (?e AND (PAGE_SIZE - 1))) u"
    have st: "source_table s (PTE_ADDR ?e) {pfn dst}"
      using Cons.prems(5) copy(1) by (simp add: source_dir_def table_def)
    note o = pmm_alloc_zero_ok [OF Cons.prems(2) a copy(2)]
    note cs = clone_table_step [OF Cons.prems(2,3,4) i a copy(2) st u w_def]
    have k0: "keeps s t {}" by (rule keeps_alloc_zero [OF Cons.prems(2) a])
    have "source_table s (PTE_ADDR ?e) {pfn pt}" using st o(3) by (auto simp: source_table_def)
    note st' = source_table_keeps [OF this k0]
    have n1: "need_ptes t (PTE_ADDR ?e) all_entries = need_ptes s (table s src i) all_entries"
      unfolding table_def using st'(2) by (intro need_ptes_cong) simp
    have "pfn pt \<notin> free_set (frames t)" using o(4) by simp
    note cc = clone_ptes_count [OF u o(5) _ o(2) this st'(1), unfolded n1]
    note c1 = card_take_page [OF o(4,3)]
    have n: "need_pdes s src (i # js) = 1 + need_ptes s (table s src i) all_entries + need_pdes s src js"
      using copy(1) by (simp add: need_pdes_def)
    have et: "mem t (entry src i) = ?e" and eu: "mem u (entry src i) = ?e"
      using source_dir_keeps(2) [OF Cons.prems(5) k0] source_dir_keeps(2) [OF Cons.prems(5) cs(2)] by simp_all
    show ?thesis
    proof (cases ok1)
      case False
      with Cons.prems(1) copy a u et have "ok = False" by (simp add: has_table_def)
      with cc c1 n False show ?thesis by simp
    next
      case True
      with Cons.prems(1) copy a u et eu have c: "clone_pdes src dst js w = (ok, s')"
        by (simp add: has_table_def w_def)
      have w: "frames w = frames u" by (simp add: w_def)
      have d: "pfn dst \<notin> free_set (frames w)" using cs(3) Cons.prems(4) by (auto simp: keeps_def)
      note IH = Cons.IH [OF c _ Cons.prems(3) d source_dir_keeps(1) [OF sd cs(3)], unfolded need_pdes_keeps [OF sd cs(3) order_refl] w]
      from IH cs(1) cc c1 n True show ?thesis by simp
    qed
  qed
qed

text \<open>A directory whose user pages are all in use.\<close>

definition space_ok :: "vmm \<Rightarrow> uptr \<Rightarrow> bool" where
  "space_ok s pd \<longleftrightarrow> dir_ok s pd \<and> (\<forall>p\<in>user_frames s pd. pfn p \<notin> free_set (frames s))"

lemma space_source_dir:
  assumes "space_ok s src" and "X \<subseteq> free_set (frames s)"
  shows "source_dir s src {..<768} X"
proof -
  have d: "dir_ok s src" and fr: "\<And>p. p \<in> user_frames s src \<Longrightarrow> pfn p \<notin> free_set (frames s)"
    using assms(1) by (simp_all add: space_ok_def)
  have "source_table s (table s src i) X" if i: "i < 768" "has_table s src i" for i
  proof -
    have "table_frames s (table s src i) \<subseteq> user_frames s src" unfolding user_frames_tables using i by blast
    moreover have "pfn (table s src i) \<notin> free_set (frames s)" using dir_ok_table(2) [OF d _ i(2)] i(1) by simp
    ultimately have "pfn p \<notin> free_set (frames s)" if "p \<in> insert (table s src i) (table_frames s (table s src i))" for p
      using that fr by auto
    with assms(2) show ?thesis unfolding source_table_def by auto
  qed
  moreover have "aligned src" "pfn src \<notin> free_set (frames s)" using d by (simp_all add: dir_ok_dir)
  ultimately show ?thesis using assms(2) by (auto simp: source_dir_def)
qed

lemma clone_dir_ok:
  assumes c: "pdes_copied t s' src dst {..<768}" and ok: "dir_ok t dst" and k: "keeps t s' {pfn dst}"
    and hi: "\<And>i. 768 \<le> i \<Longrightarrow> i < 1024 \<Longrightarrow> mem s' (entry dst i) = mem t (entry dst i)"
  shows "dir_ok s' dst"
proof -
  have sub: "free_set (frames s') \<subseteq> free_set (frames t)" using k by (simp add: keeps_def)
  have lo: "pmm_owned (table s' dst i)" "pfn (table s' dst i) \<in> free_set (frames t)"
    "pfn (table s' dst i) \<notin> free_set (frames s')" if "i < 768" "has_table s' dst i" for i
    using pdes_copied_tables [OF c that(1)] that(2) by auto
  have hi': "has_table t dst i" "table s' dst i = table t dst i" if "768 \<le> i" "i < 1024" "has_table s' dst i" for i
    using hi [OF that(1,2)] that(3) by (simp_all add: has_table_def table_def)
  have up: "pmm_owned (table s' dst i) \<and> pfn (table s' dst i) \<notin> free_set (frames t) \<and> table s' dst i \<noteq> dst"
    if "768 \<le> i" "i < 1024" "has_table s' dst i" for i
    using dir_ok_table(1-3) [OF ok that(2) hi'(1) [OF that]] hi'(2) [OF that] by simp
  have inj: "i = j" if ij: "i < 1024" "j < 1024" "has_table s' dst i" "has_table s' dst j" "table s' dst i = table s' dst j" for i j
  proof (cases "i < 768"; cases "j < 768")
    assume "i < 768" "j < 768"
    with ij pdes_copied_tables(1,6) [OF c, of i] pdes_copied_tables(1) [OF c, of j] show ?thesis
      by (auto simp: table_pages_def table_def)
  next
    assume "\<not> i < 768" "\<not> j < 768"
    with ij hi' [of i] hi' [of j] dir_ok_table(4) [OF ok, of i j] show ?thesis by simp
  qed (use ij lo up in \<open>metis not_less\<close>)+
  have d: "pmm_owned dst" "aligned dst" "pfn dst \<notin> free_set (frames t)" using ok by (simp_all add: dir_ok_def)
  have "pmm_owned (table s' dst i) \<and> pfn (table s' dst i) \<notin> free_set (frames s') \<and> table s' dst i \<noteq> dst"
    if "i < 1024" "has_table s' dst i" for i
  proof (cases "i < 768")
    case True
    with lo [OF _ that(2)] d(3) show ?thesis by auto
  next
    case False
    with up [OF _ that] sub show ?thesis by auto
  qed
  with d sub inj show ?thesis unfolding dir_ok_def by blast
qed

lemma pgdir_clone_split:
  assumes k: "dir_ok s (kernel_pgdir s)" and inv: "pmm_inv (frames s)" and src: "space_ok s src"
    and t: "pgdir_create s = (dst, t)" and d: "dst \<noteq> 0" and c: "clone_pdes src dst user_half t = (ok, s')"
  shows "pmm_inv (frames s')" and "keeps t s' {pfn dst}" and "ok \<Longrightarrow> pdes_copied t s' src dst {..<768}"
    and "ok \<longleftrightarrow> need_pdes s src user_half < card (free_set (frames s))"
    and "ok \<Longrightarrow> card (free_set (frames s)) = card (free_set (frames s')) + 1 + need_pdes s src user_half"
    and "\<And>i. 768 \<le> i \<Longrightarrow> i < 1024 \<Longrightarrow> mem s' (entry dst i) = mem t (entry dst i)"
    and "ok \<Longrightarrow> pdes_copied s s' src dst {..<768}"
proof -
  note cr = pgdir_create_spec [OF k inv t]
  have sd: "source_dir s src (set user_half) {pfn dst}" using space_source_dir [OF src] cr(3) d by simp
  note sd' = source_dir_keeps [OF sd cr(6) [OF d]]
  have al: "aligned dst" "pfn dst \<notin> free_set (frames t)" using cr(2) d by (simp_all add: dir_ok_dir)
  have "pmm_inv (frames s') \<and> keeps t s' {pfn dst} \<and> (ok \<longrightarrow> pdes_copied t s' src dst (set user_half)) \<and>
    (\<forall>j<1024. j \<notin> set user_half \<longrightarrow> mem s' (entry dst j) = mem t (entry dst j))"
    by (rule clone_pdes_spec [OF c cr(5) _ al sd'(1)]) (use d cr(8) in simp_all)
  then show "pmm_inv (frames s')" "keeps t s' {pfn dst}" and p: "ok \<Longrightarrow> pdes_copied t s' src dst {..<768}"
    and "\<And>i. 768 \<le> i \<Longrightarrow> i < 1024 \<Longrightarrow> mem s' (entry dst i) = mem t (entry dst i)"
    by auto
  have n: "need_pdes t src user_half = need_pdes s src user_half"
    by (rule need_pdes_keeps [OF sd cr(6) [OF d]]) simp
  note cc = clone_pdes_count [OF c cr(5) [OF d] al sd'(1), unfolded n]
  note c1 = card_take_page [OF cr(4) [OF d] cr(3) [OF d]]
  show "ok \<longleftrightarrow> need_pdes s src user_half < card (free_set (frames s))"
    and "ok \<Longrightarrow> card (free_set (frames s)) = card (free_set (frames s')) + 1 + need_pdes s src user_half"
    using cc c1 by auto
  assume ok
  have e: "mem t (entry src i) = mem s (entry src i)" if "i < 768" for i using sd'(2) that by simp
  have ht: "has_table t src i = has_table s src i" if "i < 768" for i using e [OF that] by (simp add: has_table_def)
  have "table_copied s s' (mem s (entry src i)) (mem s' (entry dst i))" if i: "i < 768" "has_table s src i" for i
  proof (rule table_copied_earlier [OF cr(6) [OF d]])
    show "table_copied t s' (mem s (entry src i)) (mem s' (entry dst i))"
      using pdes_copied_tables(2) [OF p [OF \<open>ok\<close>] i(1)] i ht e by simp
    show "source_table s (PTE_ADDR (mem s (entry src i))) {}"
      using sd i by (auto simp: source_dir_def source_table_def table_def)
  qed
  then show "pdes_copied s s' src dst {..<768}"
    using p [OF \<open>ok\<close>] ht unfolding pdes_copied_def by auto
qed

lemma pgdir_clone_spec:
  assumes "dir_ok s (kernel_pgdir s)" and "pmm_inv (frames s)" and "space_ok s src"
    and "pgdir_clone src s = (dst, s')"
  shows "dst \<noteq> 0 \<longleftrightarrow> 1 + need_pdes s src user_half \<le> card (free_set (frames s))"
    and "dst \<noteq> 0 \<Longrightarrow> dir_ok s' dst \<and> pmm_inv (frames s') \<and> keeps s s' {}"
    and "dst \<noteq> 0 \<Longrightarrow> card (free_set (frames s)) = card (free_set (frames s')) + (1 + need_pdes s src user_half)"
    and "dst \<noteq> 0 \<Longrightarrow> v < 786432 \<Longrightarrow> case pgmap s src v of None \<Rightarrow> pgmap s' dst v = None
      | Some p \<Rightarrow> \<exists>q. pgmap s' dst v = Some q \<and> copy_of s s' p q"
    and "dst \<noteq> 0 \<Longrightarrow> v < 786432 \<Longrightarrow> w < 786432 \<Longrightarrow> v \<noteq> w \<Longrightarrow> pgmap s' dst v = Some p \<Longrightarrow>
      pgmap s' dst w = Some q \<Longrightarrow> PTE_ADDR p \<noteq> PTE_ADDR q"
    and "dst \<noteq> 0 \<Longrightarrow> 786432 \<le> v \<Longrightarrow> v < 1048576 \<Longrightarrow> pgmap s' dst v = pgmap s (kernel_pgdir s) v"
proof -
  obtain d t where t: "pgdir_create s = (d, t)" by fastforce
  obtain ok u where u: "clone_pdes src d user_half t = (ok, u)" by fastforce
  note cr = pgdir_create_spec [OF assms(1,2) t]
  have none: "dst = 0 \<and> card (free_set (frames s)) = 0" if "d = 0"
    using that assms(4) t cr(1) by (simp add: pgdir_clone_def)
  show iff: "dst \<noteq> 0 \<longleftrightarrow> 1 + need_pdes s src user_half \<le> card (free_set (frames s))"
  proof (cases "d = 0")
    case False
    with pgdir_clone_split(4) [OF assms(1-3) t False u] assms(4) t u show ?thesis
      by (cases ok) (auto simp: pgdir_clone_def)
  qed (use none in simp)
  assume "dst \<noteq> 0"
  then have d: "d = dst" "ok" "s' = u" "d \<noteq> 0"
    using assms(4) t u by (auto simp: pgdir_clone_def split: if_splits bool.splits)
  note sp = pgdir_clone_split [OF assms(1-3) t d(4) u, unfolded d(1) d(3) [symmetric]]
  note cr' = cr(2-8) [OF d(4), unfolded d(1)]
  have "keeps s s' {}" by (rule keeps_trans [OF cr'(5) sp(2)]) (use cr'(2) in simp)
  with clone_dir_ok [OF sp(3) [OF d(2)] cr'(1) sp(2,6)] sp(1)
  show "dir_ok s' dst \<and> pmm_inv (frames s') \<and> keeps s s' {}" by simp
  show "card (free_set (frames s)) = card (free_set (frames s')) + (1 + need_pdes s src user_half)"
    using sp(5) d(2) by simp
  note pc = sp(7) [OF d(2)]
  show "case pgmap s src v of None \<Rightarrow> pgmap s' dst v = None
      | Some p \<Rightarrow> \<exists>q. pgmap s' dst v = Some q \<and> copy_of s s' p q" if "v < 786432"
    using pdes_copied_pgmap [OF pc that] by (auto split: option.splits)
  show "PTE_ADDR p \<noteq> PTE_ADDR q" if "v < 786432" "w < 786432" "v \<noteq> w" "pgmap s' dst v = Some p" "pgmap s' dst w = Some q"
    by (rule pdes_copied_distinct [OF pc that])
  show "pgmap s' dst v = pgmap s (kernel_pgdir s) v" if v: "786432 \<le> v" "v < 1048576"
  proof -
    have i: "768 \<le> v div 1024" "v div 1024 < 1024" using v by simp_all
    have "pgmap s' dst v = pgmap t dst v"
    proof (rule pgmap_cong [OF v(2) sp(6) [OF i]])
      assume h: "has_table t dst (v div 1024)"
      note tt = dir_ok_table(2,3) [OF cr'(1) i(2) h]
      have "pfn (table t dst (v div 1024)) \<noteq> pfn dst"
        using tt(2) dir_ok_dir(1) [OF cr'(1)] by (auto simp: aligned_eq)
      then show "mem s' (entry (table t dst (v div 1024)) (v mod 1024)) = mem t (entry (table t dst (v div 1024)) (v mod 1024))"
        using keeps_table(1) [OF sp(2) _ tt(1)] by simp
    qed
    with cr'(6) [OF v(2)] v(1) show ?thesis by simp
  qed
qed

section \<open>Setting up the kernel's directory\<close>

lemma pgmap_has_table: "pgmap s pd v = Some p \<Longrightarrow> has_table s pd (v div 1024)"
  by (auto simp: pgmap_def split: if_splits)

text \<open>Mapping pages of one table in a row never runs out of memory after the first.\<close>

lemma map_page_fold:
  fixes flags :: u32
  assumes "dir_ok s pd" and "pmm_inv (frames s)" and "has_table s pd i \<or> free_set (frames s) \<noteq> {}"
    and "\<forall>p\<in>set ps. PD_INDEX (b + p) = i" and "inj_on (\<lambda>p. vpn (b + p)) (set ps)" and "distinct ps"
  defines "s' \<equiv> fold (\<lambda>p s. snd (map_page pd (b + p) p flags s)) ps s"
  shows "dir_ok s' pd \<and> pmm_inv (frames s') \<and> kernel_pgdir s' = kernel_pgdir s \<and>
    (\<forall>p\<in>set ps. pgmap s' pd (vpn (b + p)) = Some ((p AND PAGE_MASK) OR pte_flags flags)) \<and>
    (\<forall>v<1048576. v \<notin> (\<lambda>p. vpn (b + p)) ` set ps \<longrightarrow> pgmap s' pd v = pgmap s pd v)"
  unfolding s'_def using assms(1-6)
proof (induction ps arbitrary: s)
  case (Cons p ps)
  obtain r t where m: "map_page pd (b + p) p flags s = (r, t)" by fastforce
  have i: "PD_INDEX (b + p) = i" and ps: "\<forall>p\<in>set ps. PD_INDEX (b + p) = i" "inj_on (\<lambda>p. vpn (b + p)) (set ps)" "distinct ps"
    using Cons.prems(4-6) by auto
  note sp = map_page_ok(2,3,6,4) [OF Cons.prems(1,2) m, unfolded i, OF Cons.prems(3)]
  have "has_table t pd i" using pgmap_has_table [of t pd "vpn (b + p)"] sp(4) [OF vpn_bound] i by (simp add: PD_INDEX_vpn)
  then have "has_table t pd i \<or> free_set (frames t) \<noteq> {}" by simp
  note IH = Cons.IH [OF sp(1,2) this ps]
  have np: "vpn (b + p) \<notin> (\<lambda>p. vpn (b + p)) ` set ps" using Cons.prems(5,6) by auto
  have "pgmap (fold (\<lambda>p s. snd (map_page pd (b + p) p flags s)) ps t) pd (vpn (b + p)) = pgmap t pd (vpn (b + p))"
    using IH np vpn_bound by blast
  then show ?case using IH m sp(3) sp(4) [OF vpn_bound] sp(4) by auto
qed simp

lemma dir_ok_empty:
  assumes "pmm_owned pd" "aligned pd" "pfn pd \<notin> free_set (frames s)" and "\<And>i. i < 1024 \<Longrightarrow> mem s (entry pd i) = 0"
  shows "dir_ok s pd" and "v < 1048576 \<Longrightarrow> pgmap s pd v = None"
proof -
  have h: "\<not> has_table s pd i" if "i < 1024" for i using assms(4) [OF that] by (simp add: has_table_def)
  show "dir_ok s pd" using assms(1-3) h by (auto simp: dir_ok_def)
  show "v < 1048576 \<Longrightarrow> pgmap s pd v = None" using h by (simp add: pgmap_def)
qed

lemma kernel_window:
  assumes "p \<in> set (page_steps 0 (4 * 1024 * 1024))"
  shows "aligned p" and "unat p < 4194304" and "vpn (KERNEL_VIRT_BASE + p) = 786432 + pfn p"
proof -
  note ps = page_steps_pages [of 0 "4 * 1024 * 1024"]
  show al: "aligned p" using ps(2) assms by simp
  have "pfn p \<in> {0..<1024}" using ps(1) assms by (auto simp: image_iff set_eq_iff)
  with al show lt: "unat p < 4194304" by (auto elim!: dvdE)
  then have "unat (KERNEL_VIRT_BASE + p) = 3221225472 + unat p"
    unfolding KERNEL_VIRT_BASE_def by (subst unat_add_nowrap) simp_all
  then show "vpn (KERNEL_VIRT_BASE + p) = 786432 + pfn p" by simp
qed

lemma or_low_add: "aligned p \<Longrightarrow> unat (p OR (va AND (PAGE_SIZE - 1))) = unat p + unat va mod 4096"
proof -
  assume p: "aligned p"
  let ?f = "va AND (PAGE_SIZE - 1)"
  have f: "unat ?f = unat va mod 4096" unfolding PAGE_SIZE_def page_mask_eq by (simp add: unat_simps)
  have "p OR ?f = p + ?f"
    using p small_bits [OF low_bits_less] by (intro disjunctive_add [symmetric]) (auto simp: aligned_bits)
  moreover have "unat p + unat ?f < 4294967296" unfolding f using aligned_room [OF p] mod_less_divisor [of 4096 "unat va"] by linarith
  ultimately show "unat (p OR ?f) = unat p + unat va mod 4096" using f by (simp add: unat_add_nowrap)
qed

lemma kernel_window_pages: "pfn ` set (page_steps 0 (4 * 1024 * 1024)) = {0..<1024}"
  "distinct (map pfn (page_steps 0 (4 * 1024 * 1024)))"
  using page_steps_pages(1,3) [of 0 "4 * 1024 * 1024"] by simp_all

lemma window_address:
  "KERNEL_VIRT_BASE \<le> va \<and> va < KERNEL_VIRT_BASE + 0x400000 \<longleftrightarrow> 3221225472 \<le> unat va \<and> unat va < 3225419776"
  by (simp add: KERNEL_VIRT_BASE_def word_le_nat_alt word_less_nat_alt)

lemma window_translate:
  fixes ps
  defines "ps \<equiv> page_steps 0 (4 * 1024 * 1024)"
  assumes m: "\<forall>p\<in>set ps. pgmap s pd (vpn (KERNEL_VIRT_BASE + p)) = Some ((p AND PAGE_MASK) OR pte_flags VM_WRITE)"
    and n: "\<And>v. v < 1048576 \<Longrightarrow> v \<notin> (\<lambda>p. vpn (KERNEL_VIRT_BASE + p)) ` set ps \<Longrightarrow> pgmap s pd v = None"
  shows "virt_to_phys_pd pd va s =
    (if KERNEL_VIRT_BASE \<le> va \<and> va < KERNEL_VIRT_BASE + 0x400000 then virt_to_phys va else 0)"
proof (cases "KERNEL_VIRT_BASE \<le> va \<and> va < KERNEL_VIRT_BASE + 0x400000")
  case True
  then have va: "3221225472 \<le> unat va" "unat va < 3225419776" by (simp_all add: window_address)
  then have "vpn va - 786432 \<in> pfn ` set ps" unfolding ps_def kernel_window_pages(1) by auto
  then obtain p where p: "p \<in> set ps" "pfn p = vpn va - 786432" by force
  note w = kernel_window [OF p(1) [unfolded ps_def]]
  have v: "vpn (KERNEL_VIRT_BASE + p) = vpn va" using w(3) p(2) va by simp
  have "p AND PAGE_MASK = p" using PTE_ADDR_or [OF w(1), of 0] by (simp add: PTE_ADDR_def)
  then have "pgmap s pd (vpn va) = Some (p OR pte_flags VM_WRITE)" using m p(1) v by metis
  then have "virt_to_phys_pd pd va s = p OR (va AND (PAGE_SIZE - 1))"
    by (simp add: virt_to_phys_pd_pgmap PTE_ADDR_or [OF w(1) pte_flags_props(1)])
  moreover have "unat (p OR (va AND (PAGE_SIZE - 1))) = unat (virt_to_phys va)"
  proof -
    have "unat p = 4096 * pfn p" using w(1) by (auto elim: dvdE)
    then have "unat p + unat va mod 4096 = unat va - 3221225472"
      using p(2) va div_mult_mod_eq [of "unat va" 4096] by (simp add: diff_mult_distrib2)
    moreover have "unat (virt_to_phys va) = unat va - 3221225472"
      using True by (simp add: virt_to_phys_def KERNEL_VIRT_BASE_def unat_sub)
    ultimately show ?thesis by (simp add: or_low_add [OF w(1)])
  qed
  ultimately show ?thesis using True by (simp add: word_unat_eq_iff)
next
  case False
  have "vpn va \<notin> (\<lambda>p. vpn (KERNEL_VIRT_BASE + p)) ` set ps"
  proof
    assume "vpn va \<in> (\<lambda>p. vpn (KERNEL_VIRT_BASE + p)) ` set ps"
    then obtain p where p: "p \<in> set ps" "vpn va = 786432 + pfn p" using kernel_window(3) by (auto simp: ps_def)
    have "pfn p < 1024" using kernel_window_pages(1) p(1) by (auto simp: ps_def)
    then have "vpn va < 787456" "786432 \<le> vpn va" using p(2) by simp_all
    then have "3221225472 \<le> unat va" "unat va < 3225419776" by simp_all
    with False show False by (simp add: window_address)
  qed
  then have "pgmap s pd (vpn va) = None" by (rule n [OF vpn_bound])
  with False show ?thesis by (auto simp: virt_to_phys_pd_pgmap)
qed

text \<open>A small machine for concrete instances: an empty kernel directory at \<open>0x10000\<close>, a user directory at
  \<open>0x11000\<close> with one table at \<open>0x12000\<close>, which maps page 3 to the frame at \<open>0x13000\<close>.\<close>

definition vmm_example :: vmm where
  "vmm_example =
     \<lparr>frames = pmm_example, mem = (\<lambda>_. 0)(0x11000 := 0x12007, 0x1200C := 0x13007, 0x13000 := 42),
      kernel_pgdir = 0x10000, cr3 = 0x10000\<rparr>"

lemma example_entry:
  "i < 1024 \<Longrightarrow> mem vmm_example (entry 0x10000 i) = 0"
  "i < 1024 \<Longrightarrow> mem vmm_example (entry 0x11000 i) = (if i = 0 then 0x12007 else 0)"
  "i < 1024 \<Longrightarrow> mem vmm_example (entry 0x12000 i) = (if i = 3 then 0x13007 else 0)"
  using unat_entry [of "0x10000" i] unat_entry [of "0x11000" i] unat_entry [of "0x12000" i]
  by (auto simp: vmm_example_def word_unat_eq_iff)

lemma vmm_example_simps [simp]:
  "frames vmm_example = pmm_example" "kernel_pgdir vmm_example = 0x10000"
  by (simp_all add: vmm_example_def)

lemma vmm_example_tables:
  "i < 1024 \<Longrightarrow> has_table vmm_example 0x11000 i \<longleftrightarrow> i = 0" "table vmm_example 0x11000 0 = 0x12000"
  by (simp_all add: has_table_def table_def example_entry PDE_PRESENT_def PTE_ADDR_def PAGE_MASK_def PAGE_SIZE_def)

lemma vmm_example_kernel: "dir_ok vmm_example 0x10000"
  by (rule dir_ok_empty) (simp_all add: example_entry pmm_owned_def layout_defs pmm_example_free)

lemma vmm_example_dir: "dir_ok vmm_example 0x11000"
  by (auto simp: dir_ok_def vmm_example_tables pmm_owned_def layout_defs pmm_example_free)

lemma vmm_example_pgmap: "v < 1048576 \<Longrightarrow> pgmap vmm_example 0x11000 v = (if v = 3 then Some 0x13007 else None)"
proof (cases "v < 1024")
  case True
  then show ?thesis by (auto simp: pgmap_def vmm_example_tables example_entry PTE_PRESENT_def)
next
  case False
  assume "v < 1048576"
  with False have "\<not> has_table vmm_example 0x11000 (v div 1024)" by (simp add: vmm_example_tables)
  with False show ?thesis by (simp add: pgmap_def)
qed

lemma vmm_example_frames: "user_frames vmm_example 0x11000 = {0x13000}"
proof -
  have a: "PTE_ADDR 0x13007 = 0x13000" by (simp add: PTE_ADDR_def PAGE_MASK_def PAGE_SIZE_def)
  have "pgmap vmm_example 0x11000 3 = Some 0x13007" by (simp add: vmm_example_pgmap)
  then have "PTE_ADDR 0x13007 \<in> user_frames vmm_example 0x11000" by (force simp: user_frames_def)
  moreover have "user_frames vmm_example 0x11000 \<subseteq> {PTE_ADDR 0x13007}"
    by (auto simp: user_frames_def vmm_example_pgmap split: if_splits)
  ultimately show ?thesis unfolding a by blast
qed

lemma vmm_example_space: "space_ok vmm_example 0x11000"
  by (simp add: space_ok_def vmm_example_dir vmm_example_frames pmm_example_free)

section \<open>Properties\<close>

text \<open>
  C2: \<^verbatim>\<open>map_page\<close> implements the update of a finite map.  On a well-formed directory it fails
  exactly when the page table is missing and no page is free, and then changes nothing.  Otherwise
  the directory, read as a map from virtual page numbers to entries, is updated at the page of \<open>va\<close>
  alone, \<^verbatim>\<open>virt_to_phys_pd\<close> translates \<open>va\<close> to the new frame with the offset of \<open>va\<close>, and the
  directory stays well formed.
\<close>

theorem map_page_refines:
  assumes "dir_ok s pd" and "pmm_inv (frames s)" and "map_page pd va pa flags s = (r, s')"
  shows "if has_table s pd (PD_INDEX va) \<or> free_set (frames s) \<noteq> {}
    then r = None \<and> dir_ok s' pd \<and> pmm_inv (frames s') \<and>
      (\<forall>v<1048576. pgmap s' pd v = ((pgmap s pd)(vpn va \<mapsto> (pa AND PAGE_MASK) OR pte_flags flags)) v) \<and>
      virt_to_phys_pd pd va s' = (pa AND PAGE_MASK) OR (va AND (PAGE_SIZE - 1))
    else r = Some ENOMEM \<and> s' = s"
proof (cases "has_table s pd (PD_INDEX va) \<or> free_set (frames s) \<noteq> {}")
  case True
  note m = map_page_ok [OF assms True]
  have "PTE_ADDR ((pa AND PAGE_MASK) OR pte_flags flags) = pa AND PAGE_MASK"
    by (rule PTE_ADDR_or [OF aligned_and_mask pte_flags_props(1)])
  with m(4) [OF vpn_bound] have "virt_to_phys_pd pd va s' = (pa AND PAGE_MASK) OR (va AND (PAGE_SIZE - 1))"
    by (simp add: virt_to_phys_pd_pgmap)
  with True m show ?thesis by simp
next
  case False
  with map_page_spec [OF assms(1,2), of va pa flags] assms(3) show ?thesis by simp
qed

theorem map_page_refines_witness:
  "\<exists>s'. map_page 0x11000 0x5123 0x40000 VM_WRITE vmm_example = (None, s') \<and>
     virt_to_phys_pd 0x11000 0x5123 s' = 0x40123"
proof -
  obtain r s' where m: "map_page 0x11000 0x5123 0x40000 VM_WRITE vmm_example = (r, s')" by fastforce
  have "pmm_inv (frames vmm_example)" by (simp add: pmm_example_inv)
  from map_page_refines [OF vmm_example_dir this m] m pmm_example_free show ?thesis
    by (simp add: PAGE_MASK_def PAGE_SIZE_def)
qed

text \<open>
  Unmapping undoes mapping.  After a successful \<^verbatim>\<open>map_page\<close> at \<open>va\<close> followed by \<^verbatim>\<open>unmap_page\<close>, the
  page of \<open>va\<close> translates to 0 and every address on another page translates as before both calls.
\<close>

theorem map_unmap_roundtrip:
  assumes "dir_ok s pd" and "pmm_inv (frames s)" and "map_page pd va pa flags s = (None, s')"
  shows "virt_to_phys_pd pd va' (unmap_page pd va s') = (if vpn va' = vpn va then 0 else virt_to_phys_pd pd va' s)"
proof -
  have "has_table s pd (PD_INDEX va) \<or> free_set (frames s) \<noteq> {}"
    using map_page_spec [OF assms(1,2), of va pa flags] assms(3) by auto
  note m = map_page_ok [OF assms this]
  show ?thesis
    by (simp add: virt_to_phys_pd_pgmap unmap_page_spec(3) [OF m(2) vpn_bound] m(4) [OF vpn_bound])
qed

theorem map_unmap_roundtrip_witness:
  "\<exists>s'. map_page 0x11000 0x5123 0x40000 VM_WRITE vmm_example = (None, s') \<and>
     virt_to_phys_pd 0x11000 0x5124 (unmap_page 0x11000 0x5123 s') = 0"
proof -
  obtain r s' where m: "map_page 0x11000 0x5123 0x40000 VM_WRITE vmm_example = (r, s')" by fastforce
  have inv: "pmm_inv (frames vmm_example)" by (simp add: pmm_example_inv)
  have "r = None" by (rule map_page_ok(1) [OF vmm_example_dir inv m]) (simp add: pmm_example_free)
  with m map_unmap_roundtrip [OF vmm_example_dir inv, of "0x5123" "0x40000" VM_WRITE s' "0x5124"] show ?thesis by simp
qed

text \<open>
  Address spaces are isolated.  \<^verbatim>\<open>map_page\<close> on one directory leaves every translation of another
  directory alone when the two share neither the directory page nor the table that is written, as
  two directories made by \<^verbatim>\<open>pgdir_create\<close> do for user addresses; it never writes a page that is in
  use by anything else.
\<close>

theorem map_page_isolated:
  assumes "dir_ok s pd" and "pmm_inv (frames s)" and "map_page pd va pa flags s = (r, s')" and "dir_ok s q"
    and "pfn pd \<notin> dir_pages s q"
    and "has_table s pd (PD_INDEX va) \<Longrightarrow> pfn (table s pd (PD_INDEX va)) \<notin> dir_pages s q"
  shows "dir_ok s' q \<and> (\<forall>va'. virt_to_phys_pd q va' s' = virt_to_phys_pd q va' s)"
proof -
  have "dir_ok s' q \<and> (\<forall>v<1048576. pgmap s' q v = pgmap s q v)"
  proof (cases "has_table s pd (PD_INDEX va) \<or> free_set (frames s) \<noteq> {}")
    case True
    note k = map_page_ok(5) [OF assms(1-3) True]
    have "dir_pages s q \<inter> insert (pfn pd) (if has_table s pd (PD_INDEX va) then {pfn (table s pd (PD_INDEX va))} else {}) = {}"
      using assms(5,6) by auto
    with dir_keeps(1,2) [OF assms(4) k] show ?thesis by blast
  next
    case False
    with map_page_spec [OF assms(1,2), of va pa flags] assms(3,4) show ?thesis by simp
  qed
  then show "dir_ok s' q \<and> (\<forall>va'. virt_to_phys_pd q va' s' = virt_to_phys_pd q va' s)"
    using vpn_bound by (simp_all add: virt_to_phys_pd_pgmap)
qed

theorem map_page_isolated_witness:
  "\<exists>r s'. map_page 0x10000 0xC0000000 0x40000 VM_WRITE vmm_example = (r, s') \<and>
     virt_to_phys_pd 0x11000 0x3008 s' = 0x13008"
proof -
  obtain r s' where m: "map_page 0x10000 0xC0000000 0x40000 VM_WRITE vmm_example = (r, s')" by fastforce
  have inv: "pmm_inv (frames vmm_example)" by (simp add: pmm_example_inv)
  have "dir_pages vmm_example 0x11000 \<subseteq> {17, 18}" by (auto simp: dir_pages_def vmm_example_tables)
  then have d: "16 \<notin> dir_pages vmm_example 0x11000" by auto
  have n: "\<not> has_table vmm_example 0x10000 i" if "i < 1024" for i
    using that by (simp add: has_table_def example_entry)
  have "virt_to_phys_pd 0x11000 0x3008 s' = virt_to_phys_pd 0x11000 0x3008 vmm_example"
    using map_page_isolated [OF vmm_example_kernel inv m vmm_example_dir] by (simp add: d n PD_INDEX_bound)
  also have "\<dots> = 0x13008"
    by (simp add: virt_to_phys_pd_pgmap vmm_example_pgmap PTE_ADDR_def PAGE_MASK_def PAGE_SIZE_def)
  finally show ?thesis using m by blast
qed

text \<open>
  A new directory.  \<^verbatim>\<open>pgdir_create\<close> fails only when no page is free, changing nothing.  Otherwise
  the new directory maps no user page, maps every kernel page as the kernel's directory does,
  and \<^verbatim>\<open>pgdir_destroy\<close> gives back exactly the page it took.
\<close>

theorem pgdir_create_destroy:
  assumes "dir_ok s (kernel_pgdir s)" and "pmm_inv (frames s)" and "pgdir_create s = (pd, s')"
  shows "if pd = 0 then s' = s \<and> free_set (frames s) = {}
    else dir_ok s' pd \<and> pfn pd \<in> free_set (frames s) \<and>
      (\<forall>va. virt_to_phys_pd pd va s' =
        (if va < KERNEL_VIRT_BASE then 0 else virt_to_phys_pd (kernel_pgdir s) va s)) \<and>
      free_set (frames (pgdir_destroy pd s')) = free_set (frames s)"
proof (cases "pd = 0")
  case True
  with pgdir_create_spec(1) [OF assms] show ?thesis by simp
next
  case False
  note c = pgdir_create_spec(2-8) [OF assms False]
  have k: "pd \<noteq> kernel_pgdir s'"
    using c(2,5) assms(1) by (auto simp: keeps_def dest: dir_ok_dir(2))
  have t: "user_tables s' pd = {}" using c(7) by (auto simp: user_tables_def has_table_def)
  have f: "user_frames s' pd = {}" using c(6) by (auto simp: user_frames_def)
  have "freeable pd" using c(1) False by (simp add: dir_ok_def freeable_def pmm_owned_def)
  then have "free_set (frames (pgdir_destroy pd s')) = free_set (frames s)"
    using c(2,3) t f by (auto simp: pgdir_destroy_spec(3) [OF False k])
  moreover have "va < KERNEL_VIRT_BASE \<longleftrightarrow> vpn va < 786432" for va
    by (auto simp: KERNEL_VIRT_BASE_def word_less_nat_alt)
  ultimately show ?thesis using c False vpn_bound by (simp add: virt_to_phys_pd_pgmap)
qed

theorem pgdir_create_destroy_witness:
  "\<exists>s'. pgdir_create vmm_example = (0x2000, s') \<and> free_set (frames (pgdir_destroy 0x2000 s')) = {2, 5, 6}"
proof -
  obtain pd s' where c: "pgdir_create vmm_example = (pd, s')" by fastforce
  obtain p t where a: "pmm_alloc pmm_example = (p, t)" by fastforce
  have "pmm_alloc pmm_example = (0x2000, t)"
    using a pmm_alloc_Min(1) [OF pmm_example_inv _ a] by (simp add: pmm_example_free word_unat_eq_iff)
  then have "pd = 0x2000"
    using c by (auto simp: pgdir_create_def pmm_alloc_zero_def alloc_page_def)
  then show ?thesis
    using pgdir_create_destroy [of vmm_example pd s'] vmm_example_kernel pmm_example_inv c by (simp add: pmm_example_free)
qed



text \<open>
  C21: \<^verbatim>\<open>pgdir_destroy\<close> releases exactly the user pages, the user tables and the directory.  For a
  directory other than the kernel's whose user frames are pages of the allocator, the free set
  grows by those pages, the kernel's tables are not among them, no memory is written, and the
  allocator's invariant is kept.
\<close>

theorem pgdir_destroy_releases:
  assumes "dir_ok s pd" and "pmm_inv (frames s)" and "pd \<noteq> kernel_pgdir s" and "Ball (user_frames s pd) pmm_owned"
  shows "free_set (frames (pgdir_destroy pd s)) =
      free_set (frames s) \<union> pfn ` ({pd} \<union> user_tables s pd \<union> user_frames s pd) \<and>
    mem (pgdir_destroy pd s) = mem s \<and> pmm_inv (frames (pgdir_destroy pd s)) \<and>
    (\<forall>i. 768 \<le> i \<and> i < 1024 \<and> has_table s pd i \<longrightarrow> table s pd i \<notin> {pd} \<union> user_tables s pd)"
proof -
  have f: "pmm_owned p \<Longrightarrow> freeable p" for p by (auto simp: pmm_owned_def freeable_def)
  have pd: "pd \<noteq> 0" "pmm_owned pd" "aligned pd" using assms(1) by (auto simp: dir_ok_def pmm_owned_def)
  have t: "Ball (user_tables s pd) pmm_owned"
    using dir_ok_table(1) [OF assms(1)] by (auto simp: user_tables_def)
  have "{pd} \<union> user_tables s pd \<union> user_frames s pd \<subseteq> Collect freeable"
    using pd(2) t assms(4) by (auto intro: f)
  then have "({pd} \<union> user_tables s pd \<union> user_frames s pd) \<inter> Collect freeable = {pd} \<union> user_tables s pd \<union> user_frames s pd"
    by (rule Int_absorb2)
  moreover have "table s pd i \<notin> {pd} \<union> user_tables s pd" if i: "768 \<le> i" "i < 1024" "has_table s pd i" for i
  proof -
    have "table s pd i \<noteq> table s pd j" if "j < 768" "has_table s pd j" for j
      using dir_ok_table(4) [OF assms(1) i(2,3), of j] that i(1) by linarith
    with dir_ok_table(3) [OF assms(1) i(2,3)] show ?thesis unfolding user_tables_def by blast
  qed
  ultimately show ?thesis using pgdir_destroy_spec [OF pd(1) assms(3)] assms(2) pd(3) by simp
qed

theorem pgdir_destroy_releases_witness:
  "free_set (frames (pgdir_destroy 0x11000 vmm_example)) = {2, 5, 6, 17, 18, 19}"
proof -
  have inv: "pmm_inv (frames vmm_example)" by (simp add: pmm_example_inv)
  have t: "user_tables vmm_example 0x11000 = {0x12000}"
    using vmm_example_tables by (force simp: user_tables_def)
  have "free_set (frames (pgdir_destroy 0x11000 vmm_example)) = free_set (frames vmm_example) \<union>
    pfn ` ({0x11000} \<union> user_tables vmm_example 0x11000 \<union> user_frames vmm_example 0x11000)"
    using pgdir_destroy_releases [OF vmm_example_dir inv]
    by (simp add: vmm_example_frames pmm_owned_def layout_defs)
  then show ?thesis by (auto simp: t vmm_example_frames pmm_example_free)
qed

text \<open>
  C32: the kernel's direct map.  With two free pages \<^verbatim>\<open>paging_init\<close> succeeds and switches to a
  well-formed directory that maps the first 4 MiB of physical memory at \<^verbatim>\<open>KERNEL_VIRT_BASE\<close>, where
  translation is the inverse of \<^verbatim>\<open>phys_to_virt\<close>, and maps nothing else: a page frame above 4 MiB has
  no kernel address, although \<^verbatim>\<open>phys_to_virt\<close> is applied to every page the allocator returns.
\<close>

theorem paging_init_window:
  assumes "pmm_inv (frames s)" and "2 \<le> card (free_set (frames s))"
  shows "\<exists>s'. paging_init s = Some s' \<and> dir_ok s' (kernel_pgdir s') \<and> cr3 s' = kernel_pgdir s' \<and>
    (\<forall>va. virt_to_phys_pd (kernel_pgdir s') va s' =
      (if KERNEL_VIRT_BASE \<le> va \<and> va < KERNEL_VIRT_BASE + 0x400000 then virt_to_phys va else 0))"
proof -
  obtain pd t where a: "pmm_alloc_zero s = (pd, t)" by fastforce
  have "free_set (frames s) \<noteq> {}" using assms(2) by auto
  then have pd: "pd \<noteq> 0" using a pmm_alloc_zero_0 [OF assms(1)] by auto
  note o = pmm_alloc_zero_ok [OF assms(1) a pd]
  define u where "u = t\<lparr>kernel_pgdir := pd\<rparr>"
  define ps where "ps = page_steps 0 (4 * 1024 * 1024)"
  define s' where "s' = fold (\<lambda>p s. snd (map_page pd (KERNEL_VIRT_BASE + p) p VM_WRITE s)) ps u"
  have eu: "dir_ok u pd" "\<And>v. v < 1048576 \<Longrightarrow> pgmap u pd v = None"
    by (rule dir_ok_empty; use o in \<open>simp add: u_def pfn_entry\<close>)+
  have "card (free_set (frames t)) \<noteq> 0" using card_take_page [OF o(4,3)] assms(2) by linarith
  then have fr: "free_set (frames u) \<noteq> {}" by (auto simp: u_def)
  have win: "aligned p" "unat p < 4194304" "vpn (KERNEL_VIRT_BASE + p) = 786432 + pfn p" if "p \<in> set ps" for p
    using kernel_window that by (simp_all add: ps_def)
  have "inj_on pfn (set ps)" "distinct ps" using kernel_window_pages(2) by (simp_all add: ps_def distinct_map)
  then have inj: "inj_on (\<lambda>p. vpn (KERNEL_VIRT_BASE + p)) (set ps)"
    using win(3) by (simp add: inj_on_def)
  have pi: "PD_INDEX (KERNEL_VIRT_BASE + p) = 768" if "p \<in> set ps" for p
    using win [OF that] by (auto simp: PD_INDEX_vpn elim!: dvdE)
  have f: "dir_ok s' pd \<and> pmm_inv (frames s') \<and> kernel_pgdir s' = kernel_pgdir u \<and>
    (\<forall>p\<in>set ps. pgmap s' pd (vpn (KERNEL_VIRT_BASE + p)) = Some ((p AND PAGE_MASK) OR pte_flags VM_WRITE)) \<and>
    (\<forall>v<1048576. v \<notin> (\<lambda>p. vpn (KERNEL_VIRT_BASE + p)) ` set ps \<longrightarrow> pgmap s' pd v = pgmap u pd v)"
    unfolding s'_def by (rule map_page_fold [OF eu(1) _ disjI2 [OF fr, of "has_table u pd 768"] _ inj \<open>distinct ps\<close>])
      (use o(5) pi in \<open>simp_all add: u_def\<close>)
  have "pgmap s' pd v = None" if "v < 1048576" "v \<notin> (\<lambda>p. vpn (KERNEL_VIRT_BASE + p)) ` set ps" for v
    using f eu(2) that by metis
  then have tr: "virt_to_phys_pd pd va s' =
    (if KERNEL_VIRT_BASE \<le> va \<and> va < KERNEL_VIRT_BASE + 0x400000 then virt_to_phys va else 0)" for va
    using f unfolding ps_def by (intro window_translate) blast+
  have "paging_init s = Some (s'\<lparr>cr3 := pd\<rparr>)"
    using a pd by (simp add: paging_init_def s'_def u_def ps_def paging_switch_def Let_def)
  moreover have "virt_to_phys_pd pd va (s'\<lparr>cr3 := pd\<rparr>) = virt_to_phys_pd pd va s'" "dir_ok (s'\<lparr>cr3 := pd\<rparr>) pd = dir_ok s' pd" for va
    by (simp_all add: virt_to_phys_pd_pgmap pgmap_def has_table_def table_def dir_ok_def)
  moreover have "kernel_pgdir s' = pd" using f by (simp add: u_def)
  ultimately show ?thesis using tr f by simp
qed

theorem paging_init_window_witness:
  "\<exists>s'. paging_init vmm_example = Some s' \<and> virt_to_phys_pd (kernel_pgdir s') 0xC0012345 s' = 0x12345 \<and>
     virt_to_phys_pd (kernel_pgdir s') 0xC0400000 s' = 0"
proof -
  have "pmm_inv (frames vmm_example)" "2 \<le> card (free_set (frames vmm_example))"
    by (simp_all add: pmm_example_inv pmm_example_free)
  from paging_init_window [OF this] show ?thesis by (auto simp: KERNEL_VIRT_BASE_def virt_to_phys_def)
qed

end
