(* ===== verification/Mm.thy ===== *)
theory Mm
  imports Slab Vmm
begin

text \<open>
  Address spaces of processes, after the second half of \<^verbatim>\<open>mm/vmm.c\<close>: \<^verbatim>\<open>struct mm_struct\<close> with its list
  of \<^verbatim>\<open>struct vm_area\<close>, mapping and unmapping of ranges, the program break, cloning for \<^verbatim>\<open>fork\<close> and the page
  fault handler.  The state joins the page tables and the slab caches of the theories below with
  the contents of the descriptors, which live at slab objects, and the pointers of the area lists.
  A list walk that does not come back to its head has no result, so operations that walk lists or
  allocate return an option.
\<close>

section \<open>State\<close>

datatype vma_node = VmaHead uptr | VmaLink uptr

record vm_area =
  vstart :: uptr
  vend :: uptr
  vflags :: u32

record mm_struct =
  pgdir :: uptr
  brk :: uptr
  start_brk :: uptr
  start_stack :: uptr
  map_count :: u32

record mmem =
  vm :: vmm
  sl :: slabs
  mm_cache :: uptr
  vma_cache :: uptr
  mm_at :: "uptr \<Rightarrow> mm_struct"
  vma_at :: "uptr \<Rightarrow> vm_area"
  vma_lists :: "vma_node list_store"

text \<open>\<^verbatim>\<open>list_entry(pos, struct vm_area, list)\<close>, applied to links of areas only.\<close>

fun vma_of :: "vma_node \<Rightarrow> uptr" where
  "vma_of (VmaLink v) = v"
| "vma_of (VmaHead m) = 0"

definition mm_zero :: mm_struct where
  "mm_zero = \<lparr>pgdir = 0, brk = 0, start_brk = 0, start_stack = 0, map_count = 0\<rparr>"

definition upd_mm :: "uptr \<Rightarrow> (mm_struct \<Rightarrow> mm_struct) \<Rightarrow> mmem \<Rightarrow> mmem" where
  "upd_mm m f s = s\<lparr>mm_at := (mm_at s)(m := f (mm_at s m))\<rparr>"

definition cache_alloc :: "uptr \<Rightarrow> mmem \<Rightarrow> (uptr \<times> mmem) option" where
  "cache_alloc c s = do { (p, st) \<leftarrow> kmem_cache_alloc c (sl s); Some (p, s\<lparr>sl := st\<rparr>) }"

definition cache_free :: "uptr \<Rightarrow> uptr \<Rightarrow> mmem \<Rightarrow> mmem option" where
  "cache_free c p s = do { st \<leftarrow> kmem_cache_free c p (sl s); Some (s\<lparr>sl := st\<rparr>) }"

section \<open>Operations\<close>

definition sizeof_mm_struct :: u32 where "sizeof_mm_struct = 32"
definition sizeof_vm_area :: u32 where "sizeof_vm_area = 20"

definition mm_init_caches :: "mmem \<Rightarrow> mmem option" where
  "mm_init_caches s =
     do {
       (c, st) \<leftarrow> kmem_cache_create sizeof_mm_struct (sl s);
       let s = s\<lparr>sl := st, mm_cache := c\<rparr>;
       (d, st) \<leftarrow> kmem_cache_create sizeof_vm_area (sl s);
       Some (s\<lparr>sl := st, vma_cache := d\<rparr>)
     }"

definition mm_create :: "mmem \<Rightarrow> (uptr \<times> mmem) option" where
  "mm_create s =
     do {
       (m, s) \<leftarrow> cache_alloc (mm_cache s) s;
       if m = 0 then Some (0, s)
       else case pgdir_create (vm s) of (pd, v) \<Rightarrow>
         let s = upd_mm m (\<lambda>_. mm_zero\<lparr>pgdir := pd\<rparr>) (s\<lparr>vm := v\<rparr>)
         in if pd = 0 then do { s \<leftarrow> cache_free (mm_cache s) m s; Some (0, s) }
            else let s = s\<lparr>vma_lists := list_init (VmaHead m) (vma_lists s)\<rparr>;
                     b = 0x08048000 + 64 * 1024 * 1024
                 in Some (m, upd_mm m (\<lambda>x. x\<lparr>start_brk := b, brk := b, start_stack := USER_STACK_TOP\<rparr>) s)
     }"

text \<open>The loop of \<^verbatim>\<open>mm_destroy\<close>; the next position is read before the area is released.\<close>

partial_function (option) free_vmas :: "vma_node \<Rightarrow> vma_node \<Rightarrow> mmem \<Rightarrow> mmem option" where
  "free_vmas h pos s =
     (if pos = h then Some s
      else let n = lnext (vma_lists s) pos;
               s = s\<lparr>vma_lists := list_del pos (vma_lists s)\<rparr>
           in do { s \<leftarrow> cache_free (vma_cache s) (vma_of pos) s; free_vmas h n s })"

definition mm_destroy :: "uptr \<Rightarrow> mmem \<Rightarrow> mmem option" where
  "mm_destroy m s =
     (if m = 0 then Some s
      else do {
        s \<leftarrow> free_vmas (VmaHead m) (lnext (vma_lists s) (VmaHead m)) s;
        cache_free (mm_cache s) m (s\<lparr>vm := pgdir_destroy (pgdir (mm_at s m)) (vm s)\<rparr>)
      })"

text \<open>The loop of \<^verbatim>\<open>mm_clone\<close>; the boolean says whether every area was copied.\<close>

partial_function (option) clone_vmas :: "uptr \<Rightarrow> vma_node \<Rightarrow> vma_node \<Rightarrow> mmem \<Rightarrow> (bool \<times> mmem) option" where
  "clone_vmas dst h pos s =
     (if pos = h then Some (True, s)
      else do {
        (nv, s) \<leftarrow> cache_alloc (vma_cache s) s;
        if nv = 0 then Some (False, s)
        else let s = s\<lparr>vma_at := (vma_at s)(nv := vma_at s (vma_of pos)),
                       vma_lists := list_add_tail (VmaLink nv) (VmaHead dst) (vma_lists s)\<rparr>;
                 s = upd_mm dst (\<lambda>x. x\<lparr>map_count := map_count x + 1\<rparr>) s
             in clone_vmas dst h (lnext (vma_lists s) pos) s
      })"

definition mm_clone :: "uptr \<Rightarrow> mmem \<Rightarrow> (uptr \<times> mmem) option" where
  "mm_clone src s =
     do {
       (dst, s) \<leftarrow> cache_alloc (mm_cache s) s;
       if dst = 0 then Some (0, s)
       else case pgdir_clone (pgdir (mm_at s src)) (vm s) of (pd, v) \<Rightarrow>
         let s = upd_mm dst (\<lambda>_. mm_zero\<lparr>pgdir := pd\<rparr>) (s\<lparr>vm := v\<rparr>)
         in if pd = 0 then do { s \<leftarrow> cache_free (mm_cache s) dst s; Some (0, s) }
            else let s = s\<lparr>vma_lists := list_init (VmaHead dst) (vma_lists s)\<rparr>;
                     s = upd_mm dst (\<lambda>x. x\<lparr>brk := brk (mm_at s src), start_brk := start_brk (mm_at s src),
                           start_stack := start_stack (mm_at s src)\<rparr>) s
                 in do {
                   (ok, s) \<leftarrow> clone_vmas dst (VmaHead src) (lnext (vma_lists s) (VmaHead src)) s;
                   if ok then Some (dst, s) else do { s \<leftarrow> mm_destroy dst s; Some (0, s) }
                 }
     }"

definition vma_alloc :: "uptr \<Rightarrow> uptr \<Rightarrow> u32 \<Rightarrow> mmem \<Rightarrow> (uptr \<times> mmem) option" where
  "vma_alloc start stop flags s =
     do {
       (v, s) \<leftarrow> cache_alloc (vma_cache s) s;
       if v = 0 then Some (0, s)
       else Some (v, s\<lparr>vma_at := (vma_at s)(v := \<lparr>vstart = start, vend = stop, vflags = flags\<rparr>),
                       vma_lists := list_init (VmaLink v) (vma_lists s)\<rparr>)
     }"

text \<open>The flags of a user page, and the loop of \<^verbatim>\<open>mm_mmap\<close>, which does not look at the result of \<^verbatim>\<open>map_page\<close>.\<close>

definition mmap_flags :: "u32 \<Rightarrow> u32" where
  "mmap_flags flags =
     VM_USER OR (if flags AND VM_WRITE \<noteq> 0 then VM_WRITE else 0) OR (if flags AND VM_READ \<noteq> 0 then VM_READ else 0)"

fun mmap_pages :: "uptr \<Rightarrow> u32 \<Rightarrow> uptr list \<Rightarrow> vmm \<Rightarrow> bool \<times> vmm" where
  "mmap_pages pd flags [] s = (True, s)"
| "mmap_pages pd flags (p # ps) s =
     (case pmm_alloc_zero s of
        (phys, s) \<Rightarrow>
          if phys = 0 then (False, s)
          else mmap_pages pd flags ps (snd (map_page pd p phys (mmap_flags flags) s)))"

definition mm_mmap :: "uptr \<Rightarrow> uptr \<Rightarrow> u32 \<Rightarrow> u32 \<Rightarrow> mmem \<Rightarrow> (errno option \<times> mmem) option" where
  "mm_mmap m addr len flags s =
     (let len = ALIGN_UP len PAGE_SIZE
      in case mmap_pages (pgdir (mm_at s m)) flags (page_steps addr (addr + len)) (vm s) of
           (ok, v) \<Rightarrow>
             let s = s\<lparr>vm := v\<rparr>
             in if \<not> ok then Some (Some ENOMEM, s)
                else do {
                  (a, s) \<leftarrow> vma_alloc addr (addr + len) flags s;
                  if a = 0 then Some (Some ENOMEM, s)
                  else let s = s\<lparr>vma_lists := list_add_tail (VmaLink a) (VmaHead m) (vma_lists s)\<rparr>
                       in Some (None, upd_mm m (\<lambda>x. x\<lparr>map_count := map_count x + 1\<rparr>) s)
                })"

definition munmap_page :: "uptr \<Rightarrow> uptr \<Rightarrow> vmm \<Rightarrow> vmm" where
  "munmap_page pd p s =
     (let phys = virt_to_phys_pd pd p s;
          s = (if phys \<noteq> 0 then free_page (phys AND PAGE_MASK) s else s)
      in unmap_page pd p s)"

partial_function (option) munmap_vmas :: "uptr \<Rightarrow> uptr \<Rightarrow> uptr \<Rightarrow> vma_node \<Rightarrow> mmem \<Rightarrow> mmem option" where
  "munmap_vmas m lo hi pos s =
     (if pos = VmaHead m then Some s
      else let n = lnext (vma_lists s) pos; a = vma_at s (vma_of pos)
           in if vend a \<le> lo \<or> vstart a \<ge> hi then munmap_vmas m lo hi n s
              else do {
                s \<leftarrow> cache_free (vma_cache s) (vma_of pos) (s\<lparr>vma_lists := list_del pos (vma_lists s)\<rparr>);
                munmap_vmas m lo hi n (upd_mm m (\<lambda>x. x\<lparr>map_count := map_count x - 1\<rparr>) s)
              })"

text \<open>\<^verbatim>\<open>mm_munmap\<close> returns 0 always.\<close>

definition mm_munmap :: "uptr \<Rightarrow> uptr \<Rightarrow> u32 \<Rightarrow> mmem \<Rightarrow> mmem option" where
  "mm_munmap m addr len s =
     (let len = ALIGN_UP len PAGE_SIZE;
          s = s\<lparr>vm := fold (munmap_page (pgdir (mm_at s m))) (page_steps addr (addr + len)) (vm s)\<rparr>
      in munmap_vmas m addr (addr + len) (lnext (vma_lists s) (VmaHead m)) s)"

definition mm_brk :: "uptr \<Rightarrow> uptr \<Rightarrow> mmem \<Rightarrow> (errno option \<times> mmem) option" where
  "mm_brk m new_brk s =
     (let new_brk = ALIGN_UP new_brk PAGE_SIZE; x = mm_at s m
      in if new_brk < start_brk x then Some (Some EINVAL, s)
         else if new_brk > brk x
         then do {
           (r, s) \<leftarrow> mm_mmap m (brk x) (new_brk - brk x) (VM_READ OR VM_WRITE) s;
           (case r of
              Some e \<Rightarrow> Some (Some e, s)
            | None \<Rightarrow> Some (None, upd_mm m (\<lambda>x. x\<lparr>brk := new_brk\<rparr>) s))
         }
         else if new_brk < brk x
         then do {
           s \<leftarrow> mm_munmap m new_brk (brk x - new_brk) s;
           Some (None, upd_mm m (\<lambda>x. x\<lparr>brk := new_brk\<rparr>) s)
         }
         else Some (None, upd_mm m (\<lambda>x. x\<lparr>brk := new_brk\<rparr>) s))"

partial_function (option) find_vma_from :: "uptr \<Rightarrow> uptr \<Rightarrow> vma_node \<Rightarrow> mmem \<Rightarrow> uptr option" where
  "find_vma_from m addr pos s =
     (if pos = VmaHead m then Some 0
      else if addr \<ge> vstart (vma_at s (vma_of pos)) \<and> addr < vend (vma_at s (vma_of pos)) then Some (vma_of pos)
      else find_vma_from m addr (lnext (vma_lists s) pos) s)"

definition mm_find_vma :: "uptr \<Rightarrow> uptr \<Rightarrow> mmem \<Rightarrow> uptr option" where
  "mm_find_vma m addr s = find_vma_from m addr (lnext (vma_lists s) (VmaHead m)) s"

text \<open>
  The page fault handler.  \<open>cur\<close> is the \<^verbatim>\<open>mm\<close> of the current task, 0 if it has none, and \<open>None\<close> when there is no
  current task; then the signal is sent to the \<^verbatim>\<open>pid\<close> of a null pointer and there is no result.  The result says
  whether the fault was handled, the current task is to be sent \<^verbatim>\<open>SIGSEGV\<close>, or the kernel panics.
\<close>

datatype fault_result = Handled | KillSegv | FaultPanic

definition kernel_fault :: "uptr \<Rightarrow> bool \<Rightarrow> mmem \<Rightarrow> fault_result \<times> mmem" where
  "kernel_fault addr present s =
     (if addr \<ge> KERNEL_HEAP_START \<and> addr < KERNEL_HEAP_START + KERNEL_HEAP_SIZE \<and> \<not> present
      then case pmm_alloc_zero (vm s) of
        (page, v) \<Rightarrow>
          if page = 0 then (FaultPanic, s\<lparr>vm := v\<rparr>)
          else (Handled, s\<lparr>vm := snd (map_page (kernel_pgdir v) (ALIGN_DOWN addr PAGE_SIZE) page VM_WRITE v)\<rparr>)
      else (FaultPanic, s))"

definition page_fault_handler :: "uptr option \<Rightarrow> uptr \<Rightarrow> u32 \<Rightarrow> mmem \<Rightarrow> (fault_result \<times> mmem) option" where
  "page_fault_handler cur addr err s =
     (let present = err AND 1 \<noteq> 0; wr = drop_bit 1 err AND 1 \<noteq> 0; user = drop_bit 2 err AND 1 \<noteq> 0
      in if user
         then case cur of
           None \<Rightarrow> None
         | Some m \<Rightarrow>
             if m = 0 then Some (KillSegv, s)
             else do {
               a \<leftarrow> mm_find_vma m addr s;
               if a = 0 then Some (KillSegv, s)
               else if wr \<and> vflags (vma_at s a) AND VM_WRITE = 0 then Some (KillSegv, s)
               else if present then Some (KillSegv, s)
               else case pmm_alloc_zero (vm s) of
                 (page, v) \<Rightarrow>
                   if page = 0 then Some (KillSegv, s\<lparr>vm := v\<rparr>)
                   else Some (Handled, s\<lparr>vm := snd (map_page (pgdir (mm_at s m)) (ALIGN_DOWN addr PAGE_SIZE) page
                                                     (vflags (vma_at s a) OR VM_USER) v)\<rparr>)
             }
         else Some (kernel_fault addr present s))"

section \<open>Area lists\<close>

definition vmas :: "mmem \<Rightarrow> uptr \<Rightarrow> uptr list \<Rightarrow> bool" where
  "vmas s m vs \<longleftrightarrow> is_list (vma_lists s) (VmaHead m) (map VmaLink vs)"

definition covers :: "mmem \<Rightarrow> uptr \<Rightarrow> uptr \<Rightarrow> bool" where
  "covers s addr v \<longleftrightarrow> vstart (vma_at s v) \<le> addr \<and> addr < vend (vma_at s v)"

lemma find_vma_walk:
  assumes "fpath (lnext (vma_lists s)) pos (map VmaLink vs) (VmaHead m)"
  shows "find_vma_from m addr (lnext (vma_lists s) pos) s = Some (case find (covers s addr) vs of None \<Rightarrow> 0 | Some v \<Rightarrow> v)"
  using assms
proof (induction vs arbitrary: pos)
  case Nil
  then show ?case by (simp add: find_vma_from.simps)
next
  case (Cons v vs)
  then have n: "lnext (vma_lists s) pos = VmaLink v" and f: "fpath (lnext (vma_lists s)) (VmaLink v) (map VmaLink vs) (VmaHead m)"
    by simp_all
  show ?case unfolding n using Cons.IH [OF f] by (simp add: find_vma_from.simps [of _ _ "VmaLink v"] covers_def)
qed

lemma mm_find_vma_find:
  "vmas s m vs \<Longrightarrow> mm_find_vma m addr s = Some (case find (covers s addr) vs of None \<Rightarrow> 0 | Some v \<Rightarrow> v)"
  unfolding mm_find_vma_def vmas_def is_list_def by (intro find_vma_walk dseg_fpath) simp

section \<open>Mapping a range\<close>

definition zeroed :: "vmm \<Rightarrow> uptr \<Rightarrow> bool" where
  "zeroed s f \<longleftrightarrow> (\<forall>i<1024. mem s (entry f i) = 0)"

lemma zeroed_keeps:
  "zeroed s f \<Longrightarrow> keeps s t X \<Longrightarrow> aligned f \<Longrightarrow> pfn f \<notin> free_set (frames s) \<Longrightarrow> pfn f \<notin> X \<Longrightarrow> zeroed t f"
  by (simp add: zeroed_def keeps_table(1))

text \<open>One turn of the loop of \<^verbatim>\<open>mm_mmap\<close>, with a page for the mapping and, if it is missing, one for the table at hand.\<close>

lemma mmap_page_step:
  fixes va :: uptr and fl :: u32
  assumes ok: "dir_ok s pd" and inv: "pmm_inv (frames s)" and two: "has_table s pd (PD_INDEX va) \<and> free_set (frames s) \<noteq> {} \<or> 2 \<le> card (free_set (frames s))"
    and a: "pmm_alloc_zero s = (phys, t)"
  defines "u \<equiv> snd (map_page pd va phys fl t)"
  shows "phys \<noteq> 0" and "aligned phys" and "pfn phys \<in> free_set (frames s)" and "pfn phys \<notin> free_set (frames u)"
    and "zeroed u phys" and "dir_ok u pd" and "pmm_inv (frames u)" and "free_set (frames u) \<subseteq> free_set (frames s)"
    and "card (free_set (frames s)) \<le> card (free_set (frames u)) + 2"
    and "v < 1048576 \<Longrightarrow> pgmap u pd v = (if v = vpn va then Some (phys OR pte_flags fl) else pgmap s pd v)"
    and "keeps s u (dir_pages s pd)" and "dir_pages u pd \<subseteq> dir_pages s pd \<union> free_set (frames s)"
    and "pfn phys \<notin> dir_pages u pd"
proof -
  have "free_set (frames s) \<noteq> {}" using two by auto
  then show p0: "phys \<noteq> 0" using pmm_alloc_zero_0 [OF inv] a by auto
  note o = pmm_alloc_zero_ok [OF inv a p0]
  have k0: "keeps s t {}" by (rule keeps_alloc_zero [OF inv a])
  have okt: "dir_ok t pd" and pgt: "v < 1048576 \<Longrightarrow> pgmap t pd v = pgmap s pd v" for v
    using dir_keeps(1,2) [OF ok k0] by simp_all
  have "i < 1024 \<Longrightarrow> mem t (entry pd i) = mem s (entry pd i)" for i
    using keeps_table(1) [OF k0 dir_ok_dir(1) [OF ok] dir_ok_dir(2) [OF ok]] by simp
  then have dpt: "dir_pages t pd = dir_pages s pd" by (rule dir_pages_cong)
  note c1 = card_take_page [OF o(4,3)]
  have "has_table t pd (PD_INDEX va) = has_table s pd (PD_INDEX va)"
    using dir_keeps(3) [OF ok k0] PD_INDEX_bound by simp
  then have ft: "has_table t pd (PD_INDEX va) \<or> free_set (frames t) \<noteq> {}" using c1 two by auto
  obtain r where m: "map_page pd va phys fl t = (r, u)" by (metis prod.collapse u_def)
  note mp = map_page_ok [OF okt o(5) m ft]
  obtain N where N: "N \<subseteq> free_set (frames t)" "card N \<le> 1" "free_set (frames u) = free_set (frames t) - N"
    "dir_pages u pd = dir_pages t pd \<union> N" using map_page_pages [OF okt o(5) m] by blast
  show "aligned phys" "pfn phys \<in> free_set (frames s)" by (rule o(2), rule o(3))
  have nf: "pfn phys \<notin> free_set (frames t)" using o(4) by simp
  then show "pfn phys \<notin> free_set (frames u)" using N(3) by simp
  show "dir_ok u pd" "pmm_inv (frames u)" by (rule mp(2), rule mp(3))
  show "free_set (frames u) \<subseteq> free_set (frames s)" using N(3) o(4) by auto
  have "card (free_set (frames t)) \<le> card (free_set (frames u)) + 1"
    using card_Diff_subset [of N "free_set (frames t)"] N card_mono [OF _ N(1)] finite_subset [OF N(1)] by simp
  with c1 show "card (free_set (frames s)) \<le> card (free_set (frames u)) + 2" by simp
  have dp: "pfn q \<notin> free_set (frames s)" if "pfn q \<in> dir_pages s pd" for q
    using that ok dir_ok_table(2) [OF ok] by (auto simp: dir_pages_def dir_ok_dir)
  have np: "pfn phys \<notin> dir_pages s pd" using dp o(3) by blast
  have X: "insert (pfn pd) (if has_table t pd (PD_INDEX va) then {pfn (table t pd (PD_INDEX va))} else {}) \<subseteq> dir_pages t pd"
    using PD_INDEX_bound [of va] by (auto simp: dir_pages_def)
  have ku: "keeps t u (dir_pages s pd)" using keeps_mono [OF mp(5) X] by (simp add: dpt)
  show "keeps s u (dir_pages s pd)" by (rule keeps_trans [OF keeps_mono [OF k0] ku]) auto
  have "zeroed t phys" using o(2,6) by (simp add: zeroed_def pfn_entry)
  then show "zeroed u phys" by (rule zeroed_keeps [OF _ ku o(2) nf np])
  show "dir_pages u pd \<subseteq> dir_pages s pd \<union> free_set (frames s)" using N dpt o(4) by auto
  show "pfn phys \<notin> dir_pages u pd" using N(1,4) dpt np nf by auto
  have "phys AND PAGE_MASK = phys" using PTE_ADDR_or [OF o(2), of 0] by (simp add: PTE_ADDR_def)
  then show "pgmap u pd v = (if v = vpn va then Some (phys OR pte_flags fl) else pgmap s pd v)" if "v < 1048576"
    using mp(4) [OF that] pgt [OF that] by simp
qed

text \<open>
  \<open>fresh_map s s' pd fl V\<close>: between \<open>s\<close> and \<open>s'\<close> every page of \<open>V\<close> was mapped with flags \<open>fl\<close> to a zeroed
  frame of its own that was free, the other pages kept their entries, and no page in use was
  touched but those of the directory.
\<close>

definition fresh_map :: "vmm \<Rightarrow> vmm \<Rightarrow> uptr \<Rightarrow> u32 \<Rightarrow> nat set \<Rightarrow> bool" where
  "fresh_map s s' pd fl V \<longleftrightarrow>
     (\<exists>fr. inj_on fr V \<and>
        (\<forall>v\<in>V. pgmap s' pd v = Some (fr v OR pte_flags fl) \<and> aligned (fr v) \<and> zeroed s' (fr v) \<and>
           pfn (fr v) \<in> free_set (frames s) \<and> pfn (fr v) \<notin> free_set (frames s') \<and> pfn (fr v) \<notin> dir_pages s' pd)) \<and>
     (\<forall>v<1048576. v \<notin> V \<longrightarrow> pgmap s' pd v = pgmap s pd v) \<and>
     keeps s s' (dir_pages s pd) \<and> dir_pages s' pd \<subseteq> dir_pages s pd \<union> free_set (frames s)"

lemma fresh_map_insert:
  assumes h: "aligned f" "pfn f \<in> free_set (frames s)" "pfn f \<notin> free_set (frames u)" "zeroed u f" "pfn f \<notin> dir_pages u pd"
    "free_set (frames u) \<subseteq> free_set (frames s)" "keeps s u (dir_pages s pd)" "dir_pages u pd \<subseteq> dir_pages s pd \<union> free_set (frames s)"
    and pg: "\<And>w. w < 1048576 \<Longrightarrow> pgmap u pd w = (if w = v then Some (f OR pte_flags fl) else pgmap s pd w)"
    and rest: "fresh_map u s' pd fl V" and v: "v \<notin> V" "v < 1048576"
  shows "fresh_map s s' pd fl (insert v V)"
proof -
  from rest obtain fr where fr: "inj_on fr V" "\<And>w. w \<in> V \<Longrightarrow> pgmap s' pd w = Some (fr w OR pte_flags fl) \<and> aligned (fr w) \<and>
      zeroed s' (fr w) \<and> pfn (fr w) \<in> free_set (frames u) \<and> pfn (fr w) \<notin> free_set (frames s') \<and> pfn (fr w) \<notin> dir_pages s' pd"
    and same: "\<And>w. w < 1048576 \<Longrightarrow> w \<notin> V \<Longrightarrow> pgmap s' pd w = pgmap u pd w"
    and k: "keeps u s' (dir_pages u pd)" and dp: "dir_pages s' pd \<subseteq> dir_pages u pd \<union> free_set (frames u)"
    unfolding fresh_map_def by blast
  let ?fr = "fr(v := f)"
  have "fr w \<noteq> f" if "w \<in> V" for w using fr(2) [OF that] h(3) by auto
  then have inj: "inj_on ?fr (insert v V)" using fr(1) v(1) by (auto simp: inj_on_def)
  have sub: "free_set (frames s') \<subseteq> free_set (frames u)" using k by (simp add: keeps_def)
  have "zeroed s' f" by (rule zeroed_keeps [OF h(4) k h(1,3,5)])
  moreover have "pgmap s' pd v = Some (f OR pte_flags fl)" using same [OF v(2,1)] pg [OF v(2)] by simp
  moreover have "pfn f \<notin> free_set (frames s')" "pfn f \<notin> dir_pages s' pd" using sub dp h(3,5) by auto
  ultimately have "\<forall>w\<in>insert v V. pgmap s' pd w = Some (?fr w OR pte_flags fl) \<and> aligned (?fr w) \<and> zeroed s' (?fr w) \<and>
      pfn (?fr w) \<in> free_set (frames s) \<and> pfn (?fr w) \<notin> free_set (frames s') \<and> pfn (?fr w) \<notin> dir_pages s' pd"
    using fr(2) h(1,2,6) v(1) by auto
  moreover have "keeps s s' (dir_pages s pd)" by (rule keeps_trans [OF h(7) k h(8)])
  moreover have "dir_pages s' pd \<subseteq> dir_pages s pd \<union> free_set (frames s)" using dp h(6,8) by blast
  moreover have "pgmap s' pd w = pgmap s pd w" if "w < 1048576" "w \<notin> insert v V" for w
    using same [OF that(1)] pg [OF that(1)] that(2) by simp
  ultimately show ?thesis unfolding fresh_map_def using inj by blast
qed

lemma mmap_pages_fresh:
  assumes "dir_ok s pd" and "pmm_inv (frames s)" and "distinct (map pfn ps)" and "2 * length ps \<le> card (free_set (frames s))"
    and "mmap_pages pd flags ps s = (ok, s')"
  shows "ok \<and> dir_ok s' pd \<and> pmm_inv (frames s') \<and> fresh_map s s' pd (mmap_flags flags) (pfn ` set ps)"
  using assms
proof (induction ps arbitrary: s)
  case Nil
  then show ?case by (simp add: fresh_map_def)
next
  case (Cons p ps)
  obtain phys t where a: "pmm_alloc_zero s = (phys, t)" by fastforce
  let ?u = "snd (map_page pd p phys (mmap_flags flags) t)"
  have two: "2 \<le> card (free_set (frames s))" using Cons.prems(4) by simp
  note st = mmap_page_step(1-3) [OF Cons.prems(1,2) disjI2 [OF two] a]
    mmap_page_step(4-13) [OF Cons.prems(1,2) disjI2 [OF two] a, where va = p and fl = "mmap_flags flags"]
  have m: "mmap_pages pd flags ps ?u = (ok, s')" using Cons.prems(5) a st(1) by simp
  have "2 * length ps \<le> card (free_set (frames ?u))" using st(9) Cons.prems(4) by simp
  from Cons.IH [OF st(6,7) _ this m] Cons.prems(3)
  have IH: "ok" "dir_ok s' pd" "pmm_inv (frames s')" "fresh_map ?u s' pd (mmap_flags flags) (pfn ` set ps)" by auto
  have "fresh_map s s' pd (mmap_flags flags) (insert (pfn p) (pfn ` set ps))"
    by (rule fresh_map_insert [OF st(2-5,13,8,11,12,10) IH(4)]) (use Cons.prems(3) vpn_bound in auto)
  with IH show ?case by simp
qed

lemma range_pages:
  assumes "aligned addr" and "unat len \<le> 4294963200" and "unat addr + (unat len + 4095) div 4096 * 4096 < 4294967296"
  defines "n \<equiv> (unat len + 4095) div 4096"
  shows "pfn ` set (page_steps addr (addr + ALIGN_UP len PAGE_SIZE)) = {pfn addr..<pfn addr + n}"
    and "distinct (map pfn (page_steps addr (addr + ALIGN_UP len PAGE_SIZE)))"
    and "length (page_steps addr (addr + ALIGN_UP len PAGE_SIZE)) = n"
proof -
  have l: "unat (ALIGN_UP len PAGE_SIZE) = n * 4096"
    using assms(2) unat_ALIGN_UP_page [of len] by (simp add: n_def)
  have e: "unat (addr + ALIGN_UP len PAGE_SIZE) = unat addr + n * 4096"
    using assms(3) l by (subst unat_add_nowrap) (simp_all add: n_def)
  have al: "aligned (addr + ALIGN_UP len PAGE_SIZE)" using assms(1) e by simp
  have d: "(unat addr + n * 4096) div 4096 = pfn addr + n" using assms(1) by simp
  show p: "pfn ` set (page_steps addr (addr + ALIGN_UP len PAGE_SIZE)) = {pfn addr..<pfn addr + n}"
    and q: "distinct (map pfn (page_steps addr (addr + ALIGN_UP len PAGE_SIZE)))"
    using page_steps_pages(1,3) [OF assms(1) al] by (simp_all add: e d)
  show "length (page_steps addr (addr + ALIGN_UP len PAGE_SIZE)) = n"
    using distinct_card [OF q] p by simp
qed

section \<open>Areas and the cache they come from\<close>

text \<open>The areas of an address space are objects in use of the area cache.\<close>

definition areas_ok :: "mmem \<Rightarrow> uptr \<Rightarrow> uptr list \<Rightarrow> uptr set \<Rightarrow> (uptr \<Rightarrow> slab_kind \<Rightarrow> uptr list) \<Rightarrow> bool" where
  "areas_ok s m vs C L \<longleftrightarrow>
     slab_inv (sl s) C L \<and> vma_cache s \<in> C \<and> vmas s m vs \<and> 0 \<notin> set vs \<and>
     unat ` set vs \<subseteq> cache_objs (sl s) (vma_cache s) (L (vma_cache s))"

lemma vma_alloc_areas:
  assumes "areas_ok s m vs C L"
  shows "\<exists>v s' M. vma_alloc lo hi fl s = Some (v, s') \<and> vm s' = vm s \<and> mm_at s' = mm_at s \<and> vma_cache s' = vma_cache s \<and>
    areas_ok s' m vs C M \<and> (\<forall>w. w \<noteq> v \<longrightarrow> vma_at s' w = vma_at s w) \<and>
    (v = 0 \<longleftrightarrow> cache_full (sl s) (vma_cache s) (L (vma_cache s))) \<and>
    (v \<noteq> 0 \<longrightarrow> v \<notin> set vs \<and> vma_at s' v = \<lparr>vstart = lo, vend = hi, vflags = fl\<rparr> \<and>
      unat v \<in> cache_objs (sl s') (vma_cache s) (M (vma_cache s)))"
proof -
  have h: "slab_inv (sl s) C L" "vma_cache s \<in> C" "vmas s m vs" "0 \<notin> set vs"
    "unat ` set vs \<subseteq> cache_objs (sl s) (vma_cache s) (L (vma_cache s))" using assms by (simp_all add: areas_ok_def)
  from oc.alloc_new [OF h(1,2,5)] obtain v st M where a: "kmem_cache_alloc (vma_cache s) (sl s) = Some (v, st)"
    "slab_inv st C M" "unat ` set vs \<subseteq> cache_objs st (vma_cache s) (M (vma_cache s))"
    "v \<noteq> 0 \<longrightarrow> v \<notin> set vs \<and> unat v \<in> cache_objs st (vma_cache s) (M (vma_cache s))" by blast
  have full: "v = 0 \<longleftrightarrow> cache_full (sl s) (vma_cache s) (L (vma_cache s))"
    using kmem_cache_alloc_spec [OF h(1,2)] a(1) by (auto split: if_splits)
  have fr: "vmas (s\<lparr>sl := st, vma_at := g, vma_lists := list_init (VmaLink v) (vma_lists s)\<rparr>) m vs" if "v \<notin> set vs" for g
  proof -
    have "is_list (list_init (VmaLink v) (vma_lists s)) (VmaHead m) (map VmaLink vs) =
        is_list (vma_lists s) (VmaHead m) (map VmaLink vs)"
      using that by (intro is_list_cong) (auto simp: list_init_def)
    with h(3) show ?thesis by (simp add: vmas_def)
  qed
  show ?thesis
  proof (cases "v = 0")
    case True
    with a h full show ?thesis
      by (intro exI [of _ v] exI [of _ "s\<lparr>sl := st\<rparr>"] exI [of _ M])
         (simp add: vma_alloc_def cache_alloc_def areas_ok_def vmas_def)
  next
    case False
    with a h fr full show ?thesis
      by (intro exI [of _ v] exI [of _ "s\<lparr>sl := st, vma_at := (vma_at s)(v := \<lparr>vstart = lo, vend = hi, vflags = fl\<rparr>),
          vma_lists := list_init (VmaLink v) (vma_lists s)\<rparr>"] exI [of _ M])
         (simp add: vma_alloc_def cache_alloc_def areas_ok_def)
  qed
qed

lemma vmas_add_tail: "vmas s m vs \<Longrightarrow> v \<notin> set vs \<Longrightarrow>
    vmas (s\<lparr>vma_lists := list_add_tail (VmaLink v) (VmaHead m) (vma_lists s)\<rparr>) m (vs @ [v])"
  unfolding vmas_def using kl.rep_add_tail [of "vma_lists s" "VmaHead m" "map VmaLink vs" "VmaLink v"] by auto

lemma mm_mmap_spec:
  assumes ar: "areas_ok s m vs C L" and ok: "dir_ok (vm s) (pgdir (mm_at s m))" and inv: "pmm_inv (frames (vm s))"
    and al: "aligned addr" "unat len \<le> 4294963200" "unat addr + (unat len + 4095) div 4096 * 4096 < 4294967296"
    and room: "2 * ((unat len + 4095) div 4096) \<le> card (free_set (frames (vm s)))"
  defines "pd \<equiv> pgdir (mm_at s m)" and "n \<equiv> (unat len + 4095) div 4096"
  shows "\<exists>r s' M. mm_mmap m addr len flags s = Some (r, s') \<and> dir_ok (vm s') pd \<and> pmm_inv (frames (vm s')) \<and>
    fresh_map (vm s) (vm s') pd (mmap_flags flags) {pfn addr..<pfn addr + n} \<and>
    (if cache_full (sl s) (vma_cache s) (L (vma_cache s)) then r = Some ENOMEM \<and> areas_ok s' m vs C M
     else r = None \<and> (\<exists>v. v \<notin> set vs \<and> areas_ok s' m (vs @ [v]) C M \<and>
       vma_at s' v = \<lparr>vstart = addr, vend = addr + ALIGN_UP len PAGE_SIZE, vflags = flags\<rparr> \<and>
       (\<forall>w\<in>set vs. vma_at s' w = vma_at s w)))"
proof -
  let ?ps = "page_steps addr (addr + ALIGN_UP len PAGE_SIZE)"
  obtain okb v where mp: "mmap_pages pd flags ?ps (vm s) = (okb, v)" by fastforce
  note rp = range_pages [OF al, folded n_def]
  have "2 * length ?ps \<le> card (free_set (frames (vm s)))" using room rp(3) by (simp add: n_def)
  from mmap_pages_fresh [OF ok inv rp(2) this mp [unfolded pd_def]]
  have f: "okb" "dir_ok v pd" "pmm_inv (frames v)" "fresh_map (vm s) v pd (mmap_flags flags) {pfn addr..<pfn addr + n}"
    unfolding rp(1) pd_def by simp_all
  have "areas_ok (s\<lparr>vm := v\<rparr>) m vs C L" using ar by (simp add: areas_ok_def vmas_def)
  from vma_alloc_areas [OF this, of addr "addr + ALIGN_UP len PAGE_SIZE" flags] obtain a t M where
    t0: "vma_alloc addr (addr + ALIGN_UP len PAGE_SIZE) flags (s\<lparr>vm := v\<rparr>) = Some (a, t)" "vm t = vm (s\<lparr>vm := v\<rparr>)"
    "vma_cache t = vma_cache (s\<lparr>vm := v\<rparr>)" "areas_ok t m vs C M" "\<forall>w. w \<noteq> a \<longrightarrow> vma_at t w = vma_at (s\<lparr>vm := v\<rparr>) w"
    "a = 0 \<longleftrightarrow> cache_full (sl (s\<lparr>vm := v\<rparr>)) (vma_cache (s\<lparr>vm := v\<rparr>)) (L (vma_cache (s\<lparr>vm := v\<rparr>)))"
    "a \<noteq> 0 \<longrightarrow> a \<notin> set vs \<and> vma_at t a = \<lparr>vstart = addr, vend = addr + ALIGN_UP len PAGE_SIZE, vflags = flags\<rparr> \<and>
      unat a \<in> cache_objs (sl t) (vma_cache (s\<lparr>vm := v\<rparr>)) (M (vma_cache (s\<lparr>vm := v\<rparr>)))" by (elim exE conjE)
  have t: "vm t = v" "\<And>w. w \<noteq> a \<Longrightarrow> vma_at t w = vma_at s w" using t0(2,5) by simp_all
  have full: "cache_full (sl s) (vma_cache s) (L (vma_cache s)) \<longleftrightarrow> a = 0" using t0(6) by simp
  show ?thesis
  proof (cases "a = 0")
    case True
    then have "mm_mmap m addr len flags s = Some (Some ENOMEM, t)"
      using mp f(1) t0(1) by (simp add: mm_mmap_def Let_def pd_def)
    with f t(1) t0(4) True show ?thesis unfolding full by auto
  next
    case False
    let ?u = "upd_mm m (\<lambda>x. x\<lparr>map_count := map_count x + 1\<rparr>)
      (t\<lparr>vma_lists := list_add_tail (VmaLink a) (VmaHead m) (vma_lists t)\<rparr>)"
    have e: "mm_mmap m addr len flags s = Some (None, ?u)"
      using mp f(1) t0(1) False by (simp add: mm_mmap_def Let_def pd_def)
    have a: "a \<notin> set vs" "vma_at t a = \<lparr>vstart = addr, vend = addr + ALIGN_UP len PAGE_SIZE, vflags = flags\<rparr>"
      "unat a \<in> cache_objs (sl t) (vma_cache t) (M (vma_cache t))" using t0(3,7) False by simp_all
    have u: "vma_at ?u = vma_at t" "vm ?u = v" "sl ?u = sl t" "vma_cache ?u = vma_cache t"
      "vmas ?u m (vs @ [a])" using t(1) t0(4) vmas_add_tail [of t m vs a] a(1) by (simp_all add: upd_mm_def vmas_def areas_ok_def)
    then have "areas_ok ?u m (vs @ [a]) C M" using t0(4) a(3) False by (simp add: areas_ok_def)
    moreover have "\<forall>w\<in>set vs. vma_at ?u w = vma_at s w" using t(2) a(1) u(1) by metis
    ultimately show ?thesis unfolding e full using f a u(1,2) False by (intro exI [of _ None] exI [of _ ?u] exI [of _ M]) auto
  qed
qed

section \<open>Unmapping a range\<close>

lemma free_page_dir:
  assumes "dir_ok s pd" and "pfn f \<notin> dir_pages s pd"
  shows "dir_ok (free_page f s) pd"
proof -
  have e: "has_table (free_page f s) pd i = has_table s pd i" "table (free_page f s) pd i = table s pd i" for i
    by (simp_all add: has_table_def table_def)
  have n: "pfn pd \<noteq> pfn f" "\<And>i. i < 1024 \<Longrightarrow> has_table s pd i \<Longrightarrow> pfn (table s pd i) \<noteq> pfn f"
    using assms(2) by (auto simp: dir_pages_def)
  show ?thesis using assms(1) n unfolding dir_ok_def e free_page_set by auto
qed

lemma unmap_page_dir_pages: "dir_ok s pd \<Longrightarrow> dir_pages (unmap_page pd va s) pd = dir_pages s pd"
proof -
  assume ok: "dir_ok s pd"
  have i: "PD_INDEX va < 1024" "PT_INDEX va < 1024" using PD_INDEX_bound PT_INDEX_bound by simp_all
  show ?thesis
  proof (cases "has_table s pd (PD_INDEX va) \<and> mem s (entry (table s pd (PD_INDEX va)) (PT_INDEX va)) AND PTE_PRESENT \<noteq> 0")
    case True
    then have u: "unmap_page pd va s = mem_write (entry (table s pd (PD_INDEX va)) (PT_INDEX va)) 0 s"
      by (simp add: unmap_page_def get_pte_lookup)
    show ?thesis unfolding u using table_write(3) [OF ok i(1) conjunct1 [OF True] i(2), where x = 0] by (rule dir_pages_cong)
  next
    case False
    then show ?thesis by (auto simp: unmap_page_def get_pte_lookup)
  qed
qed

lemma munmap_page_spec:
  assumes ok: "dir_ok s pd" and inv: "pmm_inv (frames s)"
    and sep: "\<forall>pte. pgmap s pd (vpn p) = Some pte \<longrightarrow> pfn (PTE_ADDR pte) \<notin> dir_pages s pd"
  shows "dir_ok (munmap_page pd p s) pd" and "pmm_inv (frames (munmap_page pd p s))"
    and "v < 1048576 \<Longrightarrow> pgmap (munmap_page pd p s) pd v = (if v = vpn p then None else pgmap s pd v)"
    and "dir_pages (munmap_page pd p s) pd = dir_pages s pd"
    and "free_set (frames (munmap_page pd p s)) = free_set (frames s) \<union>
      (case pgmap s pd (vpn p) of None \<Rightarrow> {} | Some pte \<Rightarrow> pfn ` ({PTE_ADDR pte} \<inter> Collect freeable))"
proof -
  define t where "t = (if virt_to_phys_pd pd p s \<noteq> 0 then free_page (virt_to_phys_pd pd p s AND PAGE_MASK) s else s)"
  have u: "munmap_page pd p s = unmap_page pd p t" by (simp add: munmap_page_def t_def Let_def)
  have t: "dir_ok t pd \<and> pmm_inv (frames t) \<and> mem t = mem s \<and>
    free_set (frames t) = free_set (frames s) \<union>
      (case pgmap s pd (vpn p) of None \<Rightarrow> {} | Some pte \<Rightarrow> pfn ` ({PTE_ADDR pte} \<inter> Collect freeable))"
  proof (cases "pgmap s pd (vpn p)")
    case None
    then have "virt_to_phys_pd pd p s = 0" by (simp add: virt_to_phys_pd_pgmap)
    with None ok inv show ?thesis by (simp add: t_def)
  next
    case (Some pte)
    then have v: "virt_to_phys_pd pd p s = PTE_ADDR pte OR (p AND (PAGE_SIZE - 1))" by (simp add: virt_to_phys_pd_pgmap)
    have a: "virt_to_phys_pd pd p s AND PAGE_MASK = PTE_ADDR pte"
      unfolding v PTE_ADDR_def [symmetric, of "PTE_ADDR pte OR _"] by (rule PTE_ADDR_or [OF PTE_ADDR_aligned low_bits_less])
    show ?thesis
    proof (cases "virt_to_phys_pd pd p s = 0")
      case True
      with a have "PTE_ADDR pte = 0" by simp
      then have "\<not> freeable (PTE_ADDR pte)" by (simp add: freeable_def)
      with True Some ok inv show ?thesis by (simp add: t_def)
    next
      case False
      then have e: "t = free_page (PTE_ADDR pte) s" by (simp add: t_def a)
      show ?thesis unfolding e using Some sep free_page_dir [OF ok] free_page_inv [OF inv] by (simp add: free_page_set)
    qed
  qed
  then have ok': "dir_ok t pd" and m: "mem t = mem s" by simp_all
  have pg: "pgmap t pd w = pgmap s pd w" for w using m by (simp add: pgmap_def has_table_def table_def)
  have dp: "dir_pages t pd = dir_pages s pd" using m by (intro dir_pages_cong) simp
  note us = unmap_page_spec [OF ok', where va = p]
  show "dir_ok (munmap_page pd p s) pd" "pmm_inv (frames (munmap_page pd p s))"
    "dir_pages (munmap_page pd p s) pd = dir_pages s pd"
    "free_set (frames (munmap_page pd p s)) = free_set (frames s) \<union>
      (case pgmap s pd (vpn p) of None \<Rightarrow> {} | Some pte \<Rightarrow> pfn ` ({PTE_ADDR pte} \<inter> Collect freeable))"
    using us(1,2) t dp unmap_page_dir_pages [OF ok'] unfolding u by simp_all
  show "v < 1048576 \<Longrightarrow> pgmap (munmap_page pd p s) pd v = (if v = vpn p then None else pgmap s pd v)"
    unfolding u using us(3) pg by simp
qed

lemma munmap_pages_spec:
  assumes "dir_ok s pd" and "pmm_inv (frames s)" and "distinct (map pfn ps)"
    and "\<forall>p\<in>set ps. \<forall>pte. pgmap s pd (vpn p) = Some pte \<longrightarrow> pfn (PTE_ADDR pte) \<notin> dir_pages s pd"
  shows "dir_ok (fold (munmap_page pd) ps s) pd \<and> pmm_inv (frames (fold (munmap_page pd) ps s)) \<and>
    (\<forall>v<1048576. pgmap (fold (munmap_page pd) ps s) pd v = (if v \<in> pfn ` set ps then None else pgmap s pd v)) \<and>
    free_set (frames (fold (munmap_page pd) ps s)) = free_set (frames s) \<union>
      pfn ` ({PTE_ADDR pte | pte p. p \<in> set ps \<and> pgmap s pd (vpn p) = Some pte} \<inter> Collect freeable)"
  using assms
proof (induction ps arbitrary: s)
  case (Cons p ps)
  let ?t = "munmap_page pd p s"
  have sp: "\<forall>pte. pgmap s pd (vpn p) = Some pte \<longrightarrow> pfn (PTE_ADDR pte) \<notin> dir_pages s pd" using Cons.prems(4) by simp
  note m = munmap_page_spec [OF Cons.prems(1,2) sp]
  have "vpn p \<notin> vpn ` set ps" using Cons.prems(3) by simp
  then have ne: "vpn q \<noteq> vpn p" if "q \<in> set ps" for q using imageI [OF that, of vpn] by metis
  have pg: "pgmap ?t pd (vpn q) = pgmap s pd (vpn q)" if "q \<in> set ps" for q
    using m(3) [OF vpn_bound] ne [OF that] by simp
  have sep: "\<forall>q\<in>set ps. \<forall>pte. pgmap ?t pd (vpn q) = Some pte \<longrightarrow> pfn (PTE_ADDR pte) \<notin> dir_pages ?t pd"
    using Cons.prems(4) pg m(4) by simp
  have "distinct (map pfn ps)" using Cons.prems(3) by simp
  note IH = Cons.IH [OF m(1,2) this sep]
  have fs: "{PTE_ADDR pte | pte q. q \<in> set ps \<and> pgmap ?t pd (vpn q) = Some pte} =
      {PTE_ADDR pte | pte q. q \<in> set ps \<and> pgmap s pd (vpn q) = Some pte}"
    using pg by (intro Collect_cong ex_cong1 conj_cong) auto
  have un: "{PTE_ADDR pte | pte q. q \<in> set (p # ps) \<and> pgmap s pd (vpn q) = Some pte} =
      (case pgmap s pd (vpn p) of None \<Rightarrow> {} | Some pte \<Rightarrow> {PTE_ADDR pte}) \<union>
      {PTE_ADDR pte | pte q. q \<in> set ps \<and> pgmap s pd (vpn q) = Some pte}"
    by (auto split: option.splits)
  show ?case
  proof (intro conjI allI impI)
    show "dir_ok (fold (munmap_page pd) (p # ps) s) pd" "pmm_inv (frames (fold (munmap_page pd) (p # ps) s))"
      using IH by simp_all
    fix v :: nat assume "v < 1048576"
    then show "pgmap (fold (munmap_page pd) (p # ps) s) pd v = (if v \<in> pfn ` set (p # ps) then None else pgmap s pd v)"
      using IH m(3) [of v] by auto
  next
    show "free_set (frames (fold (munmap_page pd) (p # ps) s)) = free_set (frames s) \<union>
      pfn ` ({PTE_ADDR pte | pte q. q \<in> set (p # ps) \<and> pgmap s pd (vpn q) = Some pte} \<inter> Collect freeable)"
      using IH [unfolded fs] unfolding un m(5) by (cases "pgmap s pd (vpn p)") (simp_all only: Int_Un_distrib2 image_Un Un_assoc
        fold_simps option.case Un_empty_left Int_empty_left image_empty)
  qed
qed simp

text \<open>The areas that \<^verbatim>\<open>mm_munmap\<close> keeps: those that do not meet the range.\<close>

definition apart :: "mmem \<Rightarrow> uptr \<Rightarrow> uptr \<Rightarrow> uptr \<Rightarrow> bool" where
  "apart s lo hi v \<longleftrightarrow> vend (vma_at s v) \<le> lo \<or> hi \<le> vstart (vma_at s v)"

lemma areas_ok_drop:
  assumes "areas_ok s m (xs @ v # ys) C L"
  shows "\<exists>s' M. cache_free (vma_cache s) v (s\<lparr>vma_lists := list_del (VmaLink v) (vma_lists s)\<rparr>) = Some s' \<and>
    areas_ok s' m (xs @ ys) C M \<and> vm s' = vm s \<and> mm_at s' = mm_at s \<and> vma_at s' = vma_at s"
proof -
  have h: "slab_inv (sl s) C L" "vma_cache s \<in> C" "vmas s m (xs @ v # ys)" "0 \<notin> set (xs @ v # ys)"
    "unat ` set (xs @ v # ys) \<subseteq> cache_objs (sl s) (vma_cache s) (L (vma_cache s))" using assms by (simp_all add: areas_ok_def)
  have l: "is_list (list_del (VmaLink v) (vma_lists s)) (VmaHead m) (map VmaLink (xs @ ys))"
    using kl.rep_del [of "vma_lists s" "VmaHead m" "map VmaLink xs" "VmaLink v" "map VmaLink ys"] h(3) by (simp add: vmas_def)
  have d: "v \<notin> set (xs @ ys)" using h(3) by (auto simp: vmas_def is_list_def)
  have o: "unat ` set (v # (xs @ ys)) \<subseteq> cache_objs (sl s) (vma_cache s) (L (vma_cache s))" using h(5) by auto
  from oc.release_one [OF h(1,2) o d] obtain st M where f: "kmem_cache_free (vma_cache s) v (sl s) = Some st"
    "slab_inv st C M" "unat ` set (xs @ ys) \<subseteq> cache_objs st (vma_cache s) (M (vma_cache s))" by blast
  show ?thesis
    by (intro exI [of _ "s\<lparr>vma_lists := list_del (VmaLink v) (vma_lists s), sl := st\<rparr>"] exI [of _ M])
       (use f l h in \<open>auto simp: cache_free_def areas_ok_def vmas_def\<close>)
qed

lemma munmap_vmas_walk:
  assumes "areas_ok s m (xs @ ys) C L"
  shows "\<exists>s' M. munmap_vmas m lo hi (hd (map VmaLink ys @ [VmaHead m])) s = Some s' \<and>
    areas_ok s' m (xs @ filter (apart s lo hi) ys) C M \<and> vm s' = vm s \<and> vma_at s' = vma_at s \<and>
    pgdir (mm_at s' m) = pgdir (mm_at s m)"
  using assms
proof (induction ys arbitrary: s xs L)
  case Nil
  then show ?case by (auto simp: munmap_vmas.simps)
next
  case (Cons v ys)
  have n: "lnext (vma_lists s) (VmaLink v) = hd (map VmaLink ys @ [VmaHead m])"
    using Cons.prems by (intro dseg_first) (simp add: areas_ok_def vmas_def is_list_def dseg_append)
  show ?case
  proof (cases "apart s lo hi v")
    case True
    then have "munmap_vmas m lo hi (VmaLink v) s = munmap_vmas m lo hi (hd (map VmaLink ys @ [VmaHead m])) s"
      by (subst munmap_vmas.simps) (simp add: n apart_def)
    with True Cons.IH [of s "xs @ [v]" L] Cons.prems show ?thesis by simp
  next
    case False
    from areas_ok_drop [OF Cons.prems] obtain t M where
      t: "cache_free (vma_cache s) v (s\<lparr>vma_lists := list_del (VmaLink v) (vma_lists s)\<rparr>) = Some t"
      "areas_ok t m (xs @ ys) C M" "vm t = vm s" "mm_at t = mm_at s" "vma_at t = vma_at s" by blast
    let ?u = "upd_mm m (\<lambda>x. x\<lparr>map_count := map_count x - 1\<rparr>) t"
    have e: "munmap_vmas m lo hi (VmaLink v) s = munmap_vmas m lo hi (hd (map VmaLink ys @ [VmaHead m])) ?u"
      using False t(1) by (subst munmap_vmas.simps) (simp add: n apart_def Let_def)
    have u: "areas_ok ?u m (xs @ ys) C M" using t(2) by (simp add: areas_ok_def vmas_def upd_mm_def)
    have ap: "apart ?u lo hi = apart s lo hi" using t(5) by (simp add: fun_eq_iff apart_def upd_mm_def)
    show ?thesis using Cons.IH [OF u] False t by (simp add: e ap) (simp add: upd_mm_def)
  qed
qed

section \<open>A concrete address space\<close>

lemma cache_obj_low:
  assumes inv: "slab_inv st C L" and c: "c \<in> C" "x \<in> cache_objs st c (L c)"
  shows "0xD0000010 \<le> x"
proof -
  note h = slab_inv_heap [OF inv] and cok = slab_inv_cache [OF inv c(1)]
  from c(2) obtain s where s: "s \<in> all_slabs (L c)" "x \<in> slab_objs (caches st c) (slab_hdrs st s) s"
    by (auto simp: cache_objs_def)
  note ws = cache_ok_slab [OF cok s(1)]
  from ws obtain n where "(unat s, n) \<in> live (kheap_of st)" by (auto simp: slab_wf_def)
  from live_bounds [OF h this] slab_objs_range [OF s(2)] show ?thesis by simp
qed

definition mm_example :: "slabs \<Rightarrow> uptr \<Rightarrow> uptr \<Rightarrow> mmem" where
  "mm_example st c v =
     \<lparr>vm = vmm_example, sl = st, mm_cache = 0, vma_cache = c, mm_at = (\<lambda>_. mm_zero\<lparr>pgdir := 0x11000\<rparr>),
      vma_at = (\<lambda>_. \<lparr>vstart = 0x3000, vend = 0x5000, vflags = VM_READ OR VM_WRITE\<rparr>),
      vma_lists = list_add_tail (VmaLink v) (VmaHead 1) (list_init (VmaHead 1) \<lparr>lnext = id, lprev = id\<rparr>)\<rparr>"

lemma mm_example_simps [simp]:
  "vm (mm_example st c v) = vmm_example" "pgdir (mm_at (mm_example st c v) m) = 0x11000"
  "vma_at (mm_example st c v) w = \<lparr>vstart = 0x3000, vend = 0x5000, vflags = VM_READ OR VM_WRITE\<rparr>"
  by (simp_all add: mm_example_def mm_zero_def)

lemma mm_example_areas:
  "\<exists>st c v L. v \<noteq> 0 \<and> areas_ok (mm_example st c v) 1 [v] {c} L \<and> \<not> cache_full st c (L c)"
proof -
  from slab_boot_object obtain c v st L where inv: "slab_inv st {c} L"
    and o: "cache_objs st c (L c) = {unat (v :: uptr)}" and nf: "\<not> cache_full st c (L c)" by blast
  have "0xD0000010 \<le> unat v" by (rule cache_obj_low [OF inv]) (use o in auto)
  then have "v \<noteq> 0" by auto
  moreover have "vmas (mm_example st c v) 1 [v]"
    by (simp add: vmas_def mm_example_def is_list_def list_add_tail_def list_add_between_def list_init_def)
  ultimately have "areas_ok (mm_example st c v) 1 [v] {c} L" using inv o by (simp add: areas_ok_def mm_example_def)
  with \<open>v \<noteq> 0\<close> nf show ?thesis by blast
qed

section \<open>Properties\<close>

text \<open>
  C22: Mapping a range of user memory.  When two frames per page are free, \<^verbatim>\<open>mm_mmap\<close> returns with every
  page of the rounded range mapped, with the requested rights, to a zeroed frame of its own taken
  from the free ones, every other page mapped as before, and no page of memory in use touched but
  those of the directory.  It returns 0 with an area for the range appended to the list of areas, unless the
  area cache has no free object and the heap no room for a new slab: then it returns \<^verbatim>\<open>ENOMEM\<close>, the pages mapped all the
  same and the list unchanged.
\<close>

theorem mm_mmap_maps_range:
  assumes "areas_ok s m vs C L" and "dir_ok (vm s) (pgdir (mm_at s m))" and "pmm_inv (frames (vm s))"
    and "aligned addr" and "unat len \<le> 4294963200" and "unat addr + (unat len + 4095) div 4096 * 4096 < 4294967296"
    and "2 * ((unat len + 4095) div 4096) \<le> card (free_set (frames (vm s)))"
  shows "\<exists>r s' M. mm_mmap m addr len flags s = Some (r, s') \<and>
    dir_ok (vm s') (pgdir (mm_at s m)) \<and> pmm_inv (frames (vm s')) \<and>
    fresh_map (vm s) (vm s') (pgdir (mm_at s m)) (mmap_flags flags) {pfn addr..<pfn addr + (unat len + 4095) div 4096} \<and>
    (if cache_full (sl s) (vma_cache s) (L (vma_cache s)) then r = Some ENOMEM \<and> areas_ok s' m vs C M
     else r = None \<and> (\<exists>v. v \<notin> set vs \<and> areas_ok s' m (vs @ [v]) C M \<and>
       vma_at s' v = \<lparr>vstart = addr, vend = addr + ALIGN_UP len PAGE_SIZE, vflags = flags\<rparr> \<and>
       (\<forall>w\<in>set vs. vma_at s' w = vma_at s w)))"
  by (rule mm_mmap_spec [OF assms])

theorem mm_mmap_maps_range_witness:
  "\<exists>st c v s' fr w M. mm_mmap 1 0x6000 100 VM_READ (mm_example st c v) = Some (None, s') \<and>
     pgmap (vm s') 0x11000 6 = Some (fr OR pte_flags (mmap_flags VM_READ)) \<and> pgmap (vm s') 0x11000 3 = Some 0x13007 \<and>
     areas_ok s' 1 [v, w] {c} M \<and> vstart (vma_at s' w) = 0x6000"
proof -
  from mm_example_areas obtain st c v L where a: "areas_ok (mm_example st c v) 1 [v] {c} L"
    and nf: "\<not> cache_full st c (L c)" by blast
  have h: "dir_ok (vm (mm_example st c v)) (pgdir (mm_at (mm_example st c v) 1))" "pmm_inv (frames (vm (mm_example st c v)))"
    "aligned (0x6000 :: uptr)" "unat (100 :: u32) \<le> 4294963200"
    "unat (0x6000 :: uptr) + (unat (100 :: u32) + 4095) div 4096 * 4096 < 4294967296"
    "2 * ((unat (100 :: u32) + 4095) div 4096) \<le> card (free_set (frames (vm (mm_example st c v))))"
    by (simp_all add: vmm_example_dir pmm_example_inv pmm_example_free)
  have "\<not> cache_full (sl (mm_example st c v)) (vma_cache (mm_example st c v)) (L (vma_cache (mm_example st c v)))"
    using nf by (simp add: mm_example_def)
  with mm_mmap_maps_range [OF a h, of VM_READ] obtain s' M w where
    m: "mm_mmap 1 0x6000 100 VM_READ (mm_example st c v) = Some (None, s')" "areas_ok s' 1 [v, w] {c} M" "vstart (vma_at s' w) = 0x6000"
    and f: "fresh_map vmm_example (vm s') 0x11000 (mmap_flags VM_READ) {6..<7}" by auto
  from f obtain fr where "pgmap (vm s') 0x11000 6 = Some (fr OR pte_flags (mmap_flags VM_READ))"
    unfolding fresh_map_def by (auto dest: bspec [of _ _ 6])
  moreover have "pgmap (vm s') 0x11000 3 = Some 0x13007" using f by (simp add: fresh_map_def vmm_example_pgmap)
  ultimately show ?thesis using m by blast
qed

text \<open>
  C23: Unmapping a range.  When no page of the range is mapped to a frame of the directory itself,
  \<^verbatim>\<open>mm_munmap\<close> returns with no page of the rounded range mapped, every other page mapped as before, the
  frames of the range free again, and an area list that holds exactly the areas that do not meet
  the range: an area that reaches over an end of the range is dropped whole.
\<close>

theorem mm_munmap_unmaps_range:
  assumes "areas_ok s m vs C L" and "dir_ok (vm s) (pgdir (mm_at s m))" and "pmm_inv (frames (vm s))"
    and "aligned addr" and "unat len \<le> 4294963200" and "unat addr + (unat len + 4095) div 4096 * 4096 < 4294967296"
    and "\<And>v pte. v \<in> {pfn addr..<pfn addr + (unat len + 4095) div 4096} \<Longrightarrow>
      pgmap (vm s) (pgdir (mm_at s m)) v = Some pte \<Longrightarrow> pfn (PTE_ADDR pte) \<notin> dir_pages (vm s) (pgdir (mm_at s m))"
  shows "\<exists>s' M. mm_munmap m addr len s = Some s' \<and>
    dir_ok (vm s') (pgdir (mm_at s m)) \<and> pmm_inv (frames (vm s')) \<and>
    (\<forall>v<1048576. pgmap (vm s') (pgdir (mm_at s m)) v =
      (if v \<in> {pfn addr..<pfn addr + (unat len + 4095) div 4096} then None else pgmap (vm s) (pgdir (mm_at s m)) v)) \<and>
    free_set (frames (vm s)) \<subseteq> free_set (frames (vm s')) \<and>
    (\<forall>v pte. v \<in> {pfn addr..<pfn addr + (unat len + 4095) div 4096} \<and> pgmap (vm s) (pgdir (mm_at s m)) v = Some pte \<and>
      freeable (PTE_ADDR pte) \<longrightarrow> pfn (PTE_ADDR pte) \<in> free_set (frames (vm s'))) \<and>
    areas_ok s' m (filter (apart s addr (addr + ALIGN_UP len PAGE_SIZE)) vs) C M \<and> vma_at s' = vma_at s"
proof -
  let ?pd = "pgdir (mm_at s m)" and ?ps = "page_steps addr (addr + ALIGN_UP len PAGE_SIZE)"
  let ?V = "{pfn addr..<pfn addr + (unat len + 4095) div 4096}"
  let ?v = "fold (munmap_page ?pd) ?ps (vm s)"
  note rp = range_pages [OF assms(4-6)]
  have "pfn (PTE_ADDR pte) \<notin> dir_pages (vm s) ?pd" if "p \<in> set ?ps" "pgmap (vm s) ?pd (vpn p) = Some pte" for p pte
    by (rule assms(7) [OF _ that(2)]) (use that(1) rp(1) in blast)
  then have sep: "\<forall>p\<in>set ?ps. \<forall>pte. pgmap (vm s) ?pd (vpn p) = Some pte \<longrightarrow> pfn (PTE_ADDR pte) \<notin> dir_pages (vm s) ?pd"
    by blast
  note mp = munmap_pages_spec [OF assms(2,3) rp(2) sep, unfolded rp(1)]
  have fr: "pfn (PTE_ADDR pte) \<in> free_set (frames ?v)"
    if v: "v \<in> ?V" "pgmap (vm s) ?pd v = Some pte" "freeable (PTE_ADDR pte)" for v pte
  proof -
    have "v \<in> pfn ` set ?ps" unfolding rp(1) by (rule v(1))
    then obtain p where "v = vpn p" "p \<in> set ?ps" by (rule imageE)
    with v(2,3) have "PTE_ADDR pte \<in> {PTE_ADDR pte | pte p. p \<in> set ?ps \<and> pgmap (vm s) ?pd (vpn p) = Some pte} \<inter> Collect freeable"
      by blast
    from imageI [OF this, of pfn] mp show ?thesis by (simp only: Un_iff simp_thms)
  qed
  let ?t = "s\<lparr>vm := ?v\<rparr>"
  have "areas_ok ?t m ([] @ vs) C L" using assms(1) by (simp add: areas_ok_def vmas_def)
  from munmap_vmas_walk [OF this, of addr "addr + ALIGN_UP len PAGE_SIZE"] obtain s' M where
    w: "munmap_vmas m addr (addr + ALIGN_UP len PAGE_SIZE) (hd (map VmaLink vs @ [VmaHead m])) ?t = Some s'"
    "areas_ok s' m (filter (apart ?t addr (addr + ALIGN_UP len PAGE_SIZE)) vs) C M" "vm s' = ?v" "vma_at s' = vma_at s" by auto
  have hd: "lnext (vma_lists ?t) (VmaHead m) = hd (map VmaLink vs @ [VmaHead m])"
    using assms(1) is_list_ends(1) [of "vma_lists s" "VmaHead m" "map VmaLink vs"] by (simp add: areas_ok_def vmas_def)
  have e: "mm_munmap m addr len s = Some s'" unfolding mm_munmap_def Let_def hd by (rule w(1))
  have ap: "apart ?t addr (addr + ALIGN_UP len PAGE_SIZE) = apart s addr (addr + ALIGN_UP len PAGE_SIZE)"
    by (simp add: fun_eq_iff apart_def)
  from mp have sub: "free_set (frames (vm s)) \<subseteq> free_set (frames ?v)" by (simp only: Un_upper1)
  have fr': "\<forall>v pte. v \<in> ?V \<and> pgmap (vm s) ?pd v = Some pte \<and> freeable (PTE_ADDR pte) \<longrightarrow> pfn (PTE_ADDR pte) \<in> free_set (frames ?v)"
    by (intro allI impI, elim conjE) (rule fr)
  show ?thesis unfolding e
    by (rule exI [of _ s'], rule exI [of _ M], unfold w(3), intro conjI)
       (rule refl mp [THEN conjunct1] mp [THEN conjunct2, THEN conjunct1] mp [THEN conjunct2, THEN conjunct2, THEN conjunct1]
          sub fr' w(2) [unfolded ap] w(4))+
qed

theorem mm_munmap_unmaps_range_witness:
  "\<exists>st c v s'. mm_munmap 1 0x3000 4096 (mm_example st c v) = Some s' \<and> pgmap (vm s') 0x11000 3 = None \<and>
     19 \<in> free_set (frames (vm s')) \<and> vmas s' 1 []"
proof -
  from mm_example_areas obtain st c v L where a: "areas_ok (mm_example st c v) 1 [v] {c} L" by blast
  have h: "dir_ok (vm (mm_example st c v)) (pgdir (mm_at (mm_example st c v) 1))" "pmm_inv (frames (vm (mm_example st c v)))"
    "aligned (0x3000 :: uptr)" "unat (4096 :: u32) \<le> 4294963200"
    "unat (0x3000 :: uptr) + (unat (4096 :: u32) + 4095) div 4096 * 4096 < 4294967296"
    by (simp_all add: vmm_example_dir pmm_example_inv)
  have p: "PTE_ADDR 0x13007 = 0x13000" by (simp add: PTE_ADDR_def PAGE_MASK_def PAGE_SIZE_def)
  have "dir_pages vmm_example 0x11000 \<subseteq> {17, 18}" by (auto simp: dir_pages_def vmm_example_tables)
  then have d: "19 \<notin> dir_pages vmm_example 0x11000" by auto
  have "freeable 0x13000" by (simp add: freeable_def layout_defs)
  moreover have "\<not> apart (mm_example st c v) 0x3000 (0x3000 + ALIGN_UP 4096 PAGE_SIZE) v"
    by (simp add: apart_def ALIGN_UP_def PAGE_SIZE_def)
  ultimately have "\<exists>s'. mm_munmap 1 0x3000 4096 (mm_example st c v) = Some s' \<and> vmas s' 1 [] \<and>
      (\<forall>w<1048576. pgmap (vm s') 0x11000 w = (if w \<in> {3..<4} then None else pgmap vmm_example 0x11000 w)) \<and>
      (\<forall>w pte. w \<in> {3..<4} \<and> pgmap vmm_example 0x11000 w = Some pte \<and> freeable (PTE_ADDR pte) \<longrightarrow>
        pfn (PTE_ADDR pte) \<in> free_set (frames (vm s')))"
    using mm_munmap_unmaps_range [OF a h] p d by (auto simp: vmm_example_pgmap areas_ok_def)
  then obtain s' where s: "mm_munmap 1 0x3000 4096 (mm_example st c v) = Some s'" "vmas s' 1 []"
      "\<forall>w<1048576. pgmap (vm s') 0x11000 w = (if w \<in> {3..<4} then None else pgmap vmm_example 0x11000 w)" and
    f: "\<forall>w pte. w \<in> {3..<4} \<and> pgmap vmm_example 0x11000 w = Some pte \<and> freeable (PTE_ADDR pte) \<longrightarrow>
        pfn (PTE_ADDR pte) \<in> free_set (frames (vm s'))" by (elim exE conjE)
  have "pgmap (vm s') 0x11000 3 = None" using s(3) by simp
  moreover have "19 \<in> free_set (frames (vm s'))"
    using f [rule_format, of 3 "0x13007"] p \<open>freeable 0x13000\<close> by (simp add: vmm_example_pgmap)
  ultimately show ?thesis using s by blast
qed



end
