(* ===== verification/Cpu.thy ===== *)
theory Cpu
  imports Prelude
begin

text \<open>
  Processor tables and interrupts, after \<^verbatim>\<open>boot/gdt_idt.c\<close> and \<^verbatim>\<open>include/arch.h\<close>: segment and interrupt
  descriptors, the task state segment, the interrupt controllers, the table of interrupt handlers
  and the dispatch of interrupts and exceptions.  The addresses of the assembly stubs and of the
  tables are parameters.  Port writes are kept in a log; \<open>inb\<close>, what a port read returns after the
  writes so far, is a parameter.
\<close>

section \<open>State\<close>

record gdt_entry =
  limit_low :: u16
  base_low :: u16
  base_mid :: u8
  access :: u8
  gran :: u8
  base_high :: u8

record idt_entry =
  offset_low :: u16
  selector :: u16
  zero_byte :: u8
  type_attr :: u8
  offset_high :: u16

record table_ptr =
  plimit :: u16
  pbase :: u32

text \<open>The fields of \<^verbatim>\<open>struct tss\<close> that are ever set; all others stay 0.\<close>

record tss =
  esp0 :: u32
  ss0 :: u32
  iomap_base :: u16

record 'h cpu =
  gdt :: "gdt_entry list"
  gdtp :: table_ptr
  ktss :: tss
  tr :: u16
  idt :: "idt_entry list"
  idtp :: table_ptr
  cpu_log :: "(u16 \<times> u8) list"
  irq_handlers :: "'h option list"

definition GDT_NULL :: nat where "GDT_NULL = 0"
definition GDT_KCODE :: nat where "GDT_KCODE = 1"
definition GDT_KDATA :: nat where "GDT_KDATA = 2"
definition GDT_UCODE :: nat where "GDT_UCODE = 3"
definition GDT_UDATA :: nat where "GDT_UDATA = 4"
definition GDT_TSS :: nat where "GDT_TSS = 5"
definition GDT_ENTRIES :: nat where "GDT_ENTRIES = 6"
definition IDT_ENTRIES :: nat where "IDT_ENTRIES = 256"
definition IRQ_OFFSET :: nat where "IRQ_OFFSET = 32"
definition SEG_KCODE :: u16 where "SEG_KCODE = push_bit 3 (of_nat GDT_KCODE)"
definition SEG_KDATA :: u16 where "SEG_KDATA = push_bit 3 (of_nat GDT_KDATA)"
definition SEG_UCODE :: u16 where "SEG_UCODE = push_bit 3 (of_nat GDT_UCODE) OR 3"
definition SEG_UDATA :: u16 where "SEG_UDATA = push_bit 3 (of_nat GDT_UDATA) OR 3"
definition SEG_TSS_SEL :: u16 where "SEG_TSS_SEL = push_bit 3 (of_nat GDT_TSS)"
definition sizeof_tss :: u32 where "sizeof_tss = 104"

section \<open>Segment descriptors\<close>

definition gdt_set_entry :: "nat \<Rightarrow> u32 \<Rightarrow> u32 \<Rightarrow> u8 \<Rightarrow> u8 \<Rightarrow> 'h cpu \<Rightarrow> 'h cpu" where
  "gdt_set_entry idx base limit acc gr s =
     s\<lparr>gdt := (gdt s)[idx :=
       \<lparr>limit_low = ucast (limit AND 0xFFFF), base_low = ucast (base AND 0xFFFF),
        base_mid = ucast (drop_bit 16 base AND 0xFF), access = acc,
        gran = ucast (drop_bit 16 limit AND 0x0F) OR (gr AND 0xF0),
        base_high = ucast (drop_bit 24 base AND 0xFF)\<rparr>]\<rparr>"

text \<open>\<open>ga\<close> and \<open>ta\<close> are the addresses of \<^verbatim>\<open>gdt\<close> and \<^verbatim>\<open>ktss\<close>.\<close>

definition gdt_load :: "u32 \<Rightarrow> 'h cpu \<Rightarrow> 'h cpu" where
  "gdt_load ga s = s\<lparr>gdtp := \<lparr>plimit = of_nat (GDT_ENTRIES * 8) - 1, pbase = ga\<rparr>\<rparr>"

definition gdt_init :: "u32 \<Rightarrow> u32 \<Rightarrow> 'h cpu \<Rightarrow> 'h cpu" where
  "gdt_init ga ta s =
     (let s = gdt_set_entry GDT_NULL 0 0 0 0 s;
          s = gdt_set_entry GDT_KCODE 0 0xFFFFFFFF 0x9A 0xCF s;
          s = gdt_set_entry GDT_KDATA 0 0xFFFFFFFF 0x92 0xCF s;
          s = gdt_set_entry GDT_UCODE 0 0xFFFFFFFF 0xFA 0xCF s;
          s = gdt_set_entry GDT_UDATA 0 0xFFFFFFFF 0xF2 0xCF s;
          s = s\<lparr>ktss := \<lparr>esp0 = 0, ss0 = ucast SEG_KDATA, iomap_base = ucast sizeof_tss\<rparr>\<rparr>;
          s = gdt_set_entry GDT_TSS ta (sizeof_tss - 1) 0x89 0x00 s;
          s = gdt_load ga s
      in s\<lparr>tr := SEG_TSS_SEL\<rparr>)"

definition tss_set_kernel_stack :: "u32 \<Rightarrow> 'h cpu \<Rightarrow> 'h cpu" where
  "tss_set_kernel_stack e s = s\<lparr>ktss := (ktss s)\<lparr>esp0 := e\<rparr>\<rparr>"

section \<open>Interrupt descriptors and controllers\<close>

definition idt_set_gate :: "nat \<Rightarrow> u32 \<Rightarrow> u16 \<Rightarrow> u8 \<Rightarrow> 'h cpu \<Rightarrow> 'h cpu" where
  "idt_set_gate num base sel flags s =
     s\<lparr>idt := (idt s)[num :=
       \<lparr>offset_low = ucast (base AND 0xFFFF), selector = sel, zero_byte = 0, type_attr = flags,
        offset_high = ucast (drop_bit 16 base AND 0xFFFF)\<rparr>]\<rparr>"

definition PIC1_CMD :: u16 where "PIC1_CMD = 0x20"
definition PIC1_DATA :: u16 where "PIC1_DATA = 0x21"
definition PIC2_CMD :: u16 where "PIC2_CMD = 0xA0"
definition PIC2_DATA :: u16 where "PIC2_DATA = 0xA1"
definition PIC_EOI :: u8 where "PIC_EOI = 0x20"
definition ICW1_INIT :: u8 where "ICW1_INIT = 0x11"
definition ICW4_8086 :: u8 where "ICW4_8086 = 0x01"

type_synonym port_reader = "(u16 \<times> u8) list \<Rightarrow> u16 \<Rightarrow> u8"

definition cpu_outb :: "u16 \<Rightarrow> u8 \<Rightarrow> 'h cpu \<Rightarrow> 'h cpu" where
  "cpu_outb port v s = s\<lparr>cpu_log := cpu_log s @ [(port, v)]\<rparr>"

definition io_wait :: "'h cpu \<Rightarrow> 'h cpu" where
  "io_wait s = cpu_outb 0x80 0 s"

definition pic_remap :: "port_reader \<Rightarrow> u8 \<Rightarrow> u8 \<Rightarrow> 'h cpu \<Rightarrow> 'h cpu" where
  "pic_remap inb offset1 offset2 s =
     (let mask1 = inb (cpu_log s) PIC1_DATA;
          mask2 = inb (cpu_log s) PIC2_DATA;
          s = io_wait (cpu_outb PIC1_CMD ICW1_INIT s);
          s = io_wait (cpu_outb PIC2_CMD ICW1_INIT s);
          s = io_wait (cpu_outb PIC1_DATA offset1 s);
          s = io_wait (cpu_outb PIC2_DATA offset2 s);
          s = io_wait (cpu_outb PIC1_DATA 4 s);
          s = io_wait (cpu_outb PIC2_DATA 2 s);
          s = io_wait (cpu_outb PIC1_DATA ICW4_8086 s);
          s = io_wait (cpu_outb PIC2_DATA ICW4_8086 s);
          s = cpu_outb PIC1_DATA mask1 s
      in cpu_outb PIC2_DATA mask2 s)"

definition pic_send_eoi :: "int \<Rightarrow> 'h cpu \<Rightarrow> 'h cpu" where
  "pic_send_eoi irq s =
     (let s = (if irq \<ge> 8 then cpu_outb PIC2_CMD PIC_EOI s else s) in cpu_outb PIC1_CMD PIC_EOI s)"

text \<open>The data port and the bit of an interrupt line; \<open>irq\<close> is between 0 and 15 at every call.\<close>

definition pic_port :: "nat \<Rightarrow> u16" where
  "pic_port irq = (if irq < 8 then PIC1_DATA else PIC2_DATA)"

definition pic_bit :: "nat \<Rightarrow> nat" where
  "pic_bit irq = (if irq < 8 then irq else irq - 8)"

definition pic_mask_irq :: "port_reader \<Rightarrow> nat \<Rightarrow> 'h cpu \<Rightarrow> 'h cpu" where
  "pic_mask_irq inb irq s =
     cpu_outb (pic_port irq) (inb (cpu_log s) (pic_port irq) OR push_bit (pic_bit irq) 1) s"

definition pic_unmask_irq :: "port_reader \<Rightarrow> nat \<Rightarrow> 'h cpu \<Rightarrow> 'h cpu" where
  "pic_unmask_irq inb irq s =
     cpu_outb (pic_port irq) (inb (cpu_log s) (pic_port irq) AND NOT (push_bit (pic_bit irq) 1)) s"

text \<open>\<open>isr\<close>, \<open>irqv\<close> and \<open>entry\<close> are the addresses of the stubs and \<open>ia\<close> that of \<^verbatim>\<open>idt\<close>.\<close>

definition no_gate :: idt_entry where
  "no_gate = \<lparr>offset_low = 0, selector = 0, zero_byte = 0, type_attr = 0, offset_high = 0\<rparr>"

definition idt_init ::
  "port_reader \<Rightarrow> (nat \<Rightarrow> u32) \<Rightarrow> (nat \<Rightarrow> u32) \<Rightarrow> u32 \<Rightarrow> u32 \<Rightarrow> 'h cpu \<Rightarrow> 'h cpu" where
  "idt_init inb isr irqv entry ia s =
     (let s = s\<lparr>idt := replicate IDT_ENTRIES no_gate\<rparr>;
          s = fold (\<lambda>n. idt_set_gate n (isr n) SEG_KCODE 0x8E) [0..<32] s;
          s = pic_remap inb (of_nat IRQ_OFFSET) (of_nat (IRQ_OFFSET + 8)) s;
          s = fold (\<lambda>n. idt_set_gate (32 + n) (irqv n) SEG_KCODE 0x8E) [0..<16] s;
          s = idt_set_gate 0x80 entry SEG_KCODE 0xEE s
      in s\<lparr>idtp := \<lparr>plimit = of_nat (IDT_ENTRIES * 8) - 1, pbase = ia\<rparr>\<rparr>)"

section \<open>Dispatch\<close>

definition irq_register :: "port_reader \<Rightarrow> int \<Rightarrow> 'h \<Rightarrow> 'h cpu \<Rightarrow> 'h cpu" where
  "irq_register inb irq h s =
     (if irq < 0 \<or> irq \<ge> 16 then s
      else pic_unmask_irq inb (nat irq) (s\<lparr>irq_handlers := (irq_handlers s)[nat irq := Some h]\<rparr>))"

definition irq_unregister :: "port_reader \<Rightarrow> int \<Rightarrow> 'h cpu \<Rightarrow> 'h cpu" where
  "irq_unregister inb irq s =
     (if irq < 0 \<or> irq \<ge> 16 then s
      else pic_mask_irq inb (nat irq) (s\<lparr>irq_handlers := (irq_handlers s)[nat irq := None]\<rparr>))"

text \<open>The handler that is called, if any, and the state after the end-of-interrupt command.\<close>

definition irq_handler_dispatch :: "u32 \<Rightarrow> 'h cpu \<Rightarrow> 'h option \<times> 'h cpu" where
  "irq_handler_dispatch int_no s =
     (let irq = sint (int_no - of_nat IRQ_OFFSET);
          h = (if irq \<ge> 0 \<and> irq < 16 then irq_handlers s ! nat irq else None)
      in (h, pic_send_eoi irq s))"

text \<open>What an exception leads to; \<open>cur\<close> is the pid of the current task, if there is one.\<close>

datatype exception_result = PageFault u32 u32 | KillSIGSEGV u32 | Panic u32

definition exception_handler :: "u32 option \<Rightarrow> u32 \<Rightarrow> u32 \<Rightarrow> u32 \<Rightarrow> u32 \<Rightarrow> exception_result" where
  "exception_handler cur cr2 int_no err_code cs =
     (if int_no = 14 then PageFault cr2 err_code
      else if cs AND 3 \<noteq> 0
      then case cur of
             Some pid \<Rightarrow> if pid \<noteq> 0 then KillSIGSEGV pid else Panic int_no
           | None \<Rightarrow> Panic int_no
      else Panic int_no)"

section \<open>Reading descriptors\<close>

text \<open>Base, limit and offset as the processor assembles them from the fields.\<close>

definition desc_base :: "gdt_entry \<Rightarrow> u32" where
  "desc_base e = push_bit 24 (ucast (base_high e)) OR push_bit 16 (ucast (base_mid e)) OR ucast (base_low e)"

definition desc_limit :: "gdt_entry \<Rightarrow> u32" where
  "desc_limit e = push_bit 16 (ucast (gran e AND 0x0F)) OR ucast (limit_low e)"

definition gate_offset :: "idt_entry \<Rightarrow> u32" where
  "gate_offset e = push_bit 16 (ucast (offset_high e)) OR ucast (offset_low e)"

definition gate_present :: "idt_entry \<Rightarrow> bool" where
  "gate_present e \<longleftrightarrow> bit (type_attr e) 7"

definition gate_dpl :: "idt_entry \<Rightarrow> u8" where
  "gate_dpl e = drop_bit 5 (type_attr e) AND 3"

lemma masks:
  "(0xFFFF :: u32) = mask 16" "(0xFF :: u32) = mask 8" "(0x0F :: u32) = mask 4" "(0xF0 :: u8) = push_bit 4 (mask 4)"
  "(0x0F :: u8) = mask 4" "(0xFFFFF :: u32) = mask 20"
  by (simp_all add: mask_eq_exp_minus_1 push_bit_eq_mult)

lemma split_offset:
  "push_bit 16 (ucast (ucast (drop_bit 16 b AND 0xFFFF) :: u16)) OR ucast (ucast (b AND 0xFFFF) :: u16) = (b :: u32)"
  unfolding masks by (rule bit_word_eqI) (auto simp: bit_simps)

lemma split_base:
  "push_bit 24 (ucast (ucast (drop_bit 24 b AND 0xFF) :: u8)) OR push_bit 16 (ucast (ucast (drop_bit 16 b AND 0xFF) :: u8))
     OR ucast (ucast (b AND 0xFFFF) :: u16) = (b :: u32)" (is "?l = b")
proof (rule bit_word_eqI)
  fix n assume n: "n < LENGTH(32)"
  show "bit ?l n = bit b n"
  proof (cases "n < 24")
    case True
    then show ?thesis unfolding masks by (auto simp: bit_simps)
  next
    case False
    then have "24 + (n - 24) = n" by simp
    with False n show ?thesis unfolding masks by (auto simp: bit_simps)
  qed
qed

lemma split_limit:
  "push_bit 16 (ucast ((ucast (drop_bit 16 b AND 0x0F) OR (g AND 0xF0)) AND 0x0F :: u8)) OR ucast (ucast (b AND 0xFFFF) :: u16) =
     (b :: u32) AND 0xFFFFF"
  unfolding masks by (rule bit_word_eqI) (auto simp: bit_simps)

lemma split_gran: "(ucast (drop_bit 16 b AND 0x0F :: u32) OR (g AND 0xF0)) AND 0xF0 = (g :: u8) AND 0xF0"
  unfolding masks by (rule bit_word_eqI) (auto simp: bit_simps)

lemmas split_word = split_offset split_base split_limit split_gran

lemma idt_set_gate_other: "m \<noteq> n \<Longrightarrow> idt (idt_set_gate n b sel f s) ! m = idt s ! m"
  by (simp add: idt_set_gate_def)

lemma idt_set_gate_same:
  "n < length (idt s) \<Longrightarrow> gate_offset (idt (idt_set_gate n b sel f s) ! n) = b"
  "n < length (idt s) \<Longrightarrow> type_attr (idt (idt_set_gate n b sel f s) ! n) = f"
  "n < length (idt s) \<Longrightarrow> selector (idt (idt_set_gate n b sel f s) ! n) = sel"
  by (simp_all add: idt_set_gate_def gate_offset_def split_word)

lemma length_idt_set_gate [simp]: "length (idt (idt_set_gate n b sel f s)) = length (idt s)"
  by (simp add: idt_set_gate_def)

text \<open>A run of gates with the same selector and flags.\<close>

definition gate_run :: "nat \<Rightarrow> nat \<Rightarrow> (nat \<Rightarrow> u32) \<Rightarrow> u8 \<Rightarrow> 'h cpu \<Rightarrow> 'h cpu" where
  "gate_run k m a f s = fold (\<lambda>n. idt_set_gate (k + n) (a n) SEG_KCODE f) [0..<m] s"

lemma gate_run_gates:
  assumes "k + m \<le> length (idt s)"
  shows "length (idt (gate_run k m a f s)) = length (idt s) \<and>
    (\<forall>n<m. gate_offset (idt (gate_run k m a f s) ! (k + n)) = a n \<and> type_attr (idt (gate_run k m a f s) ! (k + n)) = f \<and>
      selector (idt (gate_run k m a f s) ! (k + n)) = SEG_KCODE) \<and>
    (\<forall>v. \<not> (k \<le> v \<and> v < k + m) \<longrightarrow> idt (gate_run k m a f s) ! v = idt s ! v)"
  using assms unfolding gate_run_def
  by (induction m) (auto simp: less_Suc_eq idt_set_gate_other idt_set_gate_same)

lemma idt_pic_remap [simp]: "idt (pic_remap inb a b s) = idt s"
  by (simp add: pic_remap_def io_wait_def cpu_outb_def Let_def)

section \<open>Properties\<close>

text \<open>
  Segment descriptors.  Whatever base and limit \<^verbatim>\<open>gdt_set_entry\<close> is given, the processor reads the
  same base and the low 20 bits of the limit back from the fields, with the access byte and the
  granularity flags as given; no other entry changes.
\<close>

theorem gdt_descriptor_roundtrip:
  fixes base limit :: u32 and acc gr :: u8
  assumes "idx < length (gdt s)"
  defines "s' \<equiv> gdt_set_entry idx base limit acc gr s"
  shows "desc_base (gdt s' ! idx) = base \<and> desc_limit (gdt s' ! idx) = limit AND 0xFFFFF \<and>
    access (gdt s' ! idx) = acc \<and> gran (gdt s' ! idx) AND 0xF0 = gr AND 0xF0 \<and>
    (\<forall>j. j \<noteq> idx \<longrightarrow> gdt s' ! j = gdt s ! j)"
  using assms by (simp add: gdt_set_entry_def desc_base_def desc_limit_def split_word)

definition cpu_boot :: "nat cpu" where
  "cpu_boot =
     \<lparr>gdt = replicate 6 \<lparr>limit_low = 0, base_low = 0, base_mid = 0, access = 0, gran = 0, base_high = 0\<rparr>,
      gdtp = \<lparr>plimit = 0, pbase = 0\<rparr>, ktss = \<lparr>esp0 = 0, ss0 = 0, iomap_base = 0\<rparr>, tr = 0,
      idt = replicate 256 no_gate, idtp = \<lparr>plimit = 0, pbase = 0\<rparr>, cpu_log = [], irq_handlers = replicate 16 None\<rparr>"

theorem gdt_descriptor_roundtrip_witness:
  "desc_base (gdt (gdt_set_entry 5 0xC0123456 103 0x89 0 cpu_boot) ! 5) = 0xC0123456 \<and>
   desc_limit (gdt (gdt_set_entry 5 0xC0123456 103 0x89 0 cpu_boot) ! 5) = 103"
proof -
  have "5 < length (gdt cpu_boot)" by (simp add: cpu_boot_def)
  from gdt_descriptor_roundtrip [OF this] show ?thesis by simp
qed

text \<open>
  C29: the interrupt table.  After \<^verbatim>\<open>idt_init\<close> vectors 0 to 31 lead to the exception stubs and vectors 32
  to 47 to the interrupt stubs, all in the kernel's code segment and closed to user mode; the only
  gate that user mode may call is \<^verbatim>\<open>0x80\<close>, which leads to the system call entry; every other
  vector has no gate.
\<close>

theorem idt_init_gates:
  fixes inb :: port_reader and isr irqv :: "nat \<Rightarrow> u32" and entry ia :: u32 and s :: "'h cpu"
  assumes "v < 256"
  defines "g \<equiv> idt (idt_init inb isr irqv entry ia s) ! v"
  shows "(if v < 32 then gate_present g \<and> gate_dpl g = 0 \<and> selector g = SEG_KCODE \<and> gate_offset g = isr v
    else if v < 48 then gate_present g \<and> gate_dpl g = 0 \<and> selector g = SEG_KCODE \<and> gate_offset g = irqv (v - 32)
    else if v = 0x80 then gate_present g \<and> gate_dpl g = 3 \<and> selector g = SEG_KCODE \<and> gate_offset g = entry
    else \<not> gate_present g)"
proof -
  define s0 where "s0 = s\<lparr>idt := replicate IDT_ENTRIES no_gate\<rparr>"
  define s1 where "s1 = gate_run 0 32 isr 0x8E s0"
  define s2 where "s2 = pic_remap inb (of_nat IRQ_OFFSET) (of_nat (IRQ_OFFSET + 8)) s1"
  define s3 where "s3 = gate_run 32 16 irqv 0x8E s2"
  have l0: "length (idt s0) = 256" by (simp add: s0_def IDT_ENTRIES_def)
  note r1 = gate_run_gates [where k = 0 and m = 32 and s = s0 and a = isr and f = "0x8E", folded s1_def]
  have i2: "idt s2 = idt s1" by (simp add: s2_def)
  have l1: "length (idt s1) = 256" using r1 l0 by simp
  note r3 = gate_run_gates [where k = 32 and m = 16 and s = s2 and a = irqv and f = "0x8E", folded s3_def, unfolded i2 l1]
  have l3: "length (idt s3) = 256" using r3 by simp
  have g: "g = idt (idt_set_gate 0x80 entry SEG_KCODE 0xEE s3) ! v"
    by (simp add: g_def idt_init_def Let_def s0_def s1_def s2_def s3_def gate_run_def)
  have flags: "bit (0x8E :: u8) 7" "drop_bit 5 (0x8E :: u8) AND 3 = 0" "bit (0xEE :: u8) 7" "drop_bit 5 (0xEE :: u8) AND 3 = 3"
    by (simp_all add: bit_iff_odd drop_bit_eq_div)
  consider (sys) "v = 0x80" | (isr) "v < 32" | (irq) "32 \<le> v" "v < 48" | (none) "v \<noteq> 0x80" "48 \<le> v" by linarith
  then show ?thesis
  proof cases
    case sys
    then show ?thesis using l3 flags by (simp add: g idt_set_gate_same gate_present_def gate_dpl_def)
  next
    case isr
    then have "g = idt s1 ! v" using r3 by (simp add: g idt_set_gate_other)
    with isr r1 l0 flags show ?thesis by (simp add: gate_present_def gate_dpl_def)
  next
    case irq
    then obtain n where n: "v = 32 + n" "n < 16" using le_Suc_ex [of 32 v] by auto
    then have "g = idt s3 ! (32 + n)" by (simp add: g idt_set_gate_other)
    with n r3 flags show ?thesis by (simp add: gate_present_def gate_dpl_def)
  next
    case none
    then have "g = idt s0 ! v" using r3 r1 l0 by (simp add: g idt_set_gate_other)
    with none assms(1) show ?thesis by (simp add: s0_def IDT_ENTRIES_def no_gate_def gate_present_def)
  qed
qed

theorem idt_init_gates_witness:
  "gate_dpl (idt (idt_init (\<lambda>_ _. 0xFF) (\<lambda>n. 0xC0100000 + of_nat n) (\<lambda>n. 0xC0200000 + of_nat n) 0xC0300000 0 cpu_boot) ! 0x80) = 3 \<and>
   gate_offset (idt (idt_init (\<lambda>_ _. 0xFF) (\<lambda>n. 0xC0100000 + of_nat n) (\<lambda>n. 0xC0200000 + of_nat n) 0xC0300000 0 cpu_boot) ! 33) = 0xC0200001"
  using idt_init_gates [of "0x80" "\<lambda>_ _. 0xFF" "\<lambda>n. 0xC0100000 + of_nat n" "\<lambda>n. 0xC0200000 + of_nat n" "0xC0300000" 0 cpu_boot]
    idt_init_gates [of 33 "\<lambda>_ _. 0xFF" "\<lambda>n. 0xC0100000 + of_nat n" "\<lambda>n. 0xC0200000 + of_nat n" "0xC0300000" 0 cpu_boot]
  by simp

text \<open>
  Registering a handler.  When a read of a mask register returns what was last written to it,
  \<^verbatim>\<open>irq_register\<close> of line \<open>irq\<close> makes vector \<open>32 + irq\<close> call the handler, opens that line in the
  interrupt controller, and leaves the handler and the mask bit of every other line as they were.
\<close>

theorem irq_register_opens_line:
  fixes inb :: port_reader and h :: 'h and s :: "'h cpu"
  assumes "irq < 16" and "length (irq_handlers s) = 16"
    and "\<And>v p. p = PIC1_DATA \<or> p = PIC2_DATA \<Longrightarrow>
      inb (cpu_log s @ [(pic_port irq, v)]) p = (if p = pic_port irq then v else inb (cpu_log s) p)"
  defines "t \<equiv> irq_register inb (int irq) h s"
  shows "fst (irq_handler_dispatch (of_nat (32 + irq)) t) = Some h \<and>
    \<not> bit (inb (cpu_log t) (pic_port irq)) (pic_bit irq) \<and>
    (\<forall>j<16. j \<noteq> irq \<longrightarrow> fst (irq_handler_dispatch (of_nat (32 + j)) t) = fst (irq_handler_dispatch (of_nat (32 + j)) s) \<and>
      bit (inb (cpu_log t) (pic_port j)) (pic_bit j) = bit (inb (cpu_log s) (pic_port j)) (pic_bit j))"
proof -
  have d: "fst (irq_handler_dispatch (of_nat (32 + j)) c) = irq_handlers c ! j" if "j < 16" for j and c :: "'h cpu"
  proof -
    have "sint ((of_nat (32 + j) :: u32) - of_nat IRQ_OFFSET) = int j"
    proof -
      have "(of_nat (32 + j) :: u32) - of_nat IRQ_OFFSET = of_nat j" by (simp add: IRQ_OFFSET_def)
      then show ?thesis using that by (simp add: signed_of_nat signed_take_bit_int_eq_self)
    qed
    with that show ?thesis by (simp add: irq_handler_dispatch_def Let_def)
  qed
  have port: "pic_port j = PIC1_DATA \<or> pic_port j = PIC2_DATA" for j by (simp add: pic_port_def)
  have b: "pic_bit j < 8" if "j < 16" for j using that by (auto simp: pic_bit_def)
  have ne: "pic_port j \<noteq> pic_port irq \<or> pic_bit j \<noteq> pic_bit irq" if "j \<noteq> irq" for j
    using that by (auto simp: pic_port_def pic_bit_def PIC1_DATA_def PIC2_DATA_def)
  have t: "irq_handlers t = (irq_handlers s)[irq := Some h]"
    "cpu_log t = cpu_log s @ [(pic_port irq, inb (cpu_log s) (pic_port irq) AND NOT (push_bit (pic_bit irq) 1))]"
    using assms(1) by (simp_all add: t_def irq_register_def pic_unmask_irq_def cpu_outb_def)
  have m: "bit (inb (cpu_log t) (pic_port j)) (pic_bit j) =
      (bit (inb (cpu_log s) (pic_port j)) (pic_bit j) \<and> j \<noteq> irq)" if "j < 16" for j
    using ne [of j] b [OF that] by (auto simp: t(2) assms(3) [OF port] bit_simps)
  show ?thesis using assms(1,2) d m t(1) by simp
qed

theorem irq_register_opens_line_witness:
  "fst (irq_handler_dispatch 36
     (irq_register (\<lambda>log p. case map_of (rev log) p of None \<Rightarrow> 0xFF | Some v \<Rightarrow> v) 4 (99 :: nat) cpu_boot)) = Some 99"
proof -
  let ?inb = "\<lambda>log p. case map_of (rev log) p of None \<Rightarrow> 0xFF | Some v \<Rightarrow> v"
  have "fst (irq_handler_dispatch (of_nat (32 + 4)) (irq_register ?inb (int 4) (99 :: nat) cpu_boot)) = Some 99"
    using irq_register_opens_line [of 4 cpu_boot ?inb 99] by (simp add: cpu_boot_def)
  then show ?thesis by simp
qed

end
