(* ===== verification/Ring.thy ===== *)
theory Ring
  imports Prelude
begin

text \<open>
  Ring buffers.  The pipe, the serial port and the keyboard each keep bytes in an array with the
  position of the next byte to read, the position of the next byte to write and a fill count.
  This theory has the arithmetic they share (\<open>ring_rep\<close>: the array holds a given byte sequence) and
  the interface \<open>byte_queue\<close> that the pipe and the serial port implement, with the consequence that bytes come out
  in the order they went in, none lost and none repeated.
\<close>

section \<open>Contents of a ring\<close>

definition ring_rep :: "'b list \<Rightarrow> nat \<Rightarrow> nat \<Rightarrow> 'b list \<Rightarrow> bool" where
  "ring_rep buf cap t xs \<longleftrightarrow>
     length buf = cap \<and> t < cap \<and> length xs \<le> cap \<and> (\<forall>i<length xs. xs ! i = buf ! ((t + i) mod cap))"

lemma ring_slot_differs:
  assumes "i < n" and "n < cap"
  shows "(t + i) mod cap \<noteq> (t + n) mod (cap :: nat)"
proof
  assume "(t + i) mod cap = (t + n) mod cap"
  then have "cap dvd (t + n) - (t + i)" using assms(1) by (intro mod_eq_dvd_iff_nat [THEN iffD1]) auto
  then have "cap dvd n - i" by simp
  with assms show False by (auto dest: dvd_imp_le)
qed

lemma ring_rep_empty: "0 < cap \<Longrightarrow> length buf = cap \<Longrightarrow> t < cap \<Longrightarrow> ring_rep buf cap t []"
  by (simp add: ring_rep_def)

lemma ring_rep_put:
  assumes r: "ring_rep buf cap t xs" and n: "length xs < cap"
  shows "ring_rep (buf[(t + length xs) mod cap := x]) cap t (xs @ [x])"
proof -
  have "(xs @ [x]) ! i = buf[(t + length xs) mod cap := x] ! ((t + i) mod cap)" if "i < Suc (length xs)" for i
  proof (cases "i = length xs")
    case True
    have "(t + length xs) mod cap < length buf" using r n by (simp add: ring_rep_def)
    with True show ?thesis by simp
  next
    case False
    with that have i: "i < length xs" by simp
    with r ring_slot_differs [OF i n, of t] show ?thesis by (simp add: ring_rep_def nth_append)
  qed
  with r n show ?thesis by (simp add: ring_rep_def)
qed

lemma ring_rep_get:
  assumes r: "ring_rep buf cap t (x # xs)"
  shows "buf ! t = x" and "ring_rep buf cap ((t + 1) mod cap) xs"
proof -
  from r show "buf ! t = x" by (auto simp: ring_rep_def dest: spec [of _ 0])
  have "xs ! i = buf ! (((t + 1) mod cap + i) mod cap)" if "i < length xs" for i
  proof -
    have "(x # xs) ! Suc i = buf ! ((t + Suc i) mod cap)" using r that unfolding ring_rep_def by (metis Suc_less_eq length_Cons)
    moreover have "((t + 1) mod cap + i) mod cap = (t + Suc i) mod cap" by (simp add: mod_simps)
    ultimately show ?thesis by simp
  qed
  with r show "ring_rep buf cap ((t + 1) mod cap) xs" by (auto simp: ring_rep_def)
qed

text \<open>The 32-bit positions of the source, for a capacity that a position can reach.\<close>

lemma ring_next: "unat (p :: u32) < unat c \<Longrightarrow> unat ((p + 1) mod c) = (unat p + 1) mod unat c"
proof -
  assume lt: "unat p < unat c"
  then have "unat p + 1 < 4294967296" using unat_less_2p32 [of c] by simp
  then have "unat (p + 1) = unat p + 1" by (subst unat_add_nowrap) simp_all
  then show ?thesis by (simp add: unat_mod)
qed

section \<open>The interface of a byte queue\<close>

datatype 'b qop = Put "'b list" | Get nat

text \<open>Running a sequence of operations; the result has all bytes read, in order.\<close>

fun qrun :: "('b list \<Rightarrow> 's \<Rightarrow> 's) \<Rightarrow> (nat \<Rightarrow> 's \<Rightarrow> 'b list \<times> 's) \<Rightarrow> 'b qop list \<Rightarrow> 's \<Rightarrow> 'b list \<times> 's" where
  "qrun put get [] s = ([], s)"
| "qrun put get (Put ys # ops) s = qrun put get ops (put ys s)"
| "qrun put get (Get n # ops) s =
     (case get n s of (bs, s) \<Rightarrow> case qrun put get ops s of (cs, s) \<Rightarrow> (bs @ cs, s))"

fun qinput :: "'b qop list \<Rightarrow> 'b list" where
  "qinput [] = []"
| "qinput (Put ys # ops) = ys @ qinput ops"
| "qinput (Get n # ops) = qinput ops"

text \<open>No operation of the sequence overfills the queue or reads more than it has.\<close>

fun qfits :: "nat \<Rightarrow> nat \<Rightarrow> 'b qop list \<Rightarrow> bool" where
  "qfits cap k [] \<longleftrightarrow> True"
| "qfits cap k (Put ys # ops) \<longleftrightarrow> k + length ys \<le> cap \<and> qfits cap (k + length ys) ops"
| "qfits cap k (Get n # ops) \<longleftrightarrow> n \<le> k \<and> qfits cap (k - n) ops"

locale byte_queue =
  fixes holds :: "'s \<Rightarrow> 'b list \<Rightarrow> bool" and cap :: nat
    and put :: "'b list \<Rightarrow> 's \<Rightarrow> 's" and get :: "nat \<Rightarrow> 's \<Rightarrow> 'b list \<times> 's"
  assumes holds_length: "holds s xs \<Longrightarrow> length xs \<le> cap"
    and holds_put: "holds s xs \<Longrightarrow> length xs + length ys \<le> cap \<Longrightarrow> holds (put ys s) (xs @ ys)"
    and holds_get: "holds s xs \<Longrightarrow> n \<le> length xs \<Longrightarrow> fst (get n s) = take n xs \<and> holds (snd (get n s)) (drop n xs)"
begin

lemma first_in_first_out:
  assumes "holds s xs" and "qfits cap (length xs) ops"
  shows "\<exists>ys. holds (snd (qrun put get ops s)) ys \<and> fst (qrun put get ops s) @ ys = xs @ qinput ops"
  using assms
proof (induction ops arbitrary: s xs)
  case (Cons op ops)
  show ?case
  proof (cases op)
    case (Put ys)
    with Cons.prems holds_put Cons.IH [of "put ys s" "xs @ ys"] show ?thesis by simp
  next
    case (Get n)
    obtain bs t where g: "get n s = (bs, t)" by fastforce
    have n: "n \<le> length xs" and f: "qfits cap (length (drop n xs)) ops" using Cons.prems(2) Get by simp_all
    have t: "bs = take n xs" "holds t (drop n xs)" using holds_get [OF Cons.prems(1) n] g by simp_all
    obtain cs u where r: "qrun put get ops t = (cs, u)" by fastforce
    from Cons.IH [OF t(2) f] r obtain ys where "holds u ys" "cs @ ys = drop n xs @ qinput ops" by auto
    with t(1) g r Get show ?thesis by (auto intro!: exI [of _ ys] simp flip: append_assoc) (simp add: append_assoc)
  qed
qed simp

text \<open>One write and one read of everything: an identity.\<close>

lemma write_read:
  "holds s [] \<Longrightarrow> length ys \<le> cap \<Longrightarrow>
    fst (get (length ys) (put ys s)) = ys \<and> holds (snd (get (length ys) (put ys s))) []"
  using holds_put [of s "[]" ys] holds_get [of "put ys s" ys "length ys"] by simp

end

end
