(* ===== verification/Pipe.thy ===== *)
theory Pipe
  imports Ring
begin

text \<open>
  Anonymous pipes, after \<^verbatim>\<open>fs/pipe.c\<close>.  The state of a pipe is \<^verbatim>\<open>struct pipe_inode_info\<close>; the wait
  queues and what waking and signalling do to tasks belong to the process model, so an operation
  here returns the calls it makes (\<open>pipe_call\<close>) beside its result.  A read of an empty pipe and a
  write to a full one sleep.  What other tasks do to the pipe meanwhile, and whether the sleep was
  interrupted, is the parameter \<open>sleep\<close>, which is given the number of sleeps so far; an operation
  that sleeps forever has no result.
\<close>

section \<open>State and operations\<close>

definition PIPE_BUF :: u32 where "PIPE_BUF = 4096"

record pipe =
  buf :: "u8 list"
  head :: u32
  tail :: u32
  psize :: u32
  capacity :: u32
  readers :: int
  writers :: int

datatype pipe_call = WakeReaders | WakeWriters | KillSelfSIGPIPE

type_synonym sleeper = "nat \<Rightarrow> pipe \<Rightarrow> errno option \<times> pipe"

text \<open>\<open>data\<close> is the block \<^verbatim>\<open>kmalloc(PIPE_BUF)\<close> returned, whose bytes are arbitrary.\<close>

definition pipe_new :: "u8 list \<Rightarrow> pipe" where
  "pipe_new data =
     \<lparr>buf = data, head = 0, tail = 0, psize = 0, capacity = PIPE_BUF, readers = 1, writers = 1\<rparr>"

text \<open>The copy loops, and the two critical sections around them.\<close>

fun drain_loop :: "nat \<Rightarrow> pipe \<Rightarrow> u8 list \<times> pipe" where
  "drain_loop 0 p = ([], p)"
| "drain_loop (Suc n) p =
     (let b = buf p ! unat (tail p);
          p = p\<lparr>tail := (tail p + 1) mod capacity p\<rparr>
      in case drain_loop n p of (bs, p) \<Rightarrow> (b # bs, p))"

definition pipe_get :: "nat \<Rightarrow> pipe \<Rightarrow> u8 list \<times> pipe" where
  "pipe_get n p = (case drain_loop n p of (bs, p) \<Rightarrow> (bs, p\<lparr>psize := psize p - of_nat n\<rparr>))"

fun fill_loop :: "u8 list \<Rightarrow> pipe \<Rightarrow> pipe" where
  "fill_loop [] p = p"
| "fill_loop (b # bs) p =
     fill_loop bs (p\<lparr>buf := (buf p)[unat (head p) := b], head := (head p + 1) mod capacity p\<rparr>)"

definition pipe_put :: "u8 list \<Rightarrow> pipe \<Rightarrow> pipe" where
  "pipe_put bs p = (let p = fill_loop bs p in p\<lparr>psize := psize p + of_nat (length bs)\<rparr>)"

partial_function (option) pipe_read_loop ::
  "sleeper \<Rightarrow> nat \<Rightarrow> u32 \<Rightarrow> pipe \<Rightarrow> ((errno + u8 list) \<times> pipe_call list \<times> pipe) option" where
  "pipe_read_loop sleep k count p =
     (if psize p > 0
      then case pipe_get (unat (min count (psize p))) p of (bs, p) \<Rightarrow> Some (Inr bs, [WakeWriters], p)
      else if writers p = 0 then Some (Inr [], [], p)
      else case sleep k p of
        (Some e, p) \<Rightarrow> Some (Inl e, [], p)
      | (None, p) \<Rightarrow> pipe_read_loop sleep (Suc k) count p)"

definition pipe_read ::
  "sleeper \<Rightarrow> u32 \<Rightarrow> pipe option \<Rightarrow> ((errno + u8 list) \<times> pipe_call list \<times> pipe option) option" where
  "pipe_read sleep count i =
     (case i of
        None \<Rightarrow> Some (Inl EINVAL, [], None)
      | Some p \<Rightarrow> map_option (\<lambda>(r, cs, p). (r, cs, Some p)) (pipe_read_loop sleep 0 count p))"

text \<open>\<open>written\<close> bytes of \<open>data\<close> are in the pipe already; \<open>cs\<close> has the calls made so far.\<close>

partial_function (option) pipe_write_loop ::
  "sleeper \<Rightarrow> nat \<Rightarrow> u8 list \<Rightarrow> nat \<Rightarrow> pipe_call list \<Rightarrow> pipe \<Rightarrow> ((errno + nat) \<times> pipe_call list \<times> pipe) option"
where
  "pipe_write_loop sleep k data written cs p =
     (if written < length data
      then let avail = capacity p - psize p
           in if avail > 0
              then let n = min (length data - written) (unat avail)
                   in pipe_write_loop sleep k data (written + n) (cs @ [WakeReaders])
                        (pipe_put (take n (drop written data)) p)
              else case sleep k p of
                (Some e, p) \<Rightarrow> Some (if written > 0 then Inr written else Inl e, cs, p)
              | (None, p) \<Rightarrow> pipe_write_loop sleep (Suc k) data written cs p
      else Some (Inr written, cs, p))"

definition pipe_write ::
  "sleeper \<Rightarrow> u8 list \<Rightarrow> pipe option \<Rightarrow> ((errno + nat) \<times> pipe_call list \<times> pipe option) option" where
  "pipe_write sleep data i =
     (case i of
        None \<Rightarrow> Some (Inl EINVAL, [], None)
      | Some p \<Rightarrow>
          if readers p = 0 then Some (Inl EPIPE, [KillSelfSIGPIPE], Some p)
          else map_option (\<lambda>(r, cs, p). (r, cs, Some p)) (pipe_write_loop sleep 0 data 0 [] p))"

text \<open>Closing an end; \<open>None\<close>: the pipe was freed and \<^verbatim>\<open>i_private\<close> set to \<^verbatim>\<open>NULL\<close>.\<close>

definition pipe_read_release :: "pipe \<Rightarrow> pipe_call list \<times> pipe option" where
  "pipe_read_release p =
     (let p = p\<lparr>readers := readers p - 1\<rparr>
      in ([WakeWriters], if readers p = 0 \<and> writers p = 0 then None else Some p))"

definition pipe_write_release :: "pipe \<Rightarrow> pipe_call list \<times> pipe option" where
  "pipe_write_release p =
     (let p = p\<lparr>writers := writers p - 1\<rparr>
      in ([WakeReaders], if readers p = 0 \<and> writers p = 0 then None else Some p))"

section \<open>The bytes in a pipe\<close>

definition pipe_ring :: "pipe \<Rightarrow> u8 list \<Rightarrow> bool" where
  "pipe_ring p xs \<longleftrightarrow>
     capacity p = PIPE_BUF \<and> ring_rep (buf p) 4096 (unat (tail p)) xs \<and>
     unat (head p) = (unat (tail p) + length xs) mod 4096"

definition pipe_holds :: "pipe \<Rightarrow> u8 list \<Rightarrow> bool" where
  "pipe_holds p xs \<longleftrightarrow> pipe_ring p xs \<and> unat (psize p) = length xs"

lemma pipe_next: "unat (q :: u32) < 4096 \<Longrightarrow> unat ((q + 1) mod PIPE_BUF) = (unat q + 1) mod 4096"
  using ring_next [of q PIPE_BUF] by (simp add: PIPE_BUF_def)

lemma fill_loop_simps [simp]:
  "psize (fill_loop bs p) = psize p" "capacity (fill_loop bs p) = capacity p"
  "readers (fill_loop bs p) = readers p" "writers (fill_loop bs p) = writers p"
  by (induction bs arbitrary: p) simp_all

lemma fill_loop_ring: "pipe_ring p xs \<Longrightarrow> length xs + length bs \<le> 4096 \<Longrightarrow> pipe_ring (fill_loop bs p) (xs @ bs)"
proof (induction bs arbitrary: p xs)
  case (Cons b bs)
  let ?q = "p\<lparr>buf := (buf p)[unat (head p) := b], head := (head p + 1) mod capacity p\<rparr>"
  have r: "ring_rep (buf p) 4096 (unat (tail p)) xs" and c: "capacity p = PIPE_BUF"
    and h: "unat (head p) = (unat (tail p) + length xs) mod 4096" using Cons.prems(1) by (simp_all add: pipe_ring_def)
  have "unat (head p) < 4096" using h by simp
  then have "unat ((head p + 1) mod PIPE_BUF) = (unat (tail p) + length (xs @ [b])) mod 4096"
    by (simp add: pipe_next h mod_simps)
  moreover have "ring_rep ((buf p)[unat (head p) := b]) 4096 (unat (tail p)) (xs @ [b])"
    using ring_rep_put [OF r] Cons.prems(2) h by simp
  ultimately have "pipe_ring ?q (xs @ [b])" using c by (simp add: pipe_ring_def)
  from Cons.IH [OF this] Cons.prems(2) show ?case by simp
qed simp

lemma drain_loop_simps [simp]:
  "psize (snd (drain_loop n p)) = psize p" "capacity (snd (drain_loop n p)) = capacity p"
  "readers (snd (drain_loop n p)) = readers p" "writers (snd (drain_loop n p)) = writers p"
  by (induction n arbitrary: p) (simp_all add: Let_def split: prod.splits, (metis pipe.select_convs pipe.surjective pipe.update_convs snd_conv)+)

lemma drain_loop_ring:
  "pipe_ring p (xs @ ys) \<Longrightarrow> fst (drain_loop (length xs) p) = xs \<and> pipe_ring (snd (drain_loop (length xs) p)) ys"
proof (induction xs arbitrary: p)
  case (Cons x xs)
  let ?q = "p\<lparr>tail := (tail p + 1) mod capacity p\<rparr>"
  have r: "ring_rep (buf p) 4096 (unat (tail p)) (x # xs @ ys)" and c: "capacity p = PIPE_BUF"
    and h: "unat (head p) = (unat (tail p) + length (x # xs @ ys)) mod 4096" using Cons.prems by (simp_all add: pipe_ring_def)
  have "unat (tail p) < 4096" using r by (simp add: ring_rep_def)
  then have t: "unat ((tail p + 1) mod PIPE_BUF) = (unat (tail p) + 1) mod 4096" by (rule pipe_next)
  then have "pipe_ring ?q (xs @ ys)" using ring_rep_get(2) [OF r] c h by (simp add: pipe_ring_def mod_simps)
  from Cons.IH [OF this] ring_rep_get(1) [OF r] show ?case by (auto simp: Let_def split: prod.splits)
qed simp

lemma pipe_get_holds:
  assumes "pipe_holds p xs" and "n \<le> length xs"
  shows "fst (pipe_get n p) = take n xs" and "pipe_holds (snd (pipe_get n p)) (drop n xs)"
    and "writers (snd (pipe_get n p)) = writers p" and "readers (snd (pipe_get n p)) = readers p"
proof -
  obtain bs q where d: "drain_loop n p = (bs, q)" by fastforce
  have "pipe_ring p (take n xs @ drop n xs)" using assms(1) by (simp add: pipe_holds_def)
  from drain_loop_ring [OF this] assms(2) d have r: "bs = take n xs" "pipe_ring q (drop n xs)" by simp_all
  have sz: "psize q = psize p" "writers q = writers p" "readers q = readers p"
    using drain_loop_simps [of n p] d by simp_all
  have len: "unat (psize p) = length xs" "length xs < 4294967296"
    using assms(1) unat_less_2p32 [of "psize p"] by (simp_all add: pipe_holds_def)
  have "unat (of_nat n :: u32) = n" using assms(2) len(2) by (simp add: unat_of_nat)
  then have "unat (psize p - of_nat n) = length xs - n"
    using assms(2) len(1) by (simp add: unat_sub word_le_nat_alt)
  with r(2) sz have "pipe_holds (q\<lparr>psize := psize q - of_nat n\<rparr>) (drop n xs)" by (simp add: pipe_holds_def pipe_ring_def)
  with d r(1) sz show "fst (pipe_get n p) = take n xs" "pipe_holds (snd (pipe_get n p)) (drop n xs)"
    "writers (snd (pipe_get n p)) = writers p" "readers (snd (pipe_get n p)) = readers p"
    by (simp_all add: pipe_get_def)
qed

lemma pipe_put_holds:
  assumes "pipe_holds p xs" and "length xs + length bs \<le> 4096"
  shows "pipe_holds (pipe_put bs p) (xs @ bs)"
proof -
  have r: "pipe_ring (fill_loop bs p) (xs @ bs)"
    using assms by (intro fill_loop_ring) (simp_all add: pipe_holds_def)
  have "unat (psize p) = length xs" using assms(1) by (simp add: pipe_holds_def)
  moreover have "unat (of_nat (length bs) :: u32) = length bs" using assms(2) by (simp add: unat_of_nat)
  ultimately have "unat (psize p + of_nat (length bs)) = length (xs @ bs)"
    using assms(2) by (subst unat_add_nowrap) simp_all
  with r show ?thesis by (simp add: pipe_holds_def pipe_put_def Let_def pipe_ring_def)
qed

interpretation pq: byte_queue pipe_holds 4096 pipe_put pipe_get
proof
  show "pipe_holds p xs \<Longrightarrow> length xs \<le> 4096" for p xs
    by (simp add: pipe_holds_def pipe_ring_def ring_rep_def)
  show "pipe_holds p xs \<Longrightarrow> length xs + length ys \<le> 4096 \<Longrightarrow> pipe_holds (pipe_put ys p) (xs @ ys)" for p xs ys
    by (rule pipe_put_holds)
  show "pipe_holds p xs \<Longrightarrow> n \<le> length xs \<Longrightarrow>
      fst (pipe_get n p) = take n xs \<and> pipe_holds (snd (pipe_get n p)) (drop n xs)" for p xs n
    using pipe_get_holds(1,2) by blast
qed

lemma pipe_put_readers: "readers (pipe_put bs p) = readers p"
  by (simp add: pipe_put_def Let_def)

lemma pipe_new_holds: "length data = 4096 \<Longrightarrow> pipe_holds (pipe_new data) []"
  by (simp add: pipe_holds_def pipe_ring_def pipe_new_def ring_rep_def)

lemma pipe_space: "pipe_holds p xs \<Longrightarrow> unat (capacity p - psize p) = 4096 - length xs"
  using pq.holds_length [of p xs] by (simp add: pipe_holds_def pipe_ring_def PIPE_BUF_def unat_sub word_le_nat_alt)

section \<open>Readers and writers interleaved\<close>

text \<open>
  The atomic steps of a pipe: the critical section of a write that found room, that of a read that
  found data, and the closing of an end.  Beside the pipe the state has the bytes all writes have
  put in so far and the bytes all reads have returned so far.
\<close>

inductive pipe_step :: "pipe \<times> u8 list \<times> u8 list \<Rightarrow> pipe \<times> u8 list \<times> u8 list \<Rightarrow> bool" where
  accept: "0 < capacity p - psize p \<Longrightarrow> n = min (length data) (unat (capacity p - psize p)) \<Longrightarrow>
    pipe_step (p, w, r) (pipe_put (take n data) p, w @ take n data, r)"
| deliver: "0 < psize p \<Longrightarrow> pipe_get (unat (min count (psize p))) p = (bs, p') \<Longrightarrow>
    pipe_step (p, w, r) (p', w, r @ bs)"
| close_read: "pipe_read_release p = (cs, Some p') \<Longrightarrow> pipe_step (p, w, r) (p', w, r)"
| close_write: "pipe_write_release p = (cs, Some p') \<Longrightarrow> pipe_step (p, w, r) (p', w, r)"

inductive_cases pipe_stepE: "pipe_step (p, w, r) s"

lemma release_holds:
  "pipe_read_release p = (cs, Some p') \<Longrightarrow> pipe_holds p xs \<Longrightarrow> pipe_holds p' xs"
  "pipe_write_release p = (cs, Some p') \<Longrightarrow> pipe_holds p xs \<Longrightarrow> pipe_holds p' xs"
  by (auto simp: pipe_read_release_def pipe_write_release_def pipe_holds_def pipe_ring_def split: if_splits)

lemma pipe_step_stream:
  assumes "pipe_step (p, w, r) (p', w', r')" and "pipe_holds p xs" and "w = r @ xs"
  shows "\<exists>ys. pipe_holds p' ys \<and> w' = r' @ ys"
  using assms(1)
proof (cases rule: pipe_step.cases)
  case (accept n data)
  have "length xs + length (take n data) \<le> 4096"
    using accept pipe_space [OF assms(2)] pq.holds_length [OF assms(2)] by simp
  from pipe_put_holds [OF assms(2) this] accept assms(3) show ?thesis by auto
next
  case (deliver count bs)
  have n: "unat (min count (psize p)) \<le> length xs"
    using assms(2) by (simp add: pipe_holds_def min_def word_le_nat_alt)
  from pipe_get_holds [OF assms(2) n] deliver assms(3) show ?thesis by auto
next
  case (close_read cs)
  with release_holds(1) assms(2,3) show ?thesis by blast
next
  case (close_write cs)
  with release_holds(2) assms(2,3) show ?thesis by blast
qed

section \<open>Writes that sleep\<close>

lemma pipe_write_loop_done:
  "length data \<le> w \<Longrightarrow> pipe_write_loop sleep k data w cs p = Some (Inr w, cs, p)"
  by (subst pipe_write_loop.simps) simp

lemma pipe_write_loop_room:
  assumes "pipe_holds p xs" and "length xs < 4096" and "w < length data"
  defines "n \<equiv> min (length data - w) (4096 - length xs)"
  shows "pipe_write_loop sleep k data w cs p =
      pipe_write_loop sleep k data (w + n) (cs @ [WakeReaders]) (pipe_put (take n (drop w data)) p)"
    and "pipe_holds (pipe_put (take n (drop w data)) p) (xs @ take n (drop w data))" and "0 < n" "w + n \<le> length data"
proof -
  have sp: "unat (capacity p - psize p) = 4096 - length xs" by (rule pipe_space [OF assms(1)])
  then have "0 < capacity p - psize p" using assms(2) by (simp add: word_less_nat_alt)
  then show "pipe_write_loop sleep k data w cs p =
      pipe_write_loop sleep k data (w + n) (cs @ [WakeReaders]) (pipe_put (take n (drop w data)) p)"
    using assms(3) sp by (subst pipe_write_loop.simps) (simp add: Let_def n_def)
  show "pipe_holds (pipe_put (take n (drop w data)) p) (xs @ take n (drop w data))"
    using assms(2) by (intro pipe_put_holds [OF assms(1)]) (simp add: n_def)
  show "0 < n" "w + n \<le> length data" using assms(2,3) by (simp_all add: n_def)
qed

lemma pipe_write_loop_full:
  assumes "pipe_holds p xs" and "length xs = 4096" and "w < length data" and "sleep k p = (None, q)"
  shows "pipe_write_loop sleep k data w cs p = pipe_write_loop sleep (Suc k) data w cs q"
proof -
  have "capacity p - psize p = 0" using pipe_space [OF assms(1)] assms(2) by (simp add: unat_eq_0)
  with assms(3,4) show ?thesis by (subst pipe_write_loop.simps) (simp add: Let_def)
qed

lemma pipe_write_loop_completes:
  assumes env: "\<And>k q ys. pipe_holds q ys \<Longrightarrow> length ys = 4096 \<Longrightarrow>
      \<exists>n q'. 0 < n \<and> n \<le> length ys \<and> sleep k q = (None, q') \<and> pipe_holds q' (drop n ys)"
  shows "pipe_holds p xs \<Longrightarrow> w \<le> length data \<Longrightarrow>
    \<exists>m cs' p'. pipe_write_loop sleep k data w cs p = Some (Inr (length data), cs', p') \<and>
      m \<le> length (xs @ drop w data) \<and> pipe_holds p' (drop m (xs @ drop w data))"
proof (induction "length data - w" arbitrary: k w cs p xs rule: less_induct)
  case less
  have go: "\<exists>m cs' p'. pipe_write_loop sleep j data w cs q = Some (Inr (length data), cs', p') \<and>
      m \<le> length (ys @ drop w data) \<and> pipe_holds p' (drop m (ys @ drop w data))"
    if q: "pipe_holds q ys" "length ys < 4096" and w: "w < length data" for j q ys
  proof -
    note r = pipe_write_loop_room(1) [OF q w, where sleep = sleep and k = j and cs = cs] pipe_write_loop_room(2-4) [OF q w]
    let ?n = "min (length data - w) (4096 - length ys)"
    have "drop (w + ?n) data = drop ?n (drop w data)" by (simp only: drop_drop add.commute)
    then have e: "(ys @ take ?n (drop w data)) @ drop (w + ?n) data = ys @ drop w data"
      by (simp only: append.assoc append_take_drop_id)
    have "length data - (w + ?n) < length data - w" using r(3,4) by linarith
    from less.hyps [OF this r(2,4), unfolded e] r(1) show ?thesis by metis
  qed
  show ?case
  proof (cases "w < length data")
    case False
    then show ?thesis using less.prems by (auto simp: pipe_write_loop_done intro: exI [of _ 0])
  next
    case True
    show ?thesis
    proof (cases "length xs < 4096")
      case room: True
      from go [OF less.prems(1) room True] show ?thesis .
    next
      case False
      then have full: "length xs = 4096" using pq.holds_length [OF less.prems(1)] by simp
      from env [OF less.prems(1) full, of k] obtain n q where
        q: "0 < n" "n \<le> length xs" "sleep k p = (None, q)" "pipe_holds q (drop n xs)" by blast
      have "length (drop n xs) < 4096" using q(1) full by simp
      from go [OF q(4) this True, of "Suc k"] obtain m cs' p' where
        r: "pipe_write_loop sleep (Suc k) data w cs q = Some (Inr (length data), cs', p')"
        "m \<le> length (drop n xs @ drop w data)" "pipe_holds p' (drop m (drop n xs @ drop w data))" by blast
      have "drop m (drop n xs @ drop w data) = drop (m + n) (xs @ drop w data)" "m + n \<le> length (xs @ drop w data)"
        using q(2) r(2) by (simp_all flip: drop_drop)
      with r pipe_write_loop_full [where sleep = sleep, OF less.prems(1) full True q(3)] show ?thesis by metis
    qed
  qed
qed

section \<open>Properties\<close>

text \<open>
  C24: a pipe is a first-in first-out stream.  In every interleaving of the critical sections of any
  number of reads and writes and of closing ends, starting from the pipe that \<^verbatim>\<open>vfs_pipe\<close> sets up,
  the bytes written so far are the bytes read so far followed by the bytes in the pipe: none is
  lost, repeated or reordered.
\<close>

theorem pipe_stream:
  assumes "pipe_step\<^sup>*\<^sup>* (pipe_new data, [], []) (p, w, r)" and "length data = 4096"
  shows "\<exists>xs. pipe_holds p xs \<and> w = r @ xs \<and> length xs \<le> 4096"
proof -
  have "\<exists>xs. pipe_holds (fst s) xs \<and> fst (snd s) = snd (snd s) @ xs" if "pipe_step\<^sup>*\<^sup>* (pipe_new data, [], []) s" for s
    using that
  proof (induction rule: rtranclp_induct)
    case base
    then show ?case using pipe_new_holds [OF assms(2)] by simp
  next
    case (step s t)
    then show ?case using pipe_step_stream by (cases s; cases t) fastforce
  qed
  from this [OF assms(1)] pq.holds_length show ?thesis by force
qed

theorem pipe_stream_witness:
  "\<exists>p. pipe_step\<^sup>*\<^sup>* (pipe_new (replicate 4096 0), [], []) (p, [1, 2, 3], [1, 2]) \<and> pipe_holds p [3]"
proof -
  let ?n = "pipe_new (replicate 4096 0)"
  have h0: "pipe_holds ?n []" by (rule pipe_new_holds) simp
  have a: "pipe_step (?n, [], []) (pipe_put [1, 2, 3] ?n, [] @ take 3 [1, 2, 3], [])"
    using pipe_step.accept [of ?n 3 "[1, 2, 3]" "[]" "[]"] pipe_space [OF h0] by (simp add: word_less_nat_alt)
  have h1: "pipe_holds (pipe_put [1, 2, 3] ?n) [1, 2, 3]" using pipe_put_holds [OF h0, of "[1, 2, 3]"] by simp
  obtain bs p where g: "pipe_get 2 (pipe_put [1, 2, 3] ?n) = (bs, p)" by fastforce
  have sz: "unat (psize (pipe_put [1, 2, 3] ?n)) = 3" using h1 by (simp add: pipe_holds_def)
  have "unat (min 2 (psize (pipe_put [1, 2, 3] ?n))) = 2" using sz by (simp add: min_def word_le_nat_alt)
  with g have "pipe_get (unat (min 2 (psize (pipe_put [1, 2, 3] ?n)))) (pipe_put [1, 2, 3] ?n) = (bs, p)" by simp
  then have "pipe_step (pipe_put [1, 2, 3] ?n, [1, 2, 3], []) (p, [1, 2, 3], [] @ bs)"
    using sz by (intro pipe_step.deliver [of _ 2]) (simp_all add: word_less_nat_alt)
  moreover have "bs = [1, 2]" using pipe_get_holds(1) [OF h1, of 2] g by simp
  ultimately have "pipe_step\<^sup>*\<^sup>* (?n, [], []) (p, [1, 2, 3], [1, 2])" using a
    by (simp add: converse_rtranclp_into_rtranclp)
  with pipe_stream [OF this] show ?thesis by auto
qed

text \<open>
  Reads return data in order.  A read of a pipe that holds bytes returns at once with the first
  \<open>count\<close> of them, or all if there are fewer, and leaves the rest; a read of an empty pipe that has no
  writer returns no bytes, the end of file.
\<close>

theorem pipe_read_returns:
  assumes "pipe_holds p xs" and "xs \<noteq> [] \<or> writers p = 0"
  shows "\<exists>cs p'. pipe_read sleep count (Some p) = Some (Inr (take (unat count) xs), cs, Some p') \<and>
    pipe_holds p' (drop (unat count) xs)"
proof (cases "xs = []")
  case True
  then have "psize p = 0" using assms(1) by (simp add: pipe_holds_def unat_eq_0)
  with assms True show ?thesis by (subst pipe_read_def) (simp add: pipe_read_loop.simps)
next
  case False
  have sz: "unat (psize p) = length xs" using assms(1) by (simp add: pipe_holds_def)
  let ?n = "unat (min count (psize p))"
  have n: "?n = min (unat count) (length xs)" using sz by (simp add: min_def word_le_nat_alt)
  obtain bs q where g: "pipe_get ?n p = (bs, q)" by fastforce
  have "0 < psize p" using False sz by (simp add: word_less_nat_alt)
  then have "pipe_read_loop sleep 0 count p = Some (Inr bs, [WakeWriters], q)"
    using g by (simp add: pipe_read_loop.simps)
  moreover have "take ?n xs = take (unat count) xs" "drop ?n xs = drop (unat count) xs"
    unfolding n by (simp_all add: min_def)
  ultimately show ?thesis using pipe_get_holds(1,2) [OF assms(1), of ?n] g n by (simp add: pipe_read_def)
qed

theorem pipe_read_returns_witness:
  "\<exists>cs p'. pipe_read (\<lambda>k q. (Some EINTR, q)) 2 (Some (pipe_put [7, 8, 9] (pipe_new (replicate 4096 0)))) =
     Some (Inr [7, 8], cs, Some p') \<and> pipe_holds p' [9]"
proof -
  have "pipe_holds (pipe_new (replicate 4096 0)) []" by (rule pipe_new_holds) simp
  from pipe_put_holds [OF this, of "[7, 8, 9]"]
  have "pipe_holds (pipe_put [7, 8, 9] (pipe_new (replicate 4096 0))) [7, 8, 9]" by simp
  from pipe_read_returns [OF this, of "\<lambda>k q. (Some EINTR, q)" 2] show ?thesis by simp
qed

text \<open>
  C25: writes complete.  When every sleep on the full pipe ends with a wake-up after readers took at
  least one byte, \<^verbatim>\<open>pipe_write\<close> returns, has written all its data, and the pipe then holds what is
  left of the old contents followed by the data, in order, however much longer than the pipe the
  data is.
\<close>

theorem pipe_write_completes:
  assumes "pipe_holds p xs" and "readers p \<noteq> 0"
    and "\<And>k q ys. pipe_holds q ys \<Longrightarrow> length ys = 4096 \<Longrightarrow>
      \<exists>n q'. 0 < n \<and> n \<le> length ys \<and> sleep k q = (None, q') \<and> pipe_holds q' (drop n ys)"
  shows "\<exists>m cs p'. pipe_write sleep data (Some p) = Some (Inr (length data), cs, Some p') \<and>
    m \<le> length (xs @ data) \<and> pipe_holds p' (drop m (xs @ data))"
proof -
  from pipe_write_loop_completes [where sleep = sleep, OF assms(3,1), of 0 data 0 "[]"]
  obtain m cs p' where "pipe_write_loop sleep 0 data 0 [] p = Some (Inr (length data), cs, p')"
    "m \<le> length (xs @ data)" "pipe_holds p' (drop m (xs @ data))" by auto
  with assms(2) show ?thesis by (auto simp: pipe_write_def)
qed

theorem pipe_write_completes_witness:
  "\<exists>m cs p'. pipe_write (\<lambda>k q. (None, snd (pipe_get 1 q))) (replicate 5000 1) (Some (pipe_new (replicate 4096 0))) =
     Some (Inr 5000, cs, Some p') \<and> m \<le> 5000 \<and> pipe_holds p' (drop m (replicate 5000 1))"
proof -
  have env: "\<exists>n q'. 0 < n \<and> n \<le> length ys \<and> (None, snd (pipe_get 1 q)) = (None, q') \<and> pipe_holds q' (drop n ys)"
    if "pipe_holds q ys" "length ys = 4096" for q ys
    using pipe_get_holds(2) [OF that(1), of 1] that(2) by (intro exI [of _ 1] exI [of _ "snd (pipe_get 1 q)"]) simp
  have "pipe_holds (pipe_new (replicate 4096 0)) []" by (rule pipe_new_holds) simp
  moreover have "readers (pipe_new (replicate 4096 0)) \<noteq> 0" by (simp add: pipe_new_def)
  ultimately have "\<exists>m cs p'. pipe_write (\<lambda>k q. (None, snd (pipe_get 1 q))) (replicate 5000 1)
      (Some (pipe_new (replicate 4096 0))) = Some (Inr (length (replicate 5000 (1 :: u8))), cs, Some p') \<and>
    m \<le> length ([] @ replicate 5000 (1 :: u8)) \<and> pipe_holds p' (drop m ([] @ replicate 5000 1))"
    by (rule pipe_write_completes) (rule env)
  then show ?thesis by (simp only: length_replicate append_Nil)
qed

text \<open>
  C40: a writer on a full pipe is not told when the last reader goes.  The test for readers is made
  once, before the loop, so when a writer sleeps on a full pipe, every reader closes its end and
  the writer is woken, it goes back to sleep and the call never returns; the test before the loop
  promises \<^verbatim>\<open>EPIPE\<close> in this situation.
\<close>

theorem pipe_write_hangs:
  assumes "psize p = capacity p" and "data \<noteq> []" and "readers p \<noteq> 0"
  shows "pipe_write (\<lambda>k q. (None, q\<lparr>readers := 0\<rparr>)) data (Some p) = None"
proof -
  define sl :: sleeper where "sl = (\<lambda>k q. (None, q\<lparr>readers := 0\<rparr>))"
  have "False" if "pipe_write_loop s k data w cs p = Some y" "w < length data" "psize p = capacity p" "s = sl" for s k w cs p y
    using that(2-4)
  proof (induction rule: pipe_write_loop.raw_induct [OF _ that(1)])
    case (1 loop s k data w cs p y)
    from 1(2-5) have "loop s (Suc k) data w cs (p\<lparr>readers := 0\<rparr>) = Some y" by (simp add: Let_def sl_def)
    from 1(1) [OF this] 1(3-5) show ?case by simp
  qed
  from this [of sl 0 0 "[]" p] assms have "pipe_write_loop sl 0 data 0 [] p = None"
    by (cases "pipe_write_loop sl 0 data 0 [] p") auto
  with assms(3) show ?thesis by (simp add: pipe_write_def sl_def)
qed

theorem pipe_write_hangs_witness:
  "pipe_write (\<lambda>k q. (None, q\<lparr>readers := 0\<rparr>)) [65]
     (Some (pipe_put (replicate 4096 1) (pipe_new (replicate 4096 0)))) = None"
proof (rule pipe_write_hangs)
  have "pipe_holds (pipe_new (replicate 4096 0)) []" by (rule pipe_new_holds) simp
  from pipe_put_holds [OF this, of "replicate 4096 1"]
  have h: "pipe_holds (pipe_put (replicate 4096 1) (pipe_new (replicate 4096 0))) (replicate 4096 1)" by simp
  then show "psize (pipe_put (replicate 4096 1) (pipe_new (replicate 4096 0))) =
      capacity (pipe_put (replicate 4096 1) (pipe_new (replicate 4096 0)))"
    by (simp only: pipe_holds_def pipe_ring_def word_unat_eq_iff length_replicate) (simp add: PIPE_BUF_def)
  show "readers (pipe_put (replicate 4096 1) (pipe_new (replicate 4096 0))) \<noteq> 0"
    by (simp only: pipe_put_readers pipe_new_def pipe.simps)
qed simp

end
