(* ===== verification/Kernel.thy ===== *)
theory Kernel
  imports Mm Cpu Pipe
begin

text \<open>
  The structures that the process layer and the file system share, after \<^verbatim>\<open>kernel/process.h\<close> and
  \<^verbatim>\<open>kernel/vfs.h\<close>, and the state of the kernel they live in.  Every structure type has a store from
  addresses to records; the list heads embedded in structures are nodes of one pointer store; objects
  come from the slab caches and the heap of the memory state below.  A pointer to a table of
  operations is the name of the table, and the address of a wait queue is the name of its owner.
  Addresses of static objects that the linker chooses are fields of the state.
\<close>

section \<open>Names for statics\<close>

datatype iops_ref = NoIops | RamfsInodeOps

datatype fops_ref = NoFops | RamfsFileOps | RamfsDirOps | ProcfsFileOps | ProcfsDirOps | PipeReadOps | PipeWriteOps
  | NullOps | ZeroOps | FullOps | RandomOps | ConsoleOps | TtyOps | KmsgOps | AtaOps

datatype waitq = InodeWait uptr | FileWait uptr | PipeReadWait uptr | PipeWriteWait uptr | WaitpidQueue

text \<open>The list heads, by the field they are.\<close>

datatype knode = FsTypes | FsLink uptr | Mounts | MntLink uptr
  | SbInodes uptr | SbLink uptr | InodeLink uptr
  | DChildren uptr | DSibling uptr | DLru uptr
  | TaskListHead | TaskLink uptr | Runqueue | RunLink uptr | TChildren uptr | TSibling uptr
  | WaitHead waitq | WaitLink uptr

section \<open>Structures of the file system\<close>

type_synonym off_t = int

record inode =
  i_ino :: u64
  i_mode :: u32
  i_uid :: u32
  i_gid :: u32
  i_nlink :: u32
  i_size :: off_t
  i_rdev :: u32
  i_atime :: u32
  i_mtime :: u32
  i_ctime :: u32
  i_sb :: uptr
  i_ops :: iops_ref
  i_fops :: fops_ref
  i_private :: uptr
  i_refcount :: u32

record dentry =
  d_name :: string
  d_inode :: uptr
  d_parent :: uptr
  d_refcount :: u32
  d_sb :: uptr
  d_mounted :: bool
  d_mountpoint :: uptr

record file_struct =
  f_dentry :: uptr
  f_ops :: fops_ref
  f_pos :: off_t
  f_flags :: u32
  f_refcount :: u32
  f_private :: uptr

record super_block =
  s_blocksize :: u32
  s_magic :: u64
  s_root :: uptr
  s_type :: uptr
  s_rdonly :: bool

record filesystem_type =
  fs_name :: string

record mount =
  mnt_point :: uptr
  mnt_sb :: uptr
  mnt_devname :: string
  mnt_fstype :: string

record stat =
  st_ino :: u64
  st_mode :: u32
  st_nlink :: u32
  st_uid :: u32
  st_gid :: u32
  st_rdev :: u32
  st_size :: off_t
  st_blksize :: u32
  st_blocks :: u32
  st_atime :: u32
  st_mtime :: u32
  st_ctime :: u32

record dirent =
  de_ino :: u64
  de_off :: off_t
  de_reclen :: u16
  de_type :: u8
  de_name :: string

text \<open>The private data of a ramfs inode, \<^verbatim>\<open>struct ramfs_inode\<close> of \<^verbatim>\<open>fs/ramfs.c\<close>.\<close>

record ramfs_inode =
  rdata :: uptr
  rcapacity :: u32
  rino :: u64
  symlink_target :: uptr

text \<open>The private data of an inode of \<^verbatim>\<open>/proc\<close>, \<^verbatim>\<open>struct procfs_inode_priv\<close> of \<^verbatim>\<open>fs/procfs.c\<close>.\<close>

record procfs_priv =
  pr_id :: nat
  pr_pid :: u32
  pr_cache :: uptr
  pr_cache_len :: u32
  pr_cache_cap :: u32

section \<open>Structures of processes\<close>

datatype task_state = TASK_RUNNING | TASK_SLEEPING | TASK_STOPPED | TASK_ZOMBIE | TASK_DEAD

record files_struct =
  max_fds :: u32
  fd_array :: uptr
  close_on_exec :: "u32 list"

record sigaction =
  sa_handler :: uptr
  sa_flags :: u32
  sa_mask :: u64

record signal_struct =
  pending :: u64
  actions :: "sigaction list"

record cpu_context =
  ctx_edi :: u32
  ctx_esi :: u32
  ctx_ebx :: u32
  ctx_ebp :: u32
  ctx_esp :: u32
  ctx_eip :: u32
  ctx_eflags :: u32

record task_struct =
  pid :: u32
  ppid :: u32
  pgid :: u32
  sid :: u32
  tname :: string
  tstate :: task_state
  exit_code :: int
  uid :: u32
  euid :: u32
  suid :: u32
  gid :: u32
  egid :: u32
  sgid :: u32
  ctx :: cpu_context
  tmm :: uptr
  kernel_stack :: uptr
  kernel_esp :: uptr
  tfiles :: uptr
  cwd :: uptr
  troot :: uptr
  tumask :: u32
  tsignal :: uptr
  priority :: int
  nice :: int
  runtime_ns :: u64
  time_slice :: u32
  parent :: uptr

section \<open>Cleared structures\<close>

definition inode_zero :: inode where
  "inode_zero = \<lparr>i_ino = 0, i_mode = 0, i_uid = 0, i_gid = 0, i_nlink = 0, i_size = 0, i_rdev = 0, i_atime = 0,
     i_mtime = 0, i_ctime = 0, i_sb = 0, i_ops = NoIops, i_fops = NoFops, i_private = 0, i_refcount = 0\<rparr>"

definition dentry_zero :: dentry where
  "dentry_zero = \<lparr>d_name = [], d_inode = 0, d_parent = 0, d_refcount = 0, d_sb = 0, d_mounted = False, d_mountpoint = 0\<rparr>"

definition file_zero :: file_struct where
  "file_zero = \<lparr>f_dentry = 0, f_ops = NoFops, f_pos = 0, f_flags = 0, f_refcount = 0, f_private = 0\<rparr>"

definition ri_zero :: ramfs_inode where
  "ri_zero = \<lparr>rdata = 0, rcapacity = 0, rino = 0, symlink_target = 0\<rparr>"

definition proc_zero :: procfs_priv where
  "proc_zero = \<lparr>pr_id = 0, pr_pid = 0, pr_cache = 0, pr_cache_len = 0, pr_cache_cap = 0\<rparr>"

definition ctx_zero :: cpu_context where
  "ctx_zero = \<lparr>ctx_edi = 0, ctx_esi = 0, ctx_ebx = 0, ctx_ebp = 0, ctx_esp = 0, ctx_eip = 0, ctx_eflags = 0\<rparr>"

definition task_zero :: task_struct where
  "task_zero = \<lparr>pid = 0, ppid = 0, pgid = 0, sid = 0, tname = [], tstate = TASK_RUNNING, exit_code = 0,
     uid = 0, euid = 0, suid = 0, gid = 0, egid = 0, sgid = 0, ctx = ctx_zero, tmm = 0, kernel_stack = 0, kernel_esp = 0,
     tfiles = 0, cwd = 0, troot = 0, tumask = 0, tsignal = 0, priority = 0, nice = 0, runtime_ns = 0, time_slice = 0, parent = 0\<rparr>"

section \<open>The kernel state\<close>

record kernel =
  kmm :: mmem
  kcpu :: "nat cpu"
  klists :: "knode list_store"
  inode_at :: "uptr \<Rightarrow> inode"
  dentry_at :: "uptr \<Rightarrow> dentry"
  file_at :: "uptr \<Rightarrow> file_struct"
  sb_at :: "uptr \<Rightarrow> super_block"
  fs_at :: "uptr \<Rightarrow> filesystem_type"
  mount_at :: "uptr \<Rightarrow> mount"
  ri_at :: "uptr \<Rightarrow> ramfs_inode"
  proc_at :: "uptr \<Rightarrow> procfs_priv"
  str_at :: "uptr \<Rightarrow> string"
  pipe_at :: "uptr \<Rightarrow> pipe"
  task_at :: "uptr \<Rightarrow> task_struct"
  files_at :: "uptr \<Rightarrow> files_struct"
  fd_at :: "uptr \<Rightarrow> uptr list"
  signal_at :: "uptr \<Rightarrow> signal_struct"
  vfs_root :: uptr
  current :: uptr
  kernel_task :: uptr
  ramfs_sb :: uptr
  procfs_sb :: uptr
  inode_cache :: uptr
  dentry_cache :: uptr
  file_cache :: uptr
  task_cache :: uptr
  signal_cache :: uptr
  files_cache :: uptr
  next_pid :: u32
  wait_q_init :: bool
  next_ino :: u64
  jiffies :: u64
  uptime_s :: u64

text \<open>
  The state the loader leaves: statics are zero or have their initialiser, every list head is linked
  to itself, and the memory state is the parameter.
\<close>

definition kernel_boot :: "mmem \<Rightarrow> kernel" where
  "kernel_boot m =
     \<lparr>kmm = m, kcpu = cpu_boot, klists = \<lparr>lnext = id, lprev = id\<rparr>, inode_at = (\<lambda>_. inode_zero),
      dentry_at = (\<lambda>_. dentry_zero), file_at = (\<lambda>_. file_zero),
      sb_at = (\<lambda>_. \<lparr>s_blocksize = 0, s_magic = 0, s_root = 0, s_type = 0, s_rdonly = False\<rparr>),
      fs_at = (\<lambda>_. \<lparr>fs_name = []\<rparr>), mount_at = (\<lambda>_. \<lparr>mnt_point = 0, mnt_sb = 0, mnt_devname = [], mnt_fstype = []\<rparr>),
      ri_at = (\<lambda>_. ri_zero), proc_at = (\<lambda>_. proc_zero), str_at = (\<lambda>_. []),
      pipe_at = (\<lambda>_. \<lparr>buf = [], head = 0, tail = 0, psize = 0, capacity = 0, readers = 0, writers = 0\<rparr>),
      task_at = (\<lambda>_. task_zero), files_at = (\<lambda>_. \<lparr>max_fds = 0, fd_array = 0, close_on_exec = []\<rparr>),
      fd_at = (\<lambda>_. []), signal_at = (\<lambda>_. \<lparr>pending = 0, actions = []\<rparr>),
      vfs_root = 0, current = 0, kernel_task = 0xC0140000, ramfs_sb = 0xC0150000, procfs_sb = 0xC0151000, inode_cache = 0, dentry_cache = 0,
      file_cache = 0, task_cache = 0, signal_cache = 0, files_cache = 0, next_pid = 1, wait_q_init = False,
      next_ino = 2, jiffies = 0, uptime_s = 0\<rparr>"

text \<open>
  A kernel function takes the state and returns a result and the new state; \<open>None\<close> when it does not
  return: a list walk that does not end, a panic, or an access through a null pointer.
\<close>

type_synonym 'a kfun = "kernel \<Rightarrow> ('a \<times> kernel) option"

definition heap :: "kernel \<Rightarrow> kheap" where
  "heap s = kheap_of (sl (kmm s))"

definition set_heap :: "kheap \<Rightarrow> kernel \<Rightarrow> kernel" where
  "set_heap h s = s\<lparr>kmm := (kmm s)\<lparr>sl := (sl (kmm s))\<lparr>kheap_of := h\<rparr>\<rparr>\<rparr>"

definition set_lists :: "(knode list_store \<Rightarrow> knode list_store) \<Rightarrow> kernel \<Rightarrow> kernel" where
  "set_lists f s = s\<lparr>klists := f (klists s)\<rparr>"

definition upd_inode :: "uptr \<Rightarrow> (inode \<Rightarrow> inode) \<Rightarrow> kernel \<Rightarrow> kernel" where
  "upd_inode i f s = s\<lparr>inode_at := (inode_at s)(i := f (inode_at s i))\<rparr>"

definition upd_dentry :: "uptr \<Rightarrow> (dentry \<Rightarrow> dentry) \<Rightarrow> kernel \<Rightarrow> kernel" where
  "upd_dentry d f s = s\<lparr>dentry_at := (dentry_at s)(d := f (dentry_at s d))\<rparr>"

definition upd_file :: "uptr \<Rightarrow> (file_struct \<Rightarrow> file_struct) \<Rightarrow> kernel \<Rightarrow> kernel" where
  "upd_file p f s = s\<lparr>file_at := (file_at s)(p := f (file_at s p))\<rparr>"

definition upd_ri :: "uptr \<Rightarrow> (ramfs_inode \<Rightarrow> ramfs_inode) \<Rightarrow> kernel \<Rightarrow> kernel" where
  "upd_ri p f s = s\<lparr>ri_at := (ri_at s)(p := f (ri_at s p))\<rparr>"

definition upd_task :: "uptr \<Rightarrow> (task_struct \<Rightarrow> task_struct) \<Rightarrow> kernel \<Rightarrow> kernel" where
  "upd_task t f s = s\<lparr>task_at := (task_at s)(t := f (task_at s t))\<rparr>"

definition upd_signal :: "uptr \<Rightarrow> (signal_struct \<Rightarrow> signal_struct) \<Rightarrow> kernel \<Rightarrow> kernel" where
  "upd_signal p f s = s\<lparr>signal_at := (signal_at s)(p := f (signal_at s p))\<rparr>"

definition upd_fd :: "uptr \<Rightarrow> nat \<Rightarrow> uptr \<Rightarrow> kernel \<Rightarrow> kernel" where
  "upd_fd a i f s = s\<lparr>fd_at := (fd_at s)(a := (fd_at s a)[i := f])\<rparr>"

text \<open>Objects of a cache and blocks of the heap.\<close>

definition kobj_alloc :: "uptr \<Rightarrow> uptr kfun" where
  "kobj_alloc c s = do { (p, m) \<leftarrow> cache_alloc c (kmm s); Some (p, s\<lparr>kmm := m\<rparr>) }"

definition kobj_free :: "uptr \<Rightarrow> uptr \<Rightarrow> kernel \<Rightarrow> kernel option" where
  "kobj_free c p s = do { m \<leftarrow> cache_free c p (kmm s); Some (s\<lparr>kmm := m\<rparr>) }"

definition kern_malloc :: "u32 \<Rightarrow> uptr kfun" where
  "kern_malloc n s = do { (p, h) \<leftarrow> kmalloc n (heap s); Some (p, set_heap h s) }"

definition kern_free :: "uptr \<Rightarrow> kernel \<Rightarrow> kernel" where
  "kern_free p s = set_heap (kfree p (heap s)) s"

text \<open>A walk of a list that stops at the first node with \<open>P\<close>; \<open>None\<close> inside when there is none.\<close>

partial_function (option) list_search :: "knode list_store \<Rightarrow> knode \<Rightarrow> (knode \<Rightarrow> bool) \<Rightarrow> knode \<Rightarrow> knode option option" where
  "list_search st h P pos =
     (if pos = h then Some None
      else if P pos then Some (Some pos)
      else list_search st h P (lnext st pos))"

definition list_find :: "knode list_store \<Rightarrow> knode \<Rightarrow> (knode \<Rightarrow> bool) \<Rightarrow> knode option option" where
  "list_find st h P = list_search st h P (lnext st h)"

lemma list_search_fpath:
  assumes "fpath (lnext st) p xs h" and "h \<notin> set xs"
  shows "list_search st h P (lnext st p) = Some (find P xs)"
  using assms
proof (induction xs arbitrary: p)
  case Nil
  then show ?case by (simp add: list_search.simps)
next
  case (Cons x xs)
  then have "lnext st p = x" "fpath (lnext st) x xs h" "x \<noteq> h" "h \<notin> set xs" by auto
  with Cons.IH [of x] show ?case by (simp add: list_search.simps [of _ _ _ x])
qed

lemma list_find_eq: "is_list st h xs \<Longrightarrow> list_find st h P = Some (find P xs)"
  unfolding list_find_def is_list_def by (intro list_search_fpath dseg_fpath) auto

text \<open>Reading and writing the stores.\<close>

lemmas kupd_defs = upd_inode_def upd_dentry_def upd_file_def upd_ri_def upd_task_def upd_signal_def upd_fd_def set_lists_def

end
