(* ===== verification/Vfs.thy ===== *)
theory Vfs
  imports Kernel
begin

text \<open>
  The virtual file system, after \<^verbatim>\<open>fs/vfs.c\<close>, with the descriptor tables of \<^verbatim>\<open>kernel/process.c\<close> and the
  creation of pipes of \<^verbatim>\<open>fs/pipe.c\<close>: reference-counted inodes, dentries and files, path resolution
  through the tree of dentries, opening, reading and writing, directory operations, mounts, and the
  system calls on descriptors.  What a file system supplies through its tables of function pointers is
  a record of operations that the functions here take as a parameter.
\<close>

section \<open>Constants\<close>

definition S_IFMT :: u32 where "S_IFMT = 0xF000"
definition S_IFLNK :: u32 where "S_IFLNK = 0xA000"
definition S_IFREG :: u32 where "S_IFREG = 0x8000"
definition S_IFBLK :: u32 where "S_IFBLK = 0x6000"
definition S_IFDIR :: u32 where "S_IFDIR = 0x4000"
definition S_IFCHR :: u32 where "S_IFCHR = 0x2000"
definition S_IFIFO :: u32 where "S_IFIFO = 0x1000"
definition S_ISREG :: "u32 \<Rightarrow> bool" where "S_ISREG m \<longleftrightarrow> m AND S_IFMT = S_IFREG"
definition S_ISDIR :: "u32 \<Rightarrow> bool" where "S_ISDIR m \<longleftrightarrow> m AND S_IFMT = S_IFDIR"
definition S_ISCHR :: "u32 \<Rightarrow> bool" where "S_ISCHR m \<longleftrightarrow> m AND S_IFMT = S_IFCHR"
definition S_ISBLK :: "u32 \<Rightarrow> bool" where "S_ISBLK m \<longleftrightarrow> m AND S_IFMT = S_IFBLK"
definition S_ISFIFO :: "u32 \<Rightarrow> bool" where "S_ISFIFO m \<longleftrightarrow> m AND S_IFMT = S_IFIFO"
definition S_ISLNK :: "u32 \<Rightarrow> bool" where "S_ISLNK m \<longleftrightarrow> m AND S_IFMT = S_IFLNK"
definition O_RDONLY :: u32 where "O_RDONLY = 0"
definition O_WRONLY :: u32 where "O_WRONLY = 1"
definition O_RDWR :: u32 where "O_RDWR = 2"
definition O_CREAT :: u32 where "O_CREAT = 0x40"
definition O_EXCL :: u32 where "O_EXCL = 0x80"
definition O_TRUNC :: u32 where "O_TRUNC = 0x200"
definition O_APPEND :: u32 where "O_APPEND = 0x400"
definition NAME_MAX :: nat where "NAME_MAX = 255"
definition PATH_MAX :: nat where "PATH_MAX = 4096"
definition OPEN_MAX :: nat where "OPEN_MAX = 1024"

datatype whence = SEEK_SET | SEEK_CUR | SEEK_END | SEEK_OTHER

section \<open>Operations of file systems and devices\<close>

text \<open>
  \<^verbatim>\<open>struct inode_ops\<close> and \<^verbatim>\<open>struct file_ops\<close>: a null function pointer is \<open>None\<close>.  Reading and writing
  take a position and return the position after them.
\<close>

record inode_ops =
  op_lookup :: "(uptr \<Rightarrow> uptr \<Rightarrow> errno option kfun) option"
  op_create :: "(uptr \<Rightarrow> uptr \<Rightarrow> u32 \<Rightarrow> errno option kfun) option"
  op_mkdir :: "(uptr \<Rightarrow> uptr \<Rightarrow> u32 \<Rightarrow> errno option kfun) option"
  op_rmdir :: "(uptr \<Rightarrow> uptr \<Rightarrow> errno option kfun) option"
  op_unlink :: "(uptr \<Rightarrow> uptr \<Rightarrow> errno option kfun) option"
  op_rename :: "(uptr \<Rightarrow> uptr \<Rightarrow> uptr \<Rightarrow> uptr \<Rightarrow> errno option kfun) option"
  op_link :: "(uptr \<Rightarrow> uptr \<Rightarrow> uptr \<Rightarrow> errno option kfun) option"
  op_symlink :: "(uptr \<Rightarrow> uptr \<Rightarrow> string \<Rightarrow> errno option kfun) option"
  op_readlink :: "(uptr \<Rightarrow> nat \<Rightarrow> (errno + string) kfun) option"
  op_mknod :: "(uptr \<Rightarrow> uptr \<Rightarrow> u32 \<Rightarrow> u32 \<Rightarrow> errno option kfun) option"
  op_truncate :: "(uptr \<Rightarrow> off_t \<Rightarrow> errno option kfun) option"
  op_chmod :: "(uptr \<Rightarrow> u32 \<Rightarrow> errno option kfun) option"
  op_chown :: "(uptr \<Rightarrow> u32 \<Rightarrow> u32 \<Rightarrow> errno option kfun) option"
  op_getattr :: "(uptr \<Rightarrow> (errno + stat) kfun) option"

record file_ops =
  op_open :: "(uptr \<Rightarrow> uptr \<Rightarrow> errno option kfun) option"
  op_release :: "(uptr \<Rightarrow> uptr \<Rightarrow> kernel \<Rightarrow> kernel option) option"
  op_read :: "(uptr \<Rightarrow> u32 \<Rightarrow> off_t \<Rightarrow> ((errno + u8 list) \<times> off_t) kfun) option"
  op_write :: "(uptr \<Rightarrow> u8 list \<Rightarrow> off_t \<Rightarrow> ((errno + nat) \<times> off_t) kfun) option"
  op_lseek :: "(uptr \<Rightarrow> off_t \<Rightarrow> whence \<Rightarrow> (errno + off_t) kfun) option"
  op_readdir :: "(uptr \<Rightarrow> int \<Rightarrow> (errno + dirent list) kfun) option"
  op_ioctl :: "(uptr \<Rightarrow> u32 \<Rightarrow> uptr \<Rightarrow> (errno + nat) kfun) option"

record vfs_ops =
  iops :: "iops_ref \<Rightarrow> inode_ops"
  fops :: "fops_ref \<Rightarrow> file_ops"
  free_inode :: "uptr \<Rightarrow> (uptr \<Rightarrow> kernel \<Rightarrow> kernel option) option"
  fs_mount :: "uptr \<Rightarrow> uptr kfun"
  fs_umount :: "uptr \<Rightarrow> (uptr \<Rightarrow> kernel \<Rightarrow> kernel option) option"

definition no_iops :: inode_ops where
  "no_iops = \<lparr>op_lookup = None, op_create = None, op_mkdir = None, op_rmdir = None, op_unlink = None, op_rename = None,
     op_link = None, op_symlink = None, op_readlink = None, op_mknod = None, op_truncate = None, op_chmod = None,
     op_chown = None, op_getattr = None\<rparr>"

definition no_fops :: file_ops where
  "no_fops = \<lparr>op_open = None, op_release = None, op_read = None, op_write = None, op_lseek = None,
     op_readdir = None, op_ioctl = None\<rparr>"

text \<open>The table behind a pointer; a null pointer has none of the operations.\<close>

definition iops_of :: "vfs_ops \<Rightarrow> uptr \<Rightarrow> kernel \<Rightarrow> inode_ops" where
  "iops_of ops i s = (if i_ops (inode_at s i) = NoIops then no_iops else iops ops (i_ops (inode_at s i)))"

definition fops_of :: "vfs_ops \<Rightarrow> uptr \<Rightarrow> kernel \<Rightarrow> file_ops" where
  "fops_of ops f s = (if f_ops (file_at s f) = NoFops then no_fops else fops ops (f_ops (file_at s f)))"

section \<open>Inodes, dentries, files\<close>

definition init_waitqueue_head :: "waitq \<Rightarrow> kernel \<Rightarrow> kernel" where
  "init_waitqueue_head q s = set_lists (list_init (WaitHead q)) s"

definition inode_alloc :: "uptr \<Rightarrow> uptr kfun" where
  "inode_alloc sb s =
     do {
       (i, s) \<leftarrow> kobj_alloc (inode_cache s) s;
       if i = 0 then Some (0, s)
       else let s = upd_inode i (\<lambda>_. inode_zero\<lparr>i_sb := sb, i_refcount := 1\<rparr>) s;
                s = set_lists (list_init (InodeLink i)) s;
                s = init_waitqueue_head (InodeWait i) s
            in Some (i, if sb \<noteq> 0 then set_lists (list_add_tail (InodeLink i) (SbInodes sb)) s else s)
     }"

definition inode_free :: "vfs_ops \<Rightarrow> uptr \<Rightarrow> kernel \<Rightarrow> kernel option" where
  "inode_free ops i s =
     (let s = set_lists (list_del (InodeLink i)) s
      in case (if i_sb (inode_at s i) = 0 then None else free_inode ops (i_sb (inode_at s i))) of
           Some f \<Rightarrow> f i s
         | None \<Rightarrow> kobj_free (inode_cache s) i s)"

definition inode_get :: "uptr \<Rightarrow> kernel \<Rightarrow> kernel" where
  "inode_get i s = (if i = 0 then s else upd_inode i (\<lambda>x. x\<lparr>i_refcount := i_refcount x + 1\<rparr>) s)"

definition inode_put :: "vfs_ops \<Rightarrow> uptr \<Rightarrow> kernel \<Rightarrow> kernel option" where
  "inode_put ops i s =
     (if i = 0 then Some s
      else let s = upd_inode i (\<lambda>x. x\<lparr>i_refcount := i_refcount x - 1\<rparr>) s
           in if i_refcount (inode_at s i) = 0 then inode_free ops i s else Some s)"

definition dentry_alloc :: "string \<Rightarrow> uptr \<Rightarrow> uptr kfun" where
  "dentry_alloc name par s =
     do {
       (de, s) \<leftarrow> kobj_alloc (dentry_cache s) s;
       if de = 0 then Some (0, s)
       else let s = upd_dentry de (\<lambda>_. dentry_zero\<lparr>d_name := take NAME_MAX name, d_parent := par, d_refcount := 1\<rparr>) s;
                s = set_lists (list_init (DLru de) \<circ> list_init (DSibling de) \<circ> list_init (DChildren de)) s
            in if par = 0 then Some (de, s)
               else let s = set_lists (list_add_tail (DSibling de) (DChildren par)) s
                    in Some (de, upd_dentry de (\<lambda>x. x\<lparr>d_sb := d_sb (dentry_at s par)\<rparr>) s)
     }"

definition dentry_free :: "vfs_ops \<Rightarrow> uptr \<Rightarrow> kernel \<Rightarrow> kernel option" where
  "dentry_free ops de s =
     do {
       let s = set_lists (list_del (DSibling de)) s;
       s \<leftarrow> (if d_inode (dentry_at s de) \<noteq> 0 then inode_put ops (d_inode (dentry_at s de)) s else Some s);
       kobj_free (dentry_cache s) de s
     }"

definition dentry_get :: "uptr \<Rightarrow> kernel \<Rightarrow> kernel" where
  "dentry_get de s = (if de = 0 then s else upd_dentry de (\<lambda>x. x\<lparr>d_refcount := d_refcount x + 1\<rparr>) s)"

definition dentry_put :: "vfs_ops \<Rightarrow> uptr \<Rightarrow> kernel \<Rightarrow> kernel option" where
  "dentry_put ops de s =
     (if de = 0 then Some s
      else let s = upd_dentry de (\<lambda>x. x\<lparr>d_refcount := d_refcount x - 1\<rparr>) s
           in if d_refcount (dentry_at s de) = 0 then dentry_free ops de s else Some s)"

text \<open>\<^verbatim>\<open>list_entry(pos, struct dentry, d_sibling)\<close>, applied to sibling links only.\<close>

fun dentry_of :: "knode \<Rightarrow> uptr" where
  "dentry_of (DSibling d) = d"
| "dentry_of _ = 0"

definition dentry_lookup_child :: "uptr \<Rightarrow> string \<Rightarrow> kernel \<Rightarrow> uptr option" where
  "dentry_lookup_child par name s =
     do {
       _ \<leftarrow> (if par = 0 then None else Some ());
       r \<leftarrow> list_find (klists s) (DChildren par) (\<lambda>n. d_name (dentry_at s (dentry_of n)) = name);
       Some (case r of None \<Rightarrow> 0 | Some n \<Rightarrow> dentry_of n)
     }"

definition file_alloc :: "uptr kfun" where
  "file_alloc s =
     do {
       (f, s) \<leftarrow> kobj_alloc (file_cache s) s;
       if f = 0 then Some (0, s)
       else Some (f, init_waitqueue_head (FileWait f) (upd_file f (\<lambda>_. file_zero\<lparr>f_refcount := 1\<rparr>) s))
     }"

definition file_free :: "vfs_ops \<Rightarrow> uptr \<Rightarrow> kernel \<Rightarrow> kernel option" where
  "file_free ops f s =
     do {
       let de = f_dentry (file_at s f);
       s \<leftarrow> (case op_release (fops_of ops f s) of
              Some rel \<Rightarrow> if de \<noteq> 0 then rel (d_inode (dentry_at s de)) f s else Some s
            | None \<Rightarrow> Some s);
       s \<leftarrow> (if f_dentry (file_at s f) \<noteq> 0 then dentry_put ops (f_dentry (file_at s f)) s else Some s);
       kobj_free (file_cache s) f s
     }"

definition file_get :: "uptr \<Rightarrow> kernel \<Rightarrow> kernel" where
  "file_get f s = (if f = 0 then s else upd_file f (\<lambda>x. x\<lparr>f_refcount := f_refcount x + 1\<rparr>) s)"

definition file_put :: "vfs_ops \<Rightarrow> uptr \<Rightarrow> kernel \<Rightarrow> kernel option" where
  "file_put ops f s =
     (if f = 0 then Some s
      else let s = upd_file f (\<lambda>x. x\<lparr>f_refcount := f_refcount x - 1\<rparr>) s
           in if f_refcount (file_at s f) = 0 then file_free ops f s else Some s)"

section \<open>Registered file systems\<close>

definition register_filesystem :: "uptr \<Rightarrow> kernel \<Rightarrow> kernel" where
  "register_filesystem fs s = set_lists (list_add_tail (FsLink fs) FsTypes) s"

definition unregister_filesystem :: "uptr \<Rightarrow> kernel \<Rightarrow> kernel" where
  "unregister_filesystem fs s = set_lists (list_del (FsLink fs)) s"

fun fs_of :: "knode \<Rightarrow> uptr" where
  "fs_of (FsLink fs) = fs"
| "fs_of _ = 0"

definition find_fs :: "string \<Rightarrow> kernel \<Rightarrow> uptr option" where
  "find_fs name s =
     do {
       r \<leftarrow> list_find (klists s) FsTypes (\<lambda>n. fs_name (fs_at s (fs_of n)) = name);
       Some (case r of None \<Rightarrow> 0 | Some n \<Rightarrow> fs_of n)
     }"

section \<open>Path resolution\<close>

text \<open>The dentry a path starts from, with a reference to it, and the path that is left.\<close>

definition lookup_start :: "string \<Rightarrow> uptr \<Rightarrow> kernel \<Rightarrow> uptr \<times> string \<times> kernel" where
  "lookup_start path c s =
     (if path \<noteq> [] \<and> hd path = CHR ''/'' then (vfs_root s, List.tl path, dentry_get (vfs_root s) s)
      else let de = (if c \<noteq> 0 then c else if current s \<noteq> 0 then cwd (task_at s (current s)) else vfs_root s)
           in (de, path, dentry_get de s))"

text \<open>
  One component: the child is taken from the dentries that are there, with a new reference, or made and
  offered to the file system.  On an error the references to the child and to the directory are given back.
\<close>

definition lookup_component :: "vfs_ops \<Rightarrow> uptr \<Rightarrow> string \<Rightarrow> (errno + uptr) kfun" where
  "lookup_component ops de component s =
     do {
       child \<leftarrow> dentry_lookup_child de component s;
       if child \<noteq> 0 then Some (Inr child, dentry_get child s)
       else do {
         (child, s) \<leftarrow> dentry_alloc component de s;
         if child = 0 then do { s \<leftarrow> dentry_put ops de s; Some (Inl ENOMEM, s) }
         else case op_lookup (iops_of ops (d_inode (dentry_at s de)) s) of
           None \<Rightarrow> do { s \<leftarrow> dentry_put ops child s; s \<leftarrow> dentry_put ops de s; Some (Inl ENOENT, s) }
         | Some lookup \<Rightarrow>
             do {
               (r, s) \<leftarrow> lookup (d_inode (dentry_at s de)) child s;
               (case r of
                  Some e \<Rightarrow> do { s \<leftarrow> dentry_put ops child s; s \<leftarrow> dentry_put ops de s; Some (Inl e, s) }
                | None \<Rightarrow> Some (Inr child, s))
             }
       }
     }"

text \<open>The target of a symbolic link; on an error the reference to the link is given back.\<close>

definition lookup_link :: "vfs_ops \<Rightarrow> uptr \<Rightarrow> (errno + string) kfun" where
  "lookup_link ops de s =
     (case op_readlink (iops_of ops (d_inode (dentry_at s de)) s) of
        None \<Rightarrow> do { s \<leftarrow> dentry_put ops de s; Some (Inl EINVAL, s) }
      | Some readlink \<Rightarrow>
          do {
            (r, s) \<leftarrow> readlink (d_inode (dentry_at s de)) PATH_MAX s;
            (case r of
               Inl e \<Rightarrow> do { s \<leftarrow> dentry_put ops de s; Some (Inl e, s) }
             | Inr lnk \<Rightarrow> Some (Inr lnk, s))
          })"

text \<open>
  The loop of \<^verbatim>\<open>vfs_lookup\<close>.  A component of more than \<^verbatim>\<open>NAME_MAX\<close> characters is written past the end of
  the buffer on the stack, which the model does not follow: no result.  The call for a symbolic link is
  written out as the start of its path and the loop.
\<close>

partial_function (option) vfs_walk :: "vfs_ops \<Rightarrow> uptr \<Rightarrow> string \<Rightarrow> kernel \<Rightarrow> ((errno + uptr) \<times> kernel) option" where
  "vfs_walk ops de path s =
     (let path = dropWhile (\<lambda>c. c = CHR ''/'') path;
          component = takeWhile (\<lambda>c. c \<noteq> CHR ''/'') path;
          rest = dropWhile (\<lambda>c. c \<noteq> CHR ''/'') path
      in if path = [] then Some (Inr de, s)
         else if length component > NAME_MAX then None
         else if component = ''.'' then vfs_walk ops de rest s
         else if de = 0 then None
         else if component = ''..''
         then if d_parent (dentry_at s de) \<noteq> 0
              then let par = d_parent (dentry_at s de)
                   in do { s \<leftarrow> dentry_put ops de (dentry_get par s); vfs_walk ops par rest s }
              else vfs_walk ops de rest s
         else let de = (if d_mounted (dentry_at s de) \<and> d_mountpoint (dentry_at s de) \<noteq> 0
                        then d_mountpoint (dentry_at s de) else de);
                  ino = d_inode (dentry_at s de)
         in if ino = 0 then do { s \<leftarrow> dentry_put ops de s; Some (Inl ENOENT, s) }
            else if \<not> S_ISDIR (i_mode (inode_at s ino)) then do { s \<leftarrow> dentry_put ops de s; Some (Inl ENOTDIR, s) }
            else do {
              (r, s) \<leftarrow> lookup_component ops de component s;
              (case r of
                 Inl e \<Rightarrow> Some (Inl e, s)
               | Inr child \<Rightarrow>
                   do {
                     s \<leftarrow> dentry_put ops de s;
                     if d_inode (dentry_at s child) \<noteq> 0 \<and> S_ISLNK (i_mode (inode_at s (d_inode (dentry_at s child)))) \<and> rest \<noteq> []
                     then do {
                       (r, s) \<leftarrow> lookup_link ops child s;
                       (case r of
                          Inl e \<Rightarrow> Some (Inl e, s)
                        | Inr lnk \<Rightarrow>
                            if lnk = [] then do { s \<leftarrow> dentry_put ops child s; Some (Inl EINVAL, s) }
                            else case lookup_start lnk (d_parent (dentry_at s child)) s of
                              (de, lpath, s) \<Rightarrow>
                                do {
                                  (r, s) \<leftarrow> vfs_walk ops de lpath s;
                                  s \<leftarrow> dentry_put ops child s;
                                  (case r of Inl e \<Rightarrow> Some (Inl e, s) | Inr lde \<Rightarrow> vfs_walk ops lde rest s)
                                })
                     }
                     else vfs_walk ops child rest s
                   })
            })"

text \<open>\<^verbatim>\<open>vfs_lookup\<close>; a null path is treated like an empty one.\<close>

definition vfs_lookup :: "vfs_ops \<Rightarrow> string \<Rightarrow> uptr \<Rightarrow> (errno + uptr) kfun" where
  "vfs_lookup ops path c s =
     (if path = [] then Some (Inl EINVAL, s)
      else case lookup_start path c s of (de, path, s) \<Rightarrow> vfs_walk ops de path s)"

text \<open>The part of a path before its last slash and the part after it, \<open>None\<close> when it has no slash.\<close>

definition split_last_slash :: "string \<Rightarrow> (string \<times> string) option" where
  "split_last_slash path =
     (if CHR ''/'' \<in> set path
      then let name = rev (takeWhile (\<lambda>c. c \<noteq> CHR ''/'') (rev path))
           in Some (take (length path - length name - 1) path, name)
      else None)"

text \<open>
  The final component of a path is copied by \<^verbatim>\<open>strncpy\<close> into a fresh buffer, which is not terminated
  when the component has \<^verbatim>\<open>NAME_MAX\<close> characters or more: no result.
\<close>

definition copy_name :: "string \<Rightarrow> string option" where
  "copy_name n = (if length n < NAME_MAX then Some n else None)"

definition vfs_lookup_parent :: "vfs_ops \<Rightarrow> string \<Rightarrow> uptr \<Rightarrow> (errno + uptr \<times> string) kfun" where
  "vfs_lookup_parent ops path c s =
     (case split_last_slash path of
        None \<Rightarrow>
          do {
            par \<leftarrow> (if c \<noteq> 0 then Some c else if current s = 0 then None else Some (cwd (task_at s (current s))));
            name \<leftarrow> copy_name path;
            Some (Inr (par, name), dentry_get par s)
          }
      | Some (dir, name) \<Rightarrow>
          if dir = [] then do { name \<leftarrow> copy_name name; Some (Inr (vfs_root s, name), dentry_get (vfs_root s) s) }
          else if length dir \<ge> 4096 then Some (Inl ENAMETOOLONG, s)
          else do {
            name \<leftarrow> copy_name name;
            (r, s) \<leftarrow> vfs_lookup ops dir c s;
            (case r of Inl e \<Rightarrow> Some (Inl e, s) | Inr par \<Rightarrow> Some (Inr (par, name), s))
          })"

section \<open>Opening and using files\<close>

text \<open>The dentry to open: the first half of \<^verbatim>\<open>vfs_open\<close>, \<open>None\<close> inside when it gives up.\<close>

definition open_dentry :: "vfs_ops \<Rightarrow> string \<Rightarrow> u32 \<Rightarrow> u32 \<Rightarrow> uptr option kfun" where
  "open_dentry ops path flags mode s =
     (if flags AND O_CREAT \<noteq> 0
      then do {
        (r, s) \<leftarrow> vfs_lookup_parent ops path 0 s;
        (case r of
           Inl _ \<Rightarrow> Some (None, s)
         | Inr (par, name) \<Rightarrow>
             if par = 0 then None
             else do {
               de \<leftarrow> dentry_lookup_child par name s;
               if de = 0
               then do {
                 (de, s) \<leftarrow> dentry_alloc name par s;
                 if de = 0 then do { s \<leftarrow> dentry_put ops par s; Some (None, s) }
                 else if d_inode (dentry_at s par) = 0 then None
                 else case op_create (iops_of ops (d_inode (dentry_at s par)) s) of
                   None \<Rightarrow> do { s \<leftarrow> dentry_put ops de s; s \<leftarrow> dentry_put ops par s; Some (None, s) }
                 | Some create \<Rightarrow>
                     do {
                       (r, s) \<leftarrow> create (d_inode (dentry_at s par)) de mode s;
                       (case r of
                          Some _ \<Rightarrow> do { s \<leftarrow> dentry_put ops de s; s \<leftarrow> dentry_put ops par s; Some (None, s) }
                        | None \<Rightarrow> do { s \<leftarrow> dentry_put ops par s; Some (Some de, s) })
                     }
               }
               else if flags AND O_EXCL \<noteq> 0
               then do { s \<leftarrow> dentry_put ops de s; s \<leftarrow> dentry_put ops par s; Some (None, s) }
               else do { s \<leftarrow> dentry_put ops par s; Some (Some de, s) }
             })
      }
      else do {
        (r, s) \<leftarrow> vfs_lookup ops path 0 s;
        Some (case r of Inl _ \<Rightarrow> None | Inr de \<Rightarrow> Some de, s)
      })"

text \<open>\<^verbatim>\<open>vfs_open\<close> returns the file, 0 when it fails.\<close>

definition vfs_open :: "vfs_ops \<Rightarrow> string \<Rightarrow> u32 \<Rightarrow> u32 \<Rightarrow> uptr kfun" where
  "vfs_open ops path flags mode s =
     do {
       (d, s) \<leftarrow> open_dentry ops path flags mode s;
       (case d of
          None \<Rightarrow> Some (0, s)
        | Some de \<Rightarrow>
            if de = 0 then None
            else let i = d_inode (dentry_at s de)
            in if i = 0 then do { s \<leftarrow> dentry_put ops de s; Some (0, s) }
               else if (flags AND O_WRONLY \<noteq> 0 \<or> flags AND O_RDWR \<noteq> 0) \<and> S_ISDIR (i_mode (inode_at s i))
               then do { s \<leftarrow> dentry_put ops de s; Some (0, s) }
               else do {
                 (f, s) \<leftarrow> file_alloc s;
                 if f = 0 then do { s \<leftarrow> dentry_put ops de s; Some (0, s) }
                 else do {
                   let s = upd_file f (\<lambda>x. x\<lparr>f_dentry := de, f_ops := i_fops (inode_at s i), f_flags := flags, f_pos := 0\<rparr>) s;
                   s \<leftarrow> (case op_truncate (iops_of ops i s) of
                          Some trunc \<Rightarrow> if flags AND O_TRUNC \<noteq> 0 then map_option snd (trunc i 0 s) else Some s
                        | None \<Rightarrow> Some s);
                   let s = (if flags AND O_APPEND \<noteq> 0 then upd_file f (\<lambda>x. x\<lparr>f_pos := i_size (inode_at s i)\<rparr>) s else s);
                   (case op_open (fops_of ops f s) of
                      None \<Rightarrow> Some (f, s)
                    | Some opn \<Rightarrow>
                        do {
                          (r, s) \<leftarrow> opn i f s;
                          (case r of
                             None \<Rightarrow> Some (f, s)
                           | Some _ \<Rightarrow> do { s \<leftarrow> file_free ops f s; Some (0, s) })
                        })
                 }
               })
     }"

definition vfs_close :: "vfs_ops \<Rightarrow> uptr \<Rightarrow> kernel \<Rightarrow> kernel option" where
  "vfs_close ops f s = file_put ops f s"

definition vfs_read :: "vfs_ops \<Rightarrow> uptr \<Rightarrow> u32 \<Rightarrow> (errno + u8 list) kfun" where
  "vfs_read ops f count s =
     (case op_read (fops_of ops f s) of
        None \<Rightarrow> Some (Inl EINVAL, s)
      | Some rd \<Rightarrow>
          if \<not> (f_flags (file_at s f) = O_RDONLY \<or> f_flags (file_at s f) AND O_RDWR \<noteq> 0) then Some (Inl EBADF, s)
          else do {
            ((r, p), s) \<leftarrow> rd f count (f_pos (file_at s f)) s;
            Some (r, upd_file f (\<lambda>x. x\<lparr>f_pos := p\<rparr>) s)
          })"

definition vfs_write :: "vfs_ops \<Rightarrow> uptr \<Rightarrow> u8 list \<Rightarrow> (errno + nat) kfun" where
  "vfs_write ops f bytes s =
     (case op_write (fops_of ops f s) of
        None \<Rightarrow> Some (Inl EINVAL, s)
      | Some wr \<Rightarrow>
          if f_flags (file_at s f) = O_RDONLY then Some (Inl EBADF, s)
          else do {
            ((r, p), s) \<leftarrow> wr f bytes (f_pos (file_at s f)) s;
            Some (r, upd_file f (\<lambda>x. x\<lparr>f_pos := p\<rparr>) s)
          })"

definition vfs_lseek :: "vfs_ops \<Rightarrow> uptr \<Rightarrow> off_t \<Rightarrow> whence \<Rightarrow> (errno + off_t) kfun" where
  "vfs_lseek ops f offset w s =
     (case op_lseek (fops_of ops f s) of
        Some ls \<Rightarrow> ls f offset w s
      | None \<Rightarrow>
          let i = d_inode (dentry_at s (f_dentry (file_at s f)));
              new = (case w of
                 SEEK_SET \<Rightarrow> Some offset
               | SEEK_CUR \<Rightarrow> Some (f_pos (file_at s f) + offset)
               | SEEK_END \<Rightarrow> Some (i_size (inode_at s i) + offset)
               | SEEK_OTHER \<Rightarrow> None)
          in case new of
               None \<Rightarrow> Some (Inl EINVAL, s)
             | Some p \<Rightarrow> Some (Inr (max 0 p), upd_file f (\<lambda>x. x\<lparr>f_pos := max 0 p\<rparr>) s))"

definition vfs_fstat_inode :: "vfs_ops \<Rightarrow> uptr \<Rightarrow> (errno + stat) kfun" where
  "vfs_fstat_inode ops i s =
     (case op_getattr (iops_of ops i s) of
        Some getattr \<Rightarrow> getattr i s
      | None \<Rightarrow>
          let x = inode_at s i
          in Some (Inr \<lparr>st_ino = i_ino x, st_mode = i_mode x, st_nlink = i_nlink x, st_uid = i_uid x, st_gid = i_gid x,
               st_rdev = i_rdev x, st_size = i_size x, st_blksize = PAGE_SIZE, st_blocks = of_int ((i_size x + 511) div 512),
               st_atime = i_atime x, st_mtime = i_mtime x, st_ctime = i_ctime x\<rparr>, s))"

definition vfs_stat :: "vfs_ops \<Rightarrow> string \<Rightarrow> (errno + stat) kfun" where
  "vfs_stat ops path s =
     do {
       (r, s) \<leftarrow> vfs_lookup ops path 0 s;
       (case r of
          Inl e \<Rightarrow> Some (Inl e, s)
        | Inr de \<Rightarrow>
            if de = 0 \<or> d_inode (dentry_at s de) = 0 then None
            else do {
              (r, s) \<leftarrow> vfs_fstat_inode ops (d_inode (dentry_at s de)) s;
              s \<leftarrow> dentry_put ops de s;
              Some (r, s)
            })
     }"

definition vfs_fstat :: "vfs_ops \<Rightarrow> uptr \<Rightarrow> (errno + stat) kfun" where
  "vfs_fstat ops f s =
     (let de = f_dentry (file_at s f)
      in if de = 0 \<or> d_inode (dentry_at s de) = 0 then Some (Inl EBADF, s)
         else vfs_fstat_inode ops (d_inode (dentry_at s de)) s)"

definition vfs_readdir :: "vfs_ops \<Rightarrow> uptr \<Rightarrow> int \<Rightarrow> (errno + dirent list) kfun" where
  "vfs_readdir ops f count s =
     (case op_readdir (fops_of ops f s) of None \<Rightarrow> Some (Inl ENOTDIR, s) | Some rd \<Rightarrow> rd f count s)"

definition vfs_ioctl :: "vfs_ops \<Rightarrow> uptr \<Rightarrow> u32 \<Rightarrow> uptr \<Rightarrow> (errno + nat) kfun" where
  "vfs_ioctl ops f cmd arg s =
     (case op_ioctl (fops_of ops f s) of None \<Rightarrow> Some (Inl ENOTTY, s) | Some io \<Rightarrow> io f cmd arg s)"

section \<open>Directory operations\<close>

text \<open>The table of the inode of a dentry; a missing inode is an access through a null pointer.\<close>

definition dir_iops :: "vfs_ops \<Rightarrow> uptr \<Rightarrow> kernel \<Rightarrow> (uptr \<times> inode_ops) option" where
  "dir_iops ops de s =
     (if de = 0 \<or> d_inode (dentry_at s de) = 0 then None
      else Some (d_inode (dentry_at s de), iops_of ops (d_inode (dentry_at s de)) s))"

definition vfs_mkdir :: "vfs_ops \<Rightarrow> string \<Rightarrow> u32 \<Rightarrow> errno option kfun" where
  "vfs_mkdir ops path mode s =
     do {
       (r, s) \<leftarrow> vfs_lookup_parent ops path 0 s;
       (case r of
          Inl e \<Rightarrow> Some (Some e, s)
        | Inr (par, name) \<Rightarrow>
            do {
              (de, s) \<leftarrow> dentry_alloc name par s;
              if de = 0 then do { s \<leftarrow> dentry_put ops par s; Some (Some ENOMEM, s) }
              else do {
                (i, io) \<leftarrow> dir_iops ops par s;
                (case op_mkdir io of
                   None \<Rightarrow> do { s \<leftarrow> dentry_put ops de s; s \<leftarrow> dentry_put ops par s; Some (Some EPERM, s) }
                 | Some mkdir \<Rightarrow>
                     do {
                       (r, s) \<leftarrow> mkdir i de (mode OR S_IFDIR) s;
                       s \<leftarrow> dentry_put ops par s;
                       s \<leftarrow> (if r \<noteq> None then dentry_put ops de s else Some s);
                       Some (r, s)
                     })
              }
            })
     }"

definition vfs_unlink :: "vfs_ops \<Rightarrow> string \<Rightarrow> errno option kfun" where
  "vfs_unlink ops path s =
     do {
       (r, s) \<leftarrow> vfs_lookup_parent ops path 0 s;
       (case r of
          Inl e \<Rightarrow> Some (Some e, s)
        | Inr (par, name) \<Rightarrow>
            do {
              de \<leftarrow> dentry_lookup_child par name s;
              if de = 0 then do { s \<leftarrow> dentry_put ops par s; Some (Some ENOENT, s) }
              else if d_inode (dentry_at s de) = 0 then None
              else if S_ISDIR (i_mode (inode_at s (d_inode (dentry_at s de))))
              then do { s \<leftarrow> dentry_put ops par s; Some (Some EISDIR, s) }
              else do {
                (i, io) \<leftarrow> dir_iops ops par s;
                (case op_unlink io of
                   None \<Rightarrow> do { s \<leftarrow> dentry_put ops par s; Some (Some EPERM, s) }
                 | Some unlink \<Rightarrow> do { (r, s) \<leftarrow> unlink i de s; s \<leftarrow> dentry_put ops par s; Some (r, s) })
              }
            })
     }"

definition vfs_rmdir :: "vfs_ops \<Rightarrow> string \<Rightarrow> errno option kfun" where
  "vfs_rmdir ops path s =
     do {
       (r, s) \<leftarrow> vfs_lookup_parent ops path 0 s;
       (case r of
          Inl e \<Rightarrow> Some (Some e, s)
        | Inr (par, name) \<Rightarrow>
            do {
              de \<leftarrow> dentry_lookup_child par name s;
              if de = 0 then do { s \<leftarrow> dentry_put ops par s; Some (Some ENOENT, s) }
              else if \<not> list_empty (DChildren de) (klists s) then do { s \<leftarrow> dentry_put ops par s; Some (Some ENOTEMPTY, s) }
              else do {
                (i, io) \<leftarrow> dir_iops ops par s;
                (case op_rmdir io of
                   None \<Rightarrow> do { s \<leftarrow> dentry_put ops par s; Some (Some EPERM, s) }
                 | Some rmdir \<Rightarrow> do { (r, s) \<leftarrow> rmdir i de s; s \<leftarrow> dentry_put ops par s; Some (r, s) })
              }
            })
     }"

definition vfs_rename :: "vfs_ops \<Rightarrow> string \<Rightarrow> string \<Rightarrow> errno option kfun" where
  "vfs_rename ops oldpath newpath s =
     do {
       (r, s) \<leftarrow> vfs_lookup_parent ops oldpath 0 s;
       (case r of
          Inl e \<Rightarrow> Some (Some e, s)
        | Inr (opar, oname) \<Rightarrow>
            do {
              (r, s) \<leftarrow> vfs_lookup_parent ops newpath 0 s;
              (case r of
                 Inl e \<Rightarrow> do { s \<leftarrow> dentry_put ops opar s; Some (Some e, s) }
               | Inr (npar, nname) \<Rightarrow>
                   do {
                     ode \<leftarrow> dentry_lookup_child opar oname s;
                     if ode = 0
                     then do { s \<leftarrow> dentry_put ops opar s; s \<leftarrow> dentry_put ops npar s; Some (Some ENOENT, s) }
                     else do {
                       (nde, s) \<leftarrow> dentry_alloc nname npar s;
                       if nde = 0
                       then do { s \<leftarrow> dentry_put ops opar s; s \<leftarrow> dentry_put ops npar s; Some (Some ENOMEM, s) }
                       else do {
                         (i, io) \<leftarrow> dir_iops ops opar s;
                         (case op_rename io of
                            None \<Rightarrow>
                              do { s \<leftarrow> dentry_put ops nde s; s \<leftarrow> dentry_put ops opar s; s \<leftarrow> dentry_put ops npar s; Some (Some EPERM, s) }
                          | Some rename \<Rightarrow>
                              if npar = 0 then None
                              else do {
                                (r, s) \<leftarrow> rename i ode (d_inode (dentry_at s npar)) nde s;
                                s \<leftarrow> dentry_put ops opar s; s \<leftarrow> dentry_put ops npar s; Some (r, s)
                              })
                       }
                     }
                   })
            })
     }"

definition vfs_symlink :: "vfs_ops \<Rightarrow> string \<Rightarrow> string \<Rightarrow> errno option kfun" where
  "vfs_symlink ops target linkpath s =
     do {
       (r, s) \<leftarrow> vfs_lookup_parent ops linkpath 0 s;
       (case r of
          Inl e \<Rightarrow> Some (Some e, s)
        | Inr (par, name) \<Rightarrow>
            do {
              (de, s) \<leftarrow> dentry_alloc name par s;
              if de = 0 then do { s \<leftarrow> dentry_put ops par s; Some (Some ENOMEM, s) }
              else do {
                (i, io) \<leftarrow> dir_iops ops par s;
                (case op_symlink io of
                   None \<Rightarrow> do { s \<leftarrow> dentry_put ops de s; s \<leftarrow> dentry_put ops par s; Some (Some EPERM, s) }
                 | Some symlink \<Rightarrow> do { (r, s) \<leftarrow> symlink i de target s; s \<leftarrow> dentry_put ops par s; Some (r, s) })
              }
            })
     }"

definition vfs_readlink :: "vfs_ops \<Rightarrow> string \<Rightarrow> nat \<Rightarrow> (errno + string) kfun" where
  "vfs_readlink ops path sz s =
     do {
       (r, s) \<leftarrow> vfs_lookup ops path 0 s;
       (case r of
          Inl e \<Rightarrow> Some (Inl e, s)
        | Inr de \<Rightarrow>
            do {
              (i, io) \<leftarrow> dir_iops ops de s;
              if \<not> S_ISLNK (i_mode (inode_at s i)) then do { s \<leftarrow> dentry_put ops de s; Some (Inl EINVAL, s) }
              else do {
                readlink \<leftarrow> op_readlink io;
                (r, s) \<leftarrow> readlink i sz s;
                s \<leftarrow> dentry_put ops de s;
                Some (r, s)
              }
            })
     }"

definition sys_mknod :: "vfs_ops \<Rightarrow> string \<Rightarrow> u32 \<Rightarrow> u32 \<Rightarrow> errno option kfun" where
  "sys_mknod ops path mode dev s =
     do {
       (r, s) \<leftarrow> vfs_lookup_parent ops path 0 s;
       (case r of
          Inl e \<Rightarrow> Some (Some e, s)
        | Inr (par, name) \<Rightarrow>
            do {
              (de, s) \<leftarrow> dentry_alloc name par s;
              if de = 0 then do { s \<leftarrow> dentry_put ops par s; Some (Some ENOMEM, s) }
              else do {
                (i, io) \<leftarrow> dir_iops ops par s;
                mknod \<leftarrow> op_mknod io;
                (r, s) \<leftarrow> mknod i de mode dev s;
                s \<leftarrow> dentry_put ops par s;
                Some (r, s)
              }
            })
     }"

definition sys_link :: "vfs_ops \<Rightarrow> string \<Rightarrow> string \<Rightarrow> errno option kfun" where
  "sys_link ops old new s =
     do {
       (r, s) \<leftarrow> vfs_lookup ops old 0 s;
       (case r of
          Inl e \<Rightarrow> Some (Some e, s)
        | Inr src \<Rightarrow>
            do {
              (r, s) \<leftarrow> vfs_lookup_parent ops new 0 s;
              (case r of
                 Inl e \<Rightarrow> do { s \<leftarrow> dentry_put ops src s; Some (Some e, s) }
               | Inr (par, name) \<Rightarrow>
                   do {
                     (de, s) \<leftarrow> dentry_alloc name par s;
                     if de = 0 then do { s \<leftarrow> dentry_put ops src s; s \<leftarrow> dentry_put ops par s; Some (Some ENOMEM, s) }
                     else do {
                       (i, io) \<leftarrow> dir_iops ops par s;
                       link \<leftarrow> (if src = 0 then None else op_link io);
                       (r, s) \<leftarrow> link i (d_inode (dentry_at s src)) de s;
                       s \<leftarrow> dentry_put ops src s; s \<leftarrow> dentry_put ops par s; Some (r, s)
                     }
                   })
            })
     }"

definition sys_chmod :: "vfs_ops \<Rightarrow> string \<Rightarrow> u32 \<Rightarrow> errno option kfun" where
  "sys_chmod ops path mode s =
     do {
       (r, s) \<leftarrow> vfs_lookup ops path 0 s;
       (case r of
          Inl e \<Rightarrow> Some (Some e, s)
        | Inr de \<Rightarrow>
            do {
              (i, io) \<leftarrow> dir_iops ops de s;
              (r, s) \<leftarrow> (if i_ops (inode_at s i) = NoIops then Some (Some EPERM, s)
                        else do { chmod \<leftarrow> op_chmod io; chmod i mode s });
              s \<leftarrow> dentry_put ops de s;
              Some (r, s)
            })
     }"

definition sys_chown :: "vfs_ops \<Rightarrow> string \<Rightarrow> u32 \<Rightarrow> u32 \<Rightarrow> errno option kfun" where
  "sys_chown ops path u g s =
     do {
       (r, s) \<leftarrow> vfs_lookup ops path 0 s;
       (case r of
          Inl e \<Rightarrow> Some (Some e, s)
        | Inr de \<Rightarrow>
            do {
              (i, io) \<leftarrow> dir_iops ops de s;
              (r, s) \<leftarrow> (if i_ops (inode_at s i) = NoIops then Some (Some EPERM, s)
                        else do { chown \<leftarrow> op_chown io; chown i u g s });
              s \<leftarrow> dentry_put ops de s;
              Some (r, s)
            })
     }"

section \<open>Mounts\<close>

definition sizeof_mount :: u32 where "sizeof_mount = 116"

definition vfs_mount :: "vfs_ops \<Rightarrow> string option \<Rightarrow> string \<Rightarrow> string \<Rightarrow> errno option kfun" where
  "vfs_mount ops dev point fstype s =
     do {
       fs \<leftarrow> find_fs fstype s;
       if fs = 0 then Some (Some ENODEV, s)
       else do {
         (sb, s) \<leftarrow> fs_mount ops fs s;
         if sb = 0 then Some (Some EIO, s)
         else do {
           (mnt, s) \<leftarrow> kern_malloc sizeof_mount s;
           if mnt = 0 then Some (Some ENOMEM, s)
           else let rec = \<lparr>mnt_point = 0, mnt_sb = sb, mnt_devname = take 63 (case dev of None \<Rightarrow> ''none'' | Some d \<Rightarrow> d),
                           mnt_fstype = take 31 fstype\<rparr>
           in if vfs_root s = 0
              then let root = s_root (sb_at s sb);
                       s = dentry_get root (s\<lparr>vfs_root := root\<rparr>);
                       s = s\<lparr>mount_at := (mount_at s)(mnt := rec\<lparr>mnt_point := root\<rparr>)\<rparr>
                   in Some (None, set_lists (list_add_tail (MntLink mnt) Mounts) s)
              else do {
                (r, s) \<leftarrow> vfs_lookup ops point 0 s;
                (case r of
                   Inl e \<Rightarrow> Some (Some e, kern_free mnt s)
                 | Inr mp \<Rightarrow>
                     if mp = 0 then None
                     else let s = upd_dentry mp (\<lambda>x. x\<lparr>d_mounted := True, d_mountpoint := s_root (sb_at s sb)\<rparr>) s;
                         s = s\<lparr>mount_at := (mount_at s)(mnt := rec\<lparr>mnt_point := mp\<rparr>)\<rparr>
                     in Some (None, set_lists (list_add_tail (MntLink mnt) Mounts) s))
              }
         }
       }
     }"

fun mnt_of :: "knode \<Rightarrow> uptr" where
  "mnt_of (MntLink m) = m"
| "mnt_of _ = 0"

definition vfs_umount :: "vfs_ops \<Rightarrow> string \<Rightarrow> errno option kfun" where
  "vfs_umount ops point s =
     do {
       r \<leftarrow> list_find (klists s) Mounts (\<lambda>n. let m = mount_at s (mnt_of n) in
              mnt_devname m = point \<or> (mnt_point m \<noteq> 0 \<and> d_name (dentry_at s (mnt_point m)) = point));
       (case r of
          None \<Rightarrow> Some (Some EINVAL, s)
        | Some n \<Rightarrow>
            do {
              let s = set_lists (list_del n) s;
              let sb = mnt_sb (mount_at s (mnt_of n));
              s \<leftarrow> (case (if s_type (sb_at s sb) = 0 then None else fs_umount ops (s_type (sb_at s sb))) of
                     Some um \<Rightarrow> um sb s | None \<Rightarrow> Some s);
              Some (None, kern_free (mnt_of n) s)
            })
     }"

definition sizeof_inode :: u32 where "sizeof_inode = 100"
definition sizeof_dentry :: u32 where "sizeof_dentry = 308"
definition sizeof_file :: u32 where "sizeof_file = 48"

definition kern_cache_create :: "u32 \<Rightarrow> uptr kfun" where
  "kern_cache_create sz s =
     do { (c, st) \<leftarrow> kmem_cache_create sz (sl (kmm s)); Some (c, s\<lparr>kmm := (kmm s)\<lparr>sl := st\<rparr>\<rparr>) }"

definition vfs_init :: "kernel \<Rightarrow> kernel option" where
  "vfs_init s =
     do {
       (c, s) \<leftarrow> kern_cache_create sizeof_inode s;
       let s = s\<lparr>inode_cache := c\<rparr>;
       (c, s) \<leftarrow> kern_cache_create sizeof_dentry s;
       let s = s\<lparr>dentry_cache := c\<rparr>;
       (c, s) \<leftarrow> kern_cache_create sizeof_file s;
       let s = s\<lparr>file_cache := c\<rparr>;
       Some (set_lists (list_init Mounts \<circ> list_init FsTypes) s)
     }"

section \<open>Descriptor tables\<close>

definition sizeof_ptr :: u32 where "sizeof_ptr = 4"

definition files_create :: "uptr kfun" where
  "files_create s =
     do {
       (f, s) \<leftarrow> kobj_alloc (files_cache s) s;
       if f = 0 then Some (0, s)
       else do {
         (a, h) \<leftarrow> kcalloc (of_nat OPEN_MAX) sizeof_ptr (heap s);
         let s = (set_heap h s)\<lparr>files_at := (files_at s)(f := \<lparr>max_fds = of_nat OPEN_MAX, fd_array = a, close_on_exec = replicate 32 0\<rparr>)\<rparr>;
         Some (f, if a \<noteq> 0 then s\<lparr>fd_at := (fd_at s)(a := replicate OPEN_MAX 0)\<rparr> else s)
       }
     }"

text \<open>The array of a table; a null array is an access through a null pointer.\<close>

definition fd_table :: "uptr \<Rightarrow> kernel \<Rightarrow> uptr option" where
  "fd_table f s = (if fd_array (files_at s f) = 0 then None else Some (fd_array (files_at s f)))"

fun clone_fds :: "uptr \<Rightarrow> uptr \<Rightarrow> nat list \<Rightarrow> kernel \<Rightarrow> kernel" where
  "clone_fds src dst [] s = s"
| "clone_fds src dst (i # is) s =
     (let f = fd_at s src ! i
      in clone_fds src dst is (if f \<noteq> 0 then upd_fd dst i f (file_get f s) else s))"

definition files_clone :: "uptr \<Rightarrow> uptr kfun" where
  "files_clone src s =
     do {
       (dst, s) \<leftarrow> files_create s;
       if dst = 0 then Some (0, s)
       else do {
         a \<leftarrow> fd_table src s;
         if list_all (\<lambda>f. f = 0) (fd_at s a) then Some (dst, s)
         else do { b \<leftarrow> fd_table dst s; Some (dst, clone_fds a b [0..<OPEN_MAX] s) }
       }
     }"

fun close_fds :: "vfs_ops \<Rightarrow> uptr \<Rightarrow> nat list \<Rightarrow> kernel \<Rightarrow> kernel option" where
  "close_fds ops a [] s = Some s"
| "close_fds ops a (i # is) s =
     (if fd_at s a ! i \<noteq> 0
      then do { s \<leftarrow> file_put ops (fd_at s a ! i) s; close_fds ops a is (upd_fd a i 0 s) }
      else close_fds ops a is s)"

definition files_destroy :: "vfs_ops \<Rightarrow> uptr \<Rightarrow> kernel \<Rightarrow> kernel option" where
  "files_destroy ops f s =
     (if f = 0 then Some s
      else do {
        a \<leftarrow> fd_table f s;
        s \<leftarrow> close_fds ops a [0..<OPEN_MAX] s;
        kobj_free (files_cache s) f (kern_free (fd_array (files_at s f)) s)
      })"

definition files_alloc_fd :: "uptr \<Rightarrow> kernel \<Rightarrow> (errno + nat) option" where
  "files_alloc_fd f s =
     do {
       a \<leftarrow> fd_table f s;
       Some (case find (\<lambda>i. fd_at s a ! i = 0) [0..<OPEN_MAX] of None \<Rightarrow> Inl EMFILE | Some i \<Rightarrow> Inr i)
     }"

definition files_free_fd :: "vfs_ops \<Rightarrow> uptr \<Rightarrow> int \<Rightarrow> kernel \<Rightarrow> kernel option" where
  "files_free_fd ops f fd s =
     (if fd \<ge> 0 \<and> fd < int OPEN_MAX
      then do {
        a \<leftarrow> fd_table f s;
        if fd_at s a ! nat fd \<noteq> 0
        then do { s \<leftarrow> file_put ops (fd_at s a ! nat fd) s; Some (upd_fd a (nat fd) 0 s) }
        else Some s
      }
      else Some s)"

section \<open>System calls on descriptors\<close>

text \<open>The table of the current task; its absence is an access through a null pointer.\<close>

definition cur_files :: "kernel \<Rightarrow> uptr option" where
  "cur_files s = (if current s = 0 \<or> tfiles (task_at s (current s)) = 0 then None else Some (tfiles (task_at s (current s))))"

definition fd_to_file :: "int \<Rightarrow> kernel \<Rightarrow> uptr option" where
  "fd_to_file fd s =
     (if current s = 0 \<or> tfiles (task_at s (current s)) = 0 then Some 0
      else if fd < 0 \<or> fd \<ge> int OPEN_MAX then Some 0
      else do { a \<leftarrow> fd_table (tfiles (task_at s (current s))) s; Some (fd_at s a ! nat fd) })"

text \<open>\<^verbatim>\<open>current->files->fd[fd] = f\<close>\<close>

definition set_fd :: "nat \<Rightarrow> uptr \<Rightarrow> kernel \<Rightarrow> kernel option" where
  "set_fd fd f s = do { fs \<leftarrow> cur_files s; a \<leftarrow> fd_table fs s; Some (upd_fd a fd f s) }"

definition sys_open :: "vfs_ops \<Rightarrow> string \<Rightarrow> u32 \<Rightarrow> u32 \<Rightarrow> (errno + nat) kfun" where
  "sys_open ops path flags mode s =
     do {
       (f, s) \<leftarrow> vfs_open ops path flags mode s;
       if f = 0 then Some (Inl ENOENT, s)
       else do {
         fs \<leftarrow> cur_files s;
         r \<leftarrow> files_alloc_fd fs s;
         (case r of
            Inl e \<Rightarrow> do { s \<leftarrow> file_put ops f s; Some (Inl e, s) }
          | Inr fd \<Rightarrow> do { s \<leftarrow> set_fd fd f s; Some (Inr fd, s) })
       }
     }"

definition sys_close :: "vfs_ops \<Rightarrow> int \<Rightarrow> errno option kfun" where
  "sys_close ops fd s =
     do {
       f \<leftarrow> fd_to_file fd s;
       if f = 0 then Some (Some EBADF, s)
       else do { fs \<leftarrow> cur_files s; s \<leftarrow> files_free_fd ops fs fd s; Some (None, s) }
     }"

definition sys_read :: "vfs_ops \<Rightarrow> int \<Rightarrow> u32 \<Rightarrow> (errno + u8 list) kfun" where
  "sys_read ops fd count s =
     do { f \<leftarrow> fd_to_file fd s; if f = 0 then Some (Inl EBADF, s) else vfs_read ops f count s }"

definition sys_write :: "vfs_ops \<Rightarrow> int \<Rightarrow> u8 list \<Rightarrow> (errno + nat) kfun" where
  "sys_write ops fd bytes s =
     do { f \<leftarrow> fd_to_file fd s; if f = 0 then Some (Inl EBADF, s) else vfs_write ops f bytes s }"

definition sys_lseek :: "vfs_ops \<Rightarrow> int \<Rightarrow> off_t \<Rightarrow> whence \<Rightarrow> (errno + off_t) kfun" where
  "sys_lseek ops fd off w s =
     do { f \<leftarrow> fd_to_file fd s; if f = 0 then Some (Inl EBADF, s) else vfs_lseek ops f off w s }"

definition sys_fstat :: "vfs_ops \<Rightarrow> int \<Rightarrow> (errno + stat) kfun" where
  "sys_fstat ops fd s =
     do { f \<leftarrow> fd_to_file fd s; if f = 0 then Some (Inl EBADF, s) else vfs_fstat ops f s }"

definition sys_ioctl :: "vfs_ops \<Rightarrow> int \<Rightarrow> u32 \<Rightarrow> uptr \<Rightarrow> (errno + nat) kfun" where
  "sys_ioctl ops fd cmd arg s =
     do { f \<leftarrow> fd_to_file fd s; if f = 0 then Some (Inl EBADF, s) else vfs_ioctl ops f cmd arg s }"

definition sizeof_dirent :: nat where "sizeof_dirent = 276"

definition sys_getdents :: "vfs_ops \<Rightarrow> int \<Rightarrow> nat \<Rightarrow> (errno + dirent list) kfun" where
  "sys_getdents ops fd sz s =
     do { f \<leftarrow> fd_to_file fd s; if f = 0 then Some (Inl EBADF, s) else vfs_readdir ops f (int (sz div sizeof_dirent)) s }"

definition sys_dup :: "int \<Rightarrow> (errno + nat) kfun" where
  "sys_dup fd s =
     do {
       f \<leftarrow> fd_to_file fd s;
       if f = 0 then Some (Inl EBADF, s)
       else do {
         fs \<leftarrow> cur_files s;
         r \<leftarrow> files_alloc_fd fs s;
         (case r of
            Inl e \<Rightarrow> Some (Inl e, s)
          | Inr nfd \<Rightarrow> do { s \<leftarrow> set_fd nfd f (file_get f s); Some (Inr nfd, s) })
       }
     }"

definition sys_dup2 :: "vfs_ops \<Rightarrow> int \<Rightarrow> int \<Rightarrow> (errno + int) kfun" where
  "sys_dup2 ops old nw s =
     (if old = nw then Some (Inr nw, s)
      else do {
        f \<leftarrow> fd_to_file old s;
        if f = 0 then Some (Inl EBADF, s)
        else if nw < 0 \<or> nw \<ge> int OPEN_MAX then Some (Inl EBADF, s)
        else do {
          fs \<leftarrow> cur_files s;
          a \<leftarrow> fd_table fs s;
          s \<leftarrow> (if fd_at s a ! nat nw \<noteq> 0 then files_free_fd ops fs nw s else Some s);
          s \<leftarrow> set_fd (nat nw) f (file_get f s);
          Some (Inr nw, s)
        }
      })"

section \<open>Pipes\<close>

definition sizeof_pipe :: u32 where "sizeof_pipe = 56"

text \<open>
  An end of a pipe: its dentry and its file.  The results of the two allocations are used without a test,
  so a failure is an access through a null pointer.
\<close>

definition pipe_end :: "string \<Rightarrow> uptr \<Rightarrow> fops_ref \<Rightarrow> u32 \<Rightarrow> uptr kfun" where
  "pipe_end name i ops_tab flags s =
     do {
       (de, s) \<leftarrow> dentry_alloc name 0 s;
       if de = 0 then None
       else do {
         let s = upd_dentry de (\<lambda>x. x\<lparr>d_inode := i\<rparr>) (inode_get i s);
         (f, s) \<leftarrow> file_alloc s;
         if f = 0 then None
         else Some (f, upd_file f (\<lambda>x. x\<lparr>f_dentry := de, f_ops := ops_tab, f_flags := flags\<rparr>) s)
       }
     }"

definition vfs_pipe :: "vfs_ops \<Rightarrow> (errno + uptr \<times> uptr) kfun" where
  "vfs_pipe ops s =
     do {
       (p, s) \<leftarrow> kern_malloc sizeof_pipe s;
       if p = 0 then Some (Inl ENOMEM, s)
       else do {
         (b, s) \<leftarrow> kern_malloc PIPE_BUF s;
         if b = 0 then Some (Inl ENOMEM, kern_free p s)
         else do {
           let data = map (\<lambda>k. payload (heap s) (b + of_nat k)) [0..<unat PIPE_BUF];
           let s = s\<lparr>pipe_at := (pipe_at s)(p := pipe_new data)\<rparr>;
           let s = init_waitqueue_head (PipeWriteWait p) (init_waitqueue_head (PipeReadWait p) s);
           (i, s) \<leftarrow> inode_alloc 0 s;
           if i = 0 then Some (Inl ENOMEM, kern_free p (kern_free b s))
           else do {
             let s = upd_inode i (\<lambda>x. x\<lparr>i_mode := S_IFIFO OR 0x180, i_private := p\<rparr>) s;
             (rf, s) \<leftarrow> pipe_end ''pipe:r'' i PipeReadOps O_RDONLY s;
             (wf, s) \<leftarrow> pipe_end ''pipe:w'' i PipeWriteOps O_WRONLY s;
             s \<leftarrow> inode_put ops i s;
             Some (Inr (rf, wf), s)
           }
         }
       }
     }"

definition sys_pipe :: "vfs_ops \<Rightarrow> (errno + nat \<times> nat) kfun" where
  "sys_pipe ops s =
     do {
       (r, s) \<leftarrow> vfs_pipe ops s;
       (case r of
          Inl e \<Rightarrow> Some (Inl e, s)
        | Inr (r, w) \<Rightarrow>
            do {
              fs \<leftarrow> cur_files s;
              a \<leftarrow> files_alloc_fd fs s;
              (case a of
                 Inl e \<Rightarrow> do { s \<leftarrow> file_put ops r s; s \<leftarrow> file_put ops w s; Some (Inl e, s) }
               | Inr rfd \<Rightarrow>
                   do {
                     s \<leftarrow> set_fd rfd r s;
                     b \<leftarrow> files_alloc_fd fs s;
                     (case b of
                        Inl e \<Rightarrow> do { s \<leftarrow> files_free_fd ops fs (int rfd) s; s \<leftarrow> file_put ops w s; Some (Inl e, s) }
                      | Inr wfd \<Rightarrow> do { s \<leftarrow> set_fd wfd w s; Some (Inr (rfd, wfd), s) })
                   })
            })
     }"

section \<open>Working directory and the remaining calls\<close>

definition sys_chdir :: "vfs_ops \<Rightarrow> string \<Rightarrow> errno option kfun" where
  "sys_chdir ops path s =
     do {
       (r, s) \<leftarrow> vfs_lookup ops path 0 s;
       (case r of
          Inl e \<Rightarrow> Some (Some e, s)
        | Inr de \<Rightarrow>
            if de = 0 \<or> d_inode (dentry_at s de) = 0 then None
            else if \<not> S_ISDIR (i_mode (inode_at s (d_inode (dentry_at s de))))
            then do { s \<leftarrow> dentry_put ops de s; Some (Some ENOTDIR, s) }
            else do {
              s \<leftarrow> dentry_put ops (cwd (task_at s (current s))) s;
              Some (None, upd_task (current s) (\<lambda>t. t\<lparr>cwd := de\<rparr>) s)
            })
     }"

text \<open>
  The loop of \<^verbatim>\<open>sys_getcwd\<close>, building the path from its end in a buffer of 4095 characters; a longer path is
  written before the start of the buffer: no result.
\<close>

partial_function (option) cwd_path :: "uptr \<Rightarrow> string \<Rightarrow> kernel \<Rightarrow> string option" where
  "cwd_path de acc s =
     (if length acc > 4095 then None
      else if de = 0 \<or> de = vfs_root s \<or> d_parent (dentry_at s de) = 0 then Some acc
      else cwd_path (d_parent (dentry_at s de)) (CHR ''/'' # d_name (dentry_at s de) @ acc) s)"

definition sys_getcwd :: "nat \<Rightarrow> kernel \<Rightarrow> string option" where
  "sys_getcwd sz s =
     (if cwd (task_at s (current s)) = 0 then Some (take sz ''/'')
      else do {
        p \<leftarrow> cwd_path (cwd (task_at s (current s))) [] s;
        Some (take sz (if p = [] then ''/'' else p))
      })"

definition sys_stat :: "vfs_ops \<Rightarrow> string \<Rightarrow> (errno + stat) kfun" where "sys_stat = vfs_stat"
definition sys_lstat :: "vfs_ops \<Rightarrow> string \<Rightarrow> (errno + stat) kfun" where "sys_lstat = vfs_stat"
definition sys_mkdir :: "vfs_ops \<Rightarrow> string \<Rightarrow> u32 \<Rightarrow> errno option kfun" where "sys_mkdir = vfs_mkdir"
definition sys_rmdir :: "vfs_ops \<Rightarrow> string \<Rightarrow> errno option kfun" where "sys_rmdir = vfs_rmdir"
definition sys_unlink :: "vfs_ops \<Rightarrow> string \<Rightarrow> errno option kfun" where "sys_unlink = vfs_unlink"
definition sys_rename :: "vfs_ops \<Rightarrow> string \<Rightarrow> string \<Rightarrow> errno option kfun" where "sys_rename = vfs_rename"
definition sys_symlink :: "vfs_ops \<Rightarrow> string \<Rightarrow> string \<Rightarrow> errno option kfun" where "sys_symlink = vfs_symlink"
definition sys_readlink :: "vfs_ops \<Rightarrow> string \<Rightarrow> nat \<Rightarrow> (errno + string) kfun" where "sys_readlink = vfs_readlink"
definition sys_mount :: "vfs_ops \<Rightarrow> string option \<Rightarrow> string \<Rightarrow> string \<Rightarrow> errno option kfun" where "sys_mount = vfs_mount"
definition sys_umount :: "vfs_ops \<Rightarrow> string \<Rightarrow> errno option kfun" where "sys_umount = vfs_umount"

section \<open>The descriptor table\<close>

text \<open>The current task has a descriptor table: an array of files at \<open>a\<close>.\<close>

definition has_fds :: "kernel \<Rightarrow> uptr \<Rightarrow> bool" where
  "has_fds s a \<longleftrightarrow> current s \<noteq> 0 \<and> tfiles (task_at s (current s)) \<noteq> 0 \<and> a \<noteq> 0 \<and>
     fd_array (files_at s (tfiles (task_at s (current s)))) = a \<and> length (fd_at s a) = OPEN_MAX"

lemma has_fds_facts:
  assumes "has_fds s a"
  shows "cur_files s = Some (tfiles (task_at s (current s)))" and "fd_table (tfiles (task_at s (current s))) s = Some a"
    and "fd_to_file fd s = Some (if 0 \<le> fd \<and> fd < int OPEN_MAX then fd_at s a ! nat fd else 0)"
  using assms by (auto simp: has_fds_def cur_files_def fd_table_def fd_to_file_def)

lemma has_fds_upd [simp]: "has_fds (upd_fd b i f s) a = has_fds s a" "has_fds (upd_file g h s) a = has_fds s a"
  by (auto simp: has_fds_def kupd_defs)

lemma fd_at_upd [simp]: "fd_at (upd_file g h s) = fd_at s" "fd_at (upd_fd a i f s) a = (fd_at s a)[i := f]"
  "file_at (upd_fd a i f s) = file_at s" "current (upd_fd a i f s) = current s" "current (upd_file g h s) = current s"
  by (simp_all add: kupd_defs)

lemma sys_dup_unfold:
  assumes "has_fds s a" and "fd_to_file fd s = Some f" and "f \<noteq> 0"
  shows "sys_dup fd s = (case find (\<lambda>i. fd_at s a ! i = 0) [0..<OPEN_MAX] of None \<Rightarrow> Some (Inl EMFILE, s)
    | Some n \<Rightarrow> Some (Inr n, upd_fd a n f (file_get f s)))"
proof -
  have h: "has_fds (file_get f s) a" using assms(1) by (simp add: file_get_def)
  show ?thesis
    using assms has_fds_facts [OF assms(1)] has_fds_facts(1,2) [OF h]
    by (auto simp: sys_dup_def files_alloc_fd_def set_fd_def split: option.splits)
qed

lemma dup_close:
  assumes "has_fds s a" and "f \<noteq> 0" and "f_refcount (file_at s f) \<noteq> 0" and "n < OPEN_MAX" and "fd_at s a ! n = 0"
    and t: "t = upd_fd a n f (file_get f s)"
  shows "fd_to_file m t = (if m = int n then Some f else fd_to_file m s)" and "sys_close ops (int n) t = Some (None, s)"
proof -
  have h: "has_fds t a" using assms(1) by (simp add: t file_get_def)
  have len: "length (fd_at s a) = OPEN_MAX" using assms(1) by (simp add: has_fds_def)
  have ft: "fd_at t a = (fd_at s a)[n := f]" using assms(2) by (simp add: t file_get_def)
  show "fd_to_file m t = (if m = int n then Some f else fd_to_file m s)"
    unfolding has_fds_facts(3) [OF h] has_fds_facts(3) [OF assms(1)] ft using assms(4) len
    by (auto simp: nth_list_update)
  have put: "file_put ops f t = Some (upd_fd a n f s)"
    using assms(2,3) by (simp add: t file_put_def file_get_def kupd_defs)
  have undo: "upd_fd a n 0 (upd_fd a n f s) = s"
    using assms(4,5) len list_update_id [of "fd_at s a" n] by (simp add: kupd_defs)
  show "sys_close ops (int n) t = Some (None, s)"
    using assms(2,4) len put undo ft by (simp add: sys_close_def files_free_fd_def has_fds_facts [OF h])
qed

text \<open>
  C27: \<^verbatim>\<open>dup\<close> gives the lowest descriptor that is not in use and makes it refer to the same open file; no other
  descriptor changes.  Closing the new descriptor gives exactly the state before.  With all descriptors in use it
  fails with \<^verbatim>\<open>EMFILE\<close> and changes nothing.
\<close>

theorem sys_dup_close:
  assumes "has_fds s a" and "fd_to_file fd s = Some f" and "f \<noteq> 0" and "f_refcount (file_at s f) \<noteq> 0"
  shows "0 \<notin> set (fd_at s a) \<and> sys_dup fd s = Some (Inl EMFILE, s) \<or>
    (\<exists>n t. sys_dup fd s = Some (Inr n, t) \<and> fd_to_file (int n) s = Some 0 \<and> (\<forall>m<n. fd_to_file (int m) s \<noteq> Some 0) \<and>
       (\<forall>m. fd_to_file m t = (if m = int n then Some f else fd_to_file m s)) \<and>
       sys_close ops (int n) t = Some (None, s))"
proof (cases "find (\<lambda>i. fd_at s a ! i = 0) [0..<OPEN_MAX]")
  case None
  with assms(1) have "0 \<notin> set (fd_at s a)" by (auto simp: find_None_iff has_fds_def in_set_conv_nth)
  then show ?thesis using None by (simp add: sys_dup_unfold [OF assms(1-3)])
next
  case (Some n)
  then have n: "n < OPEN_MAX" "fd_at s a ! n = 0" "\<And>m. m < n \<Longrightarrow> fd_at s a ! m \<noteq> 0" by (auto simp: find_Some_iff)
  let ?t = "upd_fd a n f (file_get f s)"
  note dc = dup_close [OF assms(1,3,4) n(1,2) refl]
  have "sys_dup fd s = Some (Inr n, ?t)" using Some by (simp add: sys_dup_unfold [OF assms(1-3)])
  moreover have "fd_to_file (int n) s = Some 0" "\<forall>m<n. fd_to_file (int m) s \<noteq> Some 0"
    using n by (simp_all add: has_fds_facts(3) [OF assms(1)])
  ultimately show ?thesis using dc by blast
qed

text \<open>A task whose descriptor 0 is an open file.\<close>

definition fd_example :: kernel where
  "fd_example = (kernel_boot (mm_example slab_boot 0 0))\<lparr>current := 0x100,
     task_at := (\<lambda>_. task_zero\<lparr>tfiles := 0x300\<rparr>),
     files_at := (\<lambda>_. \<lparr>max_fds = 1024, fd_array = 0x400, close_on_exec = replicate 32 0\<rparr>),
     fd_at := (\<lambda>_. 0x6000 # replicate 1023 0), file_at := (\<lambda>_. file_zero\<lparr>f_refcount := 1\<rparr>)\<rparr>"

theorem sys_dup_close_witness:
  "\<forall>ops. \<exists>t. sys_dup 0 fd_example = Some (Inr 1, t) \<and> fd_to_file 1 t = Some 0x6000 \<and> sys_close ops 1 t = Some (None, fd_example)"
proof
  fix ops
  have h: "has_fds fd_example 0x400"
    by (simp add: has_fds_def fd_example_def OPEN_MAX_def)
  have f: "fd_to_file 0 fd_example = Some 0x6000" "fd_to_file (int 1) fd_example = Some 0"
    unfolding has_fds_facts(3) [OF h] by (simp_all add: fd_example_def OPEN_MAX_def)
  have "0 \<in> set (fd_at fd_example 0x400)" by (simp add: fd_example_def)
  with sys_dup_close [OF h f(1), of ops] obtain n t where
    n: "sys_dup 0 fd_example = Some (Inr n, t)" "fd_to_file (int n) fd_example = Some 0"
    "\<forall>m<n. fd_to_file (int m) fd_example \<noteq> Some 0" "fd_to_file (int n) t = Some 0x6000"
    "sys_close ops (int n) t = Some (None, fd_example)" by (auto simp: fd_example_def)
  have "n = 1"
  proof (rule ccontr)
    assume "n \<noteq> 1"
    then have "n = 0 \<or> 1 < n" by auto
    with n(2,3) f show False by auto
  qed
  with n show "\<exists>t. sys_dup 0 fd_example = Some (Inr 1, t) \<and> fd_to_file 1 t = Some 0x6000 \<and>
    sys_close ops 1 t = Some (None, fd_example)" by auto
qed

end
