(* ===== verification/Task.thy ===== *)
theory Task
  imports Vfs
begin

text \<open>
  Tasks, after \<^verbatim>\<open>kernel/process.c\<close>: process numbers, the run queue and the scheduler, sleeping and
  waking, and signals.  A call of \<^verbatim>\<open>schedule\<close> ends, as far as the kernel state goes, where the processor
  is given to the next task: the result says to whom.  What a task does when it is resumed is a
  separate operation.
\<close>

section \<open>Constants and process numbers\<close>

definition PID_MAX :: u32 where "PID_MAX = 32768"
definition MAX_SIGNALS :: nat where "MAX_SIGNALS = 64"
definition TASK_NAME_LEN :: nat where "TASK_NAME_LEN = 64"
definition SIGHUP :: int where "SIGHUP = 1"
definition SIGINT :: int where "SIGINT = 2"
definition SIGILL :: int where "SIGILL = 4"
definition SIGABRT :: int where "SIGABRT = 6"
definition SIGFPE :: int where "SIGFPE = 8"
definition SIGKILL :: int where "SIGKILL = 9"
definition SIGUSR1 :: int where "SIGUSR1 = 10"
definition SIGSEGV :: int where "SIGSEGV = 11"
definition SIGUSR2 :: int where "SIGUSR2 = 12"
definition SIGPIPE :: int where "SIGPIPE = 13"
definition SIGALRM :: int where "SIGALRM = 14"
definition SIGTERM :: int where "SIGTERM = 15"
definition SIGCHLD :: int where "SIGCHLD = 17"
definition SIGCONT :: int where "SIGCONT = 18"
definition SIGSTOP :: int where "SIGSTOP = 19"
definition SIGTSTP :: int where "SIGTSTP = 20"
definition SIG_DFL :: uptr where "SIG_DFL = 0"
definition SIG_IGN :: uptr where "SIG_IGN = 1"

definition alloc_pid :: "kernel \<Rightarrow> u32 \<times> kernel" where
  "alloc_pid s =
     (let p = next_pid s; n = next_pid s + 1
      in (p, s\<lparr>next_pid := (if n \<ge> PID_MAX then 2 else n)\<rparr>))"

fun task_of :: "knode \<Rightarrow> uptr" where
  "task_of (TaskLink t) = t"
| "task_of (RunLink t) = t"
| "task_of (TSibling t) = t"
| "task_of (WaitLink t) = t"
| "task_of _ = 0"

definition find_task_by_pid :: "u32 \<Rightarrow> kernel \<Rightarrow> uptr option" where
  "find_task_by_pid p s =
     do {
       r \<leftarrow> list_find (klists s) TaskListHead (\<lambda>n. pid (task_at s (task_of n)) = p);
       Some (case r of None \<Rightarrow> 0 | Some n \<Rightarrow> task_of n)
     }"

section \<open>The scheduler\<close>

definition sched_add :: "uptr \<Rightarrow> kernel \<Rightarrow> kernel" where
  "sched_add t s = set_lists (list_add_tail (RunLink t) Runqueue) (upd_task t (\<lambda>x. x\<lparr>tstate := TASK_RUNNING\<rparr>) s)"

definition sched_remove :: "uptr \<Rightarrow> kernel \<Rightarrow> kernel" where
  "sched_remove t s = set_lists (list_del (RunLink t)) s"

datatype sched_result = NoCurrent | Idle | Same | SwitchTo uptr

definition schedule :: "kernel \<Rightarrow> sched_result \<times> kernel" where
  "schedule s =
     (if current s = 0 then (NoCurrent, s)
      else if list_empty Runqueue (klists s) then (Idle, s)
      else let nxt = task_of (lnext (klists s) Runqueue);
               s = set_lists (list_del (RunLink nxt)) s;
               s = set_lists (list_add_tail (RunLink nxt) Runqueue) s
           in if current s = nxt then (Same, s)
              else let s = s\<lparr>current := nxt\<rparr>;
                       s = upd_task nxt (\<lambda>x. x\<lparr>time_slice := 20\<rparr>) s;
                       m = tmm (task_at s nxt);
                       pd = (if m \<noteq> 0 then pgdir (mm_at (kmm s) m) else kernel_pgdir (vm (kmm s)));
                       s = s\<lparr>kmm := (kmm s)\<lparr>vm := paging_switch pd (vm (kmm s))\<rparr>\<rparr>;
                       s = s\<lparr>kcpu := tss_set_kernel_stack (kernel_stack (task_at s nxt)) (kcpu s)\<rparr>
                   in (SwitchTo nxt, s))"

definition sched_tick :: "kernel \<Rightarrow> sched_result option \<times> kernel" where
  "sched_tick s =
     (if current s = 0 \<or> current s = kernel_task s then (None, s)
      else let c = current s;
               s = upd_task c (\<lambda>x. x\<lparr>runtime_ns := runtime_ns x + 10000000\<rparr>) s;
               s = (if time_slice (task_at s c) > 0 then upd_task c (\<lambda>x. x\<lparr>time_slice := time_slice x - 1\<rparr>) s else s)
           in if time_slice (task_at s c) = 0
              then case schedule (upd_task c (\<lambda>x. x\<lparr>time_slice := 20\<rparr>) s) of (r, s) \<Rightarrow> (Some r, s)
              else (None, s))"

definition sched_yield :: "kernel \<Rightarrow> sched_result \<times> kernel" where
  "sched_yield s =
     schedule (if current s \<noteq> 0 \<and> time_slice (task_at s (current s)) > 0
               then upd_task (current s) (\<lambda>x. x\<lparr>time_slice := 0\<rparr>) s else s)"

section \<open>Sleeping and waking\<close>

definition sleep_on :: "waitq \<Rightarrow> kernel \<Rightarrow> sched_result \<times> kernel" where
  "sleep_on q s =
     (let c = current s;
          s = upd_task c (\<lambda>x. x\<lparr>tstate := TASK_SLEEPING\<rparr>) s;
          s = set_lists (list_add_tail (WaitLink c) (WaitHead q)) s
      in schedule (sched_remove c s))"

text \<open>The test that \<^verbatim>\<open>sleep_on_interruptible\<close> makes when the task is resumed.\<close>

definition sleep_interrupted :: "kernel \<Rightarrow> errno option" where
  "sleep_interrupted s =
     (let g = tsignal (task_at s (current s))
      in if g \<noteq> 0 \<and> pending (signal_at s g) \<noteq> 0 then Some EINTR else None)"

definition wake_one :: "uptr \<Rightarrow> kernel \<Rightarrow> kernel" where
  "wake_one t s = sched_add t (upd_task t (\<lambda>x. x\<lparr>tstate := TASK_RUNNING\<rparr>) (set_lists (list_del (WaitLink t)) s))"

definition wake_up :: "waitq \<Rightarrow> kernel \<Rightarrow> kernel" where
  "wake_up q s =
     (if list_empty (WaitHead q) (klists s) then s
      else wake_one (task_of (lnext (klists s) (WaitHead q))) s)"

partial_function (option) wake_all_from :: "waitq \<Rightarrow> knode \<Rightarrow> kernel \<Rightarrow> kernel option" where
  "wake_all_from q pos s =
     (if pos = WaitHead q then Some s
      else let n = lnext (klists s) pos in wake_all_from q n (wake_one (task_of pos) s))"

definition wake_up_all :: "waitq \<Rightarrow> kernel \<Rightarrow> kernel option" where
  "wake_up_all q s = wake_all_from q (lnext (klists s) (WaitHead q)) s"

definition wake_up_process :: "uptr \<Rightarrow> kernel \<Rightarrow> kernel" where
  "wake_up_process t s = sched_add t (upd_task t (\<lambda>x. x\<lparr>tstate := TASK_RUNNING\<rparr>) s)"

section \<open>Identity\<close>

definition sys_getpid :: "kernel \<Rightarrow> u32" where "sys_getpid s = pid (task_at s (current s))"
definition sys_getppid :: "kernel \<Rightarrow> u32" where "sys_getppid s = ppid (task_at s (current s))"
definition sys_getpgrp :: "kernel \<Rightarrow> u32" where "sys_getpgrp s = pgid (task_at s (current s))"

definition sys_setpgid :: "u32 \<Rightarrow> u32 \<Rightarrow> errno option kfun" where
  "sys_setpgid p g s =
     do {
       t \<leftarrow> (if p \<noteq> 0 then find_task_by_pid p s else Some (current s));
       if t = 0 then Some (Some ESRCH, s)
       else Some (None, upd_task t (\<lambda>x. x\<lparr>pgid := (if g \<noteq> 0 then g else pid x)\<rparr>) s)
     }"

definition sys_setsid :: "kernel \<Rightarrow> u32 \<times> kernel" where
  "sys_setsid s =
     (let s = upd_task (current s) (\<lambda>x. x\<lparr>sid := pid x, pgid := pid x\<rparr>) s
      in (sid (task_at s (current s)), s))"

section \<open>Signals\<close>

definition sigaction_zero :: sigaction where
  "sigaction_zero = \<lparr>sa_handler = SIG_DFL, sa_flags = 0, sa_mask = 0\<rparr>"

definition signal_create :: "uptr kfun" where
  "signal_create s =
     do {
       (g, s) \<leftarrow> kobj_alloc (signal_cache s) s;
       if g = 0 then Some (0, s)
       else Some (g, upd_signal g (\<lambda>_. \<lparr>pending = 0, actions = replicate MAX_SIGNALS sigaction_zero\<rparr>) s)
     }"

text \<open>A task without a \<^verbatim>\<open>signal\<close> structure is an access through a null pointer.\<close>

definition sys_kill :: "u32 \<Rightarrow> int \<Rightarrow> errno option kfun" where
  "sys_kill p sig s =
     (if sig \<le> 0 \<or> sig \<ge> int MAX_SIGNALS then Some (Some EINVAL, s)
      else do {
        t \<leftarrow> find_task_by_pid p s;
        if t = 0 then Some (Some ESRCH, s)
        else if tsignal (task_at s t) = 0 then None
        else let s = upd_signal (tsignal (task_at s t)) (\<lambda>g. g\<lparr>pending := pending g OR push_bit (nat sig) 1\<rparr>) s
             in Some (None, if tstate (task_at s t) = TASK_SLEEPING then wake_up_process t s else s)
      })"

text \<open>\<open>act\<close> is the new action if there is one; the result carries the old one.\<close>

definition sys_sigaction :: "int \<Rightarrow> sigaction option \<Rightarrow> (errno + sigaction) kfun" where
  "sys_sigaction sig act s =
     (if sig \<le> 0 \<or> sig \<ge> int MAX_SIGNALS then Some (Inl EINVAL, s)
      else if sig = SIGKILL \<or> sig = SIGSTOP then Some (Inl EINVAL, s)
      else let g = tsignal (task_at s (current s))
      in if g = 0 then None
         else let old = actions (signal_at s g) ! nat sig
              in Some (Inr old, case act of None \<Rightarrow> s | Some a \<Rightarrow> upd_signal g (\<lambda>x. x\<lparr>actions := (actions x)[nat sig := a]\<rparr>) s))"

end
