(* ===== verification/Sched.thy ===== *)
theory Sched
  imports Task
begin

text \<open>
  The scheduler and the wait queues as lists of tasks: the pointer operations of \<^verbatim>\<open>kernel/process.c\<close>
  refine operations on a run queue and on one list of sleepers per wait queue.  Two sequences of calls
  that the kernel can make leave the state this refinement describes; they are shown to break a list.
\<close>

section \<open>Run queue and wait queues as lists\<close>

definition runq :: "kernel \<Rightarrow> uptr list \<Rightarrow> bool" where
  "runq s ts \<longleftrightarrow> is_list (klists s) Runqueue (map RunLink ts)"

definition waits :: "kernel \<Rightarrow> waitq \<Rightarrow> uptr list \<Rightarrow> bool" where
  "waits s q ts \<longleftrightarrow> is_list (klists s) (WaitHead q) (map WaitLink ts)"

text \<open>
  \<open>sched_rep Q s rq W\<close>: the run queue of \<open>s\<close> is \<open>rq\<close>, the sleepers on a queue \<open>q\<close> of the set \<open>Q\<close> of
  queues in use are \<open>W q\<close>; a task is in one place only and its state says which.
\<close>

definition sched_rep :: "waitq set \<Rightarrow> kernel \<Rightarrow> uptr list \<Rightarrow> (waitq \<Rightarrow> uptr list) \<Rightarrow> bool" where
  "sched_rep Q s rq W \<longleftrightarrow>
     runq s rq \<and> (\<forall>q\<in>Q. waits s q (W q)) \<and> 0 \<notin> set rq \<and>
     (\<forall>q\<in>Q. set rq \<inter> set (W q) = {} \<and> 0 \<notin> set (W q) \<and> (\<forall>r\<in>Q. q \<noteq> r \<longrightarrow> set (W q) \<inter> set (W r) = {})) \<and>
     (\<forall>t\<in>set rq. tstate (task_at s t) = TASK_RUNNING) \<and>
     (\<forall>q\<in>Q. \<forall>t\<in>set (W q). tstate (task_at s t) = TASK_SLEEPING)"

lemma runq_cong: "klists t = klists s \<Longrightarrow> runq t ts = runq s ts"
  by (simp add: runq_def)

lemma waits_cong: "klists t = klists s \<Longrightarrow> waits t q ts = waits s q ts"
  by (simp add: waits_def)

lemma klists_simps [simp]:
  "klists (set_lists f s) = f (klists s)" "klists (upd_task t g s) = klists s"
  "task_at (set_lists f s) = task_at s" "task_at (upd_task t g s) = (task_at s)(t := g (task_at s t))"
  "current (set_lists f s) = current s" "current (upd_task t g s) = current s"
  by (simp_all add: set_lists_def upd_task_def)

text \<open>The run queue and a wait queue have no node in common, nor have two wait queues without a common sleeper.\<close>

lemma nodes_apart:
  "set (Runqueue # map RunLink xs) \<inter> set (WaitHead q # map WaitLink ys) = {}"
  "q \<noteq> r \<Longrightarrow> set xs \<inter> set ys = {} \<Longrightarrow> set (WaitHead q # map WaitLink xs) \<inter> set (WaitHead r # map WaitLink ys) = {}"
  by auto

lemma runq_add: "runq s xs \<Longrightarrow> t \<notin> set xs \<Longrightarrow> runq (set_lists (list_add_tail (RunLink t) Runqueue) s) (xs @ [t])"
  unfolding runq_def using kl.rep_add_tail [of "klists s" Runqueue "map RunLink xs" "RunLink t"] by auto

lemma runq_del: "runq s (xs @ t # ys) \<Longrightarrow> runq (set_lists (list_del (RunLink t)) s) (xs @ ys)"
  unfolding runq_def using kl.rep_del [of "klists s" Runqueue "map RunLink xs" "RunLink t" "map RunLink ys"] by simp

lemma waits_add: "waits s q xs \<Longrightarrow> t \<notin> set xs \<Longrightarrow> waits (set_lists (list_add_tail (WaitLink t) (WaitHead q)) s) q (xs @ [t])"
  unfolding waits_def using kl.rep_add_tail [of "klists s" "WaitHead q" "map WaitLink xs" "WaitLink t"] by auto

lemma waits_del: "waits s q (xs @ t # ys) \<Longrightarrow> waits (set_lists (list_del (WaitLink t)) s) q (xs @ ys)"
  unfolding waits_def using kl.rep_del [of "klists s" "WaitHead q" "map WaitLink xs" "WaitLink t" "map WaitLink ys"] by simp

text \<open>Operations on one queue leave the others alone.\<close>

lemma waits_run_add: "waits s q ys \<Longrightarrow> runq s xs \<Longrightarrow> waits (set_lists (list_add_tail (RunLink t) Runqueue) s) q ys"
  unfolding waits_def runq_def klists_simps by (erule kl.frame_add_tail) auto

lemma waits_run_del: "waits s q ys \<Longrightarrow> runq s (xs @ t # zs) \<Longrightarrow> waits (set_lists (list_del (RunLink t)) s) q ys"
  unfolding waits_def runq_def klists_simps by (erule kl.frame_del) auto

lemma runq_wait_add: "runq s ys \<Longrightarrow> waits s q xs \<Longrightarrow> runq (set_lists (list_add_tail (WaitLink t) (WaitHead q)) s) ys"
  unfolding waits_def runq_def klists_simps by (erule kl.frame_add_tail) auto

lemma runq_wait_del: "runq s ys \<Longrightarrow> waits s q (xs @ t # zs) \<Longrightarrow> runq (set_lists (list_del (WaitLink t)) s) ys"
  unfolding waits_def runq_def klists_simps by (erule kl.frame_del) auto

lemma waits_wait_add:
  "waits s r ys \<Longrightarrow> waits s q xs \<Longrightarrow> q \<noteq> r \<Longrightarrow> set xs \<inter> set ys = {} \<Longrightarrow> t \<notin> set ys \<Longrightarrow>
    waits (set_lists (list_add_tail (WaitLink t) (WaitHead q)) s) r ys"
  unfolding waits_def klists_simps by (erule kl.frame_add_tail) auto

lemma waits_wait_del:
  "waits s r ys \<Longrightarrow> waits s q (xs @ t # zs) \<Longrightarrow> q \<noteq> r \<Longrightarrow> set (xs @ t # zs) \<inter> set ys = {} \<Longrightarrow>
    waits (set_lists (list_del (WaitLink t)) s) r ys"
  unfolding waits_def klists_simps by (erule kl.frame_del) auto

lemma runq_first: "runq s (t # ts) \<Longrightarrow> lnext (klists s) Runqueue = RunLink t"
  unfolding runq_def using kl.rep_first by fastforce

lemma runq_empty: "runq s ts \<Longrightarrow> list_empty Runqueue (klists s) \<longleftrightarrow> ts = []"
  unfolding runq_def using kl.rep_is_empty by fastforce

lemma waits_first: "waits s q (t # ts) \<Longrightarrow> lnext (klists s) (WaitHead q) = WaitLink t"
  unfolding waits_def using kl.rep_first by fastforce

lemma waits_empty: "waits s q ts \<Longrightarrow> list_empty (WaitHead q) (klists s) \<longleftrightarrow> ts = []"
  unfolding waits_def using kl.rep_is_empty by fastforce

lemma runq_distinct: "runq s ts \<Longrightarrow> distinct ts"
  unfolding runq_def by (auto dest!: kl.rep_distinct simp: distinct_map)

lemma waits_distinct: "waits s q ts \<Longrightarrow> distinct ts"
  unfolding waits_def by (auto dest!: kl.rep_distinct simp: distinct_map)

section \<open>The operations on the lists of tasks\<close>

text \<open>What \<^verbatim>\<open>schedule\<close> does when there is a task to run: the queue is rotated and its old head runs.\<close>

lemma schedule_effect:
  assumes "runq s (t # ts)" and "current s \<noteq> 0"
  shows "klists (snd (schedule s)) = list_add_tail (RunLink t) Runqueue (list_del (RunLink t) (klists s))"
    and "current (snd (schedule s)) = t"
    and "fst (schedule s) = (if current s = t then Same else SwitchTo t)"
    and "tstate (task_at (snd (schedule s)) u) = tstate (task_at s u)"
    and "pid (task_at (snd (schedule s)) u) = pid (task_at s u)"
    and "tsignal (task_at (snd (schedule s)) u) = tsignal (task_at s u)"
  using assms runq_first [OF assms(1)] runq_empty [OF assms(1)]
  by (simp_all add: schedule_def Let_def set_lists_def upd_task_def)

lemma schedule_idle: "runq s [] \<Longrightarrow> current s \<noteq> 0 \<Longrightarrow> schedule s = (Idle, s)"
  using runq_empty [of s "[]"] by (simp add: schedule_def)

lemma schedule_runq:
  assumes "runq s (t # ts)" and "current s \<noteq> 0"
  shows "runq (snd (schedule s)) (ts @ [t])"
  using kl.rotate [of "klists s" Runqueue "RunLink t" "map RunLink ts"] assms
  by (simp add: runq_def schedule_effect)

lemma schedule_waits:
  assumes "runq s (t # ts)" and "current s \<noteq> 0" and "waits s q ys"
  shows "waits (snd (schedule s)) q ys"
proof -
  let ?u = "set_lists (list_del (RunLink t)) s"
  have "waits ?u q ys" using waits_run_del [of s q ys "[]" t ts] assms by simp
  moreover have "runq ?u ts" using runq_del [of s "[]" t ts] assms by simp
  ultimately have "waits (set_lists (list_add_tail (RunLink t) Runqueue) ?u) q ys"
    by (rule waits_run_add)
  then show ?thesis by (simp add: waits_def schedule_effect [OF assms(1,2)])
qed

text \<open>The steps of the abstract scheduler.\<close>

type_synonym sched_abs = "uptr list \<times> (waitq \<Rightarrow> uptr list) \<times> uptr"

fun pick :: "sched_abs \<Rightarrow> sched_abs" where
  "pick ([], W, c) = ([], W, c)"
| "pick (t # ts, W, c) = (ts @ [t], W, t)"

datatype sched_op = Start uptr | Reschedule | Yield | Sleep waitq | Wake waitq | WakeAll waitq

fun abs_op :: "sched_op \<Rightarrow> sched_abs \<Rightarrow> sched_abs" where
  "abs_op (Start t) (rq, W, c) = (rq @ [t], W, c)"
| "abs_op Reschedule a = pick a"
| "abs_op Yield a = pick a"
| "abs_op (Sleep q) (rq, W, c) = pick (remove1 c rq, W(q := W q @ [c]), c)"
| "abs_op (Wake q) (rq, W, c) = (rq @ take 1 (W q), W(q := drop 1 (W q)), c)"
| "abs_op (WakeAll q) (rq, W, c) = (rq @ W q, W(q := []), c)"

text \<open>When an operation may be called: a new task is not queued yet, a task that goes to sleep is runnable.\<close>

fun op_ok :: "waitq set \<Rightarrow> sched_op \<Rightarrow> sched_abs \<Rightarrow> bool" where
  "op_ok Q (Start t) (rq, W, c) \<longleftrightarrow> t \<noteq> 0 \<and> t \<notin> set rq \<and> (\<forall>q\<in>Q. t \<notin> set (W q))"
| "op_ok Q Reschedule (rq, W, c) \<longleftrightarrow> True"
| "op_ok Q Yield (rq, W, c) \<longleftrightarrow> True"
| "op_ok Q (Sleep q) (rq, W, c) \<longleftrightarrow> q \<in> Q \<and> c \<in> set rq"
| "op_ok Q (Wake q) (rq, W, c) \<longleftrightarrow> q \<in> Q"
| "op_ok Q (WakeAll q) (rq, W, c) \<longleftrightarrow> q \<in> Q"

fun run_op :: "sched_op \<Rightarrow> kernel \<Rightarrow> kernel option" where
  "run_op (Start t) s = Some (sched_add t s)"
| "run_op Reschedule s = Some (snd (schedule s))"
| "run_op Yield s = Some (snd (sched_yield s))"
| "run_op (Sleep q) s = Some (snd (sleep_on q s))"
| "run_op (Wake q) s = Some (wake_up q s)"
| "run_op (WakeAll q) s = wake_up_all q s"

fun sched_abs_rep :: "waitq set \<Rightarrow> kernel \<Rightarrow> sched_abs \<Rightarrow> bool" where
  "sched_abs_rep Q s (rq, W, c) \<longleftrightarrow> sched_rep Q s rq W \<and> current s = c \<and> c \<noteq> 0"

lemma sched_repD:
  assumes "sched_rep Q s rq W"
  shows "runq s rq" "0 \<notin> set rq"
    and "q \<in> Q \<Longrightarrow> waits s q (W q)" "q \<in> Q \<Longrightarrow> t \<in> set (W q) \<Longrightarrow> t \<notin> set rq"
    and "q \<in> Q \<Longrightarrow> r \<in> Q \<Longrightarrow> t \<in> set (W q) \<Longrightarrow> t \<in> set (W r) \<Longrightarrow> q = r"
    and "q \<in> Q \<Longrightarrow> t \<in> set (W q) \<Longrightarrow> tstate (task_at s t) = TASK_SLEEPING"
    and "t \<in> set rq \<Longrightarrow> tstate (task_at s t) = TASK_RUNNING"
    and "q \<in> Q \<Longrightarrow> 0 \<notin> set (W q)"
  using assms unfolding sched_rep_def by blast+

lemma sched_repI:
  assumes "runq s rq" "0 \<notin> set rq"
    and "\<And>q. q \<in> Q \<Longrightarrow> waits s q (W q)" "\<And>q t. q \<in> Q \<Longrightarrow> t \<in> set (W q) \<Longrightarrow> t \<notin> set rq"
    and "\<And>q r t. q \<in> Q \<Longrightarrow> r \<in> Q \<Longrightarrow> t \<in> set (W q) \<Longrightarrow> t \<in> set (W r) \<Longrightarrow> q = r"
    and "\<And>q t. q \<in> Q \<Longrightarrow> t \<in> set (W q) \<Longrightarrow> tstate (task_at s t) = TASK_SLEEPING"
    and "\<And>t. t \<in> set rq \<Longrightarrow> tstate (task_at s t) = TASK_RUNNING"
    and "\<And>q. q \<in> Q \<Longrightarrow> 0 \<notin> set (W q)"
  shows "sched_rep Q s rq W"
  using assms unfolding sched_rep_def by blast

lemma slice_rep [simp]: "sched_rep Q (upd_task t (\<lambda>x. x\<lparr>time_slice := v\<rparr>) s) rq W = sched_rep Q s rq W"
proof -
  have "tstate (task_at (upd_task t (\<lambda>x. x\<lparr>time_slice := v\<rparr>) s) u) = tstate (task_at s u)" for u by simp
  then show ?thesis by (simp only: sched_rep_def runq_def waits_def klists_simps(2))
qed

lemma sched_add_rep:
  assumes rep: "sched_rep Q s rq W" and new: "t \<noteq> 0" "t \<notin> set rq" "\<forall>q\<in>Q. t \<notin> set (W q)"
  shows "sched_rep Q (sched_add t s) (rq @ [t]) W"
proof -
  note [simp] = runq_cong [of "upd_task t g s" s for g] waits_cong [of "upd_task t g s" s for g]
  note d = sched_repD [OF rep]
  show ?thesis unfolding sched_add_def
    by (rule sched_repI) (use d new in \<open>auto intro!: runq_add waits_run_add\<close>)
qed

text \<open>Taking the first sleeper off its queue, which \<^verbatim>\<open>wake_up\<close> does before it queues the task to run.\<close>

lemma wait_del_rep:
  assumes rep: "sched_rep Q s rq W" and q: "q \<in> Q" "W q = t # ts"
  shows "sched_rep Q (upd_task t (\<lambda>x. x\<lparr>tstate := TASK_RUNNING\<rparr>) (set_lists (list_del (WaitLink t)) s)) rq (W(q := ts))"
    (is "sched_rep Q ?u rq ?W")
proof -
  note d = sched_repD [OF rep]
  have tq: "waits s q ([] @ t # ts)" using d(3) [OF q(1)] q(2) by simp
  have dt: "t \<notin> set ts" using waits_distinct [OF tq] by simp
  have k: "klists ?u = klists (set_lists (list_del (WaitLink t)) s)" by simp
  note [simp] = runq_cong [OF k] waits_cong [OF k]
  show ?thesis
  proof (rule sched_repI)
    show "runq ?u rq" using runq_wait_del [OF d(1) tq] by simp
    show "waits ?u r (?W r)" if "r \<in> Q" for r
      using that q d(5) [OF q(1) that] waits_del [OF tq] waits_wait_del [OF d(3) [OF that] tq] by auto
  qed (use d d(8) [OF q(1)] q dt in \<open>auto split: if_splits\<close>)
qed

lemma wake_one_rep:
  assumes rep: "sched_rep Q s rq W" and q: "q \<in> Q" "W q = t # ts"
  shows "sched_rep Q (wake_one t s) (rq @ [t]) (W(q := ts))"
  unfolding wake_one_def
proof (rule sched_add_rep [OF wait_del_rep [OF rep q]])
  note d = sched_repD [OF rep]
  show "t \<noteq> 0" "t \<notin> set rq" using d(4,8) [OF q(1)] q(2) by auto
  show "\<forall>r\<in>Q. t \<notin> set ((W(q := ts)) r)"
    using d(5) [OF q(1)] waits_distinct [OF d(3) [OF q(1)]] q(2) by auto
qed

lemma current_sched [simp]: "current (sched_add t s) = current s" "current (wake_one t s) = current s"
    "current (sched_remove t s) = current s"
  by (simp_all add: sched_add_def wake_one_def sched_remove_def)

lemma wake_up_rep:
  assumes rep: "sched_rep Q s rq W" and q: "q \<in> Q"
  shows "sched_rep Q (wake_up q s) (rq @ take 1 (W q)) (W(q := drop 1 (W q)))"
proof (cases "W q")
  case Nil
  with rep waits_empty [OF sched_repD(3) [OF rep q]] show ?thesis
    by (simp add: wake_up_def fun_upd_idem)
next
  case (Cons t ts)
  with sched_repD(3) [OF rep q] have "waits s q (t # ts)" by simp
  from waits_first [OF this] waits_empty [OF this] wake_one_rep [OF rep q Cons] Cons show ?thesis
    by (simp add: wake_up_def)
qed

lemma current_wake_up [simp]: "current (wake_up q s) = current s"
  by (simp add: wake_up_def)

lemma is_list_next: "is_list st h (x # xs) \<Longrightarrow> lnext st x = hd (xs @ [h])"
  by (cases xs) (auto simp: is_list_def)

text \<open>\<^verbatim>\<open>wake_up_all\<close> reads the next node before it unlinks one, so the loop ends.\<close>

lemma wake_all_from_rep:
  assumes "sched_rep Q s rq W" and "q \<in> Q"
  shows "\<exists>s'. wake_all_from q (hd (map WaitLink (W q) @ [WaitHead q])) s = Some s' \<and>
    sched_rep Q s' (rq @ W q) (W(q := [])) \<and> current s' = current s"
  using assms
proof (induction "W q" arbitrary: s rq W)
  case Nil
  then show ?case by (auto simp: wake_all_from.simps fun_upd_idem)
next
  case (Cons t ts)
  from Cons.prems Cons.hyps(2) have "waits s q (t # ts)" using sched_repD(3) by metis
  then have n: "lnext (klists s) (WaitLink t) = hd (map WaitLink ts @ [WaitHead q])"
    using is_list_next [of "klists s" "WaitHead q" "WaitLink t" "map WaitLink ts"] by (simp add: waits_def)
  have r: "sched_rep Q (wake_one t s) (rq @ [t]) (W(q := ts))"
    using wake_one_rep [OF Cons.prems] Cons.hyps(2) by simp
  have "wake_all_from q (hd (map WaitLink (W q) @ [WaitHead q])) s =
      wake_all_from q (hd (map WaitLink ts @ [WaitHead q])) (wake_one t s)"
    by (simp add: Cons.hyps(2) [symmetric] n wake_all_from.simps [of q "WaitLink t"] Let_def)
  with Cons.hyps(1) [OF _ r Cons.prems(2)] Cons.hyps(2) show ?case by fastforce
qed

lemma wake_up_all_rep:
  assumes "sched_rep Q s rq W" and "q \<in> Q"
  shows "\<exists>s'. wake_up_all q s = Some s' \<and> sched_rep Q s' (rq @ W q) (W(q := [])) \<and> current s' = current s"
  using wake_all_from_rep [OF assms] is_list_ends(1) [of "klists s" "WaitHead q" "map WaitLink (W q)"]
    sched_repD(3) [OF assms]
  by (simp add: wake_up_all_def waits_def)

lemma schedule_rep:
  assumes "sched_abs_rep Q s (rq, W, c)"
  shows "sched_abs_rep Q (snd (schedule s)) (pick (rq, W, c))"
proof (cases rq)
  case Nil
  with assms show ?thesis using schedule_idle [OF sched_repD(1)] by fastforce
next
  case (Cons t ts)
  with assms have r: "runq s (t # ts)" and c: "current s \<noteq> 0" and rep: "sched_rep Q s (t # ts) W"
    using sched_repD(1) by auto
  note d = sched_repD [OF rep]
  have "sched_rep Q (snd (schedule s)) (ts @ [t]) W"
    by (rule sched_repI)
       (use d c in \<open>auto simp: schedule_effect [OF r c] intro: schedule_runq schedule_waits [OF r c]\<close>)
  with d Cons show ?thesis by (auto simp: schedule_effect [OF r c])
qed

lemma sleep_rep:
  assumes rep: "sched_rep Q s rq W" and q: "q \<in> Q" and c: "c \<in> set rq"
  shows "sched_rep Q (sched_remove c (set_lists (list_add_tail (WaitLink c) (WaitHead q))
      (upd_task c (\<lambda>x. x\<lparr>tstate := TASK_SLEEPING\<rparr>) s))) (remove1 c rq) (W(q := W q @ [c]))"
    (is "sched_rep Q (sched_remove c ?u) ?rq ?W")
proof -
  note d = sched_repD [OF rep]
  let ?v = "upd_task c (\<lambda>x. x\<lparr>tstate := TASK_SLEEPING\<rparr>) s"
  obtain xs ys where rq: "rq = xs @ c # ys" "c \<notin> set xs" using split_list_first [OF c] by auto
  have dq: "distinct rq" using d(1) by (rule runq_distinct)
  have rq': "?rq = xs @ ys" using rq by (simp add: remove1_append)
  have cw: "c \<notin> set (W r)" if "r \<in> Q" for r using d(4) [OF that] c by auto
  have k: "klists ?v = klists s" by simp
  have ru: "runq ?u (xs @ c # ys)" using runq_wait_add [of ?v rq q "W q" c] d(1) d(3) [OF q] rq
    by (simp add: runq_cong [OF k] waits_cong [OF k])
  have wu: "waits ?u r (?W r)" if "r \<in> Q" for r
    using waits_add [of ?v q "W q" c] waits_wait_add [of ?v r "W r" q "W q" c] d(3) [OF that] d(3) [OF q]
      cw [OF that] d(5) [OF q that] by (auto simp: waits_cong [OF k])
  show ?thesis unfolding sched_remove_def
  proof (rule sched_repI)
    show "runq (set_lists (list_del (RunLink c)) ?u) ?rq" using runq_del [OF ru] rq' by simp
    show "waits (set_lists (list_del (RunLink c)) ?u) r (?W r)" if "r \<in> Q" for r
      using wu [OF that] ru by (rule waits_run_del)
  qed (use d cw rq q dq in \<open>auto simp: remove1_append split: if_splits\<close>)
qed

lemma run_op_rep:
  assumes "sched_abs_rep Q s a" and "op_ok Q op a"
  shows "\<exists>s'. run_op op s = Some s' \<and> sched_abs_rep Q s' (abs_op op a)"
proof -
  obtain rq W c where a: "a = (rq, W, c)" by (cases a)
  with assms have r: "sched_rep Q s rq W" "current s = c" "c \<noteq> 0" by auto
  show ?thesis
  proof (cases op)
    case (Sleep q)
    with assms a r have "sched_rep Q (sched_remove c (set_lists (list_add_tail (WaitLink c) (WaitHead q))
      (upd_task c (\<lambda>x. x\<lparr>tstate := TASK_SLEEPING\<rparr>) s))) (remove1 c rq) (W(q := W q @ [c]))"
      by (intro sleep_rep) auto
    with schedule_rep [of Q _ "remove1 c rq" "W(q := W q @ [c])" c] Sleep a r show ?thesis
      by (simp add: sleep_on_def Let_def)
  next
    case Yield
    with schedule_rep [of Q "upd_task c (\<lambda>x. x\<lparr>time_slice := 0\<rparr>) s" rq W c] schedule_rep [of Q s rq W c] a r show ?thesis
      by (auto simp: sched_yield_def)
  qed (use assms a r in \<open>auto intro: sched_add_rep wake_up_rep [unfolded One_nat_def] schedule_rep dest: wake_up_all_rep\<close>)
qed

fun run_ops :: "sched_op list \<Rightarrow> kernel \<Rightarrow> kernel option" where
  "run_ops [] s = Some s"
| "run_ops (op # ops) s = Option.bind (run_op op s) (run_ops ops)"

fun abs_ops :: "sched_op list \<Rightarrow> sched_abs \<Rightarrow> sched_abs" where
  "abs_ops [] a = a"
| "abs_ops (op # ops) a = abs_ops ops (abs_op op a)"

fun ops_ok :: "waitq set \<Rightarrow> sched_op list \<Rightarrow> sched_abs \<Rightarrow> bool" where
  "ops_ok Q [] a \<longleftrightarrow> True"
| "ops_ok Q (op # ops) a \<longleftrightarrow> op_ok Q op a \<and> ops_ok Q ops (abs_op op a)"

section \<open>An example state\<close>

text \<open>Two tasks are on the run queue, the first of them is running.\<close>

definition sched_example :: kernel where
  "sched_example = (sched_add 0x200 (sched_add 0x100 (kernel_boot (mm_example slab_boot 0 0))))\<lparr>current := 0x100\<rparr>"

lemma kernel_boot_rep: "sched_rep Q (kernel_boot m) [] (\<lambda>_. [])"
  by (simp add: sched_rep_def runq_def waits_def kernel_boot_def is_list_def)

lemma sched_rep_current [simp]: "sched_rep Q (s\<lparr>current := c\<rparr>) rq W = sched_rep Q s rq W"
  by (simp add: sched_rep_def runq_def waits_def)

lemma sched_example_rep:
  "sched_rep Q sched_example [0x100, 0x200] (\<lambda>_. [])" "current sched_example = 0x100"
  using sched_add_rep [OF sched_add_rep [OF kernel_boot_rep, of "0x100" Q], of "0x200"]
  by (simp_all add: sched_example_def)

section \<open>Properties\<close>



lemma schedule_steps:
  assumes "runq s (xs @ ys)" and "current s \<noteq> 0" and "0 \<notin> set (xs @ ys)"
  shows "runq (((snd \<circ> schedule) ^^ length xs) s) (ys @ xs) \<and>
    current (((snd \<circ> schedule) ^^ length xs) s) = last (current s # xs)"
  using assms
proof (induction xs arbitrary: s ys)
  case (Cons t xs)
  let ?u = "snd (schedule s)"
  from Cons.prems have r: "runq s (t # xs @ ys)" by simp
  have "runq ?u (xs @ ys @ [t])" using schedule_runq [OF r Cons.prems(2)] by simp
  moreover have "current ?u = t" by (rule schedule_effect(2) [OF r Cons.prems(2)])
  ultimately show ?case using Cons.IH [of ?u "ys @ [t]"] Cons.prems(3)
    by (simp add: funpow_Suc_right del: funpow.simps)
qed simp



lemma linked_append: "list_nodes (list_add_tail n h s) h = None" if "is_list s h (xs @ [n])"
  using list_add_tail_linked [of s h xs n "[]"] that by simp

text \<open>
  A task that goes to sleep while no other is runnable is not switched away from: \<^verbatim>\<open>sleep_on\<close> returns to it
  with the task still on the wait queue.  When it then waits again, as the loops around
  \<^verbatim>\<open>sleep_on_interruptible\<close> do, its link is added to the queue it is on, and a walk of that queue never ends.
\<close>

theorem sleep_idle_breaks_queue:
  assumes "sched_rep Q s [c] W" and "q \<in> Q" and "current s = c"
  shows "fst (sleep_on q s) = Idle \<and> current (snd (sleep_on q s)) = c \<and>
    list_nodes (klists (snd (sleep_on q (snd (sleep_on q s))))) (WaitHead q) = None"
proof -
  let ?u = "snd (sleep_on q s)" and ?sleep = "\<lambda>s. set_lists (list_add_tail (WaitLink c) (WaitHead q))
      (upd_task c (\<lambda>x. x\<lparr>tstate := TASK_SLEEPING\<rparr>) s)"
  have c: "c \<noteq> 0" using sched_repD(2) [OF assms(1)] by auto
  from sleep_rep [OF assms(1,2), of c] have r: "sched_rep Q (sched_remove c (?sleep s)) [] (W(q := W q @ [c]))" by simp
  have cur: "current (sched_remove c (?sleep s)) = c" using assms(3) by simp
  have eq: "sleep_on q s = (Idle, sched_remove c (?sleep s))"
    using schedule_idle [OF sched_repD(1) [OF r]] cur c assms(3) by (simp add: sleep_on_def Let_def)
  have self: "lnext (klists ?u) (RunLink c) = RunLink c" "lprev (klists ?u) (RunLink c) = RunLink c"
    by (simp_all add: eq sched_remove_def list_op_defs)
  have w: "is_list (klists ?u) (WaitHead q) (map WaitLink (W q) @ [WaitLink c])"
    using sched_repD(3) [OF r assms(2)] by (simp add: eq waits_def)
  have lp: "lprev (klists ?u) (WaitHead q) = WaitLink c" using is_list_ends(2) [OF w] by simp
  let ?l = "list_add_tail (WaitLink c) (WaitHead q) (klists ?u)"
  have del: "list_del (RunLink c) ?l = ?l"
    by (rule list_del_self) (simp_all add: list_add_tail_def list_add_between_def lp self)
  have k: "klists (sched_remove c (?sleep ?u)) = ?l" by (simp add: sched_remove_def del)
  have "runq ?u []" using sched_repD(1) [OF r] by (simp add: eq)
  then have "runq (sched_remove c (?sleep ?u)) []"
    unfolding runq_def k by (subst is_list_cong [of _ _ _ "klists ?u"]) (auto simp: list_add_tail_def list_add_between_def lp)
  moreover have cu: "current ?u = c" using cur by (simp add: eq)
  moreover have "sleep_on q u = schedule (sched_remove c (?sleep u))" if "current u = c" for u
    using that by (simp add: sleep_on_def Let_def)
  ultimately have "sleep_on q ?u = (Idle, sched_remove c (?sleep ?u))"
    using schedule_idle [of "sched_remove c (?sleep ?u)"] c by simp
  then have "klists (snd (sleep_on q ?u)) = ?l" using k by simp
  with linked_append [OF w] cu show ?thesis by (simp add: eq)
qed

text \<open>A state with one runnable task, which runs.\<close>

definition sched_single :: kernel where
  "sched_single = (sched_add 0x100 (kernel_boot (mm_example slab_boot 0 0)))\<lparr>current := 0x100\<rparr>"

theorem sleep_idle_breaks_queue_witness:
  "list_nodes (klists (snd (sleep_on WaitpidQueue (snd (sleep_on WaitpidQueue sched_single))))) (WaitHead WaitpidQueue) = None"
proof -
  have "sched_rep {WaitpidQueue} sched_single [0x100] (\<lambda>_. [])"
    using sched_add_rep [OF kernel_boot_rep, of "0x100" "{WaitpidQueue}"] by (simp add: sched_single_def)
  from sleep_idle_breaks_queue [OF this, of WaitpidQueue] show ?thesis by (simp add: sched_single_def)
qed

text \<open>
  C36: A signal to a sleeping task makes it runnable but leaves it on its wait queue.  When the event it waited
  for comes next and it is still last on the run queue, \<^verbatim>\<open>wake_up\<close> adds it to the run queue a second time,
  and a walk of the run queue never ends.
\<close>

theorem kill_then_wake_breaks_runqueue:
  assumes "sched_rep Q s rq W" and "q \<in> Q" and "W q = t # ts" and "find_task_by_pid p s = Some t"
    and "tsignal (task_at s t) \<noteq> 0" and "0 < sig" and "sig < 64"
  shows "\<exists>s1. sys_kill p sig s = Some (None, s1) \<and> runq s1 (rq @ [t]) \<and> waits s1 q (t # ts) \<and>
    list_nodes (klists (wake_up q s1)) Runqueue = None"
proof -
  note d = sched_repD [OF assms(1)]
  let ?v = "upd_signal (tsignal (task_at s t)) (\<lambda>g. g\<lparr>pending := pending g OR push_bit (nat sig) 1\<rparr>) s"
  let ?w = "upd_task t (\<lambda>x. x\<lparr>tstate := TASK_RUNNING\<rparr>) ?v"
  let ?u = "wake_up_process t ?v"
  have t: "t \<noteq> 0" "t \<notin> set rq" "tstate (task_at s t) = TASK_SLEEPING"
    using d(4,6,8) [OF assms(2)] assms(3) by auto
  have kill: "sys_kill p sig s = Some (None, ?u)"
    using assms(4-7) t by (simp add: sys_kill_def MAX_SIGNALS_def upd_signal_def Let_def)
  have k: "klists ?u = klists (set_lists (list_add_tail (RunLink t) Runqueue) s)"
    by (simp add: wake_up_process_def sched_add_def upd_signal_def)
  have r: "runq ?u (rq @ [t])" unfolding runq_cong [OF k] by (rule runq_add [OF d(1) t(2)])
  have w: "waits ?u q ([] @ t # ts)"
    unfolding waits_cong [OF k] using waits_run_add [OF d(3) [OF assms(2)] d(1)] assms(3) by simp
  have "runq (set_lists (list_del (WaitLink t)) ?u) (rq @ [t])" by (rule runq_wait_del [OF r w])
  then have "list_nodes (list_add_tail (RunLink t) Runqueue (list_del (WaitLink t) (klists ?u))) Runqueue = None"
    by (intro linked_append) (simp add: runq_def)
  moreover have "klists (wake_up q ?u) = list_add_tail (RunLink t) Runqueue (list_del (WaitLink t) (klists ?u))"
    using waits_first [of ?u q t ts] waits_empty [of ?u q "t # ts"] w
    by (simp add: wake_up_def wake_one_def sched_add_def)
  ultimately show ?thesis using kill r w by auto
qed

text \<open>Task 7 sleeps for a child; it has a signal structure.\<close>

definition kill_example :: kernel where
  "kill_example = snd (sleep_on WaitpidQueue (set_lists (list_add_tail (TaskLink 0x100) TaskListHead)
     (upd_task 0x100 (\<lambda>x. x\<lparr>pid := 7, tsignal := 0x900\<rparr>) sched_example)))"

lemma kill_example_rep:
  "sched_rep {WaitpidQueue} kill_example [0x200] ((\<lambda>_. [])(WaitpidQueue := [0x100]))"
  "find_task_by_pid 7 kill_example = Some 0x100" "tsignal (task_at kill_example 0x100) = 0x900"
proof -
  let ?s = "set_lists (list_add_tail (TaskLink 0x100) TaskListHead)
     (upd_task 0x100 (\<lambda>x. x\<lparr>pid := 7, tsignal := 0x900\<rparr>) sched_example)"
  note d = sched_example_rep(1) [of "{WaitpidQueue}"]
  have k: "klists sched_example = list_add_tail (RunLink 0x200) Runqueue (list_add_tail (RunLink 0x100) Runqueue \<lparr>lnext = id, lprev = id\<rparr>)"
    by (simp add: sched_example_def sched_add_def kernel_boot_def set_lists_def upd_task_def)
  have run: "is_list (klists ?s) Runqueue [RunLink 0x100, RunLink 0x200]" "is_list (klists ?s) (WaitHead WaitpidQueue) []"
    "is_list (klists ?s) TaskListHead [TaskLink 0x100]"
    by (simp_all add: k is_list_def list_add_tail_def list_add_between_def)
  have r: "sched_rep {WaitpidQueue} ?s [0x100, 0x200] (\<lambda>_. [])"
    by (rule sched_repI) (use run sched_repD(7) [OF d] in \<open>auto simp: runq_def waits_def\<close>)
  have cur: "current ?s = 0x100" using sched_example_rep(2) by simp
  let ?t = "sched_remove 0x100 (set_lists (list_add_tail (WaitLink 0x100) (WaitHead WaitpidQueue))
      (upd_task 0x100 (\<lambda>x. x\<lparr>tstate := TASK_SLEEPING\<rparr>) ?s))"
  have e: "kill_example = snd (schedule ?t)" using cur by (simp add: kill_example_def sleep_on_def Let_def)
  have rt: "sched_rep {WaitpidQueue} ?t [0x200] ((\<lambda>_. [])(WaitpidQueue := [0x100]))"
    using sleep_rep [OF r, of WaitpidQueue "0x100"] by simp
  note eff = schedule_effect [OF sched_repD(1) [OF rt]]
  have c: "current ?t \<noteq> 0" using cur by simp
  show "sched_rep {WaitpidQueue} kill_example [0x200] ((\<lambda>_. [])(WaitpidQueue := [0x100]))"
    using schedule_rep [of "{WaitpidQueue}" ?t "[0x200]" _ "0x100"] rt cur by (simp add: e)
  show "tsignal (task_at kill_example 0x100) = 0x900"
    unfolding e eff(6) [OF c] by (simp add: sched_remove_def)
  have "pid (task_at kill_example 0x100) = 7"
    unfolding e eff(5) [OF c] by (simp add: sched_remove_def)
  moreover have "is_list (klists kill_example) TaskListHead [TaskLink 0x100]"
    unfolding e eff(1) [OF c] by (simp add: sched_remove_def k is_list_def list_op_defs)
  ultimately show "find_task_by_pid 7 kill_example = Some 0x100"
    by (simp add: find_task_by_pid_def list_find_eq)
qed

theorem kill_then_wake_breaks_runqueue_witness:
  "\<exists>s1. sys_kill 7 SIGTERM kill_example = Some (None, s1) \<and>
     list_nodes (klists (wake_up WaitpidQueue s1)) Runqueue = None"
proof -
  have "\<exists>s1. sys_kill 7 15 kill_example = Some (None, s1) \<and> runq s1 ([0x200] @ [0x100]) \<and>
      waits s1 WaitpidQueue [0x100] \<and> list_nodes (klists (wake_up WaitpidQueue s1)) Runqueue = None"
    by (rule kill_then_wake_breaks_runqueue [OF kill_example_rep(1) _ _ kill_example_rep(2)])
       (simp_all add: kill_example_rep(3))
  then show ?thesis by (auto simp: SIGTERM_def)
qed

end
