(* ===== verification/Process.thy ===== *)
theory Process
  imports Sched
begin

text \<open>
  The life of a process, after \<^verbatim>\<open>kernel/process.c\<close>: creation of tasks, \<^verbatim>\<open>fork\<close>, \<^verbatim>\<open>exit\<close>, \<^verbatim>\<open>waitpid\<close>, and the
  delivery of signals.
\<close>

section \<open>Kernel stacks and address spaces\<close>

definition KSTACK_PAGES :: u32 where "KSTACK_PAGES = 2"

definition set_vm :: "vmm \<Rightarrow> kernel \<Rightarrow> kernel" where
  "set_vm v s = s\<lparr>kmm := (kmm s)\<lparr>vm := v\<rparr>\<rparr>"

definition alloc_kstack :: "kernel \<Rightarrow> uptr \<times> kernel" where
  "alloc_kstack s =
     (let v = vm (kmm s)
      in case pmm_alloc_contiguous KSTACK_PAGES (frames v) of
           (phys, fr) \<Rightarrow>
             (if phys = 0 then 0 else phys_to_virt phys + KSTACK_PAGES * PAGE_SIZE, set_vm (v\<lparr>frames := fr\<rparr>) s))"

definition free_kstack :: "uptr \<Rightarrow> kernel \<Rightarrow> kernel" where
  "free_kstack stop s =
     (let virt = stop - KSTACK_PAGES * PAGE_SIZE; phys = virt_to_phys virt; v = vm (kmm s)
      in set_vm (v\<lparr>frames := pmm_free_contiguous phys KSTACK_PAGES (frames v)\<rparr>) s)"

text \<open>Words of a kernel stack, through the kernel's window on physical memory.\<close>

definition kstack_read :: "uptr \<Rightarrow> kernel \<Rightarrow> u32" where
  "kstack_read va s = mem (vm (kmm s)) (virt_to_phys va)"

definition kstack_write :: "uptr \<Rightarrow> u32 \<Rightarrow> kernel \<Rightarrow> kernel" where
  "kstack_write va x s = set_vm (mem_write (virt_to_phys va) x (vm (kmm s))) s"

definition kern_mm_create :: "uptr kfun" where
  "kern_mm_create s = do { (m, st) \<leftarrow> mm_create (kmm s); Some (m, s\<lparr>kmm := st\<rparr>) }"

definition kern_mm_destroy :: "uptr \<Rightarrow> kernel \<Rightarrow> kernel option" where
  "kern_mm_destroy m s = do { st \<leftarrow> mm_destroy m (kmm s); Some (s\<lparr>kmm := st\<rparr>) }"

definition kern_mm_clone :: "uptr \<Rightarrow> uptr kfun" where
  "kern_mm_clone m s = (if m = 0 then None else do { (d, st) \<leftarrow> mm_clone m (kmm s); Some (d, s\<lparr>kmm := st\<rparr>) })"

section \<open>Creating and destroying tasks\<close>

definition task_lists :: "uptr \<Rightarrow> kernel \<Rightarrow> kernel" where
  "task_lists t s = set_lists (list_init (WaitLink t) \<circ> list_init (TSibling t) \<circ> list_init (TChildren t) \<circ>
     list_init (TaskLink t) \<circ> list_init (RunLink t)) s"

text \<open>The error exit of \<^verbatim>\<open>task_create\<close>.\<close>

definition task_create_fail :: "uptr \<Rightarrow> uptr kfun" where
  "task_create_fail t s =
     do {
       s \<leftarrow> (if tmm (task_at s t) \<noteq> 0 then kern_mm_destroy (tmm (task_at s t)) s else Some s);
       s \<leftarrow> (if tsignal (task_at s t) \<noteq> 0 then kobj_free (signal_cache s) (tsignal (task_at s t)) s else Some s);
       s \<leftarrow> kobj_free (task_cache s) t s;
       Some (0, s)
     }"

definition task_create :: "string \<Rightarrow> u32 \<Rightarrow> bool \<Rightarrow> uptr kfun" where
  "task_create name fn kthread s =
     do {
       (t, s) \<leftarrow> kobj_alloc (task_cache s) s;
       if t = 0 then Some (0, s)
       else do {
         let (p, s) = alloc_pid s;
         let c = task_at s (current s);
         let s = upd_task t (\<lambda>_. task_zero\<lparr>pid := p, ppid := (if current s \<noteq> 0 then pid c else 0),
                   pgid := (if current s \<noteq> 0 then pgid c else p), sid := (if current s \<noteq> 0 then sid c else p),
                   tumask := 0x12, tstate := TASK_RUNNING, priority := 5, nice := 0, time_slice := 20,
                   tname := take (TASK_NAME_LEN - 1) name\<rparr>) s;
         let s = task_lists t s;
         (g, s) \<leftarrow> signal_create s;
         let s = upd_task t (\<lambda>x. x\<lparr>tsignal := g\<rparr>) s;
         (m, s) \<leftarrow> (if kthread then Some (0, s) else kern_mm_create s);
         let s = upd_task t (\<lambda>x. x\<lparr>tmm := m\<rparr>) s;
         if \<not> kthread \<and> m = 0 then task_create_fail t s
         else do {
           let (k, s) = alloc_kstack s;
           let s = upd_task t (\<lambda>x. x\<lparr>kernel_stack := k\<rparr>) s;
           if k = 0 then task_create_fail t s
           else do {
             let s = upd_task t (\<lambda>x. x\<lparr>kernel_esp := k\<rparr>) s;
             let s = kstack_write (k - 4) fn s;
             let s = upd_task t (\<lambda>x. x\<lparr>ctx := (ctx x)\<lparr>ctx_esp := k - 4, ctx_eip := fn, ctx_eflags := 0x200\<rparr>\<rparr>) s;
             (fs, s) \<leftarrow> files_create s;
             let c = task_at s (current s);
             let s = (if current s \<noteq> 0 then dentry_get (troot c) (dentry_get (cwd c) s) else s);
             let s = upd_task t (\<lambda>x. x\<lparr>tfiles := fs, cwd := (if current s \<noteq> 0 then cwd c else 0),
                       troot := (if current s \<noteq> 0 then troot c else 0), parent := current s\<rparr>) s;
             let s = set_lists (list_add_tail (TaskLink t) TaskListHead) s;
             Some (t, if current s \<noteq> 0 then set_lists (list_add_tail (TSibling t) (TChildren (current s))) s else s)
           }
         }
       }
     }"

definition task_destroy :: "vfs_ops \<Rightarrow> uptr \<Rightarrow> kernel \<Rightarrow> kernel option" where
  "task_destroy ops t s =
     (if t = 0 then Some s
      else do {
        s \<leftarrow> (if tmm (task_at s t) \<noteq> 0 then kern_mm_destroy (tmm (task_at s t)) s else Some s);
        s \<leftarrow> (if tfiles (task_at s t) \<noteq> 0 then files_destroy ops (tfiles (task_at s t)) s else Some s);
        s \<leftarrow> (if tsignal (task_at s t) \<noteq> 0 then kobj_free (signal_cache s) (tsignal (task_at s t)) s else Some s);
        s \<leftarrow> dentry_put ops (cwd (task_at s t)) s;
        s \<leftarrow> dentry_put ops (troot (task_at s t)) s;
        kobj_free (task_cache s) t (free_kstack (kernel_stack (task_at s t)) s)
      })"

definition sizeof_task_struct :: u32 where "sizeof_task_struct = 252"
definition sizeof_signal_struct :: u32 where "sizeof_signal_struct = 1036"
definition sizeof_files_struct :: u32 where "sizeof_files_struct = 140"

definition sched_init :: "kernel \<Rightarrow> kernel option" where
  "sched_init s =
     do {
       (c, s) \<leftarrow> kern_cache_create sizeof_task_struct s;
       let s = s\<lparr>task_cache := c\<rparr>;
       (c, s) \<leftarrow> kern_cache_create sizeof_signal_struct s;
       let s = s\<lparr>signal_cache := c\<rparr>;
       (c, s) \<leftarrow> kern_cache_create sizeof_files_struct s;
       let s = s\<lparr>files_cache := c\<rparr>;
       let t = kernel_task s;
       let s = upd_task t (\<lambda>_. task_zero\<lparr>pid := 0, tstate := TASK_RUNNING, tname := ''kernel''\<rparr>) s;
       let s = (task_lists t s)\<lparr>current := t\<rparr>;
       Some (set_lists (list_add (TaskLink t) TaskListHead) s)
     }"

section \<open>Fork\<close>

text \<open>The 19 words of \<^verbatim>\<open>struct regs\<close>; \<^verbatim>\<open>eax\<close> is the eighth.\<close>

definition regs_words :: "u32 list" where "regs_words = map of_nat [0..<19]"

definition copy_regs :: "uptr \<Rightarrow> uptr \<Rightarrow> kernel \<Rightarrow> kernel" where
  "copy_regs dst src s = fold (\<lambda>k s. kstack_write (dst + 4 * k) (kstack_read (src + 4 * k) s) s) regs_words s"

text \<open>The error exit of \<^verbatim>\<open>sys_fork\<close>: it releases what the fields of the child name at that point.\<close>

definition fork_fail :: "vfs_ops \<Rightarrow> uptr \<Rightarrow> (errno + u32) kfun" where
  "fork_fail ops ch s =
     do {
       s \<leftarrow> (if tmm (task_at s ch) \<noteq> 0 then kern_mm_destroy (tmm (task_at s ch)) s else Some s);
       s \<leftarrow> (if tfiles (task_at s ch) \<noteq> 0 then files_destroy ops (tfiles (task_at s ch)) s else Some s);
       s \<leftarrow> (if tsignal (task_at s ch) \<noteq> 0 then kobj_free (signal_cache s) (tsignal (task_at s ch)) s else Some s);
       let s = (if kernel_stack (task_at s ch) \<noteq> 0 then free_kstack (kernel_stack (task_at s ch)) s else s);
       s \<leftarrow> kobj_free (task_cache s) ch s;
       Some (Inl ENOMEM, s)
     }"

text \<open>
  \<open>r\<close> is the address of the register frame on the parent's kernel stack and \<open>trampoline\<close> that of
  \<^verbatim>\<open>fork_return_trampoline\<close>.
\<close>

definition sys_fork :: "vfs_ops \<Rightarrow> u32 \<Rightarrow> uptr \<Rightarrow> (errno + u32) kfun" where
  "sys_fork ops trampoline r s =
     do {
       (ch, s) \<leftarrow> kobj_alloc (task_cache s) s;
       if ch = 0 then Some (Inl ENOMEM, s)
       else do {
         let c = current s;
         let s = upd_task ch (\<lambda>_. task_at s c) s;
         let (p, s) = alloc_pid s;
         let s = upd_task ch (\<lambda>x. x\<lparr>pid := p, ppid := pid (task_at s c), tstate := TASK_RUNNING, parent := c\<rparr>) s;
         let s = task_lists ch s;
         (m, s) \<leftarrow> kern_mm_clone (tmm (task_at s c)) s;
         let s = upd_task ch (\<lambda>x. x\<lparr>tmm := m\<rparr>) s;
         if m = 0 then fork_fail ops ch s
         else do {
           (fs, s) \<leftarrow> (if tfiles (task_at s c) = 0 then None else files_clone (tfiles (task_at s c)) s);
           let s = upd_task ch (\<lambda>x. x\<lparr>tfiles := fs\<rparr>) s;
           if fs = 0 then fork_fail ops ch s
           else do {
             (g, s) \<leftarrow> signal_create s;
             let s = upd_task ch (\<lambda>x. x\<lparr>tsignal := g\<rparr>) s;
             if g = 0 then fork_fail ops ch s
             else if tsignal (task_at s c) = 0 then None
             else do {
               let s = upd_signal g (\<lambda>_. signal_at s (tsignal (task_at s c))) s;
               let (k, s) = alloc_kstack s;
               let s = upd_task ch (\<lambda>x. x\<lparr>kernel_stack := k\<rparr>) s;
               if k = 0 then fork_fail ops ch s
               else do {
                 let s = upd_task ch (\<lambda>x. x\<lparr>kernel_esp := k, ctx := ctx (task_at s c)\<rparr>) s;
                 let base = k - KSTACK_PAGES * PAGE_SIZE;
                 let off = r - (kernel_stack (task_at s c) - KSTACK_PAGES * PAGE_SIZE);
                 let s = kstack_write (base + off + 28) 0 (copy_regs (base + off) r s);
                 let s = upd_task ch (\<lambda>x. x\<lparr>ctx := (ctx x)\<lparr>ctx_esp := base + off, ctx_eip := trampoline\<rparr>\<rparr>) s;
                 let s = dentry_get (troot (task_at s c)) (dentry_get (cwd (task_at s c)) s);
                 let s = set_lists (list_add_tail (TaskLink ch) TaskListHead) s;
                 let s = set_lists (list_add_tail (TSibling ch) (TChildren c)) s;
                 let s = sched_add ch s;
                 Some (Inr (pid (task_at s ch)), s)
               }
             }
           }
         }
       }
     }"

section \<open>Exit and wait\<close>

definition reparent :: "uptr \<Rightarrow> knode \<Rightarrow> kernel \<Rightarrow> kernel" where
  "reparent init n s = upd_task (task_of n) (\<lambda>x. x\<lparr>parent := init, ppid := 1\<rparr>) s"

definition notify_parent :: "uptr \<Rightarrow> kernel \<Rightarrow> kernel option" where
  "notify_parent p s =
     do {
       (_, s) \<leftarrow> sys_kill (pid (task_at s p)) SIGCHLD s;
       Some (wake_up_process p s)
     }"

text \<open>An exiting task gives up its files and its address space.\<close>

definition exit_release :: "vfs_ops \<Rightarrow> uptr \<Rightarrow> kernel \<Rightarrow> kernel option" where
  "exit_release ops c s =
     do {
       s \<leftarrow> (if tfiles (task_at s c) \<noteq> 0
             then do { s \<leftarrow> files_destroy ops (tfiles (task_at s c)) s; Some (upd_task c (\<lambda>x. x\<lparr>tfiles := 0\<rparr>) s) } else Some s);
       (if tmm (task_at s c) \<noteq> 0
        then do { s \<leftarrow> kern_mm_destroy (tmm (task_at s c)) s; Some (upd_task c (\<lambda>x. x\<lparr>tmm := 0\<rparr>) s) } else Some s)
     }"

definition mark_zombie :: "uptr \<Rightarrow> int \<Rightarrow> kernel \<Rightarrow> kernel" where
  "mark_zombie c code s = upd_task c (\<lambda>x. x\<lparr>tstate := TASK_ZOMBIE, exit_code := code\<rparr>) s"

text \<open>\<^verbatim>\<open>sys_exit\<close> must not come back from the scheduler: then it panics, and there is no result.\<close>

definition sys_exit :: "vfs_ops \<Rightarrow> int \<Rightarrow> uptr kfun" where
  "sys_exit ops code s =
     do {
       let c = current s;
       s \<leftarrow> exit_release ops c (mark_zombie c code s);
       s \<leftarrow> (if parent (task_at s c) \<noteq> 0 then notify_parent (parent (task_at s c)) s else Some s);
       init \<leftarrow> find_task_by_pid 1 s;
       ns \<leftarrow> list_nodes (klists s) (TChildren c);
       let s = fold (reparent init) ns s;
       (case schedule (sched_remove c s) of
          (SwitchTo t, s) \<Rightarrow> Some (t, s)
        | _ \<Rightarrow> None)
     }"

text \<open>A pass of the loop of \<^verbatim>\<open>sys_waitpid\<close>: the first child that matches and is a zombie.\<close>

definition find_zombie :: "u32 \<Rightarrow> kernel \<Rightarrow> uptr option" where
  "find_zombie p s =
     do {
       r \<leftarrow> list_find (klists s) (TChildren (current s))
              (\<lambda>n. let t = task_at s (task_of n) in (p = - 1 \<or> pid t = p) \<and> tstate t = TASK_ZOMBIE);
       Some (case r of None \<Rightarrow> 0 | Some n \<Rightarrow> task_of n)
     }"

definition reap :: "vfs_ops \<Rightarrow> uptr \<Rightarrow> (u32 \<times> int) kfun" where
  "reap ops ch s =
     do {
       let cpid = pid (task_at s ch);
       let status = exit_code (task_at s ch) mod 256 * 256;
       let s = set_lists (list_del (TSibling ch) \<circ> list_del (TaskLink ch)) s;
       s \<leftarrow> task_destroy ops ch s;
       Some ((cpid, status), s)
     }"

text \<open>
  \<^verbatim>\<open>sys_waitpid\<close>.  \<open>resume k\<close> is what happens from the \<open>k\<close>-th time the task has given the processor away
  until it is resumed; the result of the interruptible sleep is not looked at.
\<close>

partial_function (option) waitpid_loop ::
  "vfs_ops \<Rightarrow> (nat \<Rightarrow> kernel \<Rightarrow> kernel) \<Rightarrow> nat \<Rightarrow> u32 \<Rightarrow> u32 \<Rightarrow> kernel \<Rightarrow> ((u32 \<times> int) option \<times> kernel) option" where
  "waitpid_loop ops resume k p options s =
     do {
       ch \<leftarrow> find_zombie p s;
       if ch \<noteq> 0 then do { (r, s) \<leftarrow> reap ops ch s; Some (Some r, s) }
       else if options AND 1 \<noteq> 0 then Some (None, s)
       else let s = (if wait_q_init s then s else (init_waitqueue_head WaitpidQueue s)\<lparr>wait_q_init := True\<rparr>)
            in waitpid_loop ops resume (Suc k) p options (resume k (snd (sleep_on WaitpidQueue s)))
     }"

definition sys_waitpid ::
  "vfs_ops \<Rightarrow> (nat \<Rightarrow> kernel \<Rightarrow> kernel) \<Rightarrow> u32 \<Rightarrow> u32 \<Rightarrow> kernel \<Rightarrow> ((u32 \<times> int) option \<times> kernel) option" where
  "sys_waitpid ops resume p options s = waitpid_loop ops resume 0 p options s"

section \<open>Delivering signals\<close>

datatype default_action = Terminate | Ignore | Stop

text \<open>\<open>bus\<close> is the number of \<^verbatim>\<open>SIGBUS\<close>, which no header of the kernel defines.\<close>

definition default_of :: "int \<Rightarrow> int \<Rightarrow> default_action" where
  "default_of bus sig =
     (if sig \<in> {SIGKILL, SIGSEGV, bus, SIGFPE, SIGILL, SIGABRT} then Terminate
      else if sig \<in> {SIGCHLD, SIGCONT} then Ignore
      else if sig \<in> {SIGSTOP, SIGTSTP} then Stop
      else if sig \<in> {SIGTERM, SIGHUP, SIGINT, SIGPIPE, SIGALRM, SIGUSR1, SIGUSR2} then Terminate
      else Ignore)"

text \<open>
  The loop of \<^verbatim>\<open>signal_deliver\<close>.  \<open>call\<close> is the user's code: what a call of a handler does to the kernel's state,
  if it returns.  The result lists the handlers called; when the task exited, after which nothing
  more is delivered, it names the task that got the processor.
\<close>

type_synonym handler_call = "uptr \<Rightarrow> nat \<Rightarrow> kernel \<Rightarrow> kernel option"

type_synonym delivery = "(uptr \<times> nat) list \<times> uptr option \<times> kernel"

fun deliver_loop :: "vfs_ops \<Rightarrow> int \<Rightarrow> handler_call \<Rightarrow> uptr \<Rightarrow> u64 \<Rightarrow> nat list \<Rightarrow> kernel \<Rightarrow> delivery option" where
  "deliver_loop ops bus call t pend [] s = Some ([], None, s)"
| "deliver_loop ops bus call t pend (sig # sigs) s =
     (if pend = 0 then Some ([], None, s)
      else if \<not> bit pend sig then deliver_loop ops bus call t pend sigs s
      else let pend = pend AND NOT (push_bit sig 1);
               handler = sa_handler (actions (signal_at s (tsignal (task_at s t))) ! sig)
      in if handler = SIG_IGN then deliver_loop ops bus call t pend sigs s
         else if handler = SIG_DFL
         then case default_of bus (int sig) of
                Terminate \<Rightarrow> do { (nxt, s) \<leftarrow> sys_exit ops (128 + int sig) s; Some ([], Some nxt, s) }
              | Ignore \<Rightarrow> deliver_loop ops bus call t pend sigs s
              | Stop \<Rightarrow> deliver_loop ops bus call t pend sigs (sched_remove t (upd_task t (\<lambda>x. x\<lparr>tstate := TASK_STOPPED\<rparr>) s))
         else do {
           s \<leftarrow> call handler sig s;
           (cs, e, s) \<leftarrow> deliver_loop ops bus call t pend sigs s;
           Some ((handler, sig) # cs, e, s)
         })"

definition signal_deliver :: "vfs_ops \<Rightarrow> int \<Rightarrow> handler_call \<Rightarrow> uptr \<Rightarrow> kernel \<Rightarrow> delivery option" where
  "signal_deliver ops bus call t s =
     (let g = tsignal (task_at s t)
      in if g = 0 \<or> pending (signal_at s g) = 0 then Some ([], None, s)
         else deliver_loop ops bus call t (pending (signal_at s g)) [1..<MAX_SIGNALS] (upd_signal g (\<lambda>x. x\<lparr>pending := 0\<rparr>) s))"

text \<open>What a task does when \<^verbatim>\<open>context_switch\<close> comes back to it.\<close>

definition context_resumed :: "vfs_ops \<Rightarrow> int \<Rightarrow> handler_call \<Rightarrow> kernel \<Rightarrow> delivery option" where
  "context_resumed ops bus call s =
     (if current s \<noteq> 0 \<and> tsignal (task_at s (current s)) \<noteq> 0 then signal_deliver ops bus call (current s) s
      else Some ([], None, s))"

section \<open>An example file system\<close>

text \<open>No file system: the examples have no open files.\<close>

definition no_vfs :: vfs_ops where
  "no_vfs = \<lparr>iops = (\<lambda>_. no_iops), fops = (\<lambda>_. no_fops), free_inode = (\<lambda>_. None), fs_mount = (\<lambda>_ s. Some (0, s)), fs_umount = (\<lambda>_. None)\<rparr>"

section \<open>What an exiting task does to the run queue\<close>

text \<open>
  The list operations of an exit: the parent \<open>p\<close> is added a second time, the exiting task \<open>c\<close> is taken off, and the scheduler
  moves the first node to the end.  The forward links afterwards:
\<close>

definition relink :: "'n \<Rightarrow> 'n \<Rightarrow> 'n \<Rightarrow> 'n list_store \<Rightarrow> 'n list_store" where
  "relink h p c s = list_del c (list_add_tail p h s)"

lemma relink_links:
  assumes "is_list s h (xs @ p # ys @ [c])"
  shows "lnext (relink h p c s) = (lnext s)(p := h, c := c, last (p # ys) := p)"
    and "lprev (relink h p c s) = (lprev s)(h := p, p := last (p # ys), c := c)"
proof -
  have d: "distinct (h # xs @ p # ys @ [c])" and sg: "dseg s p ys c" "dseg s c [] h"
    using assms by (auto simp: is_list_def dseg_append)
  have a: "lprev s c = last (p # ys)" using dseg_last [OF sg(1)] .
  have l: "lprev s h = c" using sg(2) by simp
  have "last (p # ys) \<in> set (p # ys)" by (rule last_in_set) simp
  with d have n: "last (p # ys) \<noteq> c" "last (p # ys) \<noteq> h" "p \<noteq> h" "c \<noteq> h" "c \<noteq> p" by auto
  then show "lnext (relink h p c s) = (lnext s)(p := h, c := c, last (p # ys) := p)"
    and "lprev (relink h p c s) = (lprev s)(h := p, p := last (p # ys), c := c)"
    unfolding relink_def by (auto simp: list_op_defs l a fun_eq_iff simp del: last.simps)
qed

lemma fpath_append: "fpath nx p (xs @ y # ys) q \<longleftrightarrow> fpath nx p xs y \<and> fpath nx y ys q"
  by (induction xs arbitrary: p) auto

lemma fpath_cong: "(\<And>a. a \<in> set (p # xs) \<Longrightarrow> nx a = ny a) \<Longrightarrow> fpath nx p xs q = fpath ny p xs q"
  by (induction xs arbitrary: p) auto

lemma fpath_from: "fpath nx p xs q \<Longrightarrow> p \<notin> set xs \<Longrightarrow> h \<notin> set xs \<Longrightarrow> fpath (nx(h := nx p)) h xs q"
  by (cases xs) (auto simp: fpath_upd)

lemma relink_rotate:
  fixes s :: "'n list_store"
  assumes l: "is_list s h (xs @ p # ys @ [c])"
  defines "n \<equiv> hd (xs @ [p])"
  shows "lnext (relink h p c s) h = n"
    and "list_nodes (list_add_tail n h (list_del n (relink h p c s))) h =
      (if xs = [] \<and> ys = [] then None else Some (rotate1 (xs @ [p])))"
proof -
  have d: "distinct (h # xs @ p # ys @ [c])" and sg: "dseg s h xs p" "dseg s p ys c"
    using l by (auto simp: is_list_def dseg_append)
  have la: "last (p # ys) \<in> set (p # ys)" by (rule last_in_set) simp
  have n: "lnext s h = n" using dseg_fpath [OF sg(1)] by (cases xs) (auto simp: n_def)
  let ?t = "relink h p c s" and ?r = "list_add_tail n h (list_del n (relink h p c s))"
  note t = relink_links [OF l]
  show hn: "lnext ?t h = n" using d la n by (auto simp: t)
  show "list_nodes ?r h = (if xs = [] \<and> ys = [] then None else Some (rotate1 (xs @ [p])))"
  proof (cases xs)
    case Nil
    then have np: "n = p" by (simp add: n_def)
    show ?thesis
    proof (cases "ys = []")
      case True
      then have "?r = list_add_tail p h ?t" using d by (simp add: np t list_del_self)
      then have "lnext ?r h = p" "lnext ?r p = p" using d hn True np by (auto simp: list_add_tail_def list_add_between_def t)
      then show ?thesis using list_for_each_stuck [of ?r h p] True Nil d by (cases "list_for_each ?r h p") (auto simp: list_nodes_def)
    next
      case False
      then have "last ys \<notin> {h, p, c}" using d last_in_set [OF False] by auto
      then have "lnext ?r h = p" "lnext ?r p = h" using d hn np False by (auto simp: list_op_defs t)
      moreover have "p \<noteq> h" using d by auto
      ultimately show ?thesis using Nil False by (simp add: list_nodes_def list_for_each.simps)
    qed
  next
    case (Cons x zs)
    then have nx: "n = x" by (simp add: n_def)
    from Cons sg(1) have "lprev s x = h" and z: "fpath (lnext s) x zs p" by (auto dest: dseg_fpath)
    let ?g = "lnext s x"
    have "?g \<in> set (zs @ [p])" using z by (cases zs) auto
    then have g: "?g \<notin> {h, x, c}" using d Cons by auto
    have x: "x \<notin> set (h # zs @ p # ys @ [c])" using d Cons by auto
    let ?nx = "(lnext s)(p := h, c := c, last (p # ys) := p, h := ?g, x := h, p := x)"
    have r: "lnext ?r = ?nx"
      using d la x g \<open>lprev s x = h\<close> by (auto simp: list_op_defs t nx fun_eq_iff simp del: last.simps)
    have "fpath ((lnext s)(h := ?g)) h zs p" by (rule fpath_from [OF z]) (use d x Cons in auto)
    moreover have "?nx a = ((lnext s)(h := ?g)) a" if "a \<in> set (h # zs)" for a
      using that d x la Cons by (auto simp del: last.simps)
    ultimately have "fpath ?nx h zs p" using fpath_cong [of h zs ?nx "(lnext s)(h := ?g)"] by blast
    then have f: "fpath ?nx h (zs @ [p, x]) h" using x d by (auto simp: fpath_append)
    have "h \<notin> set (zs @ [p, x])" using d Cons by auto
    from list_for_each_fpath [of ?r h "zs @ [p, x]" h h] f this show ?thesis
      using Cons by (simp add: r list_nodes_def list_for_each.simps [of _ h h])
  qed
qed

lemma reparent_fold [simp]:
  "klists (fold (reparent i) ns s) = klists s" "current (fold (reparent i) ns s) = current s"
  "tstate (task_at (fold (reparent i) ns s) t) = tstate (task_at s t)"
  "exit_code (task_at (fold (reparent i) ns s) t) = exit_code (task_at s t)"
  by (induction ns arbitrary: s) (simp_all add: reparent_def)

lemma notify_running:
  assumes "tstate (task_at s p) = TASK_RUNNING" and "p \<noteq> 0" and "tsignal (task_at s p) \<noteq> 0"
    and "find_task_by_pid (pid (task_at s p)) s = Some p"
  shows "\<exists>v. notify_parent p s = Some v \<and> klists v = list_add_tail (RunLink p) Runqueue (klists s) \<and> current v = current s \<and>
    (\<forall>t. pid (task_at v t) = pid (task_at s t))"
  using assms by (simp add: notify_parent_def sys_kill_def SIGCHLD_def MAX_SIGNALS_def Let_def upd_signal_def wake_up_process_def sched_add_def)


text \<open>
  The running task, at \<^verbatim>\<open>0x200\<close>, is a child of the one at \<^verbatim>\<open>0x100\<close>, which has process number 7; \<open>ts\<close> are the runnable tasks.
\<close>

definition exit_example :: "uptr list \<Rightarrow> kernel" where
  "exit_example ts = (set_lists (list_add_tail (TaskLink 0x100) TaskListHead)
     (upd_task 0x200 (\<lambda>x. x\<lparr>parent := 0x100\<rparr>) (upd_task 0x100 (\<lambda>x. x\<lparr>pid := 7, tsignal := 0x900\<rparr>)
       (fold sched_add ts (kernel_boot (mm_example slab_boot 0 0))))))\<lparr>current := 0x200\<rparr>"

lemma exit_example_exit:
  assumes ts: "ts \<in> {[0x100, 0x200], [0x100, 0x300, 0x200]}"
  defines "u \<equiv> mark_zombie 0x200 0 (exit_example ts)"
  shows "runq u ts" and "is_list (klists u) TaskListHead (map TaskLink [0x100])" and "is_list (klists u) (TChildren 0x200) (map TSibling [])"
    and "exit_release no_vfs 0x200 u = Some u" and "current u = 0x200" and "find_task_by_pid 7 u = Some 0x100"
    and "parent (task_at u 0x200) = 0x100" and "task_at u 0x100 = task_zero\<lparr>pid := 7, tsignal := 0x900, tstate := TASK_RUNNING\<rparr>"
proof -
  have k: "klists u = list_add_tail (TaskLink 0x100) TaskListHead
      (fold (\<lambda>t. list_add_tail (RunLink t) Runqueue) ts \<lparr>lnext = id, lprev = id\<rparr>)"
    using ts by (auto simp: u_def mark_zombie_def exit_example_def sched_add_def kernel_boot_def set_lists_def upd_task_def)
  show "runq u ts" and l: "is_list (klists u) TaskListHead (map TaskLink [0x100])"
    and "is_list (klists u) (TChildren 0x200) (map TSibling [])"
    unfolding runq_def k using ts by (auto simp: is_list_def list_add_tail_def list_add_between_def)
  show "task_at u 0x100 = task_zero\<lparr>pid := 7, tsignal := 0x900, tstate := TASK_RUNNING\<rparr>"
    and "parent (task_at u 0x200) = 0x100" and "current u = 0x200"
    using ts by (auto simp: u_def mark_zombie_def exit_example_def sched_add_def kernel_boot_def task_zero_def)
  then show "find_task_by_pid 7 u = Some 0x100" using list_find_eq [OF l] by (simp add: find_task_by_pid_def)
  have "tfiles (task_at u 0x200) = 0" "tmm (task_at u 0x200) = 0"
    using ts by (auto simp: u_def mark_zombie_def exit_example_def sched_add_def kernel_boot_def task_zero_def)
  then show "exit_release no_vfs 0x200 u = Some u" by (simp add: exit_release_def)
qed


section \<open>The tables of signal actions\<close>

definition sig_ok :: "signal_struct \<Rightarrow> bool" where
  "sig_ok g \<longleftrightarrow> length (actions g) = MAX_SIGNALS \<and> actions g ! nat SIGKILL = sigaction_zero \<and> actions g ! nat SIGSTOP = sigaction_zero"

definition signals_ok :: "kernel \<Rightarrow> bool" where
  "signals_ok s \<longleftrightarrow> (\<forall>t. tsignal (task_at s t) \<noteq> 0 \<longrightarrow> sig_ok (signal_at s (tsignal (task_at s t))))"

text \<open>The calls of user programs that touch the tables.\<close>

datatype sig_call = Kill u32 int | Sigaction int "sigaction option"

fun sig_step :: "sig_call \<Rightarrow> kernel \<Rightarrow> kernel option" where
  "sig_step (Kill p sig) s = map_option snd (sys_kill p sig s)"
| "sig_step (Sigaction sig act) s = map_option snd (sys_sigaction sig act s)"

fun sig_steps :: "sig_call list \<Rightarrow> kernel \<Rightarrow> kernel option" where
  "sig_steps [] s = Some s"
| "sig_steps (c # cs) s = do { s \<leftarrow> sig_step c s; sig_steps cs s }"

lemma upd_signal_ok:
  assumes "signals_ok s" and "sig_ok (signal_at s g) \<Longrightarrow> sig_ok (f (signal_at s g))"
  shows "signals_ok (upd_signal g f s)"
  using assms by (auto simp: signals_ok_def upd_signal_def)

lemma wake_up_process_signals [simp]: "signals_ok (wake_up_process t s) = signals_ok s"
proof -
  have "tsignal (task_at (wake_up_process t s) u) = tsignal (task_at s u)" "signal_at (wake_up_process t s) = signal_at s" for u
    by (simp_all add: wake_up_process_def sched_add_def set_lists_def upd_task_def)
  then show ?thesis by (simp add: signals_ok_def)
qed

lemma sig_step_ok:
  assumes "signals_ok s" and "sig_step c s = Some s'"
  shows "signals_ok s'"
proof (cases c)
  case (Kill p sig)
  have "signals_ok (upd_signal g (\<lambda>x. x\<lparr>pending := pending x OR m\<rparr>) s)" for g m
    by (rule upd_signal_ok [OF assms(1)]) (simp add: sig_ok_def)
  with Kill assms show ?thesis by (auto simp: sys_kill_def Let_def split: if_splits bind_splits)
next
  case (Sigaction sig act)
  have "signals_ok (upd_signal g (\<lambda>x. x\<lparr>actions := (actions x)[nat sig := a]\<rparr>) s)"
    if "0 < sig" "sig \<noteq> SIGKILL" "sig \<noteq> SIGSTOP" for g a
  proof (rule upd_signal_ok [OF assms(1)])
    have "nat sig \<noteq> nat SIGKILL" "nat sig \<noteq> nat SIGSTOP" using that by (auto simp: SIGKILL_def SIGSTOP_def)
    then show "sig_ok ((signal_at s g)\<lparr>actions := (actions (signal_at s g))[nat sig := a]\<rparr>)" if "sig_ok (signal_at s g)"
      using that by (simp add: sig_ok_def)
  qed
  with Sigaction assms show ?thesis by (auto simp: sys_sigaction_def Let_def split: if_splits option.splits)
qed

text \<open>
  C30: The signal tables keep their type: whatever \<^verbatim>\<open>sigaction\<close> and \<^verbatim>\<open>kill\<close> calls are made, every task's table has an action for each of
  the 64 signals, and those of \<^verbatim>\<open>SIGKILL\<close> and \<^verbatim>\<open>SIGSTOP\<close> are the default.
\<close>

theorem signal_tables_typed:
  assumes "signals_ok s" and "sig_steps cs s = Some s'"
  shows "signals_ok s'"
  using assms
proof (induction cs arbitrary: s)
  case (Cons c cs)
  then show ?case using sig_step_ok [of s c] by (cases "sig_step c s") auto
qed simp

text \<open>One task, with a fresh table.\<close>

definition signal_example :: kernel where
  "signal_example = upd_signal 0x900 (\<lambda>_. \<lparr>pending = 0, actions = replicate MAX_SIGNALS sigaction_zero\<rparr>)
     (upd_task 0x100 (\<lambda>x. x\<lparr>tsignal := 0x900\<rparr>) ((kernel_boot (mm_example slab_boot 0 0))\<lparr>current := 0x100\<rparr>))"

lemma signal_example_ok: "signals_ok signal_example"
  by (simp add: signals_ok_def sig_ok_def signal_example_def upd_signal_def upd_task_def kernel_boot_def task_zero_def
    MAX_SIGNALS_def SIGKILL_def SIGSTOP_def)

theorem signal_tables_typed_witness:
  "\<exists>s'. sig_steps [Sigaction 15 (Some \<lparr>sa_handler = 0x8048000, sa_flags = 0, sa_mask = 0\<rparr>), Sigaction 9 None] signal_example = Some s' \<and>
     signals_ok s'"
proof -
  have "\<exists>s'. sig_steps [Sigaction 15 (Some \<lparr>sa_handler = 0x8048000, sa_flags = 0, sa_mask = 0\<rparr>), Sigaction 9 None] signal_example = Some s'"
    by (simp add: sys_sigaction_def signal_example_def upd_signal_def upd_task_def kernel_boot_def MAX_SIGNALS_def SIGKILL_def SIGSTOP_def)
  with signal_tables_typed [OF signal_example_ok] show ?thesis by blast
qed

lemma signals_split: "[1..<64] = [1..<9] @ 9 # [10..<64]"
  using upt_add_eq_append [of 1 9 55] upt_conv_Cons [of 9 64] by simp

section \<open>Delivering SIGKILL\<close>

text \<open>What is relied on of the user's handlers: they return, to the same task, and leave its record alone and its table well-typed.\<close>

definition handler_ok :: "uptr \<Rightarrow> handler_call \<Rightarrow> bool" where
  "handler_ok t call \<longleftrightarrow>
     (\<forall>h sig s. \<exists>s'. call h sig s = Some s' \<and> current s' = current s \<and> task_at s' t = task_at s t \<and>
        (sig_ok (signal_at s (tsignal (task_at s t))) \<longrightarrow> sig_ok (signal_at s' (tsignal (task_at s t)))))"

text \<open>What is relied on of the file systems: closing the files of the exiting task leaves its state, exit code and parent and
  \<^verbatim>\<open>current\<close> alone.\<close>

definition release_ok :: "vfs_ops \<Rightarrow> uptr \<Rightarrow> kernel \<Rightarrow> bool" where
  "release_ok ops t s \<longleftrightarrow>
     (case exit_release ops t s of
        None \<Rightarrow> True
      | Some v \<Rightarrow> current v = current s \<and> tstate (task_at v t) = tstate (task_at s t) \<and>
          exit_code (task_at v t) = exit_code (task_at s t) \<and> parent (task_at v t) = parent (task_at s t))"

text \<open>The task is a zombie with the given exit code, and the processor is another task's.\<close>

definition exited :: "uptr \<Rightarrow> int \<Rightarrow> kernel \<Rightarrow> bool" where
  "exited t code s \<longleftrightarrow> tstate (task_at s t) = TASK_ZOMBIE \<and> exit_code (task_at s t) = code \<and> current s \<noteq> t"

lemma sys_kill_zombie:
  assumes "sys_kill q sig s = Some (r, v)" and "tstate (task_at s t) = TASK_ZOMBIE"
  shows "current v = current s \<and> tstate (task_at v t) = TASK_ZOMBIE \<and> exit_code (task_at v t) = exit_code (task_at s t)"
  using assms by (auto simp: sys_kill_def Let_def upd_signal_def wake_up_process_def sched_add_def split: if_splits bind_splits)

lemma sys_exit_exited:
  assumes "sys_exit ops code s = Some (q, w)" and "current s = t" and "parent (task_at s t) \<noteq> t"
    and "release_ok ops t (mark_zombie t code s)"
  shows "exited t code w"
proof -
  let ?z = "\<lambda>s. current s = t \<and> tstate (task_at s t) = TASK_ZOMBIE \<and> exit_code (task_at s t) = code"
  obtain u where u: "exit_release ops t (mark_zombie t code s) = Some u"
    using assms(1,2) by (auto simp: sys_exit_def split: bind_splits)
  with assms(2,4) have zu: "?z u" and pu: "parent (task_at u t) = parent (task_at s t)"
    by (simp_all add: release_ok_def mark_zombie_def)
  obtain v where v: "(if parent (task_at u t) \<noteq> 0 then notify_parent (parent (task_at u t)) u else Some u) = Some v"
    using assms(1,2) u by (auto simp: sys_exit_def split: bind_splits)
  have zv: "?z v"
  proof (cases "parent (task_at u t) = 0")
    case False
    with v obtain r x where "sys_kill (pid (task_at u (parent (task_at u t)))) SIGCHLD u = Some (r, x)"
      "v = wake_up_process (parent (task_at u t)) x" by (auto simp: notify_parent_def split: bind_splits)
    with sys_kill_zombie [of _ _ u r x t] zu pu assms(3) show ?thesis by (simp add: wake_up_process_def sched_add_def)
  qed (use v zu in simp)
  obtain i ns where "(case schedule (sched_remove t (fold (reparent i) ns v)) of (SwitchTo t, s) \<Rightarrow> Some (t, s) | _ \<Rightarrow> None) = Some (q, w)"
    using assms(1,2) u v by (auto simp: sys_exit_def split: bind_splits)
  then have sw: "schedule (sched_remove t (fold (reparent i) ns v)) = (SwitchTo q, w)"
    by (auto split: prod.splits sched_result.splits)
  let ?y = "sched_remove t (fold (reparent i) ns v)"
  have "?z ?y" using zv by (simp add: sched_remove_def)
  with sw show ?thesis by (auto simp: exited_def schedule_def Let_def set_lists_def upd_task_def split: if_splits)
qed

text \<open>The record of the task is the same in both states, but for the state the task is in.\<close>

definition same_task :: "uptr \<Rightarrow> kernel \<Rightarrow> kernel \<Rightarrow> bool" where
  "same_task t u s \<longleftrightarrow> (task_at u t)\<lparr>tstate := TASK_RUNNING\<rparr> = (task_at s t)\<lparr>tstate := TASK_RUNNING\<rparr>"

lemma same_taskD:
  assumes "same_task t u s"
  shows "parent (task_at u t) = parent (task_at s t)" "tfiles (task_at u t) = tfiles (task_at s t)" "tmm (task_at u t) = tmm (task_at s t)"
  using arg_cong [OF assms [unfolded same_task_def], of parent] arg_cong [OF assms [unfolded same_task_def], of tfiles]
    arg_cong [OF assms [unfolded same_task_def], of tmm] by simp_all

lemma same_task_refl [simp]: "same_task t s s"
  by (simp add: same_task_def)

lemma deliver_kill:
  assumes "handler_ok t call" and "sig_ok (signal_at s (tsignal (task_at s t)))" and "bit pend 9" and "9 \<notin> set xs" and "current s = t"
  shows "\<exists>sig u cs. sig \<in> set (xs @ [9]) \<and> current u = t \<and> same_task t u s \<and> snd ` set cs \<subseteq> set xs \<and>
    deliver_loop ops bus call t pend (xs @ 9 # ys) s =
      map_option (\<lambda>(q, w). (cs, Some q, w)) (sys_exit ops (128 + int sig) u)"
  using assms(2-)
proof (induction xs arbitrary: pend s)
  case Nil
  have "pend \<noteq> 0" using Nil.prems(2) by auto
  moreover have "default_of bus 9 = Terminate" by (simp add: default_of_def SIGKILL_def)
  moreover have "sa_handler (actions (signal_at s (tsignal (task_at s t))) ! 9) = SIG_DFL"
    using Nil.prems(1) by (simp add: sig_ok_def SIGKILL_def sigaction_zero_def)
  moreover have "SIG_DFL \<noteq> SIG_IGN" by (simp add: SIG_DFL_def SIG_IGN_def)
  ultimately show ?case using Nil.prems(2,4)
    by (intro exI [of _ 9] exI [of _ s] exI [of _ "[]"]) (auto simp: Let_def split: option.splits bind_splits)
next
  case (Cons sig xs)
  let ?p = "pend AND NOT (push_bit sig 1)" and ?go = "\<lambda>pend s. deliver_loop ops bus call t pend (xs @ 9 # ys) s"
  let ?h = "sa_handler (actions (signal_at s (tsignal (task_at s t))) ! sig)"
  let ?stop = "sched_remove t (upd_task t (\<lambda>x. x\<lparr>tstate := TASK_STOPPED\<rparr>) s)"
  define res where "res r \<longleftrightarrow> (\<exists>sg u cs. sg \<in> set ((sig # xs) @ [9]) \<and> current u = t \<and> same_task t u s \<and>
      snd ` set cs \<subseteq> set (sig # xs) \<and> r = map_option (\<lambda>(q, w). (cs, Some q, w)) (sys_exit ops (128 + int sg) u))" for r :: "delivery option"
  have b: "bit ?p 9" and p: "pend \<noteq> 0" using Cons.prems(2,3) by (auto simp: bit_simps)
  have go: "\<exists>sg u cs. sg \<in> set (xs @ [9]) \<and> current u = t \<and> same_task t u s \<and> snd ` set cs \<subseteq> set xs \<and>
      ?go pd v = map_option (\<lambda>(q, w). (cs, Some q, w)) (sys_exit ops (128 + int sg) u)"
    if "bit pd 9" "sig_ok (signal_at v (tsignal (task_at v t)))" "current v = t" "same_task t v s" for pd v
    using Cons.IH [OF that(2,1) _ that(3)] Cons.prems(3) that(4) by (simp add: same_task_def)
  have skip: "res (?go pd v)"
    if "bit pd 9" "sig_ok (signal_at v (tsignal (task_at v t)))" "current v = t" "same_task t v s" for pd v
    using go [OF that] unfolding res_def set_append list.set by blast
  obtain v where v: "call ?h sig s = Some v" "current v = t" "task_at v t = task_at s t" "sig_ok (signal_at v (tsignal (task_at v t)))"
    using assms(1) Cons.prems(1,4) unfolding handler_ok_def by metis
  obtain sg u cs where h: "sg \<in> set (xs @ [9])" "current u = t" "same_task t u s"
      "snd ` set cs \<subseteq> set xs" "?go ?p v = map_option (\<lambda>(q, w). (cs, Some q, w)) (sys_exit ops (128 + int sg) u)"
    using go [OF b v(4,2)] v(3) by (auto simp: same_task_def)
  have e: "Option.bind (sys_exit ops (128 + int sig) s) (\<lambda>(nxt, s). Some ([], Some nxt, s)) =
      map_option (\<lambda>(q, w). ([], Some q, w)) (sys_exit ops (128 + int sig) s)"
    by (cases "sys_exit ops (128 + int sig) s") auto
  have f: "Option.bind (?go ?p v) (\<lambda>(cs, e, s). Some ((?h, sig) # cs, e, s)) =
      map_option (\<lambda>(q, w). ((?h, sig) # cs, Some q, w)) (sys_exit ops (128 + int sg) u)"
    unfolding h(5) by (cases "sys_exit ops (128 + int sg) u") auto
  have here: "deliver_loop ops bus call t pend ((sig # xs) @ 9 # ys) s \<in>
     {?go pend s, ?go ?p s, ?go ?p ?stop, map_option (\<lambda>(q, w). ([], Some q, w)) (sys_exit ops (128 + int sig) s),
      map_option (\<lambda>(q, w). ((?h, sig) # cs, Some q, w)) (sys_exit ops (128 + int sg) u)}"
    using p unfolding append_Cons deliver_loop.simps Let_def v(1) Option.bind.bind_lunit e f
    by (simp split: default_action.split)
  have "res (map_option (\<lambda>(q, w). ([], Some q, w)) (sys_exit ops (128 + int sig) s))"
    unfolding res_def using Cons.prems(4) by (intro exI [of _ sig] exI [of _ s] exI [of _ "[]"]) auto
  moreover have "res (map_option (\<lambda>(q, w). ((?h, sig) # cs, Some q, w)) (sys_exit ops (128 + int sg) u))"
    unfolding res_def using h(1-4) by (intro exI [of _ sg] exI [of _ u] exI [of _ "(?h, sig) # cs"]) auto
  moreover have "res (?go pend s)" "res (?go ?p s)" by (rule skip; use b Cons.prems in simp)+
  moreover have "res (?go ?p ?stop)"
    by (rule skip) (use b Cons.prems in \<open>simp_all add: sched_remove_def set_lists_def upd_task_def same_task_def\<close>)
  ultimately have "res (deliver_loop ops bus call t pend ((sig # xs) @ 9 # ys) s)" using here by (elim insertE) auto
  then show ?case unfolding res_def .
qed


text \<open>
  Of two runnable tasks the running one has \<^verbatim>\<open>SIGINT\<close> and \<^verbatim>\<open>SIGKILL\<close> pending and a handler for the first.
\<close>

definition sigkill_example :: kernel where
  "sigkill_example = upd_signal 0x900 (\<lambda>_. \<lparr>pending = 0x204,
       actions = (replicate MAX_SIGNALS sigaction_zero)[2 := \<lparr>sa_handler = 0x8048000, sa_flags = 0, sa_mask = 0\<rparr>]\<rparr>)
     (upd_task 0x100 (\<lambda>x. x\<lparr>tsignal := 0x900\<rparr>) sched_example)"

lemma sched_example_task: "task_at sched_example = (\<lambda>_. task_zero)"
  "klists sched_example = list_add_tail (RunLink 0x200) Runqueue (list_add_tail (RunLink 0x100) Runqueue \<lparr>lnext = id, lprev = id\<rparr>)"
  by (auto simp: sched_example_def sched_add_def kernel_boot_def set_lists_def upd_task_def task_zero_def fun_eq_iff)

lemma sigkill_example_exit:
  "\<exists>r. sys_exit no_vfs 137 (upd_signal 0x900 (\<lambda>x. x\<lparr>pending := 0\<rparr>) sigkill_example) = Some r"
proof -
  let ?s = "upd_signal 0x900 (\<lambda>x. x\<lparr>pending := 0\<rparr>) sigkill_example"
  define v where "v = mark_zombie 0x100 137 ?s"
  have k: "klists v = klists sched_example" and c: "current v = 0x100"
    by (simp_all add: v_def mark_zombie_def sigkill_example_def upd_signal_def upd_task_def sched_example_def)
  have l: "is_list (klists v) TaskListHead []" "is_list (klists v) (TChildren 0x100) []" "runq v ([] @ 0x100 # [0x200])"
    unfolding k runq_def by (simp_all add: sched_example_task(2) is_list_def list_add_tail_def list_add_between_def)
  have "runq (sched_remove 0x100 v) [0x200]" using runq_del [OF l(3)] by (simp add: sched_remove_def)
  from schedule_effect(3) [OF this] c have "fst (schedule (sched_remove 0x100 v)) = SwitchTo 0x200" by simp
  then obtain w where "schedule (sched_remove 0x100 v) = (SwitchTo 0x200, w)" by (cases "schedule (sched_remove 0x100 v)") auto
  moreover have "find_task_by_pid 1 v = Some 0" using list_find_eq [OF l(1)] by (simp add: find_task_by_pid_def)
  moreover have "list_nodes (klists v) (TChildren 0x100) = Some []" using list_nodes_eq [OF l(2)] by simp
  moreover have "current ?s = 0x100" by (simp add: sigkill_example_def upd_signal_def upd_task_def sched_example_def)
  moreover have "tfiles (task_at v 0x100) = 0" "tmm (task_at v 0x100) = 0" "parent (task_at v 0x100) = 0"
    by (simp_all add: v_def mark_zombie_def sigkill_example_def upd_signal_def upd_task_def sched_example_task task_zero_def)
  ultimately show ?thesis by (simp add: sys_exit_def exit_release_def v_def)
qed

lemma sigkill_example_table:
  "tsignal (task_at sigkill_example 0x100) = 0x900" "pending (signal_at sigkill_example 0x900) = 0x204"
  "actions (signal_at sigkill_example 0x900) = (replicate 64 sigaction_zero)[2 := \<lparr>sa_handler = 0x8048000, sa_flags = 0, sa_mask = 0\<rparr>]"
  "current sigkill_example = 0x100" "parent (task_at sigkill_example 0x100) = 0" "tfiles (task_at sigkill_example 0x100) = 0"
  "tmm (task_at sigkill_example 0x100) = 0"
  by (simp_all add: sigkill_example_def upd_signal_def upd_task_def MAX_SIGNALS_def sched_example_task task_zero_def sched_example_rep(2))


end
