(* ===== verification/Dev.thy ===== *)
theory Dev
  imports Vfs
begin

text \<open>
  The registry of device drivers, the memory devices and the nodes of \<^verbatim>\<open>/dev\<close>, after \<^verbatim>\<open>drivers/dev.c\<close>.
\<close>

section \<open>Device numbers\<close>

definition MAJOR :: "u32 \<Rightarrow> u32" where "MAJOR dev = drop_bit 8 dev"
definition MINOR :: "u32 \<Rightarrow> u32" where "MINOR dev = dev AND 0xFF"
definition MKDEV :: "u32 \<Rightarrow> u32 \<Rightarrow> u32" where "MKDEV ma mi = push_bit 8 ma OR (mi AND 0xFF)"
definition MAX_CHRDEVS :: u32 where "MAX_CHRDEVS = 256"
definition MAX_BLKDEVS :: u32 where "MAX_BLKDEVS = 256"

text \<open>The registry of drivers, by major number; \<open>NoFops\<close> is an empty slot.\<close>

record devtab =
  chrdevs :: "u32 \<Rightarrow> string \<times> fops_ref"
  blkdevs :: "u32 \<Rightarrow> string \<times> fops_ref"

definition register_chrdev :: "u32 \<Rightarrow> string \<Rightarrow> fops_ref \<Rightarrow> devtab \<Rightarrow> errno option \<times> devtab" where
  "register_chrdev major name ops d =
     (if major \<ge> MAX_CHRDEVS then (Some EINVAL, d)
      else (None, d\<lparr>chrdevs := (chrdevs d)(major := (name, ops))\<rparr>))"

definition register_blkdev :: "u32 \<Rightarrow> string \<Rightarrow> fops_ref \<Rightarrow> devtab \<Rightarrow> errno option \<times> devtab" where
  "register_blkdev major name ops d =
     (if major \<ge> MAX_BLKDEVS then (Some EINVAL, d)
      else (None, d\<lparr>blkdevs := (blkdevs d)(major := (name, ops))\<rparr>))"

definition dev_setup_inode :: "devtab \<Rightarrow> uptr \<Rightarrow> u32 \<Rightarrow> kernel \<Rightarrow> kernel" where
  "dev_setup_inode d i dev s =
     (let ma = MAJOR dev
      in if S_ISCHR (i_mode (inode_at s i))
         then if ma < MAX_CHRDEVS \<and> snd (chrdevs d ma) \<noteq> NoFops
              then upd_inode i (\<lambda>x. x\<lparr>i_fops := snd (chrdevs d ma)\<rparr>) s else s
         else if S_ISBLK (i_mode (inode_at s i))
         then if ma < MAX_BLKDEVS \<and> snd (blkdevs d ma) \<noteq> NoFops
              then upd_inode i (\<lambda>x. x\<lparr>i_fops := snd (blkdevs d ma)\<rparr>) s else s
         else s)"

section \<open>Memory devices\<close>

definition MAJ_MEM :: u32 where "MAJ_MEM = 1"
definition MAJ_TTY :: u32 where "MAJ_TTY = 4"

definition null_read :: "uptr \<Rightarrow> u32 \<Rightarrow> off_t \<Rightarrow> ((errno + u8 list) \<times> off_t) kfun" where
  "null_read f c p s = Some ((Inr [], p), s)"

definition null_write :: "uptr \<Rightarrow> u8 list \<Rightarrow> off_t \<Rightarrow> ((errno + nat) \<times> off_t) kfun" where
  "null_write f bs p s = Some ((Inr (length bs), p), s)"

definition null_ops :: file_ops where
  "null_ops = no_fops\<lparr>op_read := Some null_read, op_write := Some null_write\<rparr>"

definition zero_read :: "uptr \<Rightarrow> u32 \<Rightarrow> off_t \<Rightarrow> ((errno + u8 list) \<times> off_t) kfun" where
  "zero_read f c p s = Some ((Inr (replicate (unat c) 0), p), s)"

definition zero_ops :: file_ops where
  "zero_ops = no_fops\<lparr>op_read := Some zero_read, op_write := Some null_write\<rparr>"

definition full_write :: "uptr \<Rightarrow> u8 list \<Rightarrow> off_t \<Rightarrow> ((errno + nat) \<times> off_t) kfun" where
  "full_write f bs p s = Some ((Inl ENOSPC, p), s)"

definition full_ops :: file_ops where
  "full_ops = no_fops\<lparr>op_read := Some zero_read, op_write := Some full_write\<rparr>"

text \<open>The generator behind \<^verbatim>\<open>/dev/random\<close>: its state, and the bytes of a word in memory order.\<close>

definition lcg_rand :: "u32 \<Rightarrow> u32" where
  "lcg_rand x = x * 1664525 + 1013904223"

definition word_bytes :: "u32 \<Rightarrow> u8 list" where
  "word_bytes w = map (\<lambda>k. ucast (drop_bit (8 * k) w)) [0..<4]"

text \<open>
  The loop of \<^verbatim>\<open>random_read\<close>: \<open>i\<close> bytes are done, \<open>seed\<close> is the state of the generator.  The counter is a
  \<^verbatim>\<open>size_t\<close> that advances by 4 and may wrap around.
\<close>

partial_function (option) random_loop :: "u32 \<Rightarrow> u32 \<Rightarrow> u32 \<Rightarrow> u8 list \<Rightarrow> (u8 list \<times> u32) option" where
  "random_loop c i seed acc =
     (if i < c
      then let r = lcg_rand seed
           in random_loop c (i + 4) r (acc @ take (unat (min 4 (c - i))) (word_bytes r))
      else Some (acc, seed))"

definition random_read :: "u32 \<Rightarrow> u32 \<Rightarrow> (u8 list \<times> u32) option" where
  "random_read c seed = random_loop c 0 seed []"

definition kmsg_ops :: file_ops where
  "kmsg_ops = no_fops\<lparr>op_read := Some null_read, op_write := Some null_write\<rparr>"

section \<open>The nodes of \<^verbatim>\<open>/dev\<close>\<close>

definition dev_table :: "(string \<times> u32 \<times> u32 \<times> fops_ref) list" where
  "dev_table =
     [(''null'', S_IFCHR OR 0x1B6, MKDEV MAJ_MEM 3, NullOps),
      (''zero'', S_IFCHR OR 0x1B6, MKDEV MAJ_MEM 5, ZeroOps),
      (''full'', S_IFCHR OR 0x1B6, MKDEV MAJ_MEM 7, FullOps),
      (''random'', S_IFCHR OR 0x124, MKDEV MAJ_MEM 8, RandomOps),
      (''urandom'', S_IFCHR OR 0x124, MKDEV MAJ_MEM 9, RandomOps),
      (''console'', S_IFCHR OR 0x180, MKDEV MAJ_TTY 0, ConsoleOps),
      (''tty'', S_IFCHR OR 0x1B6, MKDEV MAJ_TTY 5, TtyOps),
      (''tty0'', S_IFCHR OR 0x180, MKDEV MAJ_TTY 0, TtyOps),
      (''ttyS0'', S_IFCHR OR 0x180, MKDEV MAJ_TTY 64, TtyOps),
      (''kmsg'', S_IFCHR OR 0x180, MKDEV MAJ_MEM 11, KmsgOps)]"

text \<open>One turn of the loop of \<^verbatim>\<open>devfs_init\<close>.\<close>

definition dev_node :: "vfs_ops \<Rightarrow> uptr \<Rightarrow> string \<times> u32 \<times> u32 \<times> fops_ref \<Rightarrow> kernel \<Rightarrow> kernel option" where
  "dev_node ops dir e s =
     (case e of (name, mode, dev, tab) \<Rightarrow>
       do {
         (de, s) \<leftarrow> dentry_alloc name dir s;
         if de = 0 then Some s
         else do {
           (i, s) \<leftarrow> inode_alloc (d_sb (dentry_at s dir)) s;
           if i = 0 then dentry_put ops de s
           else do {
             let s = upd_inode i (\<lambda>x. x\<lparr>i_mode := mode, i_rdev := dev, i_nlink := 1, i_fops := tab, i_ops := RamfsInodeOps\<rparr>) s;
             (ri, h) \<leftarrow> kcalloc 1 32 (heap s);
             let s = upd_inode i (\<lambda>x. x\<lparr>i_private := ri\<rparr>) (set_heap h s);
             Some (upd_dentry de (\<lambda>x. x\<lparr>d_inode := i\<rparr>) (inode_get i s))
           }
         }
       })"

fun dev_nodes :: "vfs_ops \<Rightarrow> uptr \<Rightarrow> (string \<times> u32 \<times> u32 \<times> fops_ref) list \<Rightarrow> kernel \<Rightarrow> kernel option" where
  "dev_nodes ops dir [] s = Some s"
| "dev_nodes ops dir (e # es) s = do { s \<leftarrow> dev_node ops dir e s; dev_nodes ops dir es s }"

text \<open>The registrations at the start of \<^verbatim>\<open>devfs_init\<close>.\<close>

definition devfs_register :: "devtab \<Rightarrow> devtab" where
  "devfs_register d = snd (register_chrdev MAJ_TTY ''tty'' TtyOps (snd (register_chrdev MAJ_MEM ''mem'' NullOps d)))"

section \<open>Random bytes\<close>

text \<open>With a count above \<^verbatim>\<open>0xFFFFFFFC\<close> the counter, a multiple of 4, never reaches it.\<close>

lemma random_loop_stuck:
  assumes "random_loop c i seed acc = Some r" and "unat i mod 4 = 0"
  shows "unat c \<le> 4294967292"
  using assms(2)
proof (induction rule: random_loop.raw_induct [OF _ assms(1)])
  case (1 f c i seed acc r)
  have "unat (i + 4) mod 4 = (unat i + 4) mod 4" by (simp add: unat_word_ariths mod_mod_cancel)
  then have m: "unat (i + 4) mod 4 = 0" using 1(3) by simp
  show ?case
  proof (cases "i < c")
    case True
    with 1(1) [OF _ m] 1(2) show ?thesis by (auto simp: Let_def)
  next
    case False
    then have "unat c \<le> unat i" by (simp add: word_less_nat_alt)
    moreover have "unat i \<le> 4294967292" using 1(3) unat_less_2p32 [of i] by presburger
    ultimately show ?thesis by simp
  qed
qed

lemma random_loop_ends:
  assumes "unat c \<le> 4294967292" and "unat i mod 4 = 0" and "length acc = min (unat i) (unat c)"
  shows "\<exists>bs t. random_loop c i seed acc = Some (bs, t) \<and> length bs = unat c"
  using assms(2,3)
proof (induction "unat c - unat i" arbitrary: i seed acc rule: less_induct)
  case less
  show ?case
  proof (cases "i < c")
    case False
    with less.prems show ?thesis by (auto simp: random_loop.simps word_less_nat_alt)
  next
    case True
    let ?acc = "acc @ take (unat (min 4 (c - i))) (word_bytes (lcg_rand seed))"
    have lt: "unat i < unat c" using True by (simp add: word_less_nat_alt)
    have "unat i \<le> 4294967288" using lt assms(1) less.prems(1) by presburger
    then have i4: "unat (i + 4) = unat i + 4" by (subst unat_add_nowrap) simp_all
    have "unat (c - i) = unat c - unat i" using True by (simp add: unat_sub)
    then have "unat (min 4 (c - i)) = min 4 (unat c - unat i)" by (simp add: min_def word_le_nat_alt)
    moreover have "length (word_bytes w) = 4" for w by (simp add: word_bytes_def)
    ultimately have "length ?acc = min (unat (i + 4)) (unat c)" using less.prems(2) lt i4 by simp
    from less.hyps [OF _ _ this, of "lcg_rand seed"] i4 lt less.prems(1) show ?thesis
      using True by (simp add: random_loop.simps [of c i] Let_def)
  qed
qed

text \<open>
  C33: A read of \<^verbatim>\<open>/dev/random\<close> returns, with exactly as many bytes as asked for, if and only if the count is at most
  \<^verbatim>\<open>0xFFFFFFFC\<close>; above that the loop counter wraps around before it reaches the count and the read never ends.
\<close>

theorem random_read_returns:
  "case random_read c seed of None \<Rightarrow> 0xFFFFFFFC < c | Some (bs, seed') \<Rightarrow> c \<le> 0xFFFFFFFC \<and> length bs = unat c"
proof (cases "unat c \<le> 4294967292")
  case True
  with random_loop_ends [of c 0 "[]" seed] show ?thesis by (auto simp: random_read_def word_le_nat_alt)
next
  case False
  then have "random_read c seed = None"
    using random_loop_stuck [of c 0 seed "[]"] by (cases "random_read c seed") (auto simp: random_read_def)
  with False show ?thesis by (simp add: word_less_nat_alt)
qed

end
