(* ===== verification/Ramfs.thy ===== *)
theory Ramfs
  imports Dev
begin

text \<open>
  The in-memory file system, after \<^verbatim>\<open>fs/ramfs.c\<close>.
  A directory has no data of its own: its entries are the dentries below it.  The bytes of a regular
  file are a block of the kernel heap that grows when a write does not fit.
\<close>

section \<open>Inode operations\<close>

definition sizeof_ramfs_inode :: u32 where "sizeof_ramfs_inode = 20"

definition ramfs_lookup :: "uptr \<Rightarrow> uptr \<Rightarrow> errno option kfun" where
  "ramfs_lookup dir de s = Some (if d_inode (dentry_at s de) \<noteq> 0 then None else Some ENOENT, s)"

text \<open>\<^verbatim>\<open>ops\<close> is what \<^verbatim>\<open>inode_free\<close> may call.\<close>

definition ramfs_new_inode :: "vfs_ops \<Rightarrow> u32 \<Rightarrow> uptr kfun" where
  "ramfs_new_inode ops mode s =
     do {
       (i, s) \<leftarrow> inode_alloc (ramfs_sb s) s;
       if i = 0 then Some (0, s)
       else do {
         (ri, h) \<leftarrow> kcalloc 1 sizeof_ramfs_inode (heap s);
         let s = set_heap h s;
         if ri = 0 then do { s \<leftarrow> inode_free ops i s; Some (0, s) }
         else let s = upd_ri ri (\<lambda>_. ri_zero\<lparr>rino := next_ino s\<rparr>) s;
                  t = task_at s (current s);
                  s = upd_inode i (\<lambda>x. x\<lparr>i_ino := next_ino s, i_mode := mode,
                        i_uid := (if current s \<noteq> 0 then uid t else 0), i_gid := (if current s \<noteq> 0 then gid t else 0),
                        i_nlink := 1, i_private := ri, i_atime := ucast (jiffies s), i_mtime := ucast (jiffies s),
                        i_ctime := ucast (jiffies s)\<rparr>) s
              in Some (i, s\<lparr>next_ino := next_ino s + 1\<rparr>)
       }
     }"

text \<open>\<^verbatim>\<open>de->d_inode = inode_get(i)\<close>\<close>

definition attach_inode :: "uptr \<Rightarrow> uptr \<Rightarrow> kernel \<Rightarrow> kernel" where
  "attach_inode de i s = upd_dentry de (\<lambda>x. x\<lparr>d_inode := i\<rparr>) (inode_get i s)"

definition ramfs_create :: "vfs_ops \<Rightarrow> uptr \<Rightarrow> uptr \<Rightarrow> u32 \<Rightarrow> errno option kfun" where
  "ramfs_create ops dir de mode s =
     do {
       (i, s) \<leftarrow> ramfs_new_inode ops (S_IFREG OR (mode AND 0x1FF)) s;
       if i = 0 then Some (Some ENOMEM, s)
       else let s = upd_inode i (\<lambda>x. x\<lparr>i_ops := RamfsInodeOps, i_fops := RamfsFileOps\<rparr>) s;
                s = attach_inode de i s
            in Some (None, upd_inode dir (\<lambda>x. x\<lparr>i_mtime := i_ctime (inode_at s i)\<rparr>) s)
     }"

definition ramfs_mkdir :: "vfs_ops \<Rightarrow> uptr \<Rightarrow> uptr \<Rightarrow> u32 \<Rightarrow> errno option kfun" where
  "ramfs_mkdir ops dir de mode s =
     do {
       (i, s) \<leftarrow> ramfs_new_inode ops (S_IFDIR OR (mode AND 0x1FF)) s;
       if i = 0 then Some (Some ENOMEM, s)
       else let s = upd_inode i (\<lambda>x. x\<lparr>i_ops := RamfsInodeOps, i_fops := RamfsDirOps\<rparr>) s;
                s = upd_dentry de (\<lambda>x. x\<lparr>d_sb := ramfs_sb s\<rparr>) (attach_inode de i s)
            in Some (None, upd_inode dir (\<lambda>x. x\<lparr>i_nlink := i_nlink x + 1\<rparr>) s)
     }"

definition ramfs_unlink :: "vfs_ops \<Rightarrow> uptr \<Rightarrow> uptr \<Rightarrow> errno option kfun" where
  "ramfs_unlink ops dir de s =
     (let i = d_inode (dentry_at s de)
      in if i = 0 then Some (Some ENOENT, s)
         else do {
           let s = upd_inode i (\<lambda>x. x\<lparr>i_nlink := i_nlink x - 1\<rparr>) s;
           s \<leftarrow> (if i_nlink (inode_at s i) = 0
                 then do {
                   let ri = i_private (inode_at s i);
                   let s = (if ri \<noteq> 0 then kern_free ri (kern_free (symlink_target (ri_at s ri)) (kern_free (rdata (ri_at s ri)) s)) else s);
                   s \<leftarrow> inode_put ops i s;
                   Some (upd_dentry de (\<lambda>x. x\<lparr>d_inode := 0\<rparr>) s)
                 }
                 else Some s);
           Some (None, set_lists (list_del (DSibling de)) s)
         })"

definition ramfs_rmdir :: "vfs_ops \<Rightarrow> uptr \<Rightarrow> uptr \<Rightarrow> errno option kfun" where
  "ramfs_rmdir ops dir de s =
     (if \<not> list_empty (DChildren de) (klists s) then Some (Some ENOTEMPTY, s)
      else ramfs_unlink ops dir de (upd_inode dir (\<lambda>x. x\<lparr>i_nlink := i_nlink x - 1\<rparr>) s))"

definition ramfs_rename :: "uptr \<Rightarrow> uptr \<Rightarrow> uptr \<Rightarrow> uptr \<Rightarrow> errno option kfun" where
  "ramfs_rename od ode nd nde s =
     (let s = upd_dentry nde (\<lambda>x. x\<lparr>d_inode := d_inode (dentry_at s ode)\<rparr>) s;
          s = upd_dentry ode (\<lambda>x. x\<lparr>d_inode := 0\<rparr>) s
      in Some (None, set_lists (list_del (DSibling ode)) s))"

text \<open>\<^verbatim>\<open>strdup\<close>: a heap copy of a string, 0 when there is no memory.\<close>

definition kern_strdup :: "string \<Rightarrow> uptr kfun" where
  "kern_strdup x s =
     do {
       (p, s) \<leftarrow> kern_malloc (of_nat (length x) + 1) s;
       Some (p, if p \<noteq> 0 then s\<lparr>str_at := (str_at s)(p := x)\<rparr> else s)
     }"

definition ramfs_symlink :: "vfs_ops \<Rightarrow> uptr \<Rightarrow> uptr \<Rightarrow> string \<Rightarrow> errno option kfun" where
  "ramfs_symlink ops dir de target s =
     do {
       (i, s) \<leftarrow> ramfs_new_inode ops (S_IFLNK OR 0x1FF) s;
       if i = 0 then Some (Some ENOMEM, s)
       else do {
         (p, s) \<leftarrow> kern_strdup target s;
         let s = upd_ri (i_private (inode_at s i)) (\<lambda>x. x\<lparr>symlink_target := p\<rparr>) s;
         let s = upd_inode i (\<lambda>x. x\<lparr>i_size := int (length target), i_ops := RamfsInodeOps\<rparr>) s;
         Some (None, attach_inode de i s)
       }
     }"

definition ramfs_readlink :: "uptr \<Rightarrow> nat \<Rightarrow> (errno + string) kfun" where
  "ramfs_readlink i sz s =
     (let t = symlink_target (ri_at s (i_private (inode_at s i)))
      in if t = 0 then Some (Inl EINVAL, s) else Some (Inr (take (sz - 1) (str_at s t)), s))"

text \<open>Growing the block of a file, as \<^verbatim>\<open>ramfs_truncate\<close> and \<^verbatim>\<open>ramfs_write\<close> do; the new part is zeroed.\<close>

definition ramfs_grow :: "uptr \<Rightarrow> u32 \<Rightarrow> errno option kfun" where
  "ramfs_grow ri newcap s =
     do {
       (nd, h) \<leftarrow> krealloc (rdata (ri_at s ri)) newcap (heap s);
       let s = set_heap h s;
       if nd = 0 then Some (Some ENOMEM, s)
       else let cap = rcapacity (ri_at s ri);
                s = (if newcap > cap then set_heap (pl_fill (nd + cap) 0 (newcap - cap) (heap s)) s else s)
            in Some (None, upd_ri ri (\<lambda>x. x\<lparr>rdata := nd, rcapacity := newcap\<rparr>) s)
     }"

definition ramfs_truncate :: "uptr \<Rightarrow> off_t \<Rightarrow> errno option kfun" where
  "ramfs_truncate i sz s =
     do {
       let ri = i_private (inode_at s i);
       (r, s) \<leftarrow> (if sz = 0
                 then Some (None, upd_ri ri (\<lambda>x. x\<lparr>rdata := 0, rcapacity := 0\<rparr>) (kern_free (rdata (ri_at s ri)) s))
                 else if (of_int sz :: u32) > rcapacity (ri_at s ri) then ramfs_grow ri (of_int sz) s
                 else Some (None, s));
       (case r of
          Some e \<Rightarrow> Some (Some e, s)
        | None \<Rightarrow> Some (None, upd_inode i (\<lambda>x. x\<lparr>i_size := sz\<rparr>) s))
     }"

definition ramfs_chmod :: "uptr \<Rightarrow> u32 \<Rightarrow> errno option kfun" where
  "ramfs_chmod i mode s = Some (None, upd_inode i (\<lambda>x. x\<lparr>i_mode := (i_mode x AND S_IFMT) OR (mode AND 0xFFF)\<rparr>) s)"

definition ramfs_chown :: "uptr \<Rightarrow> u32 \<Rightarrow> u32 \<Rightarrow> errno option kfun" where
  "ramfs_chown i u g s = Some (None, upd_inode i (\<lambda>x. x\<lparr>i_uid := u, i_gid := g\<rparr>) s)"

definition ramfs_mknod :: "devtab \<Rightarrow> vfs_ops \<Rightarrow> uptr \<Rightarrow> uptr \<Rightarrow> u32 \<Rightarrow> u32 \<Rightarrow> errno option kfun" where
  "ramfs_mknod d ops dir de mode dev s =
     do {
       (i, s) \<leftarrow> ramfs_new_inode ops mode s;
       if i = 0 then Some (Some ENOMEM, s)
       else let s = upd_inode i (\<lambda>x. x\<lparr>i_rdev := dev\<rparr>) s
            in Some (None, attach_inode de i (dev_setup_inode d i dev s))
     }"

definition ramfs_inode_ops :: "devtab \<Rightarrow> vfs_ops \<Rightarrow> inode_ops" where
  "ramfs_inode_ops d ops = no_iops\<lparr>op_lookup := Some ramfs_lookup, op_create := Some (ramfs_create ops),
     op_mkdir := Some (ramfs_mkdir ops), op_rmdir := Some (ramfs_rmdir ops), op_unlink := Some (ramfs_unlink ops),
     op_rename := Some ramfs_rename, op_symlink := Some (ramfs_symlink ops), op_readlink := Some ramfs_readlink,
     op_truncate := Some ramfs_truncate, op_chmod := Some ramfs_chmod, op_chown := Some ramfs_chown,
     op_mknod := Some (ramfs_mknod d ops)\<rparr>"

section \<open>File operations\<close>

definition ramfs_open :: "uptr \<Rightarrow> uptr \<Rightarrow> errno option kfun" where "ramfs_open i f s = Some (None, s)"
definition ramfs_release :: "uptr \<Rightarrow> uptr \<Rightarrow> kernel \<Rightarrow> kernel option" where "ramfs_release i f s = Some s"

text \<open>The bytes of a block from an address on, and writing bytes into it.\<close>

definition bytes_at :: "kheap \<Rightarrow> uptr \<Rightarrow> nat \<Rightarrow> u8 list" where
  "bytes_at h p n = map (\<lambda>k. payload h (p + of_nat k)) [0..<n]"

definition put_bytes :: "uptr \<Rightarrow> u8 list \<Rightarrow> kheap \<Rightarrow> kheap" where
  "put_bytes p bs h = h\<lparr>payload := (\<lambda>a. if unat (a - p) < length bs then bs ! unat (a - p) else payload h a)\<rparr>"

definition ramfs_read :: "uptr \<Rightarrow> u32 \<Rightarrow> off_t \<Rightarrow> ((errno + u8 list) \<times> off_t) kfun" where
  "ramfs_read f count pos s =
     (let i = d_inode (dentry_at s (f_dentry (file_at s f))); ri = i_private (inode_at s i); sz = i_size (inode_at s i)
      in if pos \<ge> sz then Some ((Inr [], pos), s)
         else let n = (if pos + uint count > sz then nat (sz - pos) else unat count)
              in if rdata (ri_at s ri) = 0 then Some ((Inr [], pos), s)
                 else Some ((Inr (bytes_at (heap s) (rdata (ri_at s ri) + of_int pos) n), pos + int n), s))"

definition ramfs_write :: "uptr \<Rightarrow> u8 list \<Rightarrow> off_t \<Rightarrow> ((errno + nat) \<times> off_t) kfun" where
  "ramfs_write f bs pos s =
     do {
       let i = d_inode (dentry_at s (f_dentry (file_at s f)));
       let ri = i_private (inode_at s i);
       let pos = (if f_flags (file_at s f) AND O_APPEND \<noteq> 0 then i_size (inode_at s i) else pos);
       let stop = pos + int (length bs);
       (r, s) \<leftarrow> (if (of_int stop :: u32) > rcapacity (ri_at s ri)
                 then ramfs_grow ri (of_int (max stop (uint (rcapacity (ri_at s ri) * 2 + 4096)))) s
                 else Some (None, s));
       (case r of
          Some e \<Rightarrow> Some ((Inl e, pos), s)
        | None \<Rightarrow>
            let s = set_heap (put_bytes (rdata (ri_at s ri) + of_int pos) bs (heap s)) s
            in Some ((Inr (length bs), stop),
                     if stop > i_size (inode_at s i) then upd_inode i (\<lambda>x. x\<lparr>i_size := stop\<rparr>) s else s))
     }"

definition ramfs_file_ops :: file_ops where
  "ramfs_file_ops = no_fops\<lparr>op_open := Some ramfs_open, op_release := Some ramfs_release,
     op_read := Some ramfs_read, op_write := Some ramfs_write\<rparr>"

definition ramfs_dir_read :: "uptr \<Rightarrow> u32 \<Rightarrow> off_t \<Rightarrow> ((errno + u8 list) \<times> off_t) kfun" where
  "ramfs_dir_read f count pos s = Some ((Inl EISDIR, pos), s)"

definition dirent_type :: "u32 \<Rightarrow> u8" where
  "dirent_type m = (if S_ISDIR m then 4 else if S_ISLNK m then 10 else if S_ISCHR m then 2
     else if S_ISBLK m then 6 else if S_ISFIFO m then 1 else 8)"

text \<open>The type field of an entry without inode is not written by the code; it keeps what the buffer had, here 0.\<close>

definition dirent_of :: "kernel \<Rightarrow> off_t \<Rightarrow> knode \<Rightarrow> dirent" where
  "dirent_of s pos n =
     (let c = dentry_at s (dentry_of n); i = inode_at s (d_inode c)
      in \<lparr>de_ino = (if d_inode c \<noteq> 0 then i_ino i else 0), de_off = pos, de_reclen = 276,
          de_type = (if d_inode c \<noteq> 0 then dirent_type (i_mode i) else 0), de_name = d_name c\<rparr>)"

fun fill_dirents :: "kernel \<Rightarrow> off_t \<Rightarrow> int \<Rightarrow> knode list \<Rightarrow> dirent list" where
  "fill_dirents s pos room [] = []"
| "fill_dirents s pos room (n # ns) = (if room \<le> 0 then [] else dirent_of s pos n # fill_dirents s (pos + 1) (room - 1) ns)"

definition ramfs_readdir :: "uptr \<Rightarrow> int \<Rightarrow> (errno + dirent list) kfun" where
  "ramfs_readdir f count s =
     do {
       ns \<leftarrow> list_nodes (klists s) (DChildren (f_dentry (file_at s f)));
       let pos = f_pos (file_at s f);
       let ds = fill_dirents s pos count (drop (nat pos) ns);
       Some (Inr ds, upd_file f (\<lambda>x. x\<lparr>f_pos := pos + int (length ds)\<rparr>) s)
     }"

definition ramfs_dir_ops :: file_ops where
  "ramfs_dir_ops = no_fops\<lparr>op_open := Some ramfs_open, op_release := Some ramfs_release,
     op_read := Some ramfs_dir_read, op_readdir := Some ramfs_readdir\<rparr>"

section \<open>Mounting and populating\<close>

text \<open>The results of the two allocations are used without a test: a failure is an access through a null pointer.\<close>

definition ramfs_mount :: "vfs_ops \<Rightarrow> uptr kfun" where
  "ramfs_mount ops s =
     do {
       let sb = ramfs_sb s;
       let s = s\<lparr>sb_at := (sb_at s)(sb := \<lparr>s_blocksize = PAGE_SIZE, s_magic = 0x858458F6, s_root = 0, s_type = 0, s_rdonly = False\<rparr>)\<rparr>;
       let s = set_lists (list_init (SbLink sb) \<circ> list_init (SbInodes sb)) s;
       (i, s) \<leftarrow> ramfs_new_inode ops (S_IFDIR OR 0x1ED) s;
       if i = 0 then None
       else do {
         let s = upd_inode i (\<lambda>x. x\<lparr>i_ops := RamfsInodeOps, i_fops := RamfsDirOps, i_nlink := 2\<rparr>) s;
         (root, s) \<leftarrow> dentry_alloc ''/'' 0 s;
         if root = 0 then None
         else let s = upd_dentry root (\<lambda>x. x\<lparr>d_sb := sb\<rparr>) (attach_inode root i s)
              in Some (sb, s\<lparr>sb_at := (sb_at s)(sb := (sb_at s sb)\<lparr>s_root := root\<rparr>)\<rparr>)
       }
     }"

definition ramfs_init :: "uptr \<Rightarrow> uptr \<Rightarrow> kernel \<Rightarrow> kernel" where
  "ramfs_init ramfs_type tmpfs_type s =
     register_filesystem tmpfs_type (register_filesystem ramfs_type
       (s\<lparr>fs_at := (fs_at s)(ramfs_type := \<lparr>fs_name = ''ramfs''\<rparr>, tmpfs_type := \<lparr>fs_name = ''tmpfs''\<rparr>)\<rparr>))"

definition ramfs_create_file :: "vfs_ops \<Rightarrow> uptr \<Rightarrow> string \<Rightarrow> u8 list \<Rightarrow> u32 \<Rightarrow> errno option kfun" where
  "ramfs_create_file ops dir name bs mode s =
     do {
       (de, s) \<leftarrow> dentry_alloc name dir s;
       if de = 0 then Some (Some ENOMEM, s)
       else do {
         (r, s) \<leftarrow> ramfs_create ops (d_inode (dentry_at s dir)) de mode s;
         (case r of
            Some e \<Rightarrow> do { s \<leftarrow> dentry_put ops de s; Some (Some e, s) }
          | None \<Rightarrow>
              if bs = [] then Some (None, s)
              else do {
                let i = d_inode (dentry_at s de);
                let ri = i_private (inode_at s i);
                (p, s) \<leftarrow> kern_malloc (of_nat (length bs)) s;
                let s = upd_ri ri (\<lambda>x. x\<lparr>rdata := p\<rparr>) s;
                if p = 0 then do { (_, s) \<leftarrow> ramfs_unlink ops (d_inode (dentry_at s dir)) de s; Some (Some ENOMEM, s) }
                else let s = set_heap (put_bytes p bs (heap s)) s;
                         s = upd_ri ri (\<lambda>x. x\<lparr>rcapacity := of_nat (length bs)\<rparr>) s
                     in Some (None, upd_inode i (\<lambda>x. x\<lparr>i_size := int (length bs)\<rparr>) s)
              })
       }
     }"

definition ramfs_create_dir :: "vfs_ops \<Rightarrow> uptr \<Rightarrow> string \<Rightarrow> u32 \<Rightarrow> errno option kfun" where
  "ramfs_create_dir ops par name mode s =
     do {
       (de, s) \<leftarrow> dentry_alloc name par s;
       if de = 0 then Some (Some ENOMEM, s) else ramfs_mkdir ops (d_inode (dentry_at s par)) de mode s
     }"

section \<open>A file is a sequence of bytes\<close>

text \<open>
  What a file promises: its content is a list of bytes, a read returns a piece of it, and a write
  replaces a piece of it, with zeros between the old end and the position written at.
\<close>

definition write_at :: "u8 list \<Rightarrow> nat \<Rightarrow> u8 list \<Rightarrow> u8 list" where
  "write_at c k bs = take k c @ replicate (k - length c) 0 @ bs @ drop (k + length bs) c"

definition ramfs_ri :: "kernel \<Rightarrow> uptr \<Rightarrow> ramfs_inode" where
  "ramfs_ri s i = ri_at s (i_private (inode_at s i))"

definition ramfs_data :: "kernel \<Rightarrow> uptr \<Rightarrow> u8 list" where
  "ramfs_data s i = bytes_at (heap s) (rdata (ramfs_ri s i)) (nat (i_size (inode_at s i)))"

text \<open>
  The invariant of a file: its block, if it has one, is in use and holds the capacity; the size is within the
  capacity; and the bytes between the size and the capacity are zero.
\<close>

definition file_rep :: "kheap \<Rightarrow> uptr \<Rightarrow> nat \<Rightarrow> nat \<Rightarrow> bool" where
  "file_rep h p sz cap \<longleftrightarrow> heap_ok h \<and> sz \<le> cap \<and>
     (if p = 0 then cap = 0 else \<exists>n\<ge>cap. (unat p, n) \<in> live h) \<and>
     (\<forall>j. sz \<le> j \<and> j < cap \<longrightarrow> payload h (p + of_nat j) = 0)"

definition ramfs_file_ok :: "kernel \<Rightarrow> uptr \<Rightarrow> bool" where
  "ramfs_file_ok s i \<longleftrightarrow> 0 \<le> i_size (inode_at s i) \<and>
     file_rep (heap s) (rdata (ramfs_ri s i)) (nat (i_size (inode_at s i))) (unat (rcapacity (ramfs_ri s i)))"

text \<open>The other blocks of the heap, and that their bytes are the same in another heap.\<close>

definition others :: "kheap \<Rightarrow> uptr \<Rightarrow> (nat \<times> nat) set" where
  "others h p = {b \<in> live h. fst b \<noteq> unat p}"

definition same_others :: "kheap \<Rightarrow> uptr \<Rightarrow> kheap \<Rightarrow> uptr \<Rightarrow> bool" where
  "same_others h p g q \<longleftrightarrow> others g q = others h p \<and>
     (\<forall>(a, k) \<in> others h p. \<forall>x. a \<le> unat x \<and> unat x < a + k \<longrightarrow> payload g x = payload h x)"

lemma heap_set_heap [simp]: "heap (set_heap h s) = h" "set_heap (heap s) s = s"
  "inode_at (set_heap h s) = inode_at s" "ri_at (set_heap h s) = ri_at s"
  "dentry_at (set_heap h s) = dentry_at s" "file_at (set_heap h s) = file_at s"
  "set_heap h (set_heap h' s) = set_heap h s"
  by (simp_all add: heap_def set_heap_def)

lemma heap_upd [simp]: "heap (upd_ri r f s) = heap s" "heap (upd_inode i g s) = heap s"
  by (simp_all add: heap_def kupd_defs)

lemma in_interval:
  assumes "unat p + n \<le> 2 ^ 32"
  shows "unat (x - p :: u32) < n \<longleftrightarrow> unat p \<le> unat x \<and> unat x < unat p + n"
    and "unat p \<le> unat x \<Longrightarrow> unat (x - p) = unat x - unat p"
  using assms unat_less_2p32 [of x] unat_less_2p32 [of p]
  by (auto simp: unat_sub_if_size word_size)

lemma put_bytes_simps [simp]:
  "heap_ok (put_bytes p bs h) = heap_ok h" "live (put_bytes p bs h) = live h"
  by (simp_all add: put_bytes_def)

lemma pl_fill_simps [simp]:
  "heap_ok (pl_fill p v n h) = heap_ok h" "live (pl_fill p v n h) = live h"
  by (simp_all add: pl_fill_def)

lemma payload_put_bytes:
  assumes "unat p + length bs \<le> 2 ^ 32"
  shows "payload (put_bytes p bs h) x =
    (if unat p \<le> unat x \<and> unat x < unat p + length bs then bs ! (unat x - unat p) else payload h x)"
  using in_interval [OF assms, of x] by (auto simp: put_bytes_def)

lemma payload_pl_fill:
  assumes "unat p + unat n \<le> 2 ^ 32"
  shows "payload (pl_fill p v n h) x = (if unat p \<le> unat x \<and> unat x < unat p + unat n then v else payload h x)"
  using in_interval [OF assms, of x] by (auto simp: pl_fill_def word_less_nat_alt)

lemma live_unique: "heap_ok h \<Longrightarrow> (a, m) \<in> live h \<Longrightarrow> (a, n) \<in> live h \<Longrightarrow> m = n"
  using live_disjoint [of h a m a n] by fastforce

lemma others_eq:
  assumes "heap_ok h" and "p \<noteq> 0 \<Longrightarrow> (unat p, n) \<in> live h"
  shows "others h p = (if p = 0 then live h else live h - {(unat p, n)})"
proof (cases "p = 0")
  case True
  have "fst b \<noteq> 0" if "b \<in> live h" for b
    using live_bounds(1) [OF assms(1), of "fst b" "snd b"] that by (cases b) auto
  with True show ?thesis by (auto simp: others_def)
next
  case False
  with assms(2) have l: "(unat p, n) \<in> live h" by simp
  have "fst b = unat p \<longleftrightarrow> b = (unat p, n)" if "b \<in> live h" for b
    using live_unique [OF assms(1) l, of "snd b"] that by (cases b) auto
  with False show ?thesis by (auto simp: others_def)
qed

lemma unat_of_off: "0 \<le> k \<Longrightarrow> k < 2 ^ 32 \<Longrightarrow> unat (of_int k :: u32) = nat k"
  by (simp add: unsigned_of_int take_bit_int_eq_self_iff take_bit_int_eq_self)

lemma unat_max_off:
  assumes "0 \<le> e" and "e < 2 ^ 32"
  shows "unat (of_int (max e (uint (c :: u32))) :: u32) = max (nat e) (unat c)"
proof -
  have "0 \<le> max e (uint c)" "max e (uint c) < 2 ^ 32"
    using assms unsigned_less [of c, where ?'a = int] by auto
  then have "unat (of_int (max e (uint c)) :: u32) = nat (max e (uint c))" by (rule unat_of_off)
  also have "\<dots> = max (nat e) (nat (uint c))"
    by (rule max_of_mono [symmetric]) (simp add: mono_def nat_mono)
  finally show ?thesis by simp
qed

lemma unat_add_of_nat: "unat (p :: u32) + k < 2 ^ 32 \<Longrightarrow> unat (p + of_nat k) = unat p + k"
  using unat_offset [of p "k + 1" k] by simp

text \<open>Growing the block keeps the content and zeroes the new part.\<close>

lemma krealloc_file:
  assumes rep: "file_rep h p sz cap" and "cap < unat newcap" and "unat newcap \<le> 0x4000000"
  shows "\<exists>q g. krealloc p newcap h = Some (q, g) \<and> (q = 0 \<longrightarrow> g = h) \<and>
    (q \<noteq> 0 \<longrightarrow> (\<exists>m\<ge>unat newcap. (unat q, m) \<in> live g) \<and> heap_ok g \<and> same_others h p g q \<and>
      (\<forall>j<cap. payload g (q + of_nat j) = payload h (p + of_nat j)))"
proof -
  obtain n where n: "if p = 0 then n = 0 else (unat p, n) \<in> live h" "cap \<le> n"
    using rep by (cases "p = 0") (auto simp: file_rep_def)
  have ok: "heap_ok h" using rep by (simp add: file_rep_def)
  have oth: "others h p = (if p = 0 then live h else live h - {(unat p, n)})"
    using others_eq [OF ok] n(1) by (cases "p = 0") auto
  have "newcap \<noteq> 0" using assms(2) by auto
  from krealloc_any [OF ok this assms(3), of p n "others h p"] oth n(1) obtain q g where
    r: "krealloc p newcap h = Some (q, g)" "heap_ok g" "q = 0 \<longrightarrow> g = h"
    "q \<noteq> 0 \<longrightarrow> (\<exists>m\<ge>unat newcap. live g = insert (unat q, m) (others h p) \<and> (\<forall>(a, k) \<in> others h p. (a, k) \<noteq> (unat q, m))) \<and>
       (\<forall>i<n. payload g (q + of_nat i) = payload h (p + of_nat i)) \<and>
       (\<forall>(a, k) \<in> others h p. \<forall>x. a \<le> unat x \<and> unat x < a + k \<longrightarrow> payload g x = payload h x)"
    by (cases "p = 0") (auto split: if_splits)
  show ?thesis
  proof (cases "q = 0")
    case False
    with r(4) obtain m where m: "unat newcap \<le> m" "live g = insert (unat q, m) (others h p)" "(unat q, m) \<notin> others h p"
      by blast
    then have "others g q = others h p" using others_eq [OF r(2), of q m] False by auto
    with r(4) False have "same_others h p g q" by (simp add: same_others_def)
    with False r m n(2) show ?thesis by auto
  qed (use r in auto)
qed

lemma live_nowrap: "heap_ok h \<Longrightarrow> (unat p, n) \<in> live h \<Longrightarrow> unat p + n < 2 ^ 32"
  using live_bounds(2,3) [of h "unat p" n] by simp

text \<open>A change of bytes inside the block leaves the other blocks alone.\<close>

lemma same_others_inside:
  assumes "heap_ok h" and "(unat p, n) \<in> live h" and "live g = live h"
    and "\<And>x. \<not> (unat p \<le> unat x \<and> unat x < unat p + n) \<Longrightarrow> payload g x = payload h x"
  shows "same_others h p g p"
proof -
  have "payload g x = payload h x" if "(a, k) \<in> live h" "a \<noteq> unat p" "a \<le> unat x" "unat x < a + k" for a k x
    using live_disjoint [OF assms(1) that(1) assms(2)] that by (intro assms(4)) auto
  then show ?thesis using assms(3) by (auto simp: same_others_def others_def)
qed

lemma same_others_trans: "same_others h p g q \<Longrightarrow> same_others g q k r \<Longrightarrow> same_others h p k r"
  by (fastforce simp: same_others_def)

lemma file_rep_fill:
  assumes rep: "file_rep h p sz (unat cap)" and "unat cap < unat newcap"
    and q: "(unat q, m) \<in> live g" "unat newcap \<le> m" "heap_ok g" "same_others h p g q"
    and old: "\<And>j. j < unat cap \<Longrightarrow> payload g (q + of_nat j) = payload h (p + of_nat j)"
    and g': "g' = pl_fill (q + cap) 0 (newcap - cap) g"
  shows "file_rep g' q sz (unat newcap)" and "bytes_at g' q sz = bytes_at h p sz" and "same_others h p g' q"
proof -
  note nw = live_nowrap [OF q(3,1)]
  have qc: "unat (q + cap) = unat q + unat cap" using unat_add_of_nat [of q "unat cap"] nw q(2) assms(2) by simp
  have nc: "unat (newcap - cap) = unat newcap - unat cap" using assms(2) by (simp add: unat_sub word_le_nat_alt)
  have pl: "payload g' x = (if unat q + unat cap \<le> unat x \<and> unat x < unat q + unat newcap then 0 else payload g x)" for x
    using payload_pl_fill [of "q + cap" "newcap - cap" 0 g x] nw q(2) assms(2) qc nc g' by simp
  have at: "unat (q + of_nat j) = unat q + j" if "j < unat newcap" for j
    using unat_add_of_nat [of q j] nw q(2) that by simp
  have bytes: "payload g' (q + of_nat j) = (if j < unat cap then payload h (p + of_nat j) else 0)" if "j < unat newcap" for j
    using pl [of "q + of_nat j"] at [OF that] old [of j] that by auto
  have q0: "q \<noteq> 0" using live_bounds(1) [OF q(3,1)] by auto
  have sz: "sz \<le> unat cap" and z: "\<And>j. sz \<le> j \<and> j < unat cap \<Longrightarrow> payload h (p + of_nat j) = 0"
    using rep by (auto simp: file_rep_def)
  show "file_rep g' q sz (unat newcap)"
    unfolding file_rep_def using q q0 sz z bytes assms(2) g' by auto
  show "bytes_at g' q sz = bytes_at h p sz"
    using bytes sz assms(2) by (auto simp: bytes_at_def)
  have "same_others g q g' q"
    by (rule same_others_inside [OF q(3,1)]) (use g' pl q(2) in auto)
  with q(4) show "same_others h p g' q" by (rule same_others_trans)
qed

lemma nth_write_at:
  assumes "j < max (length c) (k + length bs)"
  shows "write_at c k bs ! j = (if k \<le> j \<and> j < k + length bs then bs ! (j - k) else if j < length c then c ! j else 0)"
  using assms by (auto simp: write_at_def nth_append min_def)

lemma length_write_at [simp]: "length (write_at c k bs) = max (length c) (k + length bs)"
  by (auto simp: write_at_def min_def max_def)

lemma file_rep_put:
  assumes rep: "file_rep h p sz cap" and le: "k + length bs \<le> cap" and g: "g = put_bytes (p + of_nat k) bs h"
  shows "file_rep g p (max sz (k + length bs)) cap" and "bytes_at g p (max sz (k + length bs)) = write_at (bytes_at h p sz) k bs"
    and "same_others h p g p"
proof -
  have "file_rep g p (max sz (k + length bs)) cap \<and> bytes_at g p (max sz (k + length bs)) = write_at (bytes_at h p sz) k bs \<and>
    same_others h p g p"
  proof (cases "p = 0")
    case True
    with rep le have e: "cap = 0" "k = 0" "bs = []" "sz = 0" by (auto simp: file_rep_def)
    then have "g = h" by (simp add: g put_bytes_def)
    with rep e show ?thesis by (simp add: bytes_at_def write_at_def same_others_def)
  next
    case False
    with rep obtain n where n: "cap \<le> n" "(unat p, n) \<in> live h" and ok: "heap_ok h" and sz: "sz \<le> cap"
      and z: "\<And>j. sz \<le> j \<and> j < cap \<Longrightarrow> payload h (p + of_nat j) = 0" by (auto simp: file_rep_def)
    note nw = live_nowrap [OF ok n(2)]
    have at: "unat (p + of_nat j) = unat p + j" if "j \<le> cap" for j
      using unat_add_of_nat [of p j] nw n(1) that by simp
    have pl: "payload g x = (if unat p + k \<le> unat x \<and> unat x < unat p + k + length bs
        then bs ! (unat x - unat p - k) else payload h x)" for x
      using payload_put_bytes [of "p + of_nat k" bs h x] at [of k] le nw n(1) by (simp add: g)
    have bytes: "payload g (p + of_nat j) = (if k \<le> j \<and> j < k + length bs then bs ! (j - k) else payload h (p + of_nat j))"
      if "j < cap" for j
      using pl [of "p + of_nat j"] at [of j] that by auto
    have "file_rep g p (max sz (k + length bs)) cap"
      unfolding file_rep_def using False n ok sz z bytes le g by auto
    moreover have "bytes_at g p (max sz (k + length bs)) = write_at (bytes_at h p sz) k bs"
      using bytes z sz le by (intro nth_equalityI) (auto simp: bytes_at_def nth_write_at)
    moreover have "same_others h p g p"
      by (rule same_others_inside [OF ok n(2)]) (use g pl le n(1) in auto)
    ultimately show ?thesis by blast
  qed
  then show "file_rep g p (max sz (k + length bs)) cap"
    and "bytes_at g p (max sz (k + length bs)) = write_at (bytes_at h p sz) k bs" and "same_others h p g p" by blast+
qed

lemma ramfs_grow_spec:
  assumes "ramfs_file_ok s i" and "unat (rcapacity (ramfs_ri s i)) < unat newcap" and "unat newcap \<le> 0x4000000"
    and "ri = i_private (inode_at s i)"
  shows "ramfs_grow ri newcap s = Some (Some ENOMEM, s) \<or>
    (\<exists>q g. ramfs_grow ri newcap s = Some (None, upd_ri ri (\<lambda>x. x\<lparr>rdata := q, rcapacity := newcap\<rparr>) (set_heap g s)) \<and>
       file_rep g q (nat (i_size (inode_at s i))) (unat newcap) \<and>
       bytes_at g q (nat (i_size (inode_at s i))) = ramfs_data s i \<and>
       same_others (heap s) (rdata (ramfs_ri s i)) g q)"
proof -
  let ?R = "ramfs_ri s i"
  have rep: "file_rep (heap s) (rdata ?R) (nat (i_size (inode_at s i))) (unat (rcapacity ?R))"
    using assms(1) by (simp add: ramfs_file_ok_def)
  from krealloc_file [OF rep assms(2,3)] obtain q g where k: "krealloc (rdata ?R) newcap (heap s) = Some (q, g)"
    "q = 0 \<longrightarrow> g = heap s" "q \<noteq> 0 \<longrightarrow> (\<exists>m\<ge>unat newcap. (unat q, m) \<in> live g) \<and> heap_ok g \<and>
      same_others (heap s) (rdata ?R) g q \<and> (\<forall>j<unat (rcapacity ?R). payload g (q + of_nat j) = payload (heap s) (rdata ?R + of_nat j))"
    by blast
  show ?thesis
  proof (cases "q = 0")
    case True
    with k assms(4) show ?thesis by (simp add: ramfs_grow_def ramfs_ri_def)
  next
    case False
    with k(3) obtain m where m: "(unat q, m) \<in> live g" "unat newcap \<le> m" "heap_ok g" "same_others (heap s) (rdata ?R) g q"
      "\<And>j. j < unat (rcapacity ?R) \<Longrightarrow> payload g (q + of_nat j) = payload (heap s) (rdata ?R + of_nat j)" by blast
    note fill = file_rep_fill [OF rep assms(2) m refl]
    have "ramfs_grow ri newcap s = Some (None, upd_ri ri (\<lambda>x. x\<lparr>rdata := q, rcapacity := newcap\<rparr>)
        (set_heap (pl_fill (q + rcapacity ?R) 0 (newcap - rcapacity ?R) g) s))"
      using k(1) False assms(2,4) by (simp add: ramfs_grow_def ramfs_ri_def word_less_nat_alt Let_def)
    with fill show ?thesis by (auto simp: ramfs_data_def)
  qed
qed

text \<open>Storing bytes within the capacity, as the end of \<^verbatim>\<open>ramfs_write\<close> does.\<close>

lemma ramfs_store:
  assumes "file_rep (heap s) (rdata (ramfs_ri s i)) (nat (i_size (inode_at s i))) (unat (rcapacity (ramfs_ri s i)))"
    and "0 \<le> i_size (inode_at s i)" and "0 \<le> pos" and "nat pos + length bs \<le> unat (rcapacity (ramfs_ri s i))"
    and "t = set_heap (put_bytes (rdata (ramfs_ri s i) + of_int pos) bs (heap s)) s"
    and "u = (if pos + int (length bs) > i_size (inode_at t i) then upd_inode i (\<lambda>x. x\<lparr>i_size := pos + int (length bs)\<rparr>) t else t)"
  shows "ramfs_file_ok u i" and "ramfs_data u i = write_at (ramfs_data s i) (nat pos) bs"
    and "same_others (heap s) (rdata (ramfs_ri s i)) (heap u) (rdata (ramfs_ri u i))"
proof -
  have w: "of_int pos = (of_nat (nat pos) :: u32)" using assms(3) by simp
  have ru: "ramfs_ri u i = ramfs_ri s i" using assms(5,6) by (simp add: ramfs_ri_def kupd_defs)
  have hu: "heap u = put_bytes (rdata (ramfs_ri s i) + of_nat (nat pos)) bs (heap s)"
    using assms(5,6) w by simp
  have su: "i_size (inode_at u i) = max (i_size (inode_at s i)) (pos + int (length bs))"
    using assms(5,6) by (auto simp: kupd_defs)
  then have nu: "nat (i_size (inode_at u i)) = max (nat (i_size (inode_at s i))) (nat pos + length bs)"
    using assms(2,3) by auto
  note put = file_rep_put [OF assms(1,4) hu]
  show "ramfs_file_ok u i" using put(1) ru nu su assms(2) by (simp add: ramfs_file_ok_def)
  show "ramfs_data u i = write_at (ramfs_data s i) (nat pos) bs" using put(2) ru nu by (simp add: ramfs_data_def)
  show "same_others (heap s) (rdata (ramfs_ri s i)) (heap u) (rdata (ramfs_ri u i))" using put(3) ru by simp
qed

definition file_inode :: "kernel \<Rightarrow> uptr \<Rightarrow> uptr" where
  "file_inode s f = d_inode (dentry_at s (f_dentry (file_at s f)))"

text \<open>Where a write goes: to the end of a file opened for appending.\<close>

definition write_pos :: "kernel \<Rightarrow> uptr \<Rightarrow> off_t \<Rightarrow> off_t" where
  "write_pos s f pos = (if f_flags (file_at s f) AND O_APPEND \<noteq> 0 then i_size (inode_at s (file_inode s f)) else pos)"

lemma ramfs_write_unfold:
  assumes "i = file_inode s f" and "k = write_pos s f pos"
  shows "ramfs_write f bs pos s =
    do { (r, t) \<leftarrow> (if (of_int (k + int (length bs)) :: u32) > rcapacity (ramfs_ri s i)
           then ramfs_grow (i_private (inode_at s i)) (of_int (max (k + int (length bs)) (uint (rcapacity (ramfs_ri s i) * 2 + 4096)))) s
           else Some (None, s));
         case r of Some e \<Rightarrow> Some ((Inl e, k), t)
         | None \<Rightarrow> (let t = set_heap (put_bytes (rdata (ri_at t (i_private (inode_at s i))) + of_int k) bs (heap t)) t
              in Some ((Inr (length bs), k + int (length bs)),
                   if k + int (length bs) > i_size (inode_at t i) then upd_inode i (\<lambda>x. x\<lparr>i_size := k + int (length bs)\<rparr>) t else t)) }"
  unfolding ramfs_write_def Let_def assms write_pos_def file_inode_def ramfs_ri_def by (rule refl)

lemma ramfs_write_spec:
  assumes ok: "ramfs_file_ok s i" and i: "i = file_inode s f" and k: "k = write_pos s f pos" "0 \<le> k"
    and room: "k + int (length bs) \<le> 0x4000000" "2 * unat (rcapacity (ramfs_ri s i)) + 4096 \<le> 0x4000000"
  shows "ramfs_write f bs pos s = Some ((Inl ENOMEM, k), s) \<or>
    (\<exists>t. ramfs_write f bs pos s = Some ((Inr (length bs), k + int (length bs)), t) \<and> ramfs_file_ok t i \<and>
       ramfs_data t i = write_at (ramfs_data s i) (nat k) bs \<and> file_at t = file_at s \<and> dentry_at t = dentry_at s \<and>
       same_others (heap s) (rdata (ramfs_ri s i)) (heap t) (rdata (ramfs_ri t i)))"
proof -
  let ?ri = "i_private (inode_at s i)"
  let ?cap = "rcapacity (ramfs_ri s i)"
  let ?stop = "k + int (length bs)"
  let ?nc = "of_int (max ?stop (uint (?cap * 2 + 4096))) :: u32"
  let ?put = "\<lambda>t. set_heap (put_bytes (rdata (ramfs_ri t i) + of_int k) bs (heap t)) t"
  let ?fin = "\<lambda>t. if ?stop > i_size (inode_at (?put t) i) then upd_inode i (\<lambda>x. x\<lparr>i_size := ?stop\<rparr>) (?put t) else ?put t"
  note unfold = ramfs_write_unfold [OF i k(1), of bs]
  have end_w: "unat (of_int ?stop :: u32) = nat ?stop"
    using k(2) room(1) by (intro unat_of_off) simp_all
  have size: "0 \<le> i_size (inode_at s i)" and rep: "file_rep (heap s) (rdata (ramfs_ri s i)) (nat (i_size (inode_at s i))) (unat ?cap)"
    using ok by (auto simp: ramfs_file_ok_def)
  show ?thesis
  proof (cases "(of_int ?stop :: u32) > ?cap")
    case False
    then have "nat k + length bs \<le> unat ?cap" using end_w k(2) by (simp add: word_less_nat_alt)
    note st = ramfs_store [OF rep size k(2) this refl refl]
    have "ramfs_write f bs pos s = Some ((Inr (length bs), ?stop), ?fin s)"
      using False unfold by (simp add: ramfs_ri_def Let_def)
    with st show ?thesis by (auto simp: kupd_defs)
  next
    case True
    have c2: "unat (?cap * 2 + 4096) = 2 * unat ?cap + 4096"
      using room(2) by (simp add: unat_word_ariths)
    have nc: "unat ?nc = max (nat ?stop) (2 * unat ?cap + 4096)"
      unfolding c2 [symmetric] using room(1) k(2) by (intro unat_max_off) simp_all
    then have "unat ?cap < unat ?nc" "unat ?nc \<le> 0x4000000" using room by auto
    from ramfs_grow_spec [OF ok this refl] consider (fail) "ramfs_grow ?ri ?nc s = Some (Some ENOMEM, s)"
      | (grow) q g where "ramfs_grow ?ri ?nc s = Some (None, upd_ri ?ri (\<lambda>x. x\<lparr>rdata := q, rcapacity := ?nc\<rparr>) (set_heap g s))"
        "file_rep g q (nat (i_size (inode_at s i))) (unat ?nc)" "bytes_at g q (nat (i_size (inode_at s i))) = ramfs_data s i"
        "same_others (heap s) (rdata (ramfs_ri s i)) g q" by blast
    then show ?thesis
    proof cases
      case fail
      then show ?thesis using unfold True by simp
    next
      case grow
      define t where "t = upd_ri ?ri (\<lambda>x. x\<lparr>rdata := q, rcapacity := ?nc\<rparr>) (set_heap g s)"
      have t: "heap t = g" "inode_at t = inode_at s" "ramfs_ri t i = (ramfs_ri s i)\<lparr>rdata := q, rcapacity := ?nc\<rparr>"
        "ri_at t ?ri = ramfs_ri t i" "file_at t = file_at s" "dentry_at t = dentry_at s"
        by (simp_all add: t_def ramfs_ri_def kupd_defs) (simp_all add: set_heap_def heap_def)
      have rt: "file_rep (heap t) (rdata (ramfs_ri t i)) (nat (i_size (inode_at t i))) (unat (rcapacity (ramfs_ri t i)))"
        using grow(2) t by simp
      have st_le: "nat k + length bs \<le> unat (rcapacity (ramfs_ri t i))" using t(3) nc k(2) by simp
      note st = ramfs_store [OF rt _ k(2) st_le refl refl]
      have "ramfs_write f bs pos s = Some ((Inr (length bs), ?stop), ?fin t)"
        using True unfold grow(1) t(4) by (simp add: t_def [symmetric] Let_def)
      moreover have "file_at (?fin t) = file_at s" "dentry_at (?fin t) = dentry_at s" using t by (simp_all add: kupd_defs)
      moreover have "ramfs_data t i = ramfs_data s i" using grow(3) t by (simp add: ramfs_data_def)
      moreover have "same_others (heap s) (rdata (ramfs_ri s i)) (heap (?fin t)) (rdata (ramfs_ri (?fin t) i))"
        using same_others_trans [OF grow(4)] st(3) t(1-3) size by simp
      ultimately show ?thesis using st(1,2) t(2) size by auto
    qed
  qed
qed

lemma bytes_at_slice: "take m (drop k (bytes_at h p z)) = bytes_at h (p + of_nat k) (min m (z - k))"
  by (rule nth_equalityI) (auto simp: bytes_at_def algebra_simps)

lemma ramfs_read_spec:
  assumes "ramfs_file_ok s i" and "i = file_inode s f" and "0 \<le> pos"
    and "r = take (unat count) (drop (nat pos) (ramfs_data s i))"
  shows "ramfs_read f count pos s = Some ((Inr r, pos + int (length r)), s)"
proof -
  let ?sz = "i_size (inode_at s i)"
  let ?n = "if pos + uint count > ?sz then nat (?sz - pos) else unat count"
  let ?p = "rdata (ramfs_ri s i)"
  have unfold: "ramfs_read f count pos s = (if pos \<ge> ?sz then Some ((Inr [], pos), s)
      else if ?p = 0 then Some ((Inr [], pos), s) else Some ((Inr (bytes_at (heap s) (?p + of_int pos) ?n), pos + int ?n), s))"
    unfolding ramfs_read_def Let_def assms(2) file_inode_def ramfs_ri_def by (rule refl)
  have sz: "0 \<le> ?sz" and p0: "?p = 0 \<Longrightarrow> ?sz = 0"
    using assms(1) by (auto simp: ramfs_file_ok_def file_rep_def)
  show ?thesis
  proof (cases "pos \<ge> ?sz")
    case True
    then have "r = []" by (simp add: assms(4) ramfs_data_def bytes_at_def)
    then show ?thesis unfolding unfold if_P [OF True] by simp
  next
    case False
    have n: "?n = min (unat count) (nat ?sz - nat pos)"
    proof -
      have "(if pos + int m > ?sz then nat (?sz - pos) else m) = min m (nat ?sz - nat pos)" for m
        using False assms(3) by (auto simp: min_def)
      from this [of "unat count"] show ?thesis by simp
    qed
    have b: "bytes_at (heap s) (?p + of_int pos) ?n = r"
      unfolding n assms(4) ramfs_data_def bytes_at_slice using assms(3) by simp
    have l: "?n = length r" unfolding n by (simp add: assms(4) ramfs_data_def bytes_at_def min.commute)
    have "?p \<noteq> 0" using False assms(3) p0 by auto
    then show ?thesis unfolding unfold if_not_P [OF False] l by (simp add: b [unfolded l])
  qed
qed


text \<open>An empty file with the inode at \<open>0x5000\<close>, open as the file at \<open>0x6000\<close> for reading and writing.\<close>

definition ramfs_example :: kernel where
  "ramfs_example = upd_file 0x6000 (\<lambda>x. x\<lparr>f_dentry := 0x7000\<rparr>) (upd_dentry 0x7000 (\<lambda>x. x\<lparr>d_inode := 0x5000\<rparr>)
     (upd_inode 0x5000 (\<lambda>x. x\<lparr>i_private := 0x8000\<rparr>) (set_heap kheap_boot (kernel_boot (mm_example slab_boot 0 0)))))"

lemma ramfs_example_facts:
  "file_inode ramfs_example 0x6000 = 0x5000" "write_pos ramfs_example 0x6000 pos = pos" "heap ramfs_example = kheap_boot"
  "ramfs_ri ramfs_example 0x5000 = ri_zero" "i_size (inode_at ramfs_example 0x5000) = 0"
  by (simp_all add: ramfs_example_def file_inode_def write_pos_def ramfs_ri_def kernel_boot_def file_zero_def
      dentry_zero_def inode_zero_def kupd_defs set_heap_def heap_def)

lemma ramfs_example_ok: "ramfs_file_ok ramfs_example 0x5000" "ramfs_data ramfs_example 0x5000 = []"
  by (simp_all add: ramfs_file_ok_def ramfs_example_facts file_rep_def ri_zero_def kheap_boot_ok ramfs_data_def bytes_at_def)

lemma empty_file_grows: "ramfs_write f bs k s \<noteq> Some ((Inl ENOMEM, p), s)"
  if "0 < k + int (length bs)" "k + int (length bs) \<le> 4096" "heap s = kheap_boot" "ramfs_ri s (file_inode s f) = ri_zero"
    "write_pos s f k = k"
proof -
  have "find (fits kheap_boot (ALIGN_UP 4096 8)) [0xD0000000] = Some 0xD0000000"
    by (simp add: kheap_boot_def ALIGN_UP_def)
  from kmalloc_take [OF kheap_boot_inv _ _ this] obtain q g n where "kmalloc 4096 kheap_boot = Some (q, g)"
    "live g = {(unat q, n)}" "heap_ok g" by (auto simp: kheap_boot_live)
  note g = this
  then have "q \<noteq> 0" using live_bounds(1) [of g "unat q" n] by auto
  moreover have "unat (of_int (k + int (length bs)) :: u32) = nat (k + int (length bs))"
    using that by (intro unat_of_off) simp_all
  then have "(0 :: u32) < of_int (k + int (length bs))" using that by (simp add: word_less_nat_alt)
  moreover have "max (k + int (length bs)) 4096 = 4096" using that by simp
  ultimately show ?thesis
    unfolding ramfs_write_unfold [OF refl that(5) [symmetric]]
    using g that by (simp add: ri_zero_def ramfs_grow_def krealloc_def Let_def ramfs_ri_def [symmetric])
qed


text \<open>
  What \<^verbatim>\<open>ramfs_write\<close> wrote through one open file, \<^verbatim>\<open>ramfs_read\<close> returns through every open file of the
  same inode: the read at the position of the write gives exactly the bytes written and ends where the write ended.
\<close>

theorem ramfs_write_read:
  assumes "ramfs_file_ok s i" and "i = file_inode s f" and "i = file_inode s f'" and "k = write_pos s f pos" and "0 \<le> k"
    and "k + int (length bs) \<le> 0x4000000" and "2 * unat (rcapacity (ramfs_ri s i)) + 4096 \<le> 0x4000000"
    and "ramfs_write f bs pos s = Some ((Inr n, e), t)"
  shows "ramfs_read f' (of_nat n) k t = Some ((Inr bs, e), t)"
proof -
  from ramfs_write_spec [OF assms(1,2,4-7)] assms(8) have w: "n = length bs" "e = k + int (length bs)"
    "ramfs_file_ok t i" "ramfs_data t i = write_at (ramfs_data s i) (nat k) bs"
    "file_at t = file_at s" "dentry_at t = dentry_at s" by auto
  have f': "i = file_inode t f'" using w(5,6) assms(3) by (simp add: file_inode_def)
  have "unat (of_nat n :: u32) = length bs" using w(1) assms(5,6) by (simp add: unat_of_nat)
  then have "bs = take (unat (of_nat n :: u32)) (drop (nat k) (ramfs_data t i))"
    unfolding w(4) write_at_def by (simp add: min_def)
  from ramfs_read_spec [OF w(3) f' assms(5) this] show ?thesis using w(2) by simp
qed

theorem ramfs_write_read_witness:
  "\<exists>t. ramfs_write 0x6000 [7, 8] 0 ramfs_example = Some ((Inr 2, 2), t) \<and> ramfs_read 0x6000 2 0 t = Some ((Inr [7, 8], 2), t)"
proof -
  have "ramfs_write 0x6000 [7, 8] 0 ramfs_example \<noteq> Some ((Inl ENOMEM, 0), ramfs_example)"
    by (rule empty_file_grows) (simp_all add: ramfs_example_facts)
  with ramfs_write_spec [OF ramfs_example_ok(1) ramfs_example_facts(1,2) [symmetric], of 0 "[7, 8]"]
  obtain t where t: "ramfs_write 0x6000 [7, 8] 0 ramfs_example = Some ((Inr 2, 2), t)"
    by (auto simp: ramfs_example_facts ri_zero_def)
  have "ramfs_read 0x6000 (of_nat 2) 0 t = Some ((Inr [7, 8], 2), t)"
    by (rule ramfs_write_read [OF ramfs_example_ok(1) _ _ _ _ _ _ t])
      (simp_all add: ramfs_example_facts ri_zero_def)
  with t show ?thesis by simp
qed

text \<open>
  C39: Shrinking a file does not erase what it cut off.  Truncating to a smaller size and then back to the old
  one gives the old state back, so the bytes cut off are in the file again where zeros are to be read.
\<close>

theorem ramfs_truncate_keeps_bytes:
  assumes "ramfs_file_ok s i" and "i_size (inode_at s i) = z" and "0 < k" and "k < z" and "z < 2 ^ 32"
  shows "\<exists>t. ramfs_truncate i k s = Some (None, t) \<and> ramfs_data t i = take (nat k) (ramfs_data s i) \<and>
    ramfs_truncate i z t = Some (None, s)"
proof -
  let ?t = "upd_inode i (\<lambda>x. x\<lparr>i_size := k\<rparr>) s"
  have "nat z \<le> unat (rcapacity (ramfs_ri s i))" using assms(1,2) by (auto simp: ramfs_file_ok_def file_rep_def)
  moreover have "unat (of_int k :: u32) = nat k" "unat (of_int z :: u32) = nat z"
    using assms by (intro unat_of_off; simp)+
  ultimately have le: "\<not> (of_int k :: u32) > rcapacity (ramfs_ri s i)" "\<not> (of_int z :: u32) > rcapacity (ramfs_ri s i)"
    using assms(4) by (auto simp: word_less_nat_alt)
  have "ramfs_truncate i k s = Some (None, ?t)"
    using le(1) assms(3) by (simp add: ramfs_truncate_def ramfs_ri_def)
  moreover have "ramfs_truncate i z ?t = Some (None, upd_inode i (\<lambda>x. x\<lparr>i_size := z\<rparr>) ?t)"
    using le(2) assms(3,4) by (simp add: ramfs_truncate_def ramfs_ri_def kupd_defs)
  moreover have "upd_inode i (\<lambda>x. x\<lparr>i_size := z\<rparr>) ?t = s" using assms(2) by (simp add: kupd_defs fun_upd_idem)
  moreover have "ramfs_data ?t i = take (nat k) (ramfs_data s i)"
    using bytes_at_slice [of "nat k" 0 "heap s" "rdata (ramfs_ri s i)" "nat z"] assms(2-4)
    by (simp add: ramfs_data_def ramfs_ri_def kupd_defs min_def heap_def)
  ultimately show ?thesis by simp
qed

theorem ramfs_truncate_keeps_bytes_witness:
  "\<exists>s t. ramfs_data s 0x5000 = [7, 8] \<and> ramfs_truncate 0x5000 1 s = Some (None, t) \<and> ramfs_data t 0x5000 = [7] \<and>
     ramfs_truncate 0x5000 2 t = Some (None, s)"
proof -
  have "ramfs_write 0x6000 [7, 8] 0 ramfs_example \<noteq> Some ((Inl ENOMEM, 0), ramfs_example)"
    by (rule empty_file_grows) (simp_all add: ramfs_example_facts)
  with ramfs_write_spec [OF ramfs_example_ok(1) ramfs_example_facts(1,2) [symmetric], of 0 "[7, 8]"]
  obtain s where s: "ramfs_file_ok s 0x5000" "ramfs_data s 0x5000 = [7, 8]"
    by (auto simp: ramfs_example_facts ramfs_example_ok ri_zero_def write_at_def)
  from s(2) have "length (ramfs_data s 0x5000) = 2" by simp
  then have "i_size (inode_at s 0x5000) = 2" by (simp add: ramfs_data_def bytes_at_def)
  from ramfs_truncate_keeps_bytes [OF s(1) this, of 1] s(2) show ?thesis by auto
qed

end
