(* ===== verification/Elf.thy ===== *)
theory Elf
  imports Process Ramfs
begin

text \<open>
  Loading a program, after \<^verbatim>\<open>kernel/elf.c\<close>: the headers of a 32-bit ELF file, the mapping and filling of its
  segments, the user stack with arguments, environment and auxiliary vector, and the exchange of the address
  space of the current task.  The jump to user mode is the result: entry point and stack pointer.
\<close>

section \<open>Headers\<close>

definition ELF_MAGIC :: u32 where "ELF_MAGIC = 0x464C457F"
definition ET_EXEC :: u16 where "ET_EXEC = 2"
definition EM_386 :: u16 where "EM_386 = 3"
definition PT_LOAD :: u32 where "PT_LOAD = 1"
definition PF_X :: u32 where "PF_X = 1"
definition PF_W :: u32 where "PF_W = 2"
definition AT_NULL :: u32 where "AT_NULL = 0"
definition AT_PHDR :: u32 where "AT_PHDR = 3"
definition AT_PHENT :: u32 where "AT_PHENT = 4"
definition AT_PHNUM :: u32 where "AT_PHNUM = 5"
definition AT_PAGESZ :: u32 where "AT_PAGESZ = 6"
definition AT_ENTRY :: u32 where "AT_ENTRY = 9"
definition AT_UID :: u32 where "AT_UID = 11"
definition AT_EUID :: u32 where "AT_EUID = 12"
definition AT_GID :: u32 where "AT_GID = 13"
definition AT_EGID :: u32 where "AT_EGID = 14"
definition USER_STACK_SIZE :: u32 where "USER_STACK_SIZE = 0x800000"

text \<open>The fields of the two headers that the loader reads.\<close>

record elf32_ehdr =
  e_magic :: u32
  e_class :: u8
  e_type :: u16
  e_machine :: u16
  e_entry :: u32
  e_phoff :: u32
  e_phentsize :: u16
  e_phnum :: u16

record elf32_phdr =
  p_type :: u32
  p_offset :: u32
  p_vaddr :: u32
  p_filesz :: u32
  p_memsz :: u32
  p_flags :: u32

definition sizeof_ehdr :: nat where "sizeof_ehdr = 52"
definition sizeof_phdr :: nat where "sizeof_phdr = 32"

text \<open>Little-endian fields of a packed structure at their offsets.\<close>

definition le16 :: "u8 list \<Rightarrow> nat \<Rightarrow> u16" where
  "le16 bs i = ucast (bs ! i) OR push_bit 8 (ucast (bs ! (i + 1)))"

definition le32 :: "u8 list \<Rightarrow> nat \<Rightarrow> u32" where
  "le32 bs i = ucast (le16 bs i) OR push_bit 16 (ucast (le16 bs (i + 2)))"

definition ehdr_of :: "u8 list \<Rightarrow> elf32_ehdr" where
  "ehdr_of bs = \<lparr>e_magic = le32 bs 0, e_class = bs ! 4, e_type = le16 bs 16, e_machine = le16 bs 18,
     e_entry = le32 bs 24, e_phoff = le32 bs 28, e_phentsize = le16 bs 42, e_phnum = le16 bs 44\<rparr>"

definition phdr_of :: "u8 list \<Rightarrow> elf32_phdr" where
  "phdr_of bs = \<lparr>p_type = le32 bs 0, p_offset = le32 bs 4, p_vaddr = le32 bs 8, p_filesz = le32 bs 16,
     p_memsz = le32 bs 20, p_flags = le32 bs 24\<rparr>"

definition phdrs_of :: "nat \<Rightarrow> u8 list \<Rightarrow> elf32_phdr list" where
  "phdrs_of n bs = map (\<lambda>i. phdr_of (drop (sizeof_phdr * i) bs)) [0..<n]"

definition elf_ok :: "elf32_ehdr \<Rightarrow> bool" where
  "elf_ok e \<longleftrightarrow> \<not> (e_magic e \<noteq> ELF_MAGIC \<or> e_class e \<noteq> 1 \<or> e_type e \<noteq> ET_EXEC \<or> e_machine e \<noteq> EM_386)"

section \<open>Bytes of physical memory\<close>

text \<open>A byte of a 32-bit word; the word of an address is at the address rounded down to 4.\<close>

definition set_byte :: "nat \<Rightarrow> u8 \<Rightarrow> u32 \<Rightarrow> u32" where
  "set_byte k b w = (w AND NOT (push_bit (8 * k) 0xFF)) OR push_bit (8 * k) (ucast b)"

definition phys_byte :: "vmm \<Rightarrow> uptr \<Rightarrow> u8" where
  "phys_byte v a = ucast (drop_bit (8 * unat (a AND 3)) (mem v (a AND NOT 3)))"

definition put_phys_byte :: "uptr \<Rightarrow> u8 \<Rightarrow> vmm \<Rightarrow> vmm" where
  "put_phys_byte a b v = mem_write (a AND NOT 3) (set_byte (unat (a AND 3)) b (mem v (a AND NOT 3))) v"

fun put_phys :: "uptr \<Rightarrow> u8 list \<Rightarrow> vmm \<Rightarrow> vmm" where
  "put_phys a [] v = v"
| "put_phys a (b # bs) v = put_phys (a + 1) bs (put_phys_byte a b v)"

section \<open>Segments\<close>

text \<open>The result of \<^verbatim>\<open>map_page\<close> is not looked at; \<open>False\<close> when memory runs out.\<close>

fun load_pages :: "uptr \<Rightarrow> u32 \<Rightarrow> uptr list \<Rightarrow> vmm \<Rightarrow> bool \<times> vmm" where
  "load_pages pd flags [] v = (True, v)"
| "load_pages pd flags (p # ps) v =
     (case pmm_alloc_zero v of
        (phys, v) \<Rightarrow> if phys = 0 then (False, v) else load_pages pd flags ps (snd (map_page pd p phys flags v)))"

definition seg_flags :: "elf32_phdr \<Rightarrow> u32" where
  "seg_flags ph = VM_USER OR VM_READ OR (if p_flags ph AND PF_W \<noteq> 0 then VM_WRITE else 0)
     OR (if p_flags ph AND PF_X \<noteq> 0 then VM_EXEC else 0)"

definition seg_start :: "elf32_phdr \<Rightarrow> uptr" where
  "seg_start ph = ALIGN_DOWN (p_vaddr ph) PAGE_SIZE"

definition seg_end :: "elf32_phdr \<Rightarrow> uptr" where
  "seg_end ph = ALIGN_UP (p_vaddr ph + p_memsz ph) PAGE_SIZE"

definition seg_pages :: "elf32_phdr \<Rightarrow> uptr list" where
  "seg_pages ph = map (\<lambda>p. seg_start ph + of_nat p * PAGE_SIZE) [0..<unat ((seg_end ph - seg_start ph) div PAGE_SIZE)]"

text \<open>\<^verbatim>\<open>f->f_ops->read\<close>; a null table or a null entry is an access through a null pointer.\<close>

definition raw_read :: "vfs_ops \<Rightarrow> uptr \<Rightarrow> u32 \<Rightarrow> off_t \<Rightarrow> ((errno + u8 list) \<times> off_t) kfun" where
  "raw_read ops f n pos s = do { rd \<leftarrow> op_read (fops_of ops f s); rd f n pos s }"

text \<open>The copy loop: what the read returns goes to the physical page, an error leaves it as it is.\<close>

partial_function (option) seg_copy :: "vfs_ops \<Rightarrow> uptr \<Rightarrow> uptr \<Rightarrow> u32 \<Rightarrow> uptr \<Rightarrow> off_t \<Rightarrow> kernel \<Rightarrow> kernel option" where
  "seg_copy ops f pd to_read dst src s =
     (if to_read > 0
      then do {
        let pa = virt_to_phys_pd pd dst (vm (kmm s));
        let kva = (pa AND PAGE_MASK) + (dst AND (PAGE_SIZE - 1));
        let chunk = min to_read (PAGE_SIZE - (dst AND (PAGE_SIZE - 1)));
        ((r, p), s) \<leftarrow> raw_read ops f chunk src s;
        let s = (case r of Inl e \<Rightarrow> s | Inr bs \<Rightarrow> set_vm (put_phys kva bs (vm (kmm s))) s);
        seg_copy ops f pd (to_read - chunk) (dst + chunk) (src + int (unat chunk)) s
      }
      else Some s)"

definition load_segment :: "vfs_ops \<Rightarrow> uptr \<Rightarrow> uptr \<Rightarrow> elf32_phdr \<Rightarrow> bool kfun" where
  "load_segment ops f pd ph s =
     (case load_pages pd (seg_flags ph) (seg_pages ph) (vm (kmm s)) of
        (ok, v) \<Rightarrow>
          let s = set_vm v s
          in if \<not> ok then Some (False, s)
             else if p_filesz ph > 0
             then do { s \<leftarrow> seg_copy ops f pd (p_filesz ph) (p_vaddr ph) (int (unat (p_offset ph))) s; Some (True, s) }
             else Some (True, s))"

text \<open>The loop over the program headers; the result has \<^verbatim>\<open>load_base\<close> and \<^verbatim>\<open>load_end\<close>, \<open>None\<close> when memory runs out.\<close>

fun load_segments :: "vfs_ops \<Rightarrow> uptr \<Rightarrow> uptr \<Rightarrow> elf32_phdr list \<Rightarrow> uptr \<times> uptr \<Rightarrow> (uptr \<times> uptr) option kfun" where
  "load_segments ops f pd [] be s = Some (Some be, s)"
| "load_segments ops f pd (ph # phs) be s =
     (if p_type ph \<noteq> PT_LOAD \<or> p_memsz ph = 0 then load_segments ops f pd phs be s
      else do {
        (ok, s) \<leftarrow> load_segment ops f pd ph s;
        if \<not> ok then Some (None, s)
        else load_segments ops f pd phs
               (if fst be = 0 \<or> seg_start ph < fst be then seg_start ph else fst be,
                if seg_end ph > snd be then seg_end ph else snd be) s
      })"

section \<open>The user stack\<close>

definition stack_flags :: u32 where
  "stack_flags = VM_READ OR VM_WRITE OR VM_USER"

definition stack_pages :: "uptr list" where
  "stack_pages = map (\<lambda>i. USER_STACK_TOP - USER_STACK_SIZE + of_nat i * PAGE_SIZE) [0..<unat (USER_STACK_SIZE div PAGE_SIZE)]"

text \<open>Mapping the page of a stack address if it is not mapped; the results of the two calls are not looked at.\<close>

definition ensure_page :: "uptr \<Rightarrow> uptr \<Rightarrow> vmm \<Rightarrow> vmm" where
  "ensure_page pd sp v =
     (let page_start = ALIGN_DOWN sp PAGE_SIZE
      in if virt_to_phys_pd pd page_start v = 0
         then case pmm_alloc_zero v of (phys, v) \<Rightarrow> snd (map_page pd page_start phys stack_flags v)
         else v)"

text \<open>Writing bytes at a user address: to the physical addresses from that of the first one on.\<close>

definition put_user :: "uptr \<Rightarrow> uptr \<Rightarrow> u8 list \<Rightarrow> vmm \<Rightarrow> vmm" where
  "put_user pd sp bs v = (let v = ensure_page pd sp v in put_phys (virt_to_phys_pd pd sp v) bs v)"

definition c_string :: "string \<Rightarrow> u8 list" where
  "c_string str = map of_char str @ [0]"

text \<open>The loop over the strings, last one first; the addresses come out in the order of the strings.\<close>

fun push_each :: "uptr \<Rightarrow> string list \<Rightarrow> uptr \<Rightarrow> vmm \<Rightarrow> uptr list \<times> uptr \<times> vmm" where
  "push_each pd [] sp v = ([], sp, v)"
| "push_each pd (str # strs) sp v =
     (case push_each pd strs sp v of
        (ptrs, sp, v) \<Rightarrow> let sp = sp - of_nat (length str + 1) in (sp # ptrs, sp, put_user pd sp (c_string str) v))"

text \<open>\<^verbatim>\<open>push_strings\<close>: the new stack pointer, 0 when the heap is exhausted; a null array has no strings.\<close>

definition push_strings :: "uptr \<Rightarrow> uptr \<Rightarrow> string list option \<Rightarrow> uptr kfun" where
  "push_strings pd sp strs s =
     do {
       let strs = (case strs of None \<Rightarrow> [] | Some xs \<Rightarrow> xs);
       let bytes = (of_nat (length strs) + 1) * sizeof_ptr;
       (a, s) \<leftarrow> kern_malloc bytes s;
       if a = 0 then Some (0, s)
       else case push_each pd strs sp (vm (kmm s)) of
         (ptrs, sp, v) \<Rightarrow>
           let table = concat (map word_bytes (ptrs @ [0]));
               sp = ALIGN_DOWN sp 4 - bytes;
               s = set_heap (put_bytes a table (heap s)) (set_vm (put_user pd sp table v) s)
           in Some (sp, kern_free a s)
     }"

definition stack_push32 :: "uptr \<Rightarrow> u32 \<Rightarrow> uptr \<times> vmm \<Rightarrow> uptr \<times> vmm" where
  "stack_push32 pd x st =
     (case st of (sp, v) \<Rightarrow> let sp = sp - 4; v = ensure_page pd sp v in (sp, mem_write (virt_to_phys_pd pd sp v) x v))"

definition auxv_of :: "elf32_ehdr \<Rightarrow> uptr \<Rightarrow> task_struct \<Rightarrow> (u32 \<times> u32) list" where
  "auxv_of e load_base t =
     [(AT_PAGESZ, PAGE_SIZE), (AT_PHDR, load_base + e_phoff e), (AT_PHENT, ucast (e_phentsize e)),
      (AT_PHNUM, ucast (e_phnum e)), (AT_ENTRY, e_entry e), (AT_UID, uid t), (AT_EUID, euid t), (AT_GID, gid t),
      (AT_EGID, egid t), (AT_NULL, 0)]"

definition push_auxv :: "uptr \<Rightarrow> (u32 \<times> u32) list \<Rightarrow> uptr \<times> vmm \<Rightarrow> uptr \<times> vmm" where
  "push_auxv pd auxv st = foldr (\<lambda>(k, x). stack_push32 pd k \<circ> stack_push32 pd x) auxv st"

section \<open>Exec\<close>

text \<open>\<^verbatim>\<open>ENOEXEC\<close> is used by the loader but defined in no header.\<close>

datatype exec_error = Errno errno | ENOEXEC

definition exec_fail :: "vfs_ops \<Rightarrow> uptr \<Rightarrow> uptr \<Rightarrow> uptr \<Rightarrow> exec_error \<Rightarrow> (exec_error + uptr \<times> uptr) kfun" where
  "exec_fail ops m phdrs f e s =
     do {
       s \<leftarrow> (if m \<noteq> 0 then kern_mm_destroy m s else Some s);
       s \<leftarrow> vfs_close ops f (if phdrs \<noteq> 0 then kern_free phdrs s else s);
       Some (Inl e, s)
     }"

definition cloexec_set :: "uptr \<Rightarrow> nat \<Rightarrow> kernel \<Rightarrow> bool" where
  "cloexec_set fs i s = bit (close_on_exec (files_at s fs) ! (i div 32)) (i mod 32)"

fun close_cloexec :: "vfs_ops \<Rightarrow> uptr \<Rightarrow> nat list \<Rightarrow> kernel \<Rightarrow> kernel option" where
  "close_cloexec ops fs [] s = Some s"
| "close_cloexec ops fs (i # is) s =
     do {
       a \<leftarrow> fd_table fs s;
       s \<leftarrow> (if fd_at s a ! i \<noteq> 0 \<and> cloexec_set fs i s then files_free_fd ops fs (int i) s else Some s);
       close_cloexec ops fs is s
     }"

definition exec_name :: "string \<Rightarrow> string" where
  "exec_name path = take (TASK_NAME_LEN - 1) (case split_last_slash path of None \<Rightarrow> path | Some (_, n) \<Rightarrow> n)"

text \<open>Steps 1 and 2 of \<^verbatim>\<open>sys_exec\<close>: the open file, its header, the address and contents of the program headers.\<close>

definition exec_open :: "vfs_ops \<Rightarrow> string \<Rightarrow> (exec_error + uptr \<times> elf32_ehdr \<times> uptr \<times> elf32_phdr list) kfun" where
  "exec_open ops path s =
     do {
       (f, s) \<leftarrow> vfs_open ops path O_RDONLY 0 s;
       if f = 0 then Some (Inl (Errno ENOENT), s)
       else do {
         ((r, p), s) \<leftarrow> raw_read ops f (of_nat sizeof_ehdr) 0 s;
         (case r of
            Inl e \<Rightarrow> do { s \<leftarrow> vfs_close ops f s; Some (Inl ENOEXEC, s) }
          | Inr hb \<Rightarrow>
              if length hb \<noteq> sizeof_ehdr \<or> \<not> elf_ok (ehdr_of hb) then do { s \<leftarrow> vfs_close ops f s; Some (Inl ENOEXEC, s) }
              else do {
                let e = ehdr_of hb;
                let n = ucast (e_phnum e) * of_nat sizeof_phdr;
                (ph, s) \<leftarrow> kern_malloc n s;
                if ph = 0 then do { s \<leftarrow> vfs_close ops f s; Some (Inl (Errno ENOMEM), s) }
                else do {
                  ((r, p), s) \<leftarrow> raw_read ops f n (int (unat (e_phoff e))) s;
                  (case r of
                     Inl x \<Rightarrow> do { s \<leftarrow> vfs_close ops f (kern_free ph s); Some (Inl ENOEXEC, s) }
                   | Inr pb \<Rightarrow>
                       let s = set_heap (put_bytes ph pb (heap s)) s
                       in if length pb \<noteq> unat n then do { s \<leftarrow> vfs_close ops f (kern_free ph s); Some (Inl ENOEXEC, s) }
                          else Some (Inr (f, e, ph, phdrs_of (unat (e_phnum e)) pb), s))
                }
              })
       }
     }"

text \<open>Steps 3 to 6: the new address space with its segments and stack.  \<open>Inl\<close> carries the address space to destroy.\<close>

definition exec_build :: "vfs_ops \<Rightarrow> uptr \<Rightarrow> elf32_ehdr \<Rightarrow> elf32_phdr list \<Rightarrow> string list option \<Rightarrow> string list option \<Rightarrow>
    (uptr + uptr \<times> uptr) kfun" where
  "exec_build ops f e phs argv envp s =
     do {
       (m, s) \<leftarrow> kern_mm_create s;
       if m = 0 then Some (Inl 0, s)
       else do {
         let pd = pgdir (mm_at (kmm s) m);
         (be, s) \<leftarrow> load_segments ops f pd phs (0, 0) s;
         (case be of
            None \<Rightarrow> Some (Inl m, s)
          | Some (load_base, load_end) \<Rightarrow>
              let b = ALIGN_UP load_end PAGE_SIZE;
                  s = s\<lparr>kmm := upd_mm m (\<lambda>x. x\<lparr>start_brk := b, brk := b\<rparr>) (kmm s)\<rparr>
              in case load_pages pd stack_flags stack_pages (vm (kmm s)) of
                (ok, v) \<Rightarrow>
                  let s = set_vm v s
                  in if \<not> ok then Some (Inl m, s)
                     else do {
                       let s = s\<lparr>kmm := upd_mm m (\<lambda>x. x\<lparr>start_stack := USER_STACK_TOP\<rparr>) (kmm s)\<rparr>;
                       (sp, s) \<leftarrow> push_strings pd USER_STACK_TOP envp s;
                       if sp = 0 then Some (Inl m, s)
                       else do {
                         (sp, s) \<leftarrow> push_strings pd sp argv s;
                         if sp = 0 then Some (Inl m, s)
                         else let argc = (case argv of None \<Rightarrow> 0 | Some xs \<Rightarrow> of_nat (length xs));
                                  st = push_auxv pd (auxv_of e load_base (task_at s (current s))) (ALIGN_DOWN sp 16, vm (kmm s));
                                  (sp, v) = stack_push32 pd argc st
                              in Some (Inr (m, sp), set_vm v s)
                       }
                     })
       }
     }"

text \<open>Steps 7 and 8: the old address space goes, the new one becomes that of the task.\<close>

definition exec_commit :: "vfs_ops \<Rightarrow> string \<Rightarrow> uptr \<Rightarrow> uptr \<Rightarrow> uptr \<Rightarrow> kernel \<Rightarrow> kernel option" where
  "exec_commit ops path m phdrs f s =
     do {
       let c = current s;
       s \<leftarrow> (if tmm (task_at s c) \<noteq> 0 then kern_mm_destroy (tmm (task_at s c)) s else Some s);
       let s = upd_task c (\<lambda>x. x\<lparr>tmm := m, tname := exec_name path\<rparr>) s;
       s \<leftarrow> (if tfiles (task_at s c) \<noteq> 0 then close_cloexec ops (tfiles (task_at s c)) [0..<OPEN_MAX] s else Some s);
       s \<leftarrow> vfs_close ops f (kern_free phdrs s);
       let s = set_vm (paging_switch (pgdir (mm_at (kmm s) m)) (vm (kmm s))) s;
       Some (s\<lparr>kcpu := tss_set_kernel_stack (kernel_stack (task_at s c)) (kcpu s)\<rparr>)
     }"

definition sys_exec :: "vfs_ops \<Rightarrow> string \<Rightarrow> string list option \<Rightarrow> string list option \<Rightarrow> (exec_error + uptr \<times> uptr) kfun" where
  "sys_exec ops path argv envp s =
     do {
       (r, s) \<leftarrow> exec_open ops path s;
       (case r of
          Inl e \<Rightarrow> Some (Inl e, s)
        | Inr (f, e, phdrs, phs) \<Rightarrow>
            do {
              (r, s) \<leftarrow> exec_build ops f e phs argv envp s;
              (case r of
                 Inl m \<Rightarrow> exec_fail ops m phdrs f (Errno ENOMEM) s
               | Inr (m, sp) \<Rightarrow> do { s \<leftarrow> exec_commit ops path m phdrs f s; Some (Inr (e_entry e, sp), s) })
            })
     }"

end
