(* ===== verification/Timer.thy ===== *)
theory Timer
  imports Sched
begin

text \<open>
  The timer of \<^verbatim>\<open>drivers/timer.c\<close>: its interrupt counts ticks and seconds and drives the scheduler.  A
  delay polls the tick counter; the values it reads are a parameter.
\<close>

definition PIT_CH0 :: u16 where "PIT_CH0 = 0x40"
definition PIT_CMD :: u16 where "PIT_CMD = 0x43"
definition PIT_HZ :: u32 where "PIT_HZ = 1193182"
definition IRQ_TIMER :: int where "IRQ_TIMER = 0"

definition timer_irq :: "kernel \<Rightarrow> sched_result option \<times> kernel" where
  "timer_irq s =
     (let s = s\<lparr>jiffies := jiffies s + 1\<rparr>;
          s = (if jiffies s mod 100 = 0 then s\<lparr>uptime_s := uptime_s s + 1\<rparr> else s)
      in sched_tick s)"

text \<open>\<open>h\<close> is the handler's number in the table of interrupt handlers; a division by zero does not return.\<close>

definition timer_init :: "port_reader \<Rightarrow> nat \<Rightarrow> u32 \<Rightarrow> kernel \<Rightarrow> kernel option" where
  "timer_init inb h hz s =
     (if hz = 0 then None
      else let divisor = PIT_HZ div hz;
               c = cpu_outb PIT_CMD 0x36 (kcpu s);
               c = cpu_outb PIT_CH0 (ucast (divisor AND 0xFF)) c;
               c = cpu_outb PIT_CH0 (ucast (drop_bit 8 divisor AND 0xFF)) c
           in Some (s\<lparr>kcpu := irq_register inb IRQ_TIMER h c\<rparr>))"

definition timer_get_ms :: "kernel \<Rightarrow> u64" where
  "timer_get_ms s = jiffies s * 10"

text \<open>\<open>now i\<close> is the value of \<^verbatim>\<open>jiffies\<close> at its \<open>i\<close>-th reading; the result is the number of readings.\<close>

partial_function (option) udelay_loop :: "(nat \<Rightarrow> u64) \<Rightarrow> u64 \<Rightarrow> nat \<Rightarrow> nat option" where
  "udelay_loop now end i = (if now i < end then udelay_loop now end (Suc i) else Some i)"

definition udelay :: "(nat \<Rightarrow> u64) \<Rightarrow> u32 \<Rightarrow> nat option" where
  "udelay now us = udelay_loop now (now 0 + ucast (us div 10000) + 1) 1"

definition mdelay :: "(nat \<Rightarrow> u64) \<Rightarrow> u32 \<Rightarrow> nat option" where
  "mdelay now ms = udelay now (ms * 1000)"

section \<open>Ticks\<close>

lemma schedule_clock: "jiffies (snd (schedule s)) = jiffies s" "uptime_s (snd (schedule s)) = uptime_s s"
  by (simp_all add: schedule_def Let_def set_lists_def upd_task_def)

lemma sched_tick_clock: "jiffies (snd (sched_tick s)) = jiffies s" "uptime_s (snd (sched_tick s)) = uptime_s s"
proof -
  have "jiffies (upd_task t f s) = jiffies s \<and> uptime_s (upd_task t f s) = uptime_s s" for t f s
    by (simp add: upd_task_def)
  then show "jiffies (snd (sched_tick s)) = jiffies s" "uptime_s (snd (sched_tick s)) = uptime_s s"
    by (simp_all add: sched_tick_def Let_def schedule_clock split_beta)
qed

text \<open>
  After \<open>n\<close> timer interrupts since boot the tick counter is \<open>n\<close> and the seconds counter \<open>n div 100\<close>, whatever
  the scheduler did at each tick, for every \<open>n\<close> that fits the counters.
\<close>

theorem timer_counts:
  assumes "jiffies s = 0" and "uptime_s s = 0" and "n < 18446744073709551616"
  shows "unat (jiffies (((snd \<circ> timer_irq) ^^ n) s)) = n \<and> unat (uptime_s (((snd \<circ> timer_irq) ^^ n) s)) = n div 100"
  using assms(3)
proof (induction n)
  case 0
  then show ?case by (simp add: assms)
next
  case (Suc n)
  define t where "t = ((snd \<circ> timer_irq) ^^ n) s"
  note IH = Suc.IH [OF Suc_lessD [OF Suc.prems], folded t_def]
  note j = conjunct1 [OF IH] and u = conjunct2 [OF IH]
  have j1: "unat (jiffies t + 1) = Suc n" using Suc.prems j by (subst unat_add_nowrap) auto
  have u1: "unat (uptime_s t + 1) = Suc (n div 100)" using Suc.prems u by (subst unat_add_nowrap) auto
  have "unat ((jiffies t + 1) mod 100) = Suc n mod 100" by (simp only: unat_mod_distrib j1) simp
  then have z: "(jiffies t + 1) mod 100 = 0 \<longleftrightarrow> Suc n mod 100 = 0" by (metis unat_eq_0)
  have "jiffies (snd (timer_irq t)) = jiffies t + 1"
    and "uptime_s (snd (timer_irq t)) = (if (jiffies t + 1) mod 100 = 0 then uptime_s t + 1 else uptime_s t)"
    by (simp_all add: timer_irq_def Let_def sched_tick_clock)
  moreover have "((snd \<circ> timer_irq) ^^ Suc n) s = snd (timer_irq t)" by (simp add: t_def)
  ultimately show ?case using z j1 u1 u by (simp only:) (simp add: div_Suc)
qed

theorem timer_counts_witness:
  "unat (uptime_s (((snd \<circ> timer_irq) ^^ 360000) sched_example)) = 3600"
  using timer_counts [of sched_example 360000]
  by (simp add: sched_example_def sched_add_def set_lists_def upd_task_def kernel_boot_def)

end
