(* ===== verification/Syscall.thy ===== *)
theory Syscall
  imports Elf Timer "HOL-Library.Signed_Division"
begin

text \<open>
  The system calls, after \<^verbatim>\<open>kernel/syscall.c\<close>.  What the caller's memory holds is a parameter, read through the
  types the handler gives to its pointers; what the handler writes there is part of the result.  A buffer on the
  kernel stack that a failed copy leaves unset holds what was there before, also a parameter.
\<close>

section \<open>Numbers and constants\<close>

text \<open>The calls of each group of cases and their numbers in \<^verbatim>\<open>eax\<close>.\<close>

datatype process_no =
    SYS_exit | SYS_exit_group | SYS_fork | SYS_clone | SYS_execve | SYS_waitpid | SYS_getpid | SYS_getppid
    | SYS_gettid | SYS_set_tid_address | SYS_getpgrp | SYS_setsid | SYS_setpgid | SYS_kill | SYS_tgkill
    | SYS_sigaction | SYS_sigreturn

primrec pnr :: "process_no \<Rightarrow> u32" where
  "pnr SYS_exit = 1"
| "pnr SYS_exit_group = 252"
| "pnr SYS_fork = 2"
| "pnr SYS_clone = 120"
| "pnr SYS_execve = 11"
| "pnr SYS_waitpid = 7"
| "pnr SYS_getpid = 20"
| "pnr SYS_getppid = 64"
| "pnr SYS_gettid = 224"
| "pnr SYS_set_tid_address = 258"
| "pnr SYS_getpgrp = 65"
| "pnr SYS_setsid = 66"
| "pnr SYS_setpgid = 57"
| "pnr SYS_kill = 37"
| "pnr SYS_tgkill = 270"
| "pnr SYS_sigaction = 67"
| "pnr SYS_sigreturn = 119"

datatype credential_no =
    SYS_getuid | SYS_geteuid | SYS_getgid | SYS_getegid | SYS_setuid | SYS_setgid | SYS_setreuid | SYS_setregid
    | SYS_umask

primrec cnr :: "credential_no \<Rightarrow> u32" where
  "cnr SYS_getuid = 24"
| "cnr SYS_geteuid = 49"
| "cnr SYS_getgid = 47"
| "cnr SYS_getegid = 50"
| "cnr SYS_setuid = 23"
| "cnr SYS_setgid = 46"
| "cnr SYS_setreuid = 70"
| "cnr SYS_setregid = 71"
| "cnr SYS_umask = 60"

datatype descriptor_no =
    SYS_close | SYS_read | SYS_write | SYS_lseek | SYS_dup | SYS_dup2 | SYS_pipe | SYS_ioctl | SYS_fcntl | SYS_fstat
    | SYS_fchmod | SYS_fchown | SYS_ftruncate | SYS_getdents | SYS_getdents64

primrec dnr :: "descriptor_no \<Rightarrow> u32" where
  "dnr SYS_close = 6"
| "dnr SYS_read = 3"
| "dnr SYS_write = 4"
| "dnr SYS_lseek = 19"
| "dnr SYS_dup = 41"
| "dnr SYS_dup2 = 63"
| "dnr SYS_pipe = 42"
| "dnr SYS_ioctl = 54"
| "dnr SYS_fcntl = 55"
| "dnr SYS_fstat = 108"
| "dnr SYS_fchmod = 94"
| "dnr SYS_fchown = 95"
| "dnr SYS_ftruncate = 93"
| "dnr SYS_getdents = 141"
| "dnr SYS_getdents64 = 220"

datatype path_no =
    SYS_open | SYS_openat | SYS_creat | SYS_stat | SYS_lstat | SYS_mkdir | SYS_rmdir | SYS_unlink | SYS_link
    | SYS_rename | SYS_symlink | SYS_readlink | SYS_chmod | SYS_chown | SYS_lchown | SYS_truncate | SYS_chdir
    | SYS_getcwd | SYS_mknod | SYS_mount | SYS_umount

primrec fnr :: "path_no \<Rightarrow> u32" where
  "fnr SYS_open = 5"
| "fnr SYS_openat = 295"
| "fnr SYS_creat = 8"
| "fnr SYS_stat = 106"
| "fnr SYS_lstat = 107"
| "fnr SYS_mkdir = 39"
| "fnr SYS_rmdir = 40"
| "fnr SYS_unlink = 10"
| "fnr SYS_link = 9"
| "fnr SYS_rename = 38"
| "fnr SYS_symlink = 83"
| "fnr SYS_readlink = 85"
| "fnr SYS_chmod = 15"
| "fnr SYS_chown = 182"
| "fnr SYS_lchown = 16"
| "fnr SYS_truncate = 92"
| "fnr SYS_chdir = 12"
| "fnr SYS_getcwd = 183"
| "fnr SYS_mknod = 14"
| "fnr SYS_mount = 21"
| "fnr SYS_umount = 22"

datatype memory_no =
    SYS_brk | SYS_mmap | SYS_munmap | SYS_mprotect

primrec mnr :: "memory_no \<Rightarrow> u32" where
  "mnr SYS_brk = 45"
| "mnr SYS_mmap = 90"
| "mnr SYS_munmap = 91"
| "mnr SYS_mprotect = 125"

datatype time_no =
    SYS_time | SYS_nanosleep | SYS_clock_gettime | SYS_times | SYS_uname

primrec tnr :: "time_no \<Rightarrow> u32" where
  "tnr SYS_time = 13"
| "tnr SYS_nanosleep = 162"
| "tnr SYS_clock_gettime = 265"
| "tnr SYS_times = 43"
| "tnr SYS_uname = 122"

definition F_DUPFD :: u32 where "F_DUPFD = 0"
definition F_GETFD :: u32 where "F_GETFD = 1"
definition F_SETFD :: u32 where "F_SETFD = 2"
definition F_GETFL :: u32 where "F_GETFL = 3"
definition F_SETFL :: u32 where "F_SETFL = 4"
definition FD_CLOEXEC :: u32 where "FD_CLOEXEC = 1"
definition PROT_READ :: u32 where "PROT_READ = 1"
definition PROT_WRITE :: u32 where "PROT_WRITE = 2"
definition PROT_EXEC :: u32 where "PROT_EXEC = 4"

section \<open>The caller's memory\<close>

record mmap_args =
  ma_addr :: u32
  ma_len :: u32
  ma_prot :: u32

record timespec =
  tv_sec :: int
  tv_nsec :: int

record utsname =
  sysname :: string
  nodename :: string
  release :: string
  version :: string
  machine :: string

text \<open>
  \<open>u_stale\<close> and \<open>u_stale_ts\<close> are what unset buffers hold, \<open>u_tail\<close> what follows a path that fills its buffer.
\<close>

record user_mem =
  u_str :: "uptr \<Rightarrow> string"
  u_bytes :: "uptr \<Rightarrow> nat \<Rightarrow> u8 list"
  u_strv :: "uptr \<Rightarrow> string list option"
  u_sigaction :: "uptr \<Rightarrow> sigaction"
  u_mmap :: "uptr \<Rightarrow> mmap_args"
  u_timespec :: "uptr \<Rightarrow> timespec"
  u_stale :: string
  u_tail :: string
  u_stale_ts :: timespec

datatype uval = UBytes "u8 list" | UStr string | UInt int | UPair nat nat | UStat stat | UDirents "dirent list"
  | USig sigaction | UTimespec timespec | UUts utsname | UZero nat

text \<open>The environment of a call: besides the caller's memory, what the handlers of other files take as parameters.\<close>

record sys_env =
  sops :: vfs_ops
  umem :: user_mem
  resume :: "nat \<Rightarrow> kernel \<Rightarrow> kernel"
  tramp :: u32
  frame :: uptr
  enoexec :: u32

datatype sys_result = Return u32 "(uptr \<times> uval) list" | Exited uptr | UserMode uptr uptr

text \<open>\<^verbatim>\<open>strncpy_from_user\<close> into a buffer of \<open>n + 1\<close> characters: its result is not looked at.\<close>

definition strncpy_from_user :: "user_mem \<Rightarrow> nat \<Rightarrow> uptr \<Rightarrow> string" where
  "strncpy_from_user u n src =
     (if src = 0 then u_stale u
      else if length (u_str u src) < n then u_str u src
      else take n (u_str u src) @ u_tail u)"

definition user_path :: "sys_env \<Rightarrow> uptr \<Rightarrow> string" where
  "user_path e src = strncpy_from_user (umem e) 255 src"

definition copy_to_user :: "uptr \<Rightarrow> uval \<Rightarrow> (uptr \<times> uval) list" where
  "copy_to_user dst x = (if dst = 0 then [] else [(dst, x)])"

text \<open>The value in \<^verbatim>\<open>eax\<close>: a negative error code, or the result.\<close>

definition neg_errno :: "errno \<Rightarrow> u32" where
  "neg_errno e = - of_nat (errno_code e)"

definition ret_code :: "errno option \<Rightarrow> sys_result" where
  "ret_code r = Return (case r of None \<Rightarrow> 0 | Some e \<Rightarrow> neg_errno e) []"

definition ret_sum :: "('a \<Rightarrow> u32) \<Rightarrow> ('a \<Rightarrow> (uptr \<times> uval) list) \<Rightarrow> errno + 'a \<Rightarrow> sys_result" where
  "ret_sum val out r = (case r of Inl e \<Rightarrow> Return (neg_errno e) [] | Inr x \<Rightarrow> Return (val x) (out x))"

definition done_with :: "('a \<Rightarrow> sys_result) \<Rightarrow> ('a \<times> kernel) option \<Rightarrow> (sys_result \<times> kernel) option" where
  "done_with f r = map_option (\<lambda>(x, s). (f x, s)) r"

abbreviation cur :: "kernel \<Rightarrow> task_struct" where
  "cur s \<equiv> task_at s (current s)"

section \<open>Processes and credentials\<close>

definition do_exec :: "sys_env \<Rightarrow> uptr \<Rightarrow> uptr \<Rightarrow> uptr \<Rightarrow> sys_result kfun" where
  "do_exec e a1 a2 a3 s =
     done_with (\<lambda>r. case r of
         Inl (Errno x) \<Rightarrow> Return (neg_errno x) []
       | Inl ENOEXEC \<Rightarrow> Return (enoexec e) []
       | Inr (eip, esp) \<Rightarrow> UserMode eip esp)
       (sys_exec (sops e) (user_path e a1) (u_strv (umem e) a2) (u_strv (umem e) a3) s)"

definition do_waitpid :: "sys_env \<Rightarrow> u32 \<Rightarrow> uptr \<Rightarrow> u32 \<Rightarrow> sys_result kfun" where
  "do_waitpid e a1 a2 a3 s =
     done_with (\<lambda>r. case r of None \<Rightarrow> Return 0 [] | Some (p, st) \<Rightarrow> Return p (copy_to_user a2 (UInt st)))
       (sys_waitpid (sops e) (resume e) a1 a3 s)"

definition do_sigaction :: "sys_env \<Rightarrow> u32 \<Rightarrow> uptr \<Rightarrow> uptr \<Rightarrow> sys_result kfun" where
  "do_sigaction e a1 a2 a3 s =
     done_with (ret_sum (\<lambda>_. 0) (\<lambda>old. copy_to_user a3 (USig old)))
       (sys_sigaction (sint a1) (if a2 \<noteq> 0 then Some (u_sigaction (umem e) a2) else None) s)"

definition process_calls :: "sys_env \<Rightarrow> u32 \<Rightarrow> u32 \<Rightarrow> u32 \<Rightarrow> u32 \<Rightarrow> kernel \<Rightarrow> (sys_result \<times> kernel) option option" where
  "process_calls e num a1 a2 a3 s =
     (if num = pnr SYS_exit \<or> num = pnr SYS_exit_group then Some (done_with Exited (sys_exit (sops e) (sint a1) s))
      else if num = pnr SYS_fork \<or> num = pnr SYS_clone then Some (done_with (ret_sum id (\<lambda>_. [])) (sys_fork (sops e) (tramp e) (frame e) s))
      else if num = pnr SYS_execve then Some (do_exec e a1 a2 a3 s)
      else if num = pnr SYS_waitpid then Some (do_waitpid e a1 a2 a3 s)
      else if num = pnr SYS_getpid then Some (Some (Return (sys_getpid s) [], s))
      else if num = pnr SYS_getppid then Some (Some (Return (sys_getppid s) [], s))
      else if num = pnr SYS_gettid \<or> num = pnr SYS_set_tid_address then Some (Some (Return (pid (cur s)) [], s))
      else if num = pnr SYS_getpgrp then Some (Some (Return (sys_getpgrp s) [], s))
      else if num = pnr SYS_setsid then Some (case sys_setsid s of (r, s) \<Rightarrow> Some (Return r [], s))
      else if num = pnr SYS_setpgid then Some (done_with ret_code (sys_setpgid a1 a2 s))
      else if num = pnr SYS_kill then Some (done_with ret_code (sys_kill a1 (sint a2) s))
      else if num = pnr SYS_tgkill then Some (done_with ret_code (sys_kill a2 (sint a3) s))
      else if num = pnr SYS_sigaction then Some (do_sigaction e a1 a2 a3 s)
      else if num = pnr SYS_sigreturn then Some (Some (Return 0 [], s))
      else None)"

definition credential_calls :: "u32 \<Rightarrow> u32 \<Rightarrow> u32 \<Rightarrow> kernel \<Rightarrow> (sys_result \<times> kernel) option" where
  "credential_calls num a1 a2 s =
     (if num = cnr SYS_getuid then Some (Return (uid (cur s)) [], s)
      else if num = cnr SYS_geteuid then Some (Return (euid (cur s)) [], s)
      else if num = cnr SYS_getgid then Some (Return (gid (cur s)) [], s)
      else if num = cnr SYS_getegid then Some (Return (egid (cur s)) [], s)
      else if num = cnr SYS_setuid
      then Some (if euid (cur s) = 0 then (Return 0 [], upd_task (current s) (\<lambda>x. x\<lparr>euid := a1, uid := a1\<rparr>) s)
                 else (Return (neg_errno EPERM) [], s))
      else if num = cnr SYS_setgid
      then Some (if euid (cur s) = 0 then (Return 0 [], upd_task (current s) (\<lambda>x. x\<lparr>egid := a1, gid := a1\<rparr>) s)
                 else (Return (neg_errno EPERM) [], s))
      else if num = cnr SYS_setreuid then Some (Return 0 [], upd_task (current s) (\<lambda>x. x\<lparr>uid := a1, euid := a2\<rparr>) s)
      else if num = cnr SYS_setregid then Some (Return 0 [], upd_task (current s) (\<lambda>x. x\<lparr>gid := a1, egid := a2\<rparr>) s)
      else if num = cnr SYS_umask
      then Some (Return (tumask (cur s)) [], upd_task (current s) (\<lambda>x. x\<lparr>tumask := a1 AND 0x1FF\<rparr>) s)
      else None)"

section \<open>Descriptors\<close>

fun whence_of :: "u32 \<Rightarrow> whence" where
  "whence_of w = (if w = 0 then SEEK_SET else if w = 1 then SEEK_CUR else if w = 2 then SEEK_END else SEEK_OTHER)"

text \<open>\<^verbatim>\<open>current->files->fd[fd]\<close>, without a test of the index: an index out of range has no result.\<close>

definition raw_fd :: "u32 \<Rightarrow> kernel \<Rightarrow> uptr option" where
  "raw_fd fd s =
     (if tfiles (cur s) = 0 then Some 0
      else if unat fd \<ge> OPEN_MAX then None
      else do { a \<leftarrow> fd_table (tfiles (cur s)) s; Some (fd_at s a ! unat fd) })"

definition set_cloexec :: "u32 \<Rightarrow> bool \<Rightarrow> kernel \<Rightarrow> kernel" where
  "set_cloexec fd b s =
     (let fs = tfiles (cur s); i = unat fd div 32; m = push_bit (unat fd mod 32) 1; w = close_on_exec (files_at s fs) ! i
      in s\<lparr>files_at := (files_at s)(fs := (files_at s fs)\<lparr>close_on_exec :=
           (close_on_exec (files_at s fs))[i := (if b then w OR m else w AND NOT m)]\<rparr>)\<rparr>)"

definition do_fcntl :: "u32 \<Rightarrow> u32 \<Rightarrow> u32 \<Rightarrow> sys_result kfun" where
  "do_fcntl fd cmd val s =
     do {
       f \<leftarrow> raw_fd fd s;
       if f = 0 then Some (Return (neg_errno EBADF) [], s)
       else if cmd = F_DUPFD then done_with (ret_sum of_nat (\<lambda>_. [])) (sys_dup (sint fd) s)
       else if cmd = F_GETFD then Some (Return (if cloexec_set (tfiles (cur s)) (unat fd) s then 1 else 0) [], s)
       else if cmd = F_SETFD then Some (Return 0 [], set_cloexec fd (val AND FD_CLOEXEC \<noteq> 0) s)
       else if cmd = F_GETFL then Some (Return (f_flags (file_at s f)) [], s)
       else if cmd = F_SETFL then Some (Return 0 [], upd_file f (\<lambda>x. x\<lparr>f_flags := val\<rparr>) s)
       else Some (Return (neg_errno EINVAL) [], s)
     }"

text \<open>The inode of an open file, for the calls that change it directly; \<open>Inl\<close> when the descriptor is not open.\<close>

definition raw_inode :: "u32 \<Rightarrow> kernel \<Rightarrow> (unit + uptr) option" where
  "raw_inode fd s =
     do {
       f \<leftarrow> raw_fd fd s;
       if f = 0 then Some (Inl ())
       else if f_dentry (file_at s f) = 0 \<or> d_inode (dentry_at s (f_dentry (file_at s f))) = 0 then None
       else Some (Inr (d_inode (dentry_at s (f_dentry (file_at s f)))))
     }"

definition do_fchmod :: "u32 \<Rightarrow> u32 \<Rightarrow> sys_result kfun" where
  "do_fchmod fd mode s =
     do {
       r \<leftarrow> raw_inode fd s;
       Some (case r of
           Inl _ \<Rightarrow> (Return (neg_errno EBADF) [], s)
         | Inr i \<Rightarrow> (Return 0 [], upd_inode i (\<lambda>x. x\<lparr>i_mode := (i_mode x AND S_IFMT) OR (mode AND 0xFFF)\<rparr>) s))
     }"

definition do_fchown :: "u32 \<Rightarrow> u32 \<Rightarrow> u32 \<Rightarrow> sys_result kfun" where
  "do_fchown fd u g s =
     do {
       r \<leftarrow> raw_inode fd s;
       Some (case r of
           Inl _ \<Rightarrow> (Return (neg_errno EBADF) [], s)
         | Inr i \<Rightarrow> (Return 0 [], upd_inode i (\<lambda>x. x\<lparr>i_uid := u, i_gid := g\<rparr>) s))
     }"

definition truncate_inode :: "sys_env \<Rightarrow> uptr \<Rightarrow> u32 \<Rightarrow> errno option kfun" where
  "truncate_inode e i len s =
     (case op_truncate (iops_of (sops e) i s) of None \<Rightarrow> Some (Some EPERM, s) | Some op \<Rightarrow> op i (sint len) s)"

definition do_ftruncate :: "sys_env \<Rightarrow> u32 \<Rightarrow> u32 \<Rightarrow> sys_result kfun" where
  "do_ftruncate e fd len s =
     do {
       r \<leftarrow> raw_inode fd s;
       (case r of
          Inl _ \<Rightarrow> Some (Return (neg_errno EBADF) [], s)
        | Inr i \<Rightarrow> done_with ret_code (truncate_inode e i len s))
     }"

definition do_truncate :: "sys_env \<Rightarrow> uptr \<Rightarrow> u32 \<Rightarrow> sys_result kfun" where
  "do_truncate e a1 len s =
     do {
       (r, s) \<leftarrow> vfs_lookup (sops e) (user_path e a1) 0 s;
       (case r of
          Inl x \<Rightarrow> Some (ret_code (Some x), s)
        | Inr de \<Rightarrow>
            if de = 0 \<or> d_inode (dentry_at s de) = 0 then None
            else do {
              (x, s) \<leftarrow> truncate_inode e (d_inode (dentry_at s de)) len s;
              s \<leftarrow> dentry_put (sops e) de s;
              Some (ret_code x, s)
            })
     }"

definition descriptor_calls :: "sys_env \<Rightarrow> u32 \<Rightarrow> u32 \<Rightarrow> u32 \<Rightarrow> u32 \<Rightarrow> kernel \<Rightarrow> (sys_result \<times> kernel) option option" where
  "descriptor_calls e num a1 a2 a3 s =
     (if num = dnr SYS_close then Some (done_with ret_code (sys_close (sops e) (sint a1) s))
      else if num = dnr SYS_read
      then Some (done_with (ret_sum (\<lambda>bs. of_nat (length bs)) (\<lambda>bs. [(a2, UBytes bs)])) (sys_read (sops e) (sint a1) a3 s))
      else if num = dnr SYS_write
      then Some (done_with (ret_sum of_nat (\<lambda>_. [])) (sys_write (sops e) (sint a1) (u_bytes (umem e) a2 (unat a3)) s))
      else if num = dnr SYS_lseek
      then Some (done_with (ret_sum of_int (\<lambda>_. [])) (sys_lseek (sops e) (sint a1) (sint a2) (whence_of a3) s))
      else if num = dnr SYS_dup then Some (done_with (ret_sum of_nat (\<lambda>_. [])) (sys_dup (sint a1) s))
      else if num = dnr SYS_dup2 then Some (done_with (ret_sum of_int (\<lambda>_. [])) (sys_dup2 (sops e) (sint a1) (sint a2) s))
      else if num = dnr SYS_pipe
      then Some (done_with (ret_sum (\<lambda>_. 0) (\<lambda>(r, w). [(a1, UPair r w)])) (sys_pipe (sops e) s))
      else if num = dnr SYS_ioctl then Some (done_with (ret_sum of_nat (\<lambda>_. [])) (sys_ioctl (sops e) (sint a1) a2 a3 s))
      else if num = dnr SYS_fcntl then Some (do_fcntl a1 a2 a3 s)
      else if num = dnr SYS_fstat
      then Some (done_with (ret_sum (\<lambda>_. 0) (\<lambda>st. copy_to_user a2 (UStat st))) (sys_fstat (sops e) (sint a1) s))
      else if num = dnr SYS_fchmod then Some (do_fchmod a1 a2 s)
      else if num = dnr SYS_fchown then Some (do_fchown a1 a2 a3 s)
      else if num = dnr SYS_ftruncate then Some (do_ftruncate e a1 a2 s)
      else if num = dnr SYS_getdents \<or> num = dnr SYS_getdents64
      then Some (done_with (ret_sum (\<lambda>ds. of_nat (length ds)) (\<lambda>ds. [(a2, UDirents ds)])) (sys_getdents (sops e) (sint a1) (unat a3) s))
      else None)"

section \<open>Paths\<close>

definition do_readlink :: "sys_env \<Rightarrow> uptr \<Rightarrow> uptr \<Rightarrow> u32 \<Rightarrow> sys_result kfun" where
  "do_readlink e a1 a2 a3 s =
     done_with (ret_sum (\<lambda>t. of_nat (length t)) (\<lambda>t. copy_to_user a2 (UStr t)))
       (sys_readlink (sops e) (user_path e a1) (min (unat a3) 255) s)"

definition do_mount :: "sys_env \<Rightarrow> uptr \<Rightarrow> uptr \<Rightarrow> uptr \<Rightarrow> sys_result kfun" where
  "do_mount e a1 a2 a3 s =
     done_with ret_code (sys_mount (sops e) (Some (strncpy_from_user (umem e) 127 a1)) (strncpy_from_user (umem e) 127 a2)
       (strncpy_from_user (umem e) 31 a3) s)"

definition path_calls :: "sys_env \<Rightarrow> u32 \<Rightarrow> u32 \<Rightarrow> u32 \<Rightarrow> u32 \<Rightarrow> u32 \<Rightarrow> kernel \<Rightarrow> (sys_result \<times> kernel) option option" where
  "path_calls e num a1 a2 a3 a4 s =
     (let p = user_path e; v = sops e; fd = done_with (ret_sum of_nat (\<lambda>_. [])); rc = done_with ret_code;
          st = done_with (ret_sum (\<lambda>_. 0) (\<lambda>st. copy_to_user a2 (UStat st)))
      in if num = fnr SYS_open then Some (fd (sys_open v (p a1) a2 a3 s))
      else if num = fnr SYS_openat then Some (fd (sys_open v (p a2) a3 a4 s))
      else if num = fnr SYS_creat then Some (fd (sys_open v (p a1) (O_WRONLY OR O_CREAT OR O_TRUNC) a2 s))
      else if num = fnr SYS_stat then Some (st (sys_stat v (p a1) s))
      else if num = fnr SYS_lstat then Some (st (sys_lstat v (p a1) s))
      else if num = fnr SYS_mkdir then Some (rc (sys_mkdir v (p a1) a2 s))
      else if num = fnr SYS_rmdir then Some (rc (sys_rmdir v (p a1) s))
      else if num = fnr SYS_unlink then Some (rc (sys_unlink v (p a1) s))
      else if num = fnr SYS_link then Some (rc (sys_link v (p a1) (p a2) s))
      else if num = fnr SYS_rename then Some (rc (sys_rename v (p a1) (p a2) s))
      else if num = fnr SYS_symlink then Some (rc (sys_symlink v (p a1) (p a2) s))
      else if num = fnr SYS_readlink then Some (do_readlink e a1 a2 a3 s)
      else if num = fnr SYS_chmod then Some (rc (sys_chmod v (p a1) a2 s))
      else if num = fnr SYS_chown \<or> num = fnr SYS_lchown then Some (rc (sys_chown v (p a1) a2 a3 s))
      else if num = fnr SYS_truncate then Some (do_truncate e a1 a2 s)
      else if num = fnr SYS_chdir then Some (rc (sys_chdir v (p a1) s))
      else if num = fnr SYS_getcwd
      then Some (map_option (\<lambda>t. (Return 0 [(a1, UStr t)], s)) (sys_getcwd (unat a2) s))
      else if num = fnr SYS_mknod then Some (rc (sys_mknod v (p a1) a2 a3 s))
      else if num = fnr SYS_mount then Some (do_mount e a1 a2 a3 s)
      else if num = fnr SYS_umount then Some (rc (sys_umount v (p a1) s))
      else None)"

section \<open>Memory\<close>

definition do_brk :: "u32 \<Rightarrow> sys_result kfun" where
  "do_brk a1 s =
     (let m = tmm (cur s)
      in if m = 0 then Some (Return (neg_errno ENOMEM) [], s)
         else do {
           (r, st) \<leftarrow> mm_brk m (if a1 \<noteq> 0 then a1 else brk (mm_at (kmm s) m)) (kmm s);
           let s = s\<lparr>kmm := st\<rparr>;
           Some (case r of None \<Rightarrow> Return (brk (mm_at (kmm s) m)) [] | Some e \<Rightarrow> Return (neg_errno e) [], s)
         })"

definition prot_flags :: "u32 \<Rightarrow> u32" where
  "prot_flags prot =
     VM_USER OR (if prot AND PROT_READ \<noteq> 0 then VM_READ else 0) OR (if prot AND PROT_WRITE \<noteq> 0 then VM_WRITE else 0)
       OR (if prot AND PROT_EXEC \<noteq> 0 then VM_EXEC else 0)"

text \<open>The break moves before the mapping is made, whether or not that succeeds.\<close>

definition do_mmap :: "sys_env \<Rightarrow> uptr \<Rightarrow> sys_result kfun" where
  "do_mmap e a1 s =
     (let m = tmm (cur s); ma = u_mmap (umem e) a1
      in if m = 0 then Some (Return (neg_errno ENOMEM) [], s)
         else if a1 = 0 then None
         else let addr = (if ma_addr ma \<noteq> 0 then ma_addr ma else brk (mm_at (kmm s) m));
                  s = (if ma_addr ma \<noteq> 0 then s
                       else s\<lparr>kmm := upd_mm m (\<lambda>x. x\<lparr>brk := brk x + ALIGN_UP (ma_len ma) PAGE_SIZE\<rparr>) (kmm s)\<rparr>)
              in do {
                (r, st) \<leftarrow> mm_mmap m addr (ma_len ma) (prot_flags (ma_prot ma)) (kmm s);
                Some (case r of None \<Rightarrow> Return addr [] | Some x \<Rightarrow> Return (neg_errno x) [], s\<lparr>kmm := st\<rparr>)
              })"

definition do_munmap :: "u32 \<Rightarrow> u32 \<Rightarrow> sys_result kfun" where
  "do_munmap a1 a2 s =
     (if tmm (cur s) = 0 then Some (Return (neg_errno ENOMEM) [], s)
      else do { st \<leftarrow> mm_munmap (tmm (cur s)) a1 a2 (kmm s); Some (Return 0 [], s\<lparr>kmm := st\<rparr>) })"

section \<open>Time\<close>

partial_function (option) nanosleep_loop :: "(nat \<Rightarrow> kernel \<Rightarrow> kernel) \<Rightarrow> u64 \<Rightarrow> nat \<Rightarrow> kernel \<Rightarrow> (errno option \<times> kernel) option" where
  "nanosleep_loop res stop k s =
     (if jiffies s < stop
      then let s = res k (snd (sched_yield s))
           in if sleep_interrupted s \<noteq> None then Some (Some EINTR, s) else nanosleep_loop res stop (Suc k) s
      else Some (None, s))"

definition do_nanosleep :: "sys_env \<Rightarrow> uptr \<Rightarrow> sys_result kfun" where
  "do_nanosleep e a1 s =
     (let ts = (if a1 = 0 then u_stale_ts (umem e) else u_timespec (umem e) a1);
          stop = jiffies s + word_of_int (tv_sec ts) * 100 + word_of_int (tv_nsec ts sdiv 10000000)
      in done_with ret_code (nanosleep_loop (resume e) stop 0 s))"

definition time_calls :: "sys_env \<Rightarrow> u32 \<Rightarrow> u32 \<Rightarrow> u32 \<Rightarrow> kernel \<Rightarrow> (sys_result \<times> kernel) option option" where
  "time_calls e num a1 a2 s =
     (if num = tnr SYS_time
      then let t = ucast (uptime_s s) :: u32 in Some (Some (Return t (copy_to_user a1 (UInt (uint t))), s))
      else if num = tnr SYS_nanosleep then Some (do_nanosleep e a1 s)
      else if num = tnr SYS_clock_gettime
      then Some (Some (Return 0 (copy_to_user a2 (UTimespec \<lparr>tv_sec = sint (ucast (jiffies s div 100) :: u32),
             tv_nsec = sint (ucast (jiffies s mod 100 * 10000000) :: u32)\<rparr>)), s))
      else if num = tnr SYS_times then Some (Some (Return (ucast (jiffies s)) (copy_to_user a1 (UZero 16)), s))
      else if num = tnr SYS_uname
      then Some (Some (Return 0 (copy_to_user a1 (UUts \<lparr>sysname = ''MyOS'', nodename = ''myos'', release = ''1.0.0'',
             version = ''#1'', machine = ''i686''\<rparr>)), s))
      else None)"

definition memory_calls :: "sys_env \<Rightarrow> u32 \<Rightarrow> u32 \<Rightarrow> u32 \<Rightarrow> kernel \<Rightarrow> (sys_result \<times> kernel) option option" where
  "memory_calls e num a1 a2 s =
     (if num = mnr SYS_brk then Some (do_brk a1 s)
      else if num = mnr SYS_mmap then Some (do_mmap e a1 s)
      else if num = mnr SYS_munmap then Some (do_munmap a1 a2 s)
      else if num = mnr SYS_mprotect then Some (Some (Return 0 [], s))
      else None)"

section \<open>The dispatcher\<close>

text \<open>The groups of cases, in the order of the source; a number in none of them is an unknown call.\<close>

definition syscall_handler :: "sys_env \<Rightarrow> u32 \<Rightarrow> u32 \<Rightarrow> u32 \<Rightarrow> u32 \<Rightarrow> u32 \<Rightarrow> sys_result kfun" where
  "syscall_handler e num a1 a2 a3 a4 s =
     (case process_calls e num a1 a2 a3 s of Some r \<Rightarrow> r
      | None \<Rightarrow> (case credential_calls num a1 a2 s of Some r \<Rightarrow> Some r
      | None \<Rightarrow> (case descriptor_calls e num a1 a2 a3 s of Some r \<Rightarrow> r
      | None \<Rightarrow> (case path_calls e num a1 a2 a3 a4 s of Some r \<Rightarrow> r
      | None \<Rightarrow> (case memory_calls e num a1 a2 s of Some r \<Rightarrow> r
      | None \<Rightarrow> (case time_calls e num a1 a2 s of Some r \<Rightarrow> r
      | None \<Rightarrow> Some (Return (neg_errno ENOSYS) [], s)))))))"

text \<open>The numbers the dispatcher knows.\<close>

definition sys_numbers :: "u32 set" where
  "sys_numbers = range pnr \<union> range cnr \<union> range dnr \<union> range fnr \<union> range mnr \<union> range tnr"

lemma not_sys_number:
  assumes "num \<notin> sys_numbers"
  shows "num \<noteq> pnr p" "num \<noteq> cnr c" "num \<noteq> dnr d" "num \<noteq> fnr f" "num \<noteq> mnr m" "num \<noteq> tnr t"
  using assms by (auto simp: sys_numbers_def)

text \<open>The numbers of one group are not met in the groups before it.\<close>

lemma process_calls_others:
  "process_calls e (cnr c) a1 a2 a3 s = None" "process_calls e (dnr d) a1 a2 a3 s = None" "process_calls e (fnr f) a1 a2 a3 s = None"
  "process_calls e (mnr m) a1 a2 a3 s = None" "process_calls e (tnr t) a1 a2 a3 s = None"
      apply (cases c; simp add: process_calls_def)
     apply (cases d; simp add: process_calls_def)
    apply (cases f; simp add: process_calls_def)
   apply (cases m; simp add: process_calls_def)
  apply (cases t; simp add: process_calls_def)
  done

lemma credential_calls_others:
  "credential_calls (dnr d) a1 a2 s = None" "credential_calls (fnr f) a1 a2 s = None"
  "credential_calls (mnr m) a1 a2 s = None" "credential_calls (tnr t) a1 a2 s = None"
     apply (cases d; simp add: credential_calls_def)
    apply (cases f; simp add: credential_calls_def)
   apply (cases m; simp add: credential_calls_def)
  apply (cases t; simp add: credential_calls_def)
  done

lemma syscall_credential:
  "syscall_handler e (cnr c) a1 a2 a3 a4 s = credential_calls (cnr c) a1 a2 s"
proof -
  have "credential_calls (cnr c) a1 a2 s \<noteq> None" by (cases c) (simp_all add: credential_calls_def)
  then show ?thesis by (auto simp: syscall_handler_def process_calls_others)
qed

lemma syscall_descriptor:
  "syscall_handler e (dnr d) a1 a2 a3 a4 s = the (descriptor_calls e (dnr d) a1 a2 a3 s)"
proof -
  have "descriptor_calls e (dnr d) a1 a2 a3 s \<noteq> None" by (cases d) (simp_all add: descriptor_calls_def)
  then show ?thesis by (auto simp: syscall_handler_def process_calls_others credential_calls_others)
qed

text \<open>
  A number that is not that of a system call returns \<^verbatim>\<open>-ENOSYS\<close> and changes nothing.
\<close>

theorem syscall_unknown:
  assumes "num \<notin> sys_numbers"
  shows "syscall_handler e num a1 a2 a3 a4 s = Some (Return (neg_errno ENOSYS) [], s)"
  by (simp add: syscall_handler_def process_calls_def credential_calls_def descriptor_calls_def path_calls_def
      memory_calls_def time_calls_def not_sys_number [OF assms] del: pnr.simps cnr.simps dnr.simps fnr.simps mnr.simps tnr.simps)

theorem syscall_unknown_witness:
  "\<forall>e s. syscall_handler e 400 0 0 0 0 s = Some (Return (neg_errno ENOSYS) [], s)"
proof -
  have "400 \<noteq> pnr p" for p by (cases p) simp_all
  moreover have "400 \<noteq> cnr c" for c by (cases c) simp_all
  moreover have "400 \<noteq> dnr d" for d by (cases d) simp_all
  moreover have "400 \<noteq> fnr f" for f by (cases f) simp_all
  moreover have "400 \<noteq> mnr m" for m by (cases m) simp_all
  moreover have "400 \<noteq> tnr t" for t by (cases t) simp_all
  ultimately have "400 \<notin> sys_numbers" by (auto simp: sys_numbers_def)
  then show ?thesis using syscall_unknown by blast
qed

text \<open>
  C38: \<^verbatim>\<open>setuid\<close> asks for an effective user id of 0, but \<^verbatim>\<open>setreuid\<close> asks for nothing: a task that \<^verbatim>\<open>setuid\<close>
  turns away with \<^verbatim>\<open>-EPERM\<close> makes itself root with one call of \<^verbatim>\<open>setreuid\<close>, after which \<^verbatim>\<open>setuid\<close> gives it
  any user id.
\<close>

theorem setreuid_escalates:
  assumes "euid (cur s) \<noteq> 0"
  shows "syscall_handler e (cnr SYS_setuid) u 0 0 0 s = Some (Return (neg_errno EPERM) [], s) \<and>
    (\<exists>t v. syscall_handler e (cnr SYS_setreuid) (uid (cur s)) 0 0 0 s = Some (Return 0 [], t) \<and> euid (cur t) = 0 \<and>
       syscall_handler e (cnr SYS_setuid) u 0 0 0 t = Some (Return 0 [], v) \<and> uid (cur v) = u \<and> euid (cur v) = u)"
  using assms unfolding syscall_credential by (simp add: credential_calls_def kupd_defs)

theorem setreuid_escalates_witness:
  "\<forall>e. \<exists>s t. syscall_handler e (cnr SYS_setuid) 0 0 0 0 s = Some (Return (neg_errno EPERM) [], s) \<and>
     syscall_handler e (cnr SYS_setreuid) 1000 0 0 0 s = Some (Return 0 [], t) \<and> euid (cur t) = 0"
proof
  fix e
  let ?s = "upd_task 0 (\<lambda>x. x\<lparr>uid := 1000, euid := 1000\<rparr>) (kernel_boot (mm_example slab_boot 0 0))"
  have "euid (cur ?s) \<noteq> 0" "uid (cur ?s) = 1000" by (simp_all add: kernel_boot_def kupd_defs)
  with setreuid_escalates [of ?s e 0] show "\<exists>s t. syscall_handler e (cnr SYS_setuid) 0 0 0 0 s = Some (Return (neg_errno EPERM) [], s) \<and>
     syscall_handler e (cnr SYS_setreuid) 1000 0 0 0 s = Some (Return 0 [], t) \<and> euid (cur t) = 0" by auto
qed

end
