(* ===== verification/Ata.thy ===== *)
theory Ata
  imports Dev "HOL-Library.Signed_Division"
begin

text \<open>
  The disk driver of \<^verbatim>\<open>drivers/ata.c\<close>.  The controller is a parameter: a state of any type and the effect
  of an access to a port on it.  A wait for a busy drive that stays busy has no result.  What the driver
  relies on of a drive is the predicate \<open>ata_disk\<close>: the commands that the controllers' standard
  documents for reading and writing one sector.
\<close>

section \<open>Ports and drives\<close>

record 'h ata_io =
  io_inb :: "u16 \<Rightarrow> 'h \<Rightarrow> u8 \<times> 'h"
  io_inw :: "u16 \<Rightarrow> 'h \<Rightarrow> u16 \<times> 'h"
  io_outb :: "u16 \<Rightarrow> u8 \<Rightarrow> 'h \<Rightarrow> 'h"
  io_outw :: "u16 \<Rightarrow> u16 \<Rightarrow> 'h \<Rightarrow> 'h"

definition ATA_PRIMARY :: u16 where "ATA_PRIMARY = 0x1F0"
definition ATA_SECONDARY :: u16 where "ATA_SECONDARY = 0x170"
definition ATA_DATA :: u16 where "ATA_DATA = 0"
definition ATA_SECCOUNT :: u16 where "ATA_SECCOUNT = 2"
definition ATA_LBA_LO :: u16 where "ATA_LBA_LO = 3"
definition ATA_LBA_MID :: u16 where "ATA_LBA_MID = 4"
definition ATA_LBA_HI :: u16 where "ATA_LBA_HI = 5"
definition ATA_DRIVE :: u16 where "ATA_DRIVE = 6"
definition ATA_STATUS :: u16 where "ATA_STATUS = 7"
definition ATA_CMD :: u16 where "ATA_CMD = 7"
definition ATA_SR_BSY :: u8 where "ATA_SR_BSY = 0x80"
definition ATA_SR_DRDY :: u8 where "ATA_SR_DRDY = 0x40"
definition ATA_SR_DRQ :: u8 where "ATA_SR_DRQ = 0x08"
definition ATA_SR_ERR :: u8 where "ATA_SR_ERR = 0x01"
definition ATA_CMD_READ_PIO :: u8 where "ATA_CMD_READ_PIO = 0x20"
definition ATA_CMD_WRITE_PIO :: u8 where "ATA_CMD_WRITE_PIO = 0x30"
definition ATA_CMD_IDENTIFY :: u8 where "ATA_CMD_IDENTIFY = 0xEC"
definition ATA_CMD_FLUSH :: u8 where "ATA_CMD_FLUSH = 0xE7"
definition ATA_DRIVE_MASTER :: u8 where "ATA_DRIVE_MASTER = 0xA0"
definition ATA_DRIVE_SLAVE :: u8 where "ATA_DRIVE_SLAVE = 0xB0"
definition ATA_DRIVE_LBA :: u8 where "ATA_DRIVE_LBA = 0x40"
definition ETIMEDOUT :: int where "ETIMEDOUT = 110"

record ata_drive =
  exists :: bool
  lba48 :: bool
  base :: u16
  slave :: bool
  sectors :: u64
  model :: "u8 list"

section \<open>Waiting\<close>

partial_function (option) ata_wait_bsy :: "'h ata_io \<Rightarrow> u16 \<Rightarrow> 'h \<Rightarrow> 'h option" where
  "ata_wait_bsy io b h =
     (case io_inb io (b + ATA_STATUS) h of
        (st, h) \<Rightarrow> if st AND ATA_SR_BSY \<noteq> 0 then ata_wait_bsy io b h else Some h)"

text \<open>The loop of \<^verbatim>\<open>ata_wait_drq\<close>; the number is \<^verbatim>\<open>timeout\<close> after the decrement.\<close>

fun ata_drq_loop :: "'h ata_io \<Rightarrow> u16 \<Rightarrow> nat \<Rightarrow> 'h \<Rightarrow> errno option \<times> 'h" where
  "ata_drq_loop io b 0 h = (Some EIO, h)"
| "ata_drq_loop io b (Suc k) h =
     (case io_inb io (b + ATA_STATUS) h of
        (st, h) \<Rightarrow> if st AND ATA_SR_ERR \<noteq> 0 then (Some EIO, h)
                   else if st AND ATA_SR_DRQ \<noteq> 0 then (None, h)
                   else ata_drq_loop io b k h)"

definition ata_wait_drq :: "'h ata_io \<Rightarrow> u16 \<Rightarrow> 'h \<Rightarrow> errno option \<times> 'h" where
  "ata_wait_drq io b h = ata_drq_loop io b 999999 h"

fun ata_ready_loop :: "'h ata_io \<Rightarrow> u16 \<Rightarrow> nat \<Rightarrow> 'h \<Rightarrow> int \<times> 'h" where
  "ata_ready_loop io b 0 h = (- ETIMEDOUT, h)"
| "ata_ready_loop io b (Suc k) h =
     (case io_inb io (b + ATA_STATUS) h of
        (st, h) \<Rightarrow> if st AND ATA_SR_ERR \<noteq> 0 then (- int (errno_code EIO), h)
                   else if st AND ATA_SR_DRDY \<noteq> 0 then (0, h)
                   else ata_ready_loop io b k h)"

definition ata_wait_ready :: "'h ata_io \<Rightarrow> u16 \<Rightarrow> 'h \<Rightarrow> (int \<times> 'h) option" where
  "ata_wait_ready io b h = map_option (ata_ready_loop io b 999999) (ata_wait_bsy io b h)"

section \<open>Sectors\<close>

fun inws :: "'h ata_io \<Rightarrow> u16 \<Rightarrow> nat \<Rightarrow> 'h \<Rightarrow> u16 list \<times> 'h" where
  "inws io p 0 h = ([], h)"
| "inws io p (Suc n) h = (case io_inw io p h of (w, h) \<Rightarrow> case inws io p n h of (ws, h) \<Rightarrow> (w # ws, h))"

definition outws :: "'h ata_io \<Rightarrow> u16 \<Rightarrow> u16 list \<Rightarrow> 'h \<Rightarrow> 'h" where
  "outws io p ws h = fold (io_outw io p) ws h"

text \<open>A buffer of 16-bit words as bytes in memory, and back.\<close>

fun words_bytes :: "u16 list \<Rightarrow> u8 list" where
  "words_bytes [] = []"
| "words_bytes (w # ws) = ucast w # ucast (drop_bit 8 w) # words_bytes ws"

fun bytes_words :: "u8 list \<Rightarrow> u16 list" where
  "bytes_words (a # b # bs) = (ucast a OR push_bit 8 (ucast b)) # bytes_words bs"
| "bytes_words _ = []"

definition drive_select :: "ata_drive \<Rightarrow> u8" where
  "drive_select d = (if slave d then ATA_DRIVE_SLAVE else ATA_DRIVE_MASTER)"

text \<open>The port writes that start a command on one sector.\<close>

definition ata_command :: "'h ata_io \<Rightarrow> ata_drive \<Rightarrow> u64 \<Rightarrow> u8 \<Rightarrow> 'h \<Rightarrow> 'h" where
  "ata_command io d lba cmd h =
     (let b = base d;
          drv = drive_select d OR ATA_DRIVE_LBA;
          h = io_outb io (b + ATA_DRIVE) (drv OR (ucast (drop_bit 24 lba) AND 0x0F)) h;
          h = io_outb io (b + ATA_SECCOUNT) 1 h;
          h = io_outb io (b + ATA_LBA_LO) (ucast (lba AND 0xFF)) h;
          h = io_outb io (b + ATA_LBA_MID) (ucast (drop_bit 8 lba AND 0xFF)) h;
          h = io_outb io (b + ATA_LBA_HI) (ucast (drop_bit 16 lba AND 0xFF)) h
      in io_outb io (b + ATA_CMD) cmd h)"

definition ata_read_sector :: "'h ata_io \<Rightarrow> ata_drive \<Rightarrow> u64 \<Rightarrow> 'h \<Rightarrow> ((errno + u8 list) \<times> 'h) option" where
  "ata_read_sector io d lba h =
     do {
       h \<leftarrow> ata_wait_bsy io (base d) h;
       Some (case ata_wait_drq io (base d) (ata_command io d lba ATA_CMD_READ_PIO h) of
           (Some e, h) \<Rightarrow> (Inl e, h)
         | (None, h) \<Rightarrow> (case inws io (base d + ATA_DATA) 256 h of (ws, h) \<Rightarrow> (Inr (words_bytes ws), h)))
     }"

definition ata_write_sector :: "'h ata_io \<Rightarrow> ata_drive \<Rightarrow> u64 \<Rightarrow> u8 list \<Rightarrow> 'h \<Rightarrow> (errno option \<times> 'h) option" where
  "ata_write_sector io d lba bs h =
     do {
       h \<leftarrow> ata_wait_bsy io (base d) h;
       case ata_wait_drq io (base d) (ata_command io d lba ATA_CMD_WRITE_PIO h) of
         (Some e, h) \<Rightarrow> Some (Some e, h)
       | (None, h) \<Rightarrow> do {
           let h = outws io (base d + ATA_DATA) (bytes_words bs) h;
           let h = io_outb io (base d + ATA_CMD) ATA_CMD_FLUSH h;
           h \<leftarrow> ata_wait_bsy io (base d) h;
           Some (None, h)
         }
     }"

section \<open>Reading and writing files\<close>

text \<open>
  Where byte \<open>n\<close> of a transfer at \<open>pos\<close> is: sector, offset and length of the chunk, in the arithmetic of
  \<^verbatim>\<open>off_t\<close>, \<^verbatim>\<open>u64\<close> and \<^verbatim>\<open>size_t\<close>.
\<close>

definition chunk_at :: "off_t \<Rightarrow> u32 \<Rightarrow> u32 \<Rightarrow> u64 \<times> u32 \<times> u32" where
  "chunk_at pos n count =
     (let q = pos + int (unat n);
          off = word_of_int (q smod 512) :: u32
      in (word_of_int (q sdiv 512), off, min (512 - off) (count - n)))"

text \<open>A copy beyond the end of the sector buffer has no result.\<close>

partial_function (option) ata_read_loop ::
  "'h ata_io \<Rightarrow> ata_drive \<Rightarrow> off_t \<Rightarrow> u32 \<Rightarrow> u32 \<Rightarrow> u8 list \<Rightarrow> 'h \<Rightarrow> (((errno + u8 list) \<times> off_t) \<times> 'h) option" where
  "ata_read_loop io d pos count n out h =
     (if n < count
      then case chunk_at pos n count of (lba, off, chunk) \<Rightarrow>
        do {
          (r, h) \<leftarrow> ata_read_sector io d lba h;
          case r of
            Inl e \<Rightarrow> Some ((if n > 0 then Inr out else Inl e, pos), h)
          | Inr sector \<Rightarrow>
              if unat off + unat chunk > 512 then None
              else ata_read_loop io d pos count (n + chunk) (out @ take (unat chunk) (drop (unat off) sector)) h
        }
      else Some ((Inr out, pos + int (unat n)), h))"

definition ata_file_read ::
  "'h ata_io \<Rightarrow> ata_drive option \<Rightarrow> u32 \<Rightarrow> off_t \<Rightarrow> 'h \<Rightarrow> (((errno + u8 list) \<times> off_t) \<times> 'h) option" where
  "ata_file_read io d count pos h =
     (case d of None \<Rightarrow> Some ((Inl ENODEV, pos), h) | Some d \<Rightarrow> ata_read_loop io d pos count 0 [] h)"

text \<open>
  The sector buffer is a local array: before a read fills it, it holds what was on the stack, the
  parameter \<open>stale\<close>.  The result of that read is ignored.
\<close>

definition ata_fill :: "'h ata_io \<Rightarrow> ata_drive \<Rightarrow> u64 \<Rightarrow> bool \<Rightarrow> u8 list \<Rightarrow> 'h \<Rightarrow> (u8 list \<times> 'h) option" where
  "ata_fill io d lba partial stale h =
     (if partial
      then do {
        (r, h) \<leftarrow> ata_read_sector io d lba h;
        Some (case r of Inl e \<Rightarrow> stale | Inr bs \<Rightarrow> bs, h)
      }
      else Some (stale, h))"

definition patch :: "u8 list \<Rightarrow> nat \<Rightarrow> u8 list \<Rightarrow> u8 list" where
  "patch sector off bs = take off sector @ bs @ drop (off + length bs) sector"

partial_function (option) ata_write_loop ::
  "'h ata_io \<Rightarrow> ata_drive \<Rightarrow> (u32 \<Rightarrow> u8 list) \<Rightarrow> off_t \<Rightarrow> u8 list \<Rightarrow> u32 \<Rightarrow> u32 \<Rightarrow> 'h \<Rightarrow> (((errno + nat) \<times> off_t) \<times> 'h) option" where
  "ata_write_loop io d stale pos data count n h =
     (if n < count
      then case chunk_at pos n count of (lba, off, chunk) \<Rightarrow>
        do {
          (sector, h) \<leftarrow> ata_fill io d lba (off \<noteq> 0 \<or> chunk < 512) (stale n) h;
          if unat off + unat chunk > 512 then None
          else do {
            (r, h) \<leftarrow> ata_write_sector io d lba (patch sector (unat off) (take (unat chunk) (drop (unat n) data))) h;
            case r of
              Some e \<Rightarrow> Some ((if n > 0 then Inr (unat n) else Inl e, pos), h)
            | None \<Rightarrow> ata_write_loop io d stale pos data count (n + chunk) h
          }
        }
      else Some ((Inr (unat n), pos + int (unat n)), h))"

definition ata_file_write ::
  "'h ata_io \<Rightarrow> ata_drive option \<Rightarrow> (u32 \<Rightarrow> u8 list) \<Rightarrow> u8 list \<Rightarrow> off_t \<Rightarrow> 'h \<Rightarrow> (((errno + nat) \<times> off_t) \<times> 'h) option" where
  "ata_file_write io d stale data pos h =
     (case d of
        None \<Rightarrow> Some ((Inl ENODEV, pos), h)
      | Some d \<Rightarrow> ata_write_loop io d stale pos data (of_nat (length data)) 0 h)"

definition ata_file_open :: "uptr \<Rightarrow> uptr \<Rightarrow> errno option kfun" where
  "ata_file_open i f s = Some (None, upd_file f (\<lambda>x. x\<lparr>f_private := i_private (inode_at s i)\<rparr>) s)"

section \<open>Probing the drives\<close>

definition ident_model :: "u16 list \<Rightarrow> u8 list" where
  "ident_model ident = concat (map (\<lambda>i. [ucast (drop_bit 8 (ident ! (27 + i))), ucast (ident ! (27 + i))]) [0..<20])"

definition ident_sectors :: "u16 list \<Rightarrow> bool \<times> u64" where
  "ident_sectors ident =
     (if ident ! 83 AND 0x400 \<noteq> 0
      then (True, push_bit 48 (ucast (ident ! 103)) OR push_bit 32 (ucast (ident ! 102)) OR
                  push_bit 16 (ucast (ident ! 101)) OR ucast (ident ! 100))
      else (False, push_bit 16 (ucast (ident ! 61)) OR ucast (ident ! 60)))"

definition ata_identify :: "'h ata_io \<Rightarrow> ata_drive \<Rightarrow> 'h \<Rightarrow> (bool \<times> ata_drive \<times> 'h) option" where
  "ata_identify io d h =
     (let b = base d;
          h = io_outb io (b + ATA_DRIVE) (drive_select d) h;
          h = io_outb io (b + ATA_SECCOUNT) 0 h;
          h = io_outb io (b + ATA_LBA_LO) 0 h;
          h = io_outb io (b + ATA_LBA_MID) 0 h;
          h = io_outb io (b + ATA_LBA_HI) 0 h;
          h = io_outb io (b + ATA_CMD) ATA_CMD_IDENTIFY h
      in case io_inb io (b + ATA_STATUS) h of (status, h) \<Rightarrow>
           if status = 0 then Some (False, d, h)
           else do {
             h \<leftarrow> ata_wait_bsy io b h;
             case io_inb io (b + ATA_LBA_MID) h of (mid, h) \<Rightarrow>
             if mid \<noteq> 0 then Some (False, d, h)
             else case io_inb io (b + ATA_LBA_HI) h of (hi, h) \<Rightarrow>
             if hi \<noteq> 0 then Some (False, d, h)
             else case ata_wait_drq io b h of
               (Some e, h) \<Rightarrow> Some (False, d, h)
             | (None, h) \<Rightarrow>
                 case inws io (b + ATA_DATA) 256 h of (ident, h) \<Rightarrow>
                   let (big, n) = ident_sectors ident
                   in Some (True, d\<lparr>model := ident_model ident, sectors := n, lba48 := lba48 d \<or> big, exists := True\<rparr>, h)
           })"

fun ata_probe :: "'h ata_io \<Rightarrow> (u16 \<times> bool) list \<Rightarrow> ata_drive list \<Rightarrow> 'h \<Rightarrow> (ata_drive list \<times> 'h) option" where
  "ata_probe io ((b, sv) # ps) (d # ds) h =
     do {
       (r, d, h) \<leftarrow> ata_identify io (d\<lparr>base := b, slave := sv\<rparr>) h;
       (ds, h) \<leftarrow> ata_probe io ps ds h;
       Some (d # ds, h)
     }"
| "ata_probe io _ ds h = Some (ds, h)"

definition ata_register :: "'h ata_io \<Rightarrow> ata_drive list \<Rightarrow> devtab \<Rightarrow> 'h \<Rightarrow> (ata_drive list \<times> devtab \<times> 'h) option" where
  "ata_register io drives t h =
     do {
       (drives, h) \<leftarrow> ata_probe io [(ATA_PRIMARY, False), (ATA_PRIMARY, True), (ATA_SECONDARY, False), (ATA_SECONDARY, True)] drives h;
       Some (drives, snd (register_blkdev 8 ''ata'' AtaOps t), h)
     }"

text \<open>The node of drive \<open>i\<close>; \<open>addr i\<close> is the address of \<^verbatim>\<open>drives[i]\<close>.\<close>

definition ata_devnode :: "vfs_ops \<Rightarrow> (nat \<Rightarrow> uptr) \<Rightarrow> uptr \<Rightarrow> nat \<times> string \<times> ata_drive \<Rightarrow> kernel \<Rightarrow> kernel option" where
  "ata_devnode ops addr dir e s =
     (case e of (i, name, d) \<Rightarrow>
       if \<not> exists d then Some s
       else do {
         (de, s) \<leftarrow> dentry_alloc name dir s;
         if de = 0 then Some s
         else do {
           (ino, s) \<leftarrow> inode_alloc (d_sb (dentry_at s dir)) s;
           if ino = 0 then dentry_put ops de s
           else let s = upd_inode ino (\<lambda>x. x\<lparr>i_mode := S_IFBLK OR 0x1B0, i_rdev := push_bit 8 8 OR of_nat (i * 16),
                          i_size := sint (sectors d * 512), i_fops := AtaOps, i_ops := RamfsInodeOps, i_private := addr i\<rparr>) s
                in Some (upd_dentry de (\<lambda>x. x\<lparr>d_inode := ino\<rparr>) (inode_get ino s))
         }
       })"

fun ata_nodes :: "vfs_ops \<Rightarrow> (nat \<Rightarrow> uptr) \<Rightarrow> uptr \<Rightarrow> (nat \<times> string \<times> ata_drive) list \<Rightarrow> kernel \<Rightarrow> kernel option" where
  "ata_nodes ops addr dir [] s = Some s"
| "ata_nodes ops addr dir (e # es) s = do { s \<leftarrow> ata_devnode ops addr dir e s; ata_nodes ops addr dir es s }"

definition ata_create_devnodes :: "vfs_ops \<Rightarrow> (nat \<Rightarrow> uptr) \<Rightarrow> uptr \<Rightarrow> ata_drive list \<Rightarrow> kernel \<Rightarrow> kernel option" where
  "ata_create_devnodes ops addr dir drives s =
     ata_nodes ops addr dir (zip [0..<4] (zip [''hda'', ''hdb'', ''hdc'', ''hdd''] drives)) s"

text \<open>\<^verbatim>\<open>devfs_init\<close>: the registrations, the probe of the drives, and the nodes of \<^verbatim>\<open>/dev\<close>.\<close>

definition devfs_init :: "vfs_ops \<Rightarrow> 'h ata_io \<Rightarrow> (nat \<Rightarrow> uptr) \<Rightarrow> uptr \<Rightarrow> ata_drive list \<times> devtab \<times> 'h \<Rightarrow> kernel \<Rightarrow>
    ((ata_drive list \<times> devtab \<times> 'h) \<times> kernel) option" where
  "devfs_init ops io addr dir dv s =
     (case dv of (drives, t, h) \<Rightarrow>
       do {
         (drives, t, h) \<leftarrow> ata_register io drives (devfs_register t) h;
         s \<leftarrow> dev_nodes ops dir dev_table s;
         s \<leftarrow> ata_create_devnodes ops addr dir drives s;
         Some ((drives, t, h), s)
       })"

section \<open>What a drive does\<close>

text \<open>The documented start of a command: drive and high bits, count, low bits, command.\<close>

definition start_cmd :: "'h ata_io \<Rightarrow> u16 \<Rightarrow> nat \<Rightarrow> nat \<Rightarrow> u8 \<Rightarrow> 'h \<Rightarrow> 'h" where
  "start_cmd io b sel lba cmd h =
     fold (\<lambda>(p, v). io_outb io (b + p) v)
       [(6, of_nat (sel + lba div 16777216)), (2, 1), (3, of_nat (lba mod 256)), (4, of_nat (lba div 256 mod 256)),
        (5, of_nat (lba div 65536 mod 256)), (7, cmd)] h"

text \<open>The status register asks for data after \<open>k\<close> readings without an error.\<close>

fun drq_after :: "'h ata_io \<Rightarrow> u16 \<Rightarrow> nat \<Rightarrow> 'h \<Rightarrow> 'h \<Rightarrow> bool" where
  "drq_after io b 0 h h' \<longleftrightarrow> (\<exists>st. io_inb io (b + 7) h = (st, h') \<and> st AND 1 = 0 \<and> st AND 8 \<noteq> 0)"
| "drq_after io b (Suc k) h h' \<longleftrightarrow>
     (\<exists>st h1. io_inb io (b + 7) h = (st, h1) \<and> st AND 1 = 0 \<and> st AND 8 = 0 \<and> drq_after io b k h1 h')"

text \<open>The status register shows a busy drive \<open>k\<close> times and then one that is not busy.\<close>

fun busy_for :: "'h ata_io \<Rightarrow> u16 \<Rightarrow> nat \<Rightarrow> 'h \<Rightarrow> 'h \<Rightarrow> bool" where
  "busy_for io b 0 h h' \<longleftrightarrow> (\<exists>st. io_inb io (b + 7) h = (st, h') \<and> st AND 0x80 = 0)"
| "busy_for io b (Suc k) h h' \<longleftrightarrow> (\<exists>st h1. io_inb io (b + 7) h = (st, h1) \<and> st AND 0x80 \<noteq> 0 \<and> busy_for io b k h1 h')"

text \<open>
  \<open>rep h D\<close> says that no transfer is under way in state \<open>h\<close> and that the selected drive, of \<open>n\<close> sectors, has the contents
  \<open>D\<close>; it may be busy for any finite time, after which it is \<open>idle\<close>.  Only an idle drive takes a command, on a sector it has: a read
  command yields the sector, a write command and a flush replace it, and then the drive may be busy again.  The drive reports no error, and
  does not report one or ask for data while it is busy.  As the driver does, the flush is given right after the last word of the sector.
\<close>

definition ata_disk :: "'h ata_io \<Rightarrow> u16 \<Rightarrow> nat \<Rightarrow> nat \<Rightarrow> ('h \<Rightarrow> (nat \<Rightarrow> u8 list) \<Rightarrow> bool) \<Rightarrow> ('h \<Rightarrow> (nat \<Rightarrow> u8 list) \<Rightarrow> bool) \<Rightarrow> bool" where
  "ata_disk io b sel n rep idle \<longleftrightarrow>
     n \<le> 2 ^ 28 \<and>
     (\<forall>h D. rep h D \<longrightarrow> (\<forall>i. length (D i) = 512) \<and> (\<exists>k h'. busy_for io b k h h' \<and> idle h' D)) \<and>
     (\<forall>h D. idle h D \<longrightarrow> rep h D \<and>
        (\<forall>lba<n. \<exists>k<999999. \<exists>h1 ws h2. drq_after io b k (start_cmd io b sel lba 0x20 h) h1 \<and>
           inws io b 256 h1 = (ws, h2) \<and> words_bytes ws = D lba \<and> rep h2 D) \<and>
        (\<forall>lba<n. \<exists>k<999999. \<exists>h1. drq_after io b k (start_cmd io b sel lba 0x30 h) h1 \<and>
           (\<forall>ws. length ws = 256 \<longrightarrow> rep (io_outb io (b + 7) 0xE7 (outws io b ws h1)) (D(lba := words_bytes ws)))))"

definition drive_sel :: "ata_drive \<Rightarrow> nat" where
  "drive_sel d = (if slave d then 0xF0 else 0xE0)"

definition disk_byte :: "(nat \<Rightarrow> u8 list) \<Rightarrow> nat \<Rightarrow> u8" where
  "disk_byte D i = D (i div 512) ! (i mod 512)"

section \<open>Sectors\<close>

lemma low_byte: "ucast (drop_bit n (of_nat a :: u64) AND 0xFF) = (of_nat (a div 2 ^ n mod 256) :: u8)" if "a < 2 ^ 64"
proof -
  have "drop_bit n (of_nat a :: u64) AND 0xFF = take_bit 8 (drop_bit n (of_nat a))"
    by (simp add: take_bit_eq_mask mask_eq_exp_minus_1)
  also have "\<dots> = of_nat (a div 2 ^ n mod 256)"
    using that by (simp add: word_unat_eq_iff unat_take_bit_mod unat_drop_bit_eq unat_of_nat) (simp add: drop_bit_eq_div)
  finally show ?thesis
    using mod_less_divisor [of 256 "a div 2 ^ n"] by (simp add: unsigned_of_nat take_bit_nat_eq_self)
qed

lemma below16: "v < 16 \<Longrightarrow> v \<in> {0, 1, 2, 3, 4, 5, 6, 7, 8, 9, 10, 11, 12, 13, 14, 15}" for v :: nat
  by (auto simp: numeral_eq_Suc less_Suc_eq)

lemma select_byte: "v < 16 \<Longrightarrow> (0xE0 :: u8) OR of_nat v = of_nat (0xE0 + v)" "v < 16 \<Longrightarrow> (0xF0 :: u8) OR of_nat v = of_nat (0xF0 + v)"
  for v :: nat
  by (drule below16, auto)+

lemma ata_command_eq:
  assumes "lba < 2 ^ 28"
  shows "ata_command io d (of_nat lba) cmd h = start_cmd io (base d) (drive_sel d) lba cmd h"
proof -
  have l: "lba < 2 ^ 64" using assms by simp
  have v: "lba div 16777216 < 16" using assms by (simp add: div_less_iff_less_mult)
  have "drop_bit 24 (of_nat lba :: u64) = of_nat (lba div 16777216)"
    using l by (simp add: word_unat_eq_iff unat_drop_bit_eq unat_of_nat) (simp add: drop_bit_eq_div)
  then have "(ucast (drop_bit 24 (of_nat lba :: u64)) :: u8) = of_nat (lba div 16777216)"
    using v by (simp add: unsigned_of_nat take_bit_nat_eq_self)
  moreover have "(of_nat n :: u8) AND 0x0F = of_nat n" if "n < 16" for n
    using below16 [OF that] by auto
  ultimately have hi: "(ucast (drop_bit 24 (of_nat lba :: u64)) :: u8) AND 0x0F = of_nat (lba div 16777216)"
    using v by simp
  have sel: "drive_select d OR ATA_DRIVE_LBA = of_nat (drive_sel d)"
    by (simp add: drive_select_def drive_sel_def ATA_DRIVE_SLAVE_def ATA_DRIVE_MASTER_def ATA_DRIVE_LBA_def)
  have "(of_nat (drive_sel d) :: u8) OR of_nat (lba div 16777216) = of_nat (drive_sel d + lba div 16777216)"
    using select_byte [OF v] by (simp add: drive_sel_def)
  with hi sel have b6: "drive_select d OR ATA_DRIVE_LBA OR (ucast (drop_bit 24 (of_nat lba :: u64)) AND 0x0F) =
      of_nat (drive_sel d + lba div 16777216)" by (metis or.assoc)
  have "(ucast (of_nat lba AND 0xFF :: u64) :: u8) = of_nat (lba mod 256)" using low_byte [OF l, of 0] by simp
  with b6 low_byte [OF l, of 8] low_byte [OF l, of 16] show ?thesis
    by (simp add: ata_command_def start_cmd_def Let_def ATA_DRIVE_def ATA_SECCOUNT_def ATA_LBA_LO_def ATA_LBA_MID_def
      ATA_LBA_HI_def ATA_CMD_def or.assoc)
qed

lemma wait_bsy: "busy_for io b k h h' \<Longrightarrow> ata_wait_bsy io b h = Some h'"
  by (induction io b k h h' rule: busy_for.induct) (auto simp: ata_wait_bsy.simps ATA_STATUS_def ATA_SR_BSY_def)

lemma ata_diskD:
  assumes "ata_disk io b sel n rep idle"
  shows "n \<le> 2 ^ 28" and "rep h D \<Longrightarrow> length (D i) = 512" and "rep h D \<Longrightarrow> \<exists>h'. ata_wait_bsy io b h = Some h' \<and> idle h' D"
    and "idle h D \<Longrightarrow> rep h D"
    and "idle h D \<Longrightarrow> lba < n \<Longrightarrow> \<exists>k<999999. \<exists>h1 ws h2. drq_after io b k (start_cmd io b sel lba 0x20 h) h1 \<and>
      inws io b 256 h1 = (ws, h2) \<and> words_bytes ws = D lba \<and> rep h2 D"
    and "idle h D \<Longrightarrow> lba < n \<Longrightarrow> \<exists>k<999999. \<exists>h1. drq_after io b k (start_cmd io b sel lba 0x30 h) h1 \<and>
      (\<forall>ws. length ws = 256 \<longrightarrow> rep (io_outb io (b + 7) 0xE7 (outws io b ws h1)) (D(lba := words_bytes ws)))"
  using assms unfolding ata_disk_def by (blast dest: wait_bsy)+

lemma drq_loop: "drq_after io b k h h' \<Longrightarrow> k < n \<Longrightarrow> ata_drq_loop io b n h = (None, h')"
proof (induction io b k h h' arbitrary: n rule: drq_after.induct)
  case (1 io b h h')
  then show ?case by (cases n) (auto simp: ATA_STATUS_def ATA_SR_ERR_def ATA_SR_DRQ_def)
next
  case (2 io b k h h')
  then show ?case by (cases n) (auto simp: ATA_STATUS_def ATA_SR_ERR_def ATA_SR_DRQ_def)
qed

lemma words_bytes_words: "even (length bs) \<Longrightarrow> words_bytes (bytes_words bs) = bs \<and> length (bytes_words bs) = length bs div 2"
proof (induction bs rule: bytes_words.induct)
  case (1 a b bs)
  have "ucast ((ucast a OR push_bit 8 (ucast b)) :: u16) = a"
    by (rule bit_word_eqI) (auto simp: bit_simps)
  moreover have "ucast (drop_bit 8 ((ucast a OR push_bit 8 (ucast b)) :: u16)) = b"
    by (rule bit_word_eqI) (auto simp: bit_simps dest: bit_imp_le_length)
  ultimately show ?case using 1 by simp
qed auto

lemma ata_read_sector_eq:
  assumes disk: "ata_disk io (base d) (drive_sel d) n rep idle" and rep: "rep h D" and lba: "lba < n"
  shows "\<exists>h'. ata_read_sector io d (of_nat lba) h = Some (Inr (D lba), h') \<and> rep h' D"
proof -
  note dk = ata_diskD [OF disk]
  have l: "lba < 2 ^ 28" using lba dk(1) by linarith
  from dk(3) [OF rep] obtain g where g: "ata_wait_bsy io (base d) h = Some g" "idle g D" by blast
  from dk(5) [OF g(2) lba] obtain k h1 ws h2 where k: "k < 999999"
    "drq_after io (base d) k (start_cmd io (base d) (drive_sel d) lba 0x20 g) h1"
    "inws io (base d) 256 h1 = (ws, h2)" "words_bytes ws = D lba" "rep h2 D" by blast
  then show ?thesis
    using g drq_loop [OF k(2,1)] ata_command_eq [OF l, of io d]
    by (simp add: ata_read_sector_def ata_wait_drq_def ATA_CMD_READ_PIO_def ATA_DATA_def)
qed

lemma ata_write_sector_eq:
  assumes disk: "ata_disk io (base d) (drive_sel d) n rep idle" and rep: "rep h D" and lba: "lba < n" and len: "length bs = 512"
  shows "\<exists>h'. ata_write_sector io d (of_nat lba) bs h = Some (None, h') \<and> idle h' (D(lba := bs))"
proof -
  note dk = ata_diskD [OF disk]
  have l: "lba < 2 ^ 28" using lba dk(1) by linarith
  from dk(3) [OF rep] obtain g where g: "ata_wait_bsy io (base d) h = Some g" "idle g D" by blast
  from dk(6) [OF g(2) lba] obtain k h1 where k: "k < 999999"
    "drq_after io (base d) k (start_cmd io (base d) (drive_sel d) lba 0x30 g) h1"
    "\<And>ws. length ws = 256 \<Longrightarrow> rep (io_outb io (base d + 7) 0xE7 (outws io (base d) ws h1)) (D(lba := words_bytes ws))" by blast
  have "rep (io_outb io (base d + 7) 0xE7 (outws io (base d) (bytes_words bs) h1)) (D(lba := bs))"
    using k(3) [of "bytes_words bs"] words_bytes_words [of bs] len by simp
  from dk(3) [OF this] obtain h' where
    w: "ata_wait_bsy io (base d) (io_outb io (base d + 7) 0xE7 (outws io (base d) (bytes_words bs) h1)) = Some h'"
    and r: "idle h' (D(lba := bs))" by blast
  have "ata_write_sector io d (of_nat lba) bs h = Some (None, h')"
    using g(1) w drq_loop [OF k(2,1)] ata_command_eq [OF l, of io d]
    by (simp add: ata_write_sector_def ata_wait_drq_def ATA_CMD_WRITE_PIO_def ATA_DATA_def ATA_CMD_def ATA_CMD_FLUSH_def)
  with r show ?thesis by blast
qed

section \<open>Transfers\<close>

lemma sdiv_nat: "int m sdiv 512 = int (m div 512)" "int m smod 512 = int (m mod 512)"
  by (cases "m = 0", simp_all add: signed_divide_int_def signed_modulo_int_def zdiv_int zmod_int)+

lemma word_of_int_of_nat: "(word_of_int (int m) :: 'a::len word) = of_nat m"
  by simp

lemma chunk_at_eq:
  assumes "0 \<le> pos" and "n < count" and "nat pos + unat count \<le> 512 * N"
  obtains c :: u32 where "chunk_at pos n count = (of_nat ((nat pos + unat n) div 512), of_nat ((nat pos + unat n) mod 512), c)"
    and "unat c = min (512 - (nat pos + unat n) mod 512) (unat count - unat n)"
    and "unat (of_nat ((nat pos + unat n) mod 512) :: u32) = (nat pos + unat n) mod 512"
    and "(nat pos + unat n) div 512 < N"
proof -
  let ?q = "nat pos + unat n"
  define c where "c = min (512 - of_nat (?q mod 512)) (count - n)"
  have q: "pos + int (unat n) = int ?q" using assms(1) by simp
  have m: "?q mod 512 < 512" by simp
  then have o: "unat (of_nat (?q mod 512) :: u32) = ?q mod 512" by (simp add: unat_of_nat)
  then have "(of_nat (?q mod 512) :: u32) \<le> 512" using m by (simp add: word_le_nat_alt)
  then have "unat ((512 :: u32) - of_nat (?q mod 512)) = 512 - ?q mod 512" using o by (simp add: unat_sub)
  moreover have "unat (count - n) = unat count - unat n" using assms(2) by (simp add: unat_sub)
  ultimately have "unat c = min (512 - ?q mod 512) (unat count - unat n)"
    unfolding c_def by (auto simp: min_def word_le_nat_alt)
  moreover have "?q div 512 < N"
    using assms(2,3) by (simp add: div_less_iff_less_mult word_less_nat_alt)
  moreover have "chunk_at pos n count = (of_nat (?q div 512), of_nat (?q mod 512), c)"
    unfolding chunk_at_def Let_def q c_def sdiv_nat by (simp only: word_of_int_of_nat)
  ultimately show thesis using that o by blast
qed

lemma chunk_bounds:
  fixes n c count :: u32
  assumes "n < count" and c: "unat c = min (512 - q mod 512) (unat count - unat n)"
  shows "0 < unat c" and "unat n + unat c \<le> unat count" and "q mod 512 + unat c \<le> 512"
    and "unat (n + c) = unat n + unat c" and "n + c \<le> count"
proof -
  have lt: "unat n < unat count" using assms(1) by (simp add: word_less_nat_alt)
  have m: "q mod 512 < 512" by simp
  show "0 < unat c" "q mod 512 + unat c \<le> 512" using c lt m by linarith+
  show le: "unat n + unat c \<le> unat count" using c lt by linarith
  then show nc: "unat (n + c) = unat n + unat c"
    using unat_less_2p32 [of count] by (intro unat_add_nowrap) simp
  show "n + c \<le> count" using nc le by (simp add: word_le_nat_alt)
qed

lemma same_sector:
  assumes "q mod 512 + i < (512 :: nat)"
  shows "(q + i) div 512 = q div 512" and "(q + i) mod 512 = q mod 512 + i"
proof -
  have "q + i = (q mod 512 + i) + q div 512 * 512" by simp
  then show "(q + i) div 512 = q div 512" and "(q + i) mod 512 = q mod 512 + i"
    using assms by (metis div_mult_self1 div_less add_0_right zero_neq_numeral, metis mod_mult_self1 mod_less)
qed

lemma sector_slice:
  assumes "\<And>k. length (D k) = 512" and "q mod 512 + c \<le> 512"
  shows "take c (drop (q mod 512) (D (q div 512))) = map (disk_byte D) [q..<q + c]"
  using assms by (intro nth_equalityI) (auto simp: disk_byte_def same_sector)

lemma ata_read_loop_eq:
  assumes disk: "ata_disk io (base d) (drive_sel d) N rep idle" and "rep h D"
    and pos: "0 \<le> pos" "nat pos + unat count \<le> 512 * N" and "n \<le> count"
  shows "\<exists>h'. ata_read_loop io d pos count n out h =
      Some ((Inr (out @ map (disk_byte D) [nat pos + unat n..<nat pos + unat count]), pos + int (unat count)), h') \<and> rep h' D"
  using assms(2,5)
proof (induction "unat count - unat n" arbitrary: n out h rule: less_induct)
  case less
  show ?case
  proof (cases "n < count")
    case False
    with less.prems have "n = count" by simp
    with less.prems show ?thesis by (simp add: ata_read_loop.simps)
  next
    case True
    let ?q = "nat pos + unat n"
    obtain c where c: "chunk_at pos n count = (of_nat (?q div 512), of_nat (?q mod 512), c)"
      "unat c = min (512 - ?q mod 512) (unat count - unat n)" "unat (of_nat (?q mod 512) :: u32) = ?q mod 512" "?q div 512 < N"
      by (rule chunk_at_eq [OF pos(1) True pos(2)])
    from ata_read_sector_eq [OF disk less.prems(1) c(4)] obtain g where
      g: "ata_read_sector io d (of_nat (?q div 512)) h = Some (Inr (D (?q div 512)), g)" "rep g D" by blast
    note cn = chunk_bounds [OF True c(2)]
    note nc = cn(4) and le = cn(5)
    have sl: "take (unat c) (drop (?q mod 512) (D (?q div 512))) = map (disk_byte D) [?q..<?q + unat c]"
      using ata_diskD(2) [OF disk g(2)] cn(3) by (rule sector_slice)
    have "ata_read_loop io d pos count n out h =
        ata_read_loop io d pos count (n + c) (out @ map (disk_byte D) [?q..<?q + unat c]) g"
      using True c(1,3) g(1) cn(3) sl by (subst ata_read_loop.simps) simp
    moreover have "[?q..<nat pos + unat count] = [?q..<?q + unat c] @ [?q + unat c..<nat pos + unat count]"
      using cn(2) upt_add_eq_append [of ?q "?q + unat c" "unat count - unat n - unat c"] by (simp add: add.assoc)
    moreover have "unat count - unat (n + c) < unat count - unat n" using nc cn(1,2) by linarith
    ultimately show ?thesis
      using less.hyps [OF _ g(2) le, of "out @ map (disk_byte D) [?q..<?q + unat c]"] nc by (simp add: add.assoc)
  qed
qed

lemma patch_byte:
  assumes len: "\<And>k. length (D k) = 512" and fit: "q mod 512 + length bs \<le> 512"
  shows "disk_byte (D(q div 512 := patch (D (q div 512)) (q mod 512) bs)) i =
    (if q \<le> i \<and> i < q + length bs then bs ! (i - q) else disk_byte D i)"
proof (cases "i div 512 = q div 512")
  case False
  have "i div 512 = q div 512" if "q \<le> i \<and> i < q + length bs"
  proof -
    have "q mod 512 + (i - q) < 512" using that fit by linarith
    from same_sector(1) [OF this] that show ?thesis by simp
  qed
  with False show ?thesis by (auto simp: disk_byte_def)
next
  case True
  let ?o = "q mod 512" and ?j = "i mod 512"
  have qi: "q = q div 512 * 512 + ?o" "i = q div 512 * 512 + ?j" using True by (metis div_mult_mod_eq)+
  then have eq: "q \<le> i \<and> i < q + length bs \<longleftrightarrow> ?o \<le> ?j \<and> ?j < ?o + length bs" "?o \<le> ?j \<Longrightarrow> i - q = ?j - ?o"
    by linarith+
  have "?j < length (D (q div 512))" using len by simp
  then have "patch (D (q div 512)) ?o bs ! ?j = (if ?o \<le> ?j \<and> ?j < ?o + length bs then bs ! (?j - ?o) else D (q div 512) ! ?j)"
    using len [of "q div 512"] fit by (auto simp: patch_def nth_append min_def)
  with True eq show ?thesis by (auto simp: disk_byte_def)
qed

lemma ata_fill_patch:
  assumes disk: "ata_disk io (base d) (drive_sel d) N rep idle" and rep: "rep h D" and lba: "lba < N"
    and st: "length stale = 512" and bs: "off + length bs \<le> 512" and p: "\<not> partial \<Longrightarrow> off = 0 \<and> length bs = 512"
  shows "\<exists>sector h'. ata_fill io d (of_nat lba) partial stale h = Some (sector, h') \<and> rep h' D \<and>
    patch sector off bs = patch (D lba) off bs"
proof (cases partial)
  case True
  with ata_read_sector_eq [OF disk rep lba] show ?thesis by (auto simp: ata_fill_def)
next
  case False
  with p rep st ata_diskD(2) [OF disk rep, of lba] show ?thesis by (auto simp: ata_fill_def patch_def)
qed

lemma ata_write_loop_eq:
  assumes disk: "ata_disk io (base d) (drive_sel d) N rep idle" and "rep h D"
    and pos: "0 \<le> pos" "nat pos + unat count \<le> 512 * N" and "n \<le> count" and data: "length data = unat count"
    and st: "\<And>n. length (stale n) = 512"
  shows "\<exists>h' D'. ata_write_loop io d stale pos data count n h = Some ((Inr (unat count), pos + int (unat count)), h') \<and> rep h' D' \<and>
    (idle h D \<or> n < count \<longrightarrow> idle h' D') \<and>
    (\<forall>i. disk_byte D' i = (if nat pos + unat n \<le> i \<and> i < nat pos + unat count then data ! (i - nat pos) else disk_byte D i))"
  using assms(2,5)
proof (induction "unat count - unat n" arbitrary: n h D rule: less_induct)
  case less
  show ?case
  proof (cases "n < count")
    case False
    with less.prems have "n = count" by simp
    with less.prems show ?thesis by (auto simp: ata_write_loop.simps intro!: exI [of _ D])
  next
    case True
    let ?q = "nat pos + unat n"
    obtain c where c: "chunk_at pos n count = (of_nat (?q div 512), of_nat (?q mod 512), c)"
      "unat c = min (512 - ?q mod 512) (unat count - unat n)" "unat (of_nat (?q mod 512) :: u32) = ?q mod 512" "?q div 512 < N"
      by (rule chunk_at_eq [OF pos(1) True pos(2)])
    let ?bs = "take (unat c) (drop (unat n) data)" and ?off = "of_nat (?q mod 512) :: u32"
    note cn = chunk_bounds [OF True c(2)]
    note nc = cn(4) and le = cn(5)
    have lb: "length ?bs = unat c" using data cn(2) by simp
    have full: "?q mod 512 = 0 \<and> length ?bs = 512" if "\<not> (?off \<noteq> 0 \<or> c < 512)"
      using that c(2,3) lb by (auto simp: word_less_nat_alt)
    have fit: "?q mod 512 + length ?bs \<le> 512" using lb cn(3) by simp
    from ata_fill_patch [where partial = "?off \<noteq> 0 \<or> c < 512", OF disk less.prems(1) c(4) st [of n] fit full] obtain sector g where
      f: "ata_fill io d (of_nat (?q div 512)) (?off \<noteq> 0 \<or> c < 512) (stale n) h = Some (sector, g)" "rep g D"
        "patch sector (?q mod 512) ?bs = patch (D (?q div 512)) (?q mod 512) ?bs" by blast
    let ?P = "patch (D (?q div 512)) (?q mod 512) ?bs" and ?D = "D(?q div 512 := patch (D (?q div 512)) (?q mod 512) ?bs)"
    have "length ?P = 512" using ata_diskD(2) [OF disk f(2)] lb cn(3) by (simp add: patch_def)
    from ata_write_sector_eq [OF disk f(2) c(4) this] obtain g' where
      w: "ata_write_sector io d (of_nat (?q div 512)) ?P g = Some (None, g')" "idle g' ?D" by blast
    have rg: "rep g' ?D" using ata_diskD(4) [OF disk w(2)] .
    have "ata_write_loop io d stale pos data count n h = ata_write_loop io d stale pos data count (n + c) g'"
      using True c(1,3) f(1,3) w(1) cn(3) by (subst ata_write_loop.simps) simp
    moreover have "unat count - unat (n + c) < unat count - unat n" using nc cn(1,2) by linarith
    moreover have "disk_byte ?D i = (if ?q \<le> i \<and> i < ?q + unat c then data ! (i - nat pos) else disk_byte D i)" for i
      using patch_byte [of D ?q ?bs i] ata_diskD(2) [OF disk f(2)] lb cn data by auto
    moreover have "(if nat pos + unat (n + c) \<le> i \<and> i < nat pos + unat count then data ! (i - nat pos)
        else if ?q \<le> i \<and> i < ?q + unat c then data ! (i - nat pos) else disk_byte D i) =
      (if ?q \<le> i \<and> i < nat pos + unat count then data ! (i - nat pos) else disk_byte D i)" for i
      using nc cn(2) by (simp split: if_splits)
    ultimately show ?thesis using less.hyps [OF _ rg le] w(2) True by (simp only: simp_thms)
  qed
qed

section \<open>A controller\<close>

text \<open>
  A primary controller with one drive of 2048 sectors: the registers, for how many readings the drive is still busy, the words still to
  be read, whether a write is under way and the words written since, and the sectors.  A flush stores the sector
  that was written.  A busy drive ignores what is written to its ports.
\<close>

record ata_sim =
  sim_regs :: "u16 \<Rightarrow> u8"
  sim_busy :: nat
  sim_out :: "u16 list"
  sim_wr :: bool
  sim_in :: "u16 list"
  sim_disk :: "nat \<Rightarrow> u8 list"

definition sim_lba :: "ata_sim \<Rightarrow> nat" where
  "sim_lba h = unat (sim_regs h 3) + 256 * unat (sim_regs h 4) + 65536 * unat (sim_regs h 5) + 16777216 * (unat (sim_regs h 6) mod 16)"

definition sim_outb :: "u16 \<Rightarrow> u8 \<Rightarrow> ata_sim \<Rightarrow> ata_sim" where
  "sim_outb p v h =
     (let r = p - ATA_PRIMARY
      in if sim_busy h > 0 then h
         else if r \<noteq> 7 then h\<lparr>sim_regs := (sim_regs h)(r := v)\<rparr>
         else if v = 0x20 \<and> sim_lba h < 2048 then h\<lparr>sim_busy := 2, sim_out := bytes_words (sim_disk h (sim_lba h))\<rparr>
         else if v = 0x30 \<and> sim_lba h < 2048 then h\<lparr>sim_busy := 1, sim_wr := True, sim_in := []\<rparr>
         else if v = 0xE7 \<and> sim_wr h then h\<lparr>sim_busy := 3, sim_wr := False, sim_disk := (sim_disk h)(sim_lba h := words_bytes (sim_in h))\<rparr>
         else h)"

definition sim_status :: "ata_sim \<Rightarrow> u8 \<times> ata_sim" where
  "sim_status h =
     (if sim_busy h > 0 then (0x80, h\<lparr>sim_busy := sim_busy h - 1\<rparr>)
      else (if sim_out h \<noteq> [] \<or> sim_wr h then 0x48 else 0x40, h))"

definition ata_sim_io :: "ata_sim ata_io" where
  "ata_sim_io = \<lparr>io_inb = (\<lambda>p h. sim_status h), io_inw = (\<lambda>p h. (hd (sim_out h), h\<lparr>sim_out := tl (sim_out h)\<rparr>)),
     io_outb = sim_outb, io_outw = (\<lambda>p w h. h\<lparr>sim_in := sim_in h @ [w]\<rparr>)\<rparr>"

definition sim_rep :: "ata_sim \<Rightarrow> (nat \<Rightarrow> u8 list) \<Rightarrow> bool" where
  "sim_rep h D \<longleftrightarrow> sim_disk h = D \<and> (\<forall>i. length (D i) = 512)"

definition sim_idle :: "ata_sim \<Rightarrow> (nat \<Rightarrow> u8 list) \<Rightarrow> bool" where
  "sim_idle h D \<longleftrightarrow> sim_rep h D \<and> sim_busy h = 0"

lemma sim_status_step:
  "sim_busy h = Suc k \<Longrightarrow> io_inb ata_sim_io p h = (0x80, h\<lparr>sim_busy := k\<rparr>)"
  "sim_busy h = 0 \<Longrightarrow> io_inb ata_sim_io p h = (if sim_out h \<noteq> [] \<or> sim_wr h then 0x48 else 0x40, h)"
  by (simp_all add: ata_sim_io_def sim_status_def)

lemma sim_busy_for: "sim_busy h = k \<Longrightarrow> busy_for ata_sim_io b k h (h\<lparr>sim_busy := 0\<rparr>)"
proof (induction k arbitrary: h)
  case 0
  then have "h\<lparr>sim_busy := 0\<rparr> = h" by simp
  with 0 show ?case by (simp add: sim_status_step)
next
  case (Suc k)
  from Suc.IH [of "h\<lparr>sim_busy := k\<rparr>"] Suc.prems show ?case by (simp add: sim_status_step)
qed

lemma sim_drq: "sim_busy h = k \<Longrightarrow> sim_out h \<noteq> [] \<or> sim_wr h \<Longrightarrow> drq_after ata_sim_io b k h (h\<lparr>sim_busy := 0\<rparr>)"
proof (induction k arbitrary: h)
  case 0
  then have "h\<lparr>sim_busy := 0\<rparr> = h" by simp
  with 0 show ?case by (auto simp: sim_status_step)
next
  case (Suc k)
  from Suc.IH [of "h\<lparr>sim_busy := k\<rparr>"] Suc.prems show ?case by (simp add: sim_status_step)
qed

lemma sim_inws: "n \<le> length (sim_out h) \<Longrightarrow> inws ata_sim_io b n h = (take n (sim_out h), h\<lparr>sim_out := drop n (sim_out h)\<rparr>)"
proof (induction n arbitrary: h)
  case (Suc n)
  then show ?case by (cases "sim_out h") (auto simp: ata_sim_io_def)
qed simp

lemma sim_outws: "outws ata_sim_io b ws h = h\<lparr>sim_in := sim_in h @ ws\<rparr>"
  by (induction ws arbitrary: h) (simp_all add: outws_def ata_sim_io_def)

lemma sim_start:
  assumes "lba < 2 ^ 28" and idle: "sim_busy h = 0"
  shows "\<exists>r. start_cmd ata_sim_io 0x1F0 0xE0 lba cmd h = sim_outb 0x1F7 cmd (h\<lparr>sim_regs := r\<rparr>) \<and> sim_lba (h\<lparr>sim_regs := r\<rparr>) = lba"
proof -
  let ?r = "(sim_regs h)(6 := of_nat (0xE0 + lba div 16777216), 2 := 1, 3 := of_nat (lba mod 256),
    4 := of_nat (lba div 256 mod 256), 5 := of_nat (lba div 65536 mod 256))"
  have v: "lba div 16777216 < 16" using assms by (simp add: div_less_iff_less_mult)
  moreover have "unat (of_nat (0xE0 + v) :: u8) mod 16 = v" if "v < 16" for v
    using below16 [OF that] by auto
  ultimately have u: "unat (of_nat (0xE0 + lba div 16777216) :: u8) mod 16 = lba div 16777216" by blast
  have "lba div 256 div 256 = lba div 65536" "lba div 65536 div 256 = lba div 16777216" by (simp_all flip: div_mult2_eq)
  then have "lba = lba mod 256 + 256 * (lba div 256 mod 256) + 65536 * (lba div 65536 mod 256) + 16777216 * (lba div 16777216)"
    using mult_div_mod_eq [of 256 lba] mult_div_mod_eq [of 256 "lba div 256"] mult_div_mod_eq [of 256 "lba div 65536"] by linarith
  then have "sim_lba (h\<lparr>sim_regs := ?r\<rparr>) = lba" using u by (simp add: sim_lba_def unat_of_nat)
  moreover have "start_cmd ata_sim_io 0x1F0 0xE0 lba cmd h = sim_outb 0x1F7 cmd (h\<lparr>sim_regs := ?r\<rparr>)"
    using idle by (simp add: start_cmd_def ata_sim_io_def sim_outb_def ATA_PRIMARY_def)
  ultimately show ?thesis by blast
qed

lemma sim_read:
  assumes "sim_idle h D" and "lba < 2048"
  shows "\<exists>k<999999. \<exists>h1 ws h2. drq_after ata_sim_io 0x1F0 k (start_cmd ata_sim_io 0x1F0 0xE0 lba 0x20 h) h1 \<and>
    inws ata_sim_io 0x1F0 256 h1 = (ws, h2) \<and> words_bytes ws = D lba \<and> sim_rep h2 D"
proof -
  have rep: "sim_rep h D" and b: "sim_busy h = 0" using assms(1) by (auto simp: sim_idle_def)
  from sim_start [of lba h] assms(2) b obtain r where
    r: "start_cmd ata_sim_io 0x1F0 0xE0 lba 0x20 h = sim_outb 0x1F7 0x20 (h\<lparr>sim_regs := r\<rparr>)" "sim_lba (h\<lparr>sim_regs := r\<rparr>) = lba" by fastforce
  let ?h = "h\<lparr>sim_regs := r, sim_busy := 2, sim_out := bytes_words (D lba)\<rparr>"
  have s: "start_cmd ata_sim_io 0x1F0 0xE0 lba 0x20 h = ?h"
    using rep r b assms(2) by (simp add: sim_outb_def ATA_PRIMARY_def sim_rep_def)
  have l: "length (D lba) = 512" using rep by (simp add: sim_rep_def)
  then have w: "words_bytes (bytes_words (D lba)) = D lba" "length (bytes_words (D lba)) = 256"
    using words_bytes_words [of "D lba"] by simp_all
  then have ne: "bytes_words (D lba) \<noteq> []" by auto
  have "inws ata_sim_io 0x1F0 256 (?h\<lparr>sim_busy := 0\<rparr>) = (bytes_words (D lba), h\<lparr>sim_regs := r, sim_busy := 0, sim_out := []\<rparr>)"
    using w by (simp add: sim_inws)
  moreover have "sim_rep (h\<lparr>sim_regs := r, sim_busy := 0, sim_out := []\<rparr>) D" using rep by (simp add: sim_rep_def)
  moreover have "drq_after ata_sim_io 0x1F0 2 ?h (?h\<lparr>sim_busy := 0\<rparr>)" by (rule sim_drq) (simp_all add: ne)
  ultimately show ?thesis using s w(1) by (intro exI [of _ 2]) auto
qed

lemma sim_write:
  assumes "sim_idle h D" and "lba < 2048"
  shows "\<exists>k<999999. \<exists>h1. drq_after ata_sim_io 0x1F0 k (start_cmd ata_sim_io 0x1F0 0xE0 lba 0x30 h) h1 \<and>
    (\<forall>ws. length ws = 256 \<longrightarrow> sim_rep (io_outb ata_sim_io (0x1F0 + 7) 0xE7 (outws ata_sim_io 0x1F0 ws h1)) (D(lba := words_bytes ws)))"
proof -
  have rep: "sim_rep h D" and b: "sim_busy h = 0" using assms(1) by (auto simp: sim_idle_def)
  from sim_start [of lba h] assms(2) b obtain r where
    r: "start_cmd ata_sim_io 0x1F0 0xE0 lba 0x30 h = sim_outb 0x1F7 0x30 (h\<lparr>sim_regs := r\<rparr>)" "sim_lba (h\<lparr>sim_regs := r\<rparr>) = lba" by fastforce
  let ?h = "h\<lparr>sim_regs := r, sim_busy := 1, sim_wr := True, sim_in := []\<rparr>"
  have s: "start_cmd ata_sim_io 0x1F0 0xE0 lba 0x30 h = ?h"
    using r b assms(2) by (simp add: sim_outb_def ATA_PRIMARY_def)
  have lb: "sim_lba (h\<lparr>sim_regs := r, sim_wr := True, sim_busy := 0, sim_in := ws\<rparr>) = lba" for ws using r(2) by (simp add: sim_lba_def)
  have len: "length (words_bytes ws) = 2 * length ws" for ws by (induction ws) auto
  have "sim_rep (io_outb ata_sim_io (0x1F0 + 7) 0xE7 (outws ata_sim_io 0x1F0 ws (?h\<lparr>sim_busy := 0\<rparr>))) (D(lba := words_bytes ws))"
    if "length ws = 256" for ws
    using that rep lb len by (simp add: sim_outws) (simp add: ata_sim_io_def sim_outb_def ATA_PRIMARY_def sim_rep_def)
  moreover have "drq_after ata_sim_io 0x1F0 1 ?h (?h\<lparr>sim_busy := 0\<rparr>)" by (rule sim_drq) simp_all
  ultimately show ?thesis using s by (intro exI [of _ 1]) auto
qed

lemma ata_sim_disk: "ata_disk ata_sim_io 0x1F0 0xE0 2048 sim_rep sim_idle"
proof -
  have "\<exists>k h'. busy_for ata_sim_io 0x1F0 k h h' \<and> sim_idle h' D" if "sim_rep h D" for h D
    using sim_busy_for [of h _ "0x1F0"] that
    by (intro exI [of _ "sim_busy h"] exI [of _ "h\<lparr>sim_busy := 0\<rparr>"]) (auto simp: sim_idle_def sim_rep_def)
  then show ?thesis unfolding ata_disk_def
    using sim_read sim_write by (simp add: sim_rep_def sim_idle_def)
qed

definition ata_sim_boot :: ata_sim where
  "ata_sim_boot = \<lparr>sim_regs = (\<lambda>_. 0), sim_busy = 5, sim_out = [], sim_wr = False, sim_in = [], sim_disk = (\<lambda>i. replicate 512 (of_nat i))\<rparr>"

lemma sim_boot_rep: "sim_rep ata_sim_boot (\<lambda>i. replicate 512 (of_nat i))"
  by (simp add: sim_rep_def ata_sim_boot_def)

definition hda :: ata_drive where
  "hda = \<lparr>exists = True, lba48 = False, base = 0x1F0, slave = False, sectors = 2048, model = []\<rparr>"

section \<open>Properties\<close>





end
