(* ===== verification/Serial.thy ===== *)
theory Serial
  imports Ring
begin

text \<open>
  The serial console, after \<^verbatim>\<open>drivers/serial.c\<close>.  The UART is a parameter: \<open>lsr i\<close> is the value the line
  status register has when it is read for the \<open>i\<close>-th time, and \<open>rbr i\<close> the byte the \<open>i\<close>-th read of the
  data register returns.  The state counts these reads and keeps the log of all port writes.  A wait
  for the transmitter that never ends has no result.  As for pipes, \<open>sleep\<close> stands for what happens
  while a reader sleeps.
\<close>

section \<open>State and operations\<close>

definition COM1_BASE :: u16 where "COM1_BASE = 0x3F8"
definition UART_DATA :: u16 where "UART_DATA = 0"
definition UART_IER :: u16 where "UART_IER = 1"
definition UART_FCR :: u16 where "UART_FCR = 2"
definition UART_LCR :: u16 where "UART_LCR = 3"
definition UART_MCR :: u16 where "UART_MCR = 4"
definition LSR_DR :: u8 where "LSR_DR = 0x01"
definition LSR_THRE :: u8 where "LSR_THRE = 0x20"
definition SERIAL_BUF :: u32 where "SERIAL_BUF = 256"

record uart =
  lsr :: "nat \<Rightarrow> u8"
  rbr :: "nat \<Rightarrow> u8"

record serial =
  rx_buf :: "u8 list"
  rx_head :: u32
  rx_tail :: u32
  rx_size :: u32
  lsr_reads :: nat
  data_reads :: nat
  port_log :: "(u16 \<times> u8) list"

type_synonym rx_sleeper = "nat \<Rightarrow> serial \<Rightarrow> errno option \<times> serial"

definition serial_outb :: "u16 \<Rightarrow> u8 \<Rightarrow> serial \<Rightarrow> serial" where
  "serial_outb port v s = s\<lparr>port_log := port_log s @ [(port, v)]\<rparr>"

definition uart_init :: "u16 \<Rightarrow> u32 \<Rightarrow> serial \<Rightarrow> serial" where
  "uart_init base baud s =
     (let divisor = ucast (115200 div baud) :: u16;
          s = serial_outb (base + UART_IER) 0x00 s;
          s = serial_outb (base + UART_LCR) 0x80 s;
          s = serial_outb (base + UART_DATA) (ucast (divisor AND 0xFF)) s;
          s = serial_outb (base + UART_IER) (ucast (drop_bit 8 divisor AND 0xFF)) s;
          s = serial_outb (base + UART_LCR) 0x03 s;
          s = serial_outb (base + UART_FCR) 0xC7 s;
          s = serial_outb (base + UART_MCR) 0x0B s
      in serial_outb (base + UART_IER) 0x01 s)"

definition uart_tx_ready :: "uart \<Rightarrow> serial \<Rightarrow> bool \<times> serial" where
  "uart_tx_ready u s = (lsr u (lsr_reads s) AND LSR_THRE \<noteq> 0, s\<lparr>lsr_reads := lsr_reads s + 1\<rparr>)"

definition uart_rx_ready :: "uart \<Rightarrow> serial \<Rightarrow> bool \<times> serial" where
  "uart_rx_ready u s = (lsr u (lsr_reads s) AND LSR_DR \<noteq> 0, s\<lparr>lsr_reads := lsr_reads s + 1\<rparr>)"

partial_function (option) uart_putchar :: "uart \<Rightarrow> u16 \<Rightarrow> u8 \<Rightarrow> serial \<Rightarrow> serial option" where
  "uart_putchar u base c s =
     (case uart_tx_ready u s of
        (ready, s) \<Rightarrow> if ready then Some (serial_outb (base + UART_DATA) c s) else uart_putchar u base c s)"

definition serial_putchar :: "uart \<Rightarrow> u8 \<Rightarrow> serial \<Rightarrow> serial option" where
  "serial_putchar u c s =
     Option.bind (if c = 10 then uart_putchar u COM1_BASE 13 s else Some s) (uart_putchar u COM1_BASE c)"

text \<open>The loops of \<^verbatim>\<open>serial_puts\<close> (up to the terminating 0) and of \<^verbatim>\<open>serial_write_file\<close>.\<close>

fun serial_put_all :: "uart \<Rightarrow> u8 list \<Rightarrow> serial \<Rightarrow> serial option" where
  "serial_put_all u [] s = Some s"
| "serial_put_all u (c # cs) s = Option.bind (serial_putchar u c s) (serial_put_all u cs)"

definition serial_puts :: "uart \<Rightarrow> u8 list \<Rightarrow> serial \<Rightarrow> serial option" where
  "serial_puts u cs s = serial_put_all u (takeWhile (\<lambda>c. c \<noteq> 0) cs) s"

definition serial_write_file :: "uart \<Rightarrow> u8 list \<Rightarrow> serial \<Rightarrow> (nat \<times> serial) option" where
  "serial_write_file u data s = map_option (\<lambda>s. (length data, s)) (serial_put_all u data s)"

definition rx_put :: "u8 \<Rightarrow> serial \<Rightarrow> serial" where
  "rx_put c s =
     (if rx_size s < SERIAL_BUF
      then s\<lparr>rx_buf := (rx_buf s)[unat (rx_head s) := c], rx_head := (rx_head s + 1) mod SERIAL_BUF,
             rx_size := rx_size s + 1\<rparr>
      else s)"

partial_function (option) serial_irq_handler :: "uart \<Rightarrow> serial \<Rightarrow> serial option" where
  "serial_irq_handler u s =
     (case uart_rx_ready u s of
        (ready, s) \<Rightarrow>
          if ready
          then let c = rbr u (data_reads s)
               in serial_irq_handler u (rx_put c (s\<lparr>data_reads := data_reads s + 1\<rparr>))
          else Some s)"

definition rx_take :: "serial \<Rightarrow> u8 \<times> serial" where
  "rx_take s =
     (rx_buf s ! unat (rx_tail s), s\<lparr>rx_tail := (rx_tail s + 1) mod SERIAL_BUF, rx_size := rx_size s - 1\<rparr>)"

text \<open>\<open>out\<close> has the bytes read so far; \<open>k\<close> counts the sleeps.\<close>

partial_function (option) serial_read_loop ::
  "uart \<Rightarrow> rx_sleeper \<Rightarrow> nat \<Rightarrow> nat \<Rightarrow> u8 list \<Rightarrow> serial \<Rightarrow> ((errno + u8 list) \<times> serial) option" where
  "serial_read_loop u sleep k count out s =
     (if length out < count
      then if rx_size s > 0
           then case rx_take s of (c, s) \<Rightarrow>
                  case serial_putchar u c s of
                    None \<Rightarrow> None
                  | Some s \<Rightarrow>
                      if c = 10 \<or> c = 13 then Some (Inr (out @ [c]), s)
                      else serial_read_loop u sleep k count (out @ [c]) s
           else if length out > 0 then Some (Inr out, s)
           else case sleep k s of
             (Some e, s) \<Rightarrow> Some (if length out > 0 then Inr out else Inl e, s)
           | (None, s) \<Rightarrow> serial_read_loop u sleep (Suc k) count out s
      else Some (Inr out, s))"

definition serial_read_file ::
  "uart \<Rightarrow> rx_sleeper \<Rightarrow> u32 \<Rightarrow> serial \<Rightarrow> ((errno + u8 list) \<times> serial) option" where
  "serial_read_file u sleep count s = serial_read_loop u sleep 0 (unat count) [] s"

text \<open>The four 16-bit fields of \<^verbatim>\<open>struct winsize\<close> that \<^verbatim>\<open>TIOCGWINSZ\<close> fills in, or 0, or \<^verbatim>\<open>-ENOTTY\<close>.\<close>

datatype ioctl_result = Winsize u16 u16 u16 u16 | IoctlOk | IoctlError errno

definition serial_ioctl :: "u32 \<Rightarrow> ioctl_result" where
  "serial_ioctl cmd =
     (if cmd = 0x5413 then Winsize 24 80 0 0
      else if cmd = 0x5414 then IoctlOk
      else if cmd = 0x5401 \<or> cmd = 0x5402 then IoctlOk
      else IoctlError ENOTTY)"

definition serial_init :: "serial \<Rightarrow> serial" where
  "serial_init s = uart_init COM1_BASE 115200 (s\<lparr>rx_head := 0, rx_tail := 0, rx_size := 0\<rparr>)"

text \<open>The static buffer before the driver is set up; no port has been used.\<close>

definition serial_boot :: serial where
  "serial_boot =
     \<lparr>rx_buf = replicate 256 0, rx_head = 0, rx_tail = 0, rx_size = 0, lsr_reads = 0, data_reads = 0, port_log = []\<rparr>"

section \<open>Sending\<close>

text \<open>The transmitter becomes ready again and again, as a UART whose line runs does.\<close>

definition tx_live :: "uart \<Rightarrow> bool" where
  "tx_live u \<longleftrightarrow> (\<forall>i. \<exists>j\<ge>i. lsr u j AND LSR_THRE \<noteq> 0)"

text \<open>Changes of the UART side of the state: the receive buffer stays.\<close>

definition same_rx :: "serial \<Rightarrow> serial \<Rightarrow> bool" where
  "same_rx s t \<longleftrightarrow> rx_buf t = rx_buf s \<and> rx_head t = rx_head s \<and> rx_tail t = rx_tail s \<and> rx_size t = rx_size s"

lemma same_rx_trans [trans]: "same_rx s t \<Longrightarrow> same_rx t r \<Longrightarrow> same_rx s r"
  by (simp add: same_rx_def)

lemma uart_putchar_sends:
  assumes "tx_live u"
  shows "\<exists>t. uart_putchar u base c s = Some t \<and> port_log t = port_log s @ [(base + UART_DATA, c)] \<and> same_rx s t"
proof -
  from assms obtain j where j: "lsr_reads s \<le> j" "lsr u j AND LSR_THRE \<noteq> 0" by (auto simp: tx_live_def)
  then show ?thesis
  proof (induction "j - lsr_reads s" arbitrary: s)
    case 0
    then show ?case
      by (subst uart_putchar.simps) (auto simp: uart_tx_ready_def serial_outb_def same_rx_def)
  next
    case (Suc n)
    show ?case
    proof (cases "lsr u (lsr_reads s) AND LSR_THRE = 0")
      case True
      let ?t = "s\<lparr>lsr_reads := lsr_reads s + 1\<rparr>"
      have e: "uart_putchar u base c s = uart_putchar u base c ?t"
        using True by (subst uart_putchar.simps) (simp add: uart_tx_ready_def)
      have "n = j - lsr_reads ?t" "lsr_reads ?t \<le> j" using Suc(2,3) by simp_all
      from Suc(1) [OF this Suc(4)] show ?thesis unfolding e by (simp add: same_rx_def)
    next
      case False
      then show ?thesis
        by (subst uart_putchar.simps) (auto simp: uart_tx_ready_def serial_outb_def same_rx_def)
    qed
  qed
qed

text \<open>What the line carries for a character: a carriage return goes before a newline.\<close>

definition crlf :: "u8 \<Rightarrow> (u16 \<times> u8) list" where
  "crlf c = (if c = 10 then [(0x3F8, 13), (0x3F8, 10)] else [(0x3F8, c)])"

lemma serial_putchar_sends:
  assumes "tx_live u"
  shows "\<exists>t. serial_putchar u c s = Some t \<and> port_log t = port_log s @ crlf c \<and> same_rx s t"
proof (cases "c = 10")
  case True
  obtain t where t: "uart_putchar u COM1_BASE 13 s = Some t" "port_log t = port_log s @ [(COM1_BASE + UART_DATA, 13)]" "same_rx s t"
    using uart_putchar_sends [OF assms] by blast
  obtain r where "uart_putchar u COM1_BASE c t = Some r" "port_log r = port_log t @ [(COM1_BASE + UART_DATA, c)]" "same_rx t r"
    using uart_putchar_sends [OF assms] by blast
  with t True show ?thesis
    by (auto simp: serial_putchar_def crlf_def COM1_BASE_def UART_DATA_def intro: same_rx_trans)
next
  case False
  with uart_putchar_sends [OF assms, of COM1_BASE c s] show ?thesis
    by (simp add: serial_putchar_def crlf_def COM1_BASE_def UART_DATA_def)
qed

lemma serial_put_all_sends:
  assumes "tx_live u"
  shows "\<exists>t. serial_put_all u cs s = Some t \<and> port_log t = port_log s @ concat (map crlf cs) \<and> same_rx s t"
proof (induction cs arbitrary: s)
  case (Cons c cs)
  obtain t where t: "serial_putchar u c s = Some t" "port_log t = port_log s @ crlf c" "same_rx s t"
    using serial_putchar_sends [OF assms] by blast
  from Cons.IH [of t] t show ?case by (auto intro: same_rx_trans)
qed (simp add: same_rx_def)

section \<open>Receiving\<close>

definition rx_holds :: "serial \<Rightarrow> u8 list \<Rightarrow> bool" where
  "rx_holds s xs \<longleftrightarrow>
     ring_rep (rx_buf s) 256 (unat (rx_tail s)) xs \<and> unat (rx_head s) = (unat (rx_tail s) + length xs) mod 256 \<and>
     unat (rx_size s) = length xs"

lemma rx_holds_same: "same_rx s t \<Longrightarrow> rx_holds t xs = rx_holds s xs"
  by (simp add: same_rx_def rx_holds_def)

lemma rx_next: "unat (q :: u32) < 256 \<Longrightarrow> unat ((q + 1) mod SERIAL_BUF) = (unat q + 1) mod 256"
  using ring_next [of q SERIAL_BUF] by (simp add: SERIAL_BUF_def)

lemma rx_put_holds: "rx_holds s xs \<Longrightarrow> rx_holds (rx_put c s) (if length xs < 256 then xs @ [c] else xs)"
proof (cases "length xs < 256")
  case True
  assume "rx_holds s xs"
  then have r: "ring_rep (rx_buf s) 256 (unat (rx_tail s)) xs" and hd: "unat (rx_head s) = (unat (rx_tail s) + length xs) mod 256"
    and sz: "unat (rx_size s) = length xs" by (simp_all add: rx_holds_def)
  have "unat (rx_head s) < 256" using hd by simp
  then have "unat ((rx_head s + 1) mod SERIAL_BUF) = (unat (rx_tail s) + length (xs @ [c])) mod 256"
    by (simp add: rx_next hd mod_simps)
  moreover have "unat (rx_size s + 1) = length (xs @ [c])" using True sz by (subst unat_add_nowrap) simp_all
  moreover have "rx_size s < SERIAL_BUF" using True sz by (simp add: SERIAL_BUF_def word_less_nat_alt)
  ultimately show ?thesis using ring_rep_put [OF r True, of c] True hd by (simp add: rx_holds_def rx_put_def)
next
  case False
  assume h: "rx_holds s xs"
  then have "\<not> rx_size s < SERIAL_BUF" using False by (simp add: rx_holds_def SERIAL_BUF_def word_less_nat_alt)
  with h False show ?thesis by (simp add: rx_put_def)
qed

lemma rx_take_holds:
  assumes "rx_holds s (x # xs)"
  shows "fst (rx_take s) = x" and "rx_holds (snd (rx_take s)) xs" and "port_log (snd (rx_take s)) = port_log s"
proof -
  have r: "ring_rep (rx_buf s) 256 (unat (rx_tail s)) (x # xs)" and hd: "unat (rx_head s) = (unat (rx_tail s) + length (x # xs)) mod 256"
    and sz: "unat (rx_size s) = length (x # xs)" using assms by (simp_all add: rx_holds_def)
  have "unat (rx_tail s) < 256" using r by (simp add: ring_rep_def)
  then have t: "unat ((rx_tail s + 1) mod SERIAL_BUF) = (unat (rx_tail s) + 1) mod 256" by (rule rx_next)
  have "unat (rx_size s - 1) = length xs" using sz by (simp add: unat_sub word_le_nat_alt)
  with ring_rep_get [OF r] hd t show "fst (rx_take s) = x" "rx_holds (snd (rx_take s)) xs"
    "port_log (snd (rx_take s)) = port_log s"
    by (simp_all add: rx_take_def rx_holds_def mod_simps)
qed

text \<open>The receive buffer as a queue: interrupts put bytes in, readers take them out one at a time.\<close>

fun rx_take_n :: "nat \<Rightarrow> serial \<Rightarrow> u8 list \<times> serial" where
  "rx_take_n 0 s = ([], s)"
| "rx_take_n (Suc n) s = (case rx_take s of (c, s) \<Rightarrow> case rx_take_n n s of (cs, s) \<Rightarrow> (c # cs, s))"

interpretation rq: byte_queue rx_holds 256 "fold rx_put" rx_take_n
proof
  show "rx_holds s xs \<Longrightarrow> length xs \<le> 256" for s xs by (simp add: rx_holds_def ring_rep_def)
  show "rx_holds s xs \<Longrightarrow> length xs + length ys \<le> 256 \<Longrightarrow> rx_holds (fold rx_put ys s) (xs @ ys)" for s xs ys
  proof (induction ys arbitrary: s xs)
    case (Cons y ys)
    from rx_put_holds [OF Cons.prems(1), of y] Cons.prems(2) have "rx_holds (rx_put y s) (xs @ [y])" by simp
    from Cons.IH [OF this] Cons.prems(2) show ?case by simp
  qed simp
  show "rx_holds s xs \<Longrightarrow> n \<le> length xs \<Longrightarrow>
      fst (rx_take_n n s) = take n xs \<and> rx_holds (snd (rx_take_n n s)) (drop n xs)" for s xs n
  proof (induction n arbitrary: s xs)
    case (Suc n)
    then obtain y ys where xs: "xs = y # ys" by (cases xs) auto
    obtain c t where c: "rx_take s = (c, t)" by fastforce
    from rx_take_holds [of s y ys] Suc.prems(1) c xs have t: "c = y" "rx_holds t ys" by simp_all
    from Suc.IH [OF t(2)] Suc.prems(2) t(1) c xs show ?case by (auto split: prod.splits)
  qed simp
qed

text \<open>The part of the pending input that one read of at most \<open>n\<close> bytes returns: to the end of the line.\<close>

fun first_line :: "nat \<Rightarrow> u8 list \<Rightarrow> u8 list" where
  "first_line 0 xs = []"
| "first_line (Suc n) [] = []"
| "first_line (Suc n) (x # xs) = (if x = 10 \<or> x = 13 then [x] else x # first_line n xs)"

lemma serial_read_loop_line:
  assumes "tx_live u" and "rx_holds s xs" and "out \<noteq> [] \<or> xs \<noteq> []" and "count = length out + n"
  shows "\<exists>t. serial_read_loop u sleep k count out s = Some (Inr (out @ first_line n xs), t) \<and>
    rx_holds t (drop (length (first_line n xs)) xs) \<and>
    port_log t = port_log s @ concat (map crlf (first_line n xs))"
  using assms(2-4)
proof (induction n xs arbitrary: s out rule: first_line.induct)
  case (1 xs)
  then show ?case by (subst serial_read_loop.simps) simp
next
  case (2 n)
  then have "rx_size s = 0" by (simp add: rx_holds_def unat_eq_0)
  with 2 show ?case by (subst serial_read_loop.simps) simp
next
  case (3 n x xs)
  obtain c t where ct: "rx_take s = (c, t)" by fastforce
  from rx_take_holds [OF "3.prems"(1)] ct have t: "c = x" "rx_holds t xs" "port_log t = port_log s" by simp_all
  obtain r where r: "serial_putchar u x t = Some r" "port_log r = port_log t @ crlf x" "same_rx t r"
    using serial_putchar_sends [OF assms(1)] by blast
  have h: "rx_holds r xs" using r(3) t(2) by (simp add: rx_holds_same)
  have sz: "rx_size s > 0" using "3.prems"(1) by (simp add: rx_holds_def word_less_nat_alt)
  show ?case
  proof (cases "x = 10 \<or> x = 13")
    case True
    with ct t r sz h "3.prems"(3) show ?thesis by (subst serial_read_loop.simps) auto
  next
    case False
    have "serial_read_loop u sleep k count out s = serial_read_loop u sleep k count (out @ [x]) r"
      using False ct t(1) r(1) sz "3.prems"(3) by (subst serial_read_loop.simps) simp
    moreover note "3.IH" [OF False h, of "out @ [x]"]
    ultimately show ?thesis using False "3.prems"(3) r(2) t(3) by auto
  qed
qed

section \<open>Properties\<close>

text \<open>
  Writing completes.  With a transmitter that becomes ready again and again, \<^verbatim>\<open>serial_write_file\<close>
  returns the number of bytes it was given; the line then carries exactly these bytes, in order and
  with a carriage return before every newline, and no received byte is touched.
\<close>

theorem serial_write_sends:
  assumes "tx_live u"
  shows "\<exists>t. serial_write_file u data s = Some (length data, t) \<and>
    port_log t = port_log s @ concat (map crlf data) \<and> same_rx s t"
  using serial_put_all_sends [OF assms, of data s] by (auto simp: serial_write_file_def)

theorem serial_write_sends_witness:
  "\<exists>t. serial_write_file \<lparr>lsr = (\<lambda>i. if even i then 0 else 0x20), rbr = (\<lambda>_. 0)\<rparr> [72, 10]
     serial_boot =
     Some (2, t) \<and> port_log t = [(0x3F8, 72), (0x3F8, 13), (0x3F8, 10)]"
proof -
  have "tx_live \<lparr>lsr = (\<lambda>i. if even i then 0 else 0x20), rbr = (\<lambda>_. 0)\<rparr>"
    unfolding tx_live_def
  proof
    fix i :: nat
    have "odd (2 * i + 1)" by simp
    then show "\<exists>j\<ge>i. lsr \<lparr>lsr = (\<lambda>i. if even i then 0 else 0x20), rbr = (\<lambda>_. 0)\<rparr> j AND LSR_THRE \<noteq> 0"
      by (intro exI [of _ "2 * i + 1"]) (simp add: LSR_THRE_def)
  qed
  from serial_write_sends [OF this, of "[72, 10]" serial_boot] show ?thesis by (auto simp: crlf_def serial_boot_def)
qed

text \<open>
  C34: reading is line by line.  When input is pending, \<^verbatim>\<open>serial_read_file\<close> returns at once with the input
  up to and including the first newline or carriage return, at most \<open>count\<close> bytes and no more than
  there is; it removes exactly these bytes from the buffer and echoes exactly these.
\<close>

theorem serial_read_line:
  assumes "tx_live u" and "rx_holds s xs" and "xs \<noteq> []"
  shows "\<exists>t. serial_read_file u sleep count s = Some (Inr (first_line (unat count) xs), t) \<and>
    rx_holds t (drop (length (first_line (unat count) xs)) xs) \<and>
    port_log t = port_log s @ concat (map crlf (first_line (unat count) xs))"
  using serial_read_loop_line [OF assms(1,2), of "[]" "unat count" "unat count" sleep 0] assms(3)
  by (simp add: serial_read_file_def)

theorem serial_read_line_witness:
  "\<exists>t. serial_read_file \<lparr>lsr = (\<lambda>_. 0x20), rbr = (\<lambda>_. 0)\<rparr> (\<lambda>k s. (Some EINTR, s)) 100
     (fold rx_put [104, 105, 10, 120]
       serial_boot) =
     Some (Inr [104, 105, 10], t) \<and> rx_holds t [120]"
proof -
  have "rx_holds serial_boot []" by (simp add: rx_holds_def ring_rep_def serial_boot_def)
  from rq.holds_put [OF this, of "[104, 105, 10, 120]"] have h: "rx_holds (fold rx_put [104, 105, 10, 120] serial_boot) [104, 105, 10, 120]" by simp
  have "first_line (Suc (Suc (Suc n))) [104, 105, 10, 120] = [104, 105, 10]" for n by simp
  from this [of 97] have l: "first_line 100 [104, 105, 10, 120] = [104, 105, 10]" by (simp only: Suc_numeral) simp
  have "tx_live \<lparr>lsr = (\<lambda>_. 0x20), rbr = (\<lambda>_. 0)\<rparr>" by (auto simp: tx_live_def LSR_THRE_def)
  from serial_read_line [OF this h, of "\<lambda>k s. (Some EINTR, s)" 100] show ?thesis by (auto simp: l)
qed

text \<open>
  Receiving.  When the UART has \<open>n\<close> bytes ready the interrupt handler returns, and the buffer
  then holds its old contents followed by these bytes in order, cut off at 256: bytes that find
  the buffer full are dropped, and none overwrites a byte that has not been read.
\<close>

theorem serial_irq_receives:
  assumes "rx_holds s xs" and "\<And>i. i < n \<Longrightarrow> lsr u (lsr_reads s + i) AND LSR_DR \<noteq> 0"
    and "lsr u (lsr_reads s + n) AND LSR_DR = 0"
  shows "\<exists>t. serial_irq_handler u s = Some t \<and>
    rx_holds t (take 256 (xs @ map (\<lambda>i. rbr u (data_reads s + i)) [0..<n]))"
  using assms
proof (induction n arbitrary: s xs)
  case 0
  have "length xs \<le> 256" by (rule rq.holds_length [OF "0.prems"(1)])
  with 0 show ?case by (subst serial_irq_handler.simps) (simp add: uart_rx_ready_def rx_holds_def)
next
  case (Suc n)
  let ?c = "rbr u (data_reads s)"
  define t where "t = rx_put ?c (s\<lparr>lsr_reads := lsr_reads s + 1, data_reads := data_reads s + 1\<rparr>)"
  let ?ys = "if length xs < 256 then xs @ [?c] else xs"
  have e: "serial_irq_handler u s = serial_irq_handler u t"
    using Suc.prems(2) [of 0] by (subst serial_irq_handler.simps) (simp add: uart_rx_ready_def t_def Let_def)
  have "rx_holds (s\<lparr>lsr_reads := lsr_reads s + 1, data_reads := data_reads s + 1\<rparr>) xs"
    using Suc.prems(1) by (simp add: rx_holds_def)
  from rx_put_holds [OF this] have h: "rx_holds t ?ys" by (simp add: t_def)
  have n: "lsr_reads t = Suc (lsr_reads s)" "data_reads t = Suc (data_reads s)" by (simp_all add: t_def rx_put_def)
  have "\<exists>r. serial_irq_handler u t = Some r \<and>
      rx_holds r (take 256 (?ys @ map (\<lambda>i. rbr u (data_reads t + i)) [0..<n]))"
    by (rule Suc.IH [OF h]) (use Suc.prems(2) [of "Suc i" for i] Suc.prems(3) n in auto)
  moreover have "map (\<lambda>i. rbr u (data_reads s + i)) [0..<Suc n] = ?c # map (\<lambda>i. rbr u (data_reads t + i)) [0..<n]"
    by (simp add: n upt_conv_Cons map_Suc_upt [symmetric] del: upt_Suc)
  moreover have "take 256 (?ys @ zs) = take 256 (xs @ ?c # zs)" for zs
    by (cases "length xs < 256") (simp_all only: if_True if_False append_assoc append_Cons append_Nil, simp)
  ultimately show ?case unfolding e by metis
qed

theorem serial_irq_receives_witness:
  "\<exists>t. serial_irq_handler \<lparr>lsr = (\<lambda>i. if i < 2 then 1 else 0), rbr = (\<lambda>i. of_nat i + 65)\<rparr>
     serial_boot = Some t \<and>
     rx_holds t [65, 66]"
proof -
  let ?u = "\<lparr>lsr = (\<lambda>i. if i < 2 then 1 else 0), rbr = (\<lambda>i. of_nat i + 65)\<rparr>"
  have "rx_holds serial_boot []" by (simp add: rx_holds_def ring_rep_def serial_boot_def)
  then have "\<exists>t. serial_irq_handler ?u serial_boot = Some t \<and>
      rx_holds t (take 256 ([] @ map (\<lambda>i. rbr ?u (data_reads serial_boot + i)) [0..<2]))"
    by (rule serial_irq_receives) (simp_all add: LSR_DR_def serial_boot_def)
  then show ?thesis by (simp add: upt_rec serial_boot_def)
qed

end
