(* ===== verification/Boot.thy ===== *)
theory Boot
  imports Syscall Ata Serial
begin

text \<open>
  The start of the kernel, after \<^verbatim>\<open>kernel/kmain.c\<close>: the tags the boot loader passes, the archive of initial files
  (cpio, newc format), the order in which the parts are set up, and the first process.  Memory as the loader
  leaves it is a parameter, read byte by byte at its kernel addresses.
\<close>

section \<open>Boot loader tags\<close>

definition MB2_BOOTLOADER_MAGIC :: u32 where "MB2_BOOTLOADER_MAGIC = 0x36D76289"
definition MB2_TAG_END :: u32 where "MB2_TAG_END = 0"
definition MB2_TAG_CMDLINE :: u32 where "MB2_TAG_CMDLINE = 1"
definition MB2_TAG_MODULE :: u32 where "MB2_TAG_MODULE = 3"
definition MB2_TAG_BASIC_MEM :: u32 where "MB2_TAG_BASIC_MEM = 4"
definition MB2_TAG_MMAP :: u32 where "MB2_TAG_MMAP = 6"

type_synonym image = "uptr \<Rightarrow> u8"

definition bytes_from :: "image \<Rightarrow> uptr \<Rightarrow> nat \<Rightarrow> u8 list" where
  "bytes_from img a n = map (\<lambda>k. img (a + of_nat k)) [0..<n]"

definition word_from :: "image \<Rightarrow> uptr \<Rightarrow> u32" where
  "word_from img a = le32 (bytes_from img a 4) 0"

text \<open>The first \<open>n\<close> characters of a string, up to its end.\<close>

definition string_from :: "image \<Rightarrow> uptr \<Rightarrow> nat \<Rightarrow> string" where
  "string_from img a n = map (char_of \<circ> unat) (takeWhile (\<lambda>b. b \<noteq> 0) (bytes_from img a n))"

record boot_info =
  mem_lower :: u32
  mem_upper :: u32
  mmap_addr :: uptr
  mmap_len :: u32
  initrd_phys :: uptr
  initrd_size :: u32
  cmdline :: string

definition boot_info_zero :: boot_info where
  "boot_info_zero = \<lparr>mem_lower = 640, mem_upper = 32 * 1024, mmap_addr = 0, mmap_len = 0, initrd_phys = 0, initrd_size = 0, cmdline = []\<rparr>"

definition mb2_tag :: "image \<Rightarrow> uptr \<Rightarrow> boot_info \<Rightarrow> boot_info" where
  "mb2_tag img p b =
     (let type = word_from img p
      in if type = MB2_TAG_CMDLINE then b\<lparr>cmdline := string_from img (p + 8) 255\<rparr>
         else if type = MB2_TAG_BASIC_MEM then b\<lparr>mem_lower := word_from img (p + 8), mem_upper := word_from img (p + 12)\<rparr>
         else if type = MB2_TAG_MMAP then b\<lparr>mmap_addr := p - KERNEL_VIRT_BASE, mmap_len := word_from img (p + 4)\<rparr>
         else if type = MB2_TAG_MODULE
         then if initrd_phys b = 0
              then b\<lparr>initrd_phys := word_from img (p + 8), initrd_size := word_from img (p + 12) - word_from img (p + 8)\<rparr>
              else b
         else b)"

text \<open>The loop over the tags; a tag of size 0 is met again and again.\<close>

partial_function (option) mb2_tags :: "image \<Rightarrow> uptr \<Rightarrow> uptr \<Rightarrow> boot_info \<Rightarrow> boot_info option" where
  "mb2_tags img p stop b =
     (if p < stop \<and> word_from img p \<noteq> MB2_TAG_END
      then mb2_tags img (p + ALIGN_UP (word_from img (p + 4)) 8) stop (mb2_tag img p b)
      else Some b)"

definition mb2_parse :: "image \<Rightarrow> uptr \<Rightarrow> boot_info option" where
  "mb2_parse img phys =
     (let mbi = phys_to_virt phys in mb2_tags img (mbi + 8) (mbi + word_from img mbi) boot_info_zero)"

section \<open>The initial files\<close>

definition sizeof_cpio :: u32 where "sizeof_cpio = 110"

definition hex_digit :: "u8 \<Rightarrow> int" where
  "hex_digit c =
     (if c \<ge> 0x30 \<and> c \<le> 0x39 then sint c - 0x30
      else if c \<ge> 0x61 \<and> c \<le> 0x66 then sint c - 0x61 + 10
      else sint c - 0x41 + 10)"

definition cpio_parse_hex :: "u8 list \<Rightarrow> u32" where
  "cpio_parse_hex cs = fold (\<lambda>c v. v * 16 + word_of_int (hex_digit c)) cs 0"

definition CPIO_ALIGN4 :: "u32 \<Rightarrow> u32" where
  "CPIO_ALIGN4 x = (x + 3) AND NOT 3"

record cpio_hdr =
  c_magic :: "u8 list"
  c_mode :: u32
  c_filesize :: u32
  c_namesize :: u32

definition cpio_hdr_at :: "image \<Rightarrow> uptr \<Rightarrow> cpio_hdr" where
  "cpio_hdr_at img p =
     \<lparr>c_magic = bytes_from img p 6, c_mode = cpio_parse_hex (bytes_from img (p + 14) 8),
      c_filesize = cpio_parse_hex (bytes_from img (p + 54) 8), c_namesize = cpio_parse_hex (bytes_from img (p + 94) 8)\<rparr>"

definition cpio_magic_ok :: "u8 list \<Rightarrow> bool" where
  "cpio_magic_ok m \<longleftrightarrow> m = map of_char ''070701'' \<or> m = map of_char ''070702''"

definition cpio_data :: "uptr \<Rightarrow> cpio_hdr \<Rightarrow> uptr" where
  "cpio_data p h = p + CPIO_ALIGN4 (sizeof_cpio + c_namesize h)"

definition cpio_next :: "uptr \<Rightarrow> cpio_hdr \<Rightarrow> uptr" where
  "cpio_next p h = p + (CPIO_ALIGN4 (sizeof_cpio + c_namesize h) + CPIO_ALIGN4 (c_filesize h))"

text \<open>The name without a leading \<^verbatim>\<open>./\<close>; the buffer for the path holds 511 characters and a slash is put in front.\<close>

definition cpio_name :: "string \<Rightarrow> string" where
  "cpio_name name = take 510 (if take 2 name = ''./'' then drop 2 name else name)"

text \<open>The directories on the way to a file, made where they are missing; the parent and what is left of the path.\<close>

partial_function (option) cpio_dirs :: "vfs_ops \<Rightarrow> uptr \<Rightarrow> string \<Rightarrow> kernel \<Rightarrow> ((uptr \<times> string) \<times> kernel) option" where
  "cpio_dirs ops par path s =
     (if CHR ''/'' \<in> set path
      then do {
        let comp = takeWhile (\<lambda>c. c \<noteq> CHR ''/'') path;
        ch \<leftarrow> dentry_lookup_child par comp s;
        (ch, s) \<leftarrow> (if ch \<noteq> 0 then Some (ch, s)
                   else do {
                     (_, s) \<leftarrow> ramfs_create_dir ops par comp 0x1ED s;
                     ch \<leftarrow> dentry_lookup_child par comp s;
                     Some (ch, s)
                   });
        if ch = 0 then Some ((par, path), s)
        else cpio_dirs ops ch (drop (length comp + 1) path) s
      }
      else Some ((par, path), s))"

text \<open>
  One entry: a directory, a symbolic link or a regular file with the bytes \<open>bs\<close>, below \<open>root\<close>.  The target
  of a link is cut off after 255 bytes and ends at a zero byte.
\<close>

definition cpio_make :: "vfs_ops \<Rightarrow> uptr \<Rightarrow> string \<Rightarrow> u32 \<Rightarrow> u8 list \<Rightarrow> kernel \<Rightarrow> kernel option" where
  "cpio_make ops root name mode bs s =
     do {
       let path = cpio_name name;
       ((par, leaf), s) \<leftarrow> cpio_dirs ops root path s;
       if leaf = [] then Some s
       else if S_ISDIR mode then do { (_, s) \<leftarrow> ramfs_create_dir ops par leaf (mode AND 0xFFF) s; Some s }
       else if S_ISLNK mode
       then do {
         let target = map (char_of \<circ> unat) (takeWhile (\<lambda>b. b \<noteq> 0) (take 255 bs));
         (_, s) \<leftarrow> vfs_symlink ops target (CHR ''/'' # path) s;
         Some s
       }
       else if S_ISREG mode then do { (_, s) \<leftarrow> ramfs_create_file ops par leaf bs (mode AND 0xFFF) s; Some s }
       else Some s
     }"

definition cpio_entry :: "vfs_ops \<Rightarrow> image \<Rightarrow> uptr \<Rightarrow> uptr \<Rightarrow> kernel \<Rightarrow> kernel option" where
  "cpio_entry ops img root p s =
     (let h = cpio_hdr_at img p
      in cpio_make ops root (string_from img (p + sizeof_cpio) 512) (c_mode h)
           (bytes_from img (cpio_data p h) (unat (c_filesize h))) s)"

text \<open>The loop over the archive, from \<open>p\<close> to the end of the image or the trailer.\<close>

partial_function (option) cpio_loop :: "vfs_ops \<Rightarrow> image \<Rightarrow> uptr \<Rightarrow> uptr \<Rightarrow> uptr \<Rightarrow> kernel \<Rightarrow> kernel option" where
  "cpio_loop ops img root stop p s =
     (if p + sizeof_cpio \<le> stop \<and> cpio_magic_ok (c_magic (cpio_hdr_at img p))
      then let h = cpio_hdr_at img p; name = string_from img (p + sizeof_cpio) 512
           in if name = ''TRAILER!!!'' then Some s
              else do {
                s \<leftarrow> (if name = ''.'' \<or> c_namesize h = 0 then Some s else cpio_entry ops img root p s);
                cpio_loop ops img root stop (cpio_next p h) s
              }
      else Some s)"

definition initrd_populate :: "vfs_ops \<Rightarrow> image \<Rightarrow> boot_info \<Rightarrow> uptr \<Rightarrow> kernel \<Rightarrow> kernel option" where
  "initrd_populate ops img b root s =
     (if initrd_phys b = 0 \<or> initrd_size b = 0 then Some s
      else let data = phys_to_virt (initrd_phys b) in cpio_loop ops img root (data + initrd_size b) data s)"

section \<open>The first process\<close>

text \<open>\<^verbatim>\<open>init=\<close> on the command line: the word after the first place where these characters occur.\<close>

fun after_init :: "string \<Rightarrow> string option" where
  "after_init cs =
     (if take 5 cs = ''init='' then Some (drop 5 cs) else case cs of [] \<Rightarrow> None | _ # ds \<Rightarrow> after_init ds)"

definition init_override :: "string \<Rightarrow> string option" where
  "init_override cmd = map_option (\<lambda>cs. take 127 (takeWhile (\<lambda>c. c \<noteq> CHR '' '') cs)) (after_init cmd)"

definition init_paths :: "string list" where "init_paths = [''/sbin/init'', ''/init'', ''/bin/sh'']"

definition init_envp :: "string list" where
  "init_envp = [''HOME=/root'', ''PATH=/bin:/sbin:/usr/bin:/usr/sbin'', ''TERM=vt100'', ''SHELL=/bin/sh'']"

text \<open>The programs are tried in turn; when none can be started the kernel panics: no result.\<close>

fun exec_first :: "vfs_ops \<Rightarrow> string list \<Rightarrow> (uptr \<times> uptr) kfun" where
  "exec_first ops [] s = None"
| "exec_first ops (p # ps) s =
     do {
       (r, s) \<leftarrow> sys_exec ops p (Some [p]) (Some init_envp) s;
       (case r of Inl e \<Rightarrow> exec_first ops ps s | Inr u \<Rightarrow> Some (u, s))
     }"

definition init_stdio :: "vfs_ops \<Rightarrow> kernel \<Rightarrow> kernel option" where
  "init_stdio ops s =
     do {
       (r, s) \<leftarrow> sys_open ops ''/dev/console'' O_RDWR 0 s;
       let fd = (case r of Inl e \<Rightarrow> - int (errno_code e) | Inr n \<Rightarrow> int n);
       (_, s) \<leftarrow> (if fd \<noteq> 0 then sys_dup2 ops fd 0 s else Some (Inr 0, s));
       (_, s) \<leftarrow> sys_dup2 ops fd 1 s;
       (_, s) \<leftarrow> sys_dup2 ops fd 2 s;
       if fd > 2 then do { (_, s) \<leftarrow> sys_close ops fd s; Some s } else Some s
     }"

definition run_init :: "vfs_ops \<Rightarrow> string \<Rightarrow> (uptr \<times> uptr) kfun" where
  "run_init ops cmd s =
     do {
       s \<leftarrow> init_stdio ops s;
       exec_first ops ((case init_override cmd of None \<Rightarrow> [] | Some p \<Rightarrow> [p]) @ init_paths) s
     }"

section \<open>Setting up the parts\<close>

text \<open>Addresses the linker chooses, the processor's and the devices' side, and memory at boot.\<close>

record 'h boot_env =
  b_image :: image
  b_ops :: vfs_ops
  b_inb :: port_reader
  b_isr :: "nat \<Rightarrow> u32"
  b_irq :: "nat \<Rightarrow> u32"
  b_syscall :: u32
  b_gdt :: u32
  b_tss :: u32
  b_idt :: u32
  b_mmap :: "uptr \<Rightarrow> mb2_mmap_entry"
  b_entry_size :: u32
  b_kernel_end :: uptr
  b_timer :: nat
  b_ramfs :: uptr
  b_tmpfs :: uptr
  b_run_init :: u32
  b_io :: "'h ata_io"
  b_drives :: "nat \<Rightarrow> uptr"

definition early_uart :: "serial \<Rightarrow> serial" where
  "early_uart s = fold (\<lambda>(p, v). serial_outb (0x3F8 + p) v) [(1, 0x00), (3, 0x80), (0, 0x01), (1, 0x00), (3, 0x03), (2, 0xC7), (4, 0x0B)] s"

text \<open>Steps 4 to 8: descriptor tables, physical memory, paging, heap, caches, scheduler.\<close>

definition boot_memory :: "'h boot_env \<Rightarrow> boot_info \<Rightarrow> kernel \<Rightarrow> kernel option" where
  "boot_memory e b s =
     do {
       let s = s\<lparr>kcpu := idt_init (b_inb e) (b_isr e) (b_irq e) (b_syscall e) (b_idt e) (gdt_init (b_gdt e) (b_tss e) (kcpu s))\<rparr>;
       fr \<leftarrow> pmm_init (b_mmap e) (b_entry_size e) (b_kernel_end e) (mmap_addr b) (mmap_len b) (frames (vm (kmm s)));
       let fr = (if initrd_phys b \<noteq> 0 then pmm_mark_used (initrd_phys b) (ALIGN_UP (initrd_phys b + initrd_size b) PAGE_SIZE) fr else fr);
       v \<leftarrow> paging_init ((vm (kmm s))\<lparr>frames := fr\<rparr>);
       let s = set_vm v s;
       h \<leftarrow> kmalloc_init (heap s);
       let s = set_heap h s;
       m \<leftarrow> mm_init_caches (kmm s);
       sched_init (s\<lparr>kmm := m\<rparr>)
     }"

definition boot_dirs :: "(string \<times> u32) list" where
  "boot_dirs =
     [(''/bin'', 0x1ED), (''/sbin'', 0x1ED), (''/etc'', 0x1ED), (''/dev'', 0x1ED), (''/proc'', 0x1ED), (''/sys'', 0x1ED),
      (''/tmp'', 0x3FF), (''/var'', 0x1ED), (''/var/log'', 0x1ED), (''/var/run'', 0x1ED), (''/home'', 0x1ED), (''/root'', 0x1C0),
      (''/usr'', 0x1ED), (''/usr/bin'', 0x1ED), (''/usr/lib'', 0x1ED), (''/usr/share'', 0x1ED), (''/lib'', 0x1ED),
      (''/mnt'', 0x1ED), (''/opt'', 0x1ED)]"

fun make_dirs :: "vfs_ops \<Rightarrow> (string \<times> u32) list \<Rightarrow> kernel \<Rightarrow> kernel option" where
  "make_dirs ops [] s = Some s"
| "make_dirs ops ((p, m) # ds) s = do { (_, s) \<leftarrow> vfs_mkdir ops p m s; make_dirs ops ds s }"

definition write_file :: "vfs_ops \<Rightarrow> string \<Rightarrow> u32 \<Rightarrow> u8 list \<Rightarrow> kernel \<Rightarrow> kernel option" where
  "write_file ops path flags bs s =
     do {
       (f, s) \<leftarrow> vfs_open ops path flags 0x1A4 s;
       if f = 0 then Some s else do { (_, s) \<leftarrow> vfs_write ops f bs s; vfs_close ops f s }
     }"

definition hostname_bytes :: "u8 list" where "hostname_bytes = map of_char ''myos'' @ [10]"

definition passwd_bytes :: "u8 list" where
  "passwd_bytes = map of_char ''root:x:0:0:root:/root:/bin/sh'' @ [10] @ map of_char ''nobody:x:65534:65534:nobody:/:/bin/false'' @ [10]"

text \<open>Steps 10 to 13: timer, file system, devices, initial files.\<close>

definition boot_files :: "'h boot_env \<Rightarrow> boot_info \<Rightarrow> ata_drive list \<times> devtab \<times> 'h \<Rightarrow> kernel \<Rightarrow>
    ((ata_drive list \<times> devtab \<times> 'h) \<times> kernel) option" where
  "boot_files e b dv s =
     do {
       s \<leftarrow> timer_init (b_inb e) (b_timer e) 100 s;
       s \<leftarrow> vfs_init s;
       let s = ramfs_init (b_ramfs e) (b_tmpfs e) s;
       (_, s) \<leftarrow> vfs_mount (b_ops e) None ''/'' ''ramfs'' s;
       s \<leftarrow> make_dirs (b_ops e) boot_dirs s;
       (r, s) \<leftarrow> vfs_lookup (b_ops e) ''/dev'' 0 s;
       (case r of
          Inl x \<Rightarrow> None
        | Inr dir \<Rightarrow>
            do {
              (dv, s) \<leftarrow> devfs_init (b_ops e) (b_io e) (b_drives e) dir dv s;
              s \<leftarrow> dentry_put (b_ops e) dir s;
              s \<leftarrow> initrd_populate (b_ops e) (b_image e) b (vfs_root s) s;
              s \<leftarrow> write_file (b_ops e) ''/etc/hostname'' (O_WRONLY OR O_CREAT OR O_TRUNC) hostname_bytes s;
              s \<leftarrow> write_file (b_ops e) ''/etc/passwd'' (O_WRONLY OR O_CREAT) passwd_bytes s;
              Some (dv, s)
            })
     }"

text \<open>Step 15: the first task; a failed look-up leaves the field as it was.\<close>

definition boot_init_task :: "'h boot_env \<Rightarrow> sched_result kfun" where
  "boot_init_task e s =
     do {
       (t, s) \<leftarrow> task_create ''init'' (b_run_init e) False s;
       if t = 0 then None
       else do {
         let s = upd_task t (\<lambda>x. x\<lparr>pid := 1, uid := 0, euid := 0, gid := 0, egid := 0\<rparr>) s;
         (r, s) \<leftarrow> vfs_lookup (b_ops e) ''/'' 0 s;
         let s = (case r of Inl x \<Rightarrow> s | Inr d \<Rightarrow> upd_task t (\<lambda>x. x\<lparr>troot := d\<rparr>) s);
         (r, s) \<leftarrow> vfs_lookup (b_ops e) ''/'' 0 s;
         let s = (case r of Inl x \<Rightarrow> s | Inr d \<Rightarrow> upd_task t (\<lambda>x. x\<lparr>cwd := d\<rparr>) s);
         Some (schedule (sched_add t s))
       }
     }"

definition kmain :: "'h boot_env \<Rightarrow> u32 \<Rightarrow> uptr \<Rightarrow> serial \<times> (ata_drive list \<times> devtab \<times> 'h) \<Rightarrow> kernel \<Rightarrow>
    (sched_result \<times> (serial \<times> (ata_drive list \<times> devtab \<times> 'h)) \<times> kernel) option" where
  "kmain e mb_magic info sd s =
     (if mb_magic \<noteq> MB2_BOOTLOADER_MAGIC then None
      else do {
        b \<leftarrow> mb2_parse (b_image e) info;
        s \<leftarrow> boot_memory e b s;
        let u = serial_init (early_uart (fst sd));
        (dv, s) \<leftarrow> boot_files e b (snd sd) s;
        (r, s) \<leftarrow> boot_init_task e s;
        Some (r, (u, dv), s)
      })"

end
