(* ===== verification/Archive.thy ===== *)
theory Archive
  imports Boot
begin

text \<open>
  The archive of initial files, as a writer of the newc format lays it out, and that \<^verbatim>\<open>initrd_populate\<close> of
  \<^verbatim>\<open>kernel/kmain.c\<close> reads from it exactly the entries that were written, in order.
\<close>

section \<open>Numbers\<close>

definition hex_char :: "u32 \<Rightarrow> u8" where
  "hex_char d = (if d < 10 then 0x30 + ucast d else 0x57 + ucast d)"

primrec hex_digits :: "nat \<Rightarrow> u32 \<Rightarrow> u8 list" where
  "hex_digits 0 v = []"
| "hex_digits (Suc n) v = hex_digits n (drop_bit 4 v) @ [hex_char (take_bit 4 v)]"

abbreviation cpio_hex :: "u32 \<Rightarrow> u8 list" where
  "cpio_hex \<equiv> hex_digits 8"

lemma length_hex_digits [simp]: "length (hex_digits n v) = n"
  by (induction n arbitrary: v) simp_all

lemma hex_digit_char: "word_of_int (hex_digit (hex_char (take_bit 4 v))) = (take_bit 4 v :: u32)"
proof -
  have "unat (take_bit 4 v) < 16" using take_bit_nat_less_exp [of 4 "unat v"] by (simp add: unsigned_take_bit_eq)
  moreover have "of_nat (unat (take_bit 4 v)) = take_bit 4 v" by simp
  ultimately obtain k where k: "k < 16" "take_bit 4 v = (of_nat k :: u32)" by metis
  from below16 [OF k(1)] show ?thesis unfolding k(2) by (auto simp: hex_char_def hex_digit_def)
qed

lemma cpio_parse_hex_snoc: "cpio_parse_hex (cs @ [c]) = cpio_parse_hex cs * 16 + word_of_int (hex_digit c)"
  by (simp add: cpio_parse_hex_def)

lemma parse_hex_digits: "cpio_parse_hex (hex_digits n v) = take_bit (4 * n) v"
proof (induction n arbitrary: v)
  case 0
  then show ?case by (simp add: cpio_parse_hex_def)
next
  case (Suc n)
  have "take_bit (4 * n) (drop_bit 4 v) * 16 + take_bit 4 v = take_bit (4 * Suc n) v"
    using bits_ident [of 4 "take_bit (4 * Suc n) v"] by (simp add: push_bit_eq_mult drop_bit_take_bit)
  with Suc.IH [of "drop_bit 4 v"] show ?case by (simp add: cpio_parse_hex_snoc hex_digit_char)
qed

lemma parse_cpio_hex [simp]: "cpio_parse_hex (cpio_hex v) = v"
  unfolding parse_hex_digits by (simp add: take_bit_word_eq_self)

section \<open>Entries\<close>

type_synonym cpio_item = "string \<times> u32 \<times> u8 list"

definition cpio_pad :: "u8 list \<Rightarrow> u8 list" where
  "cpio_pad bs = bs @ replicate ((length bs + 3) div 4 * 4 - length bs) 0"

definition cpio_header :: "u32 \<Rightarrow> nat \<Rightarrow> nat \<Rightarrow> u8 list" where
  "cpio_header mode fsize nsize =
     map of_char ''070701'' @ cpio_hex 0 @ cpio_hex mode @ cpio_hex 0 @ cpio_hex 0 @ cpio_hex 1 @ cpio_hex 0 @
     cpio_hex (of_nat fsize) @ cpio_hex 0 @ cpio_hex 0 @ cpio_hex 0 @ cpio_hex 0 @ cpio_hex (of_nat nsize) @ cpio_hex 0"

fun cpio_item_bytes :: "cpio_item \<Rightarrow> u8 list" where
  "cpio_item_bytes (name, mode, bs) =
     cpio_pad (cpio_header mode (length bs) (length name + 1) @ map of_char name @ [0]) @ cpio_pad bs"

definition cpio_archive :: "cpio_item list \<Rightarrow> u8 list" where
  "cpio_archive es = concat (map cpio_item_bytes es) @ cpio_item_bytes (''TRAILER!!!'', 0, [])"

text \<open>A name is a string of C that fits the kernel's buffer and is not that of the trailer.\<close>

fun cpio_item_ok :: "cpio_item \<Rightarrow> bool" where
  "cpio_item_ok (name, mode, bs) \<longleftrightarrow> CHR 0x00 \<notin> set name \<and> length name < 512 \<and> name \<noteq> ''TRAILER!!!''"

text \<open>What populating the root with the entries does.\<close>

fun cpio_populate :: "vfs_ops \<Rightarrow> uptr \<Rightarrow> cpio_item list \<Rightarrow> kernel \<Rightarrow> kernel option" where
  "cpio_populate ops root [] s = Some s"
| "cpio_populate ops root ((name, mode, bs) # es) s =
     do {
       s \<leftarrow> (if name = ''.'' then Some s else cpio_make ops root name mode bs s);
       cpio_populate ops root es s
     }"

section \<open>Bytes in memory\<close>

definition holds :: "image \<Rightarrow> uptr \<Rightarrow> u8 list \<Rightarrow> bool" where
  "holds img p bs \<longleftrightarrow> bytes_from img p (length bs) = bs"

lemma bytes_from_add: "bytes_from img p (m + n) = bytes_from img p m @ bytes_from img (p + of_nat m) n"
proof -
  have "[0..<m + n] = [0..<m] @ map (\<lambda>k. m + k) [0..<n]"
    by (simp add: map_add_upt upt_add_eq_append [of 0 m n] add.commute)
  then show ?thesis by (simp add: bytes_from_def algebra_simps)
qed

lemma length_bytes_from [simp]: "length (bytes_from img p n) = n"
  by (simp add: bytes_from_def)

lemma holds_append: "holds img p (xs @ ys) \<longleftrightarrow> holds img p xs \<and> holds img (p + of_nat (length xs)) ys"
  by (auto simp: holds_def bytes_from_add)

lemma holds_slice: "holds img p bs \<Longrightarrow> k + n \<le> length bs \<Longrightarrow> bytes_from img (p + of_nat k) n = take n (drop k bs)"
proof -
  assume h: "holds img p bs" and le: "k + n \<le> length bs"
  have "bs = take k bs @ take n (drop k bs) @ drop (k + n) bs"
    by (metis add.commute append_take_drop_id drop_drop)
  with h have "holds img p (take k bs @ take n (drop k bs) @ drop (k + n) bs)" by simp
  then have "holds img (p + of_nat (length (take k bs))) (take n (drop k bs))" unfolding holds_append by blast
  then show ?thesis using le by (simp add: holds_def)
qed

section \<open>Reading an entry\<close>

lemma length_cpio_header [simp]: "length (cpio_header mode f n) = 110"
  by (simp add: cpio_header_def)

lemma length_cpio_pad [simp]: "length (cpio_pad bs) = (length bs + 3) div 4 * 4"
proof -
  have "length bs \<le> (length bs + 3) div 4 * 4" by linarith
  then show ?thesis by (simp add: cpio_pad_def)
qed

lemma unat_CPIO_ALIGN4: "n + 3 < 2 ^ 32 \<Longrightarrow> CPIO_ALIGN4 (of_nat n) = of_nat ((n + 3) div 4 * 4)"
proof -
  assume n: "n + 3 < 2 ^ 32"
  have m: "NOT (3 :: u32) = NOT (mask 2)" by (simp add: mask_eq_exp_minus_1)
  have u: "unat (of_nat n + 3 :: u32) = n + 3" using unat_of_nat [of "n + 3", where ?'a = 32] n by (simp add: unat_of_nat)
  have "unat ((of_nat n + 3 :: u32) AND NOT (mask 2)) = (n + 3) div 2 ^ 2 * 2 ^ 2"
    unfolding u [symmetric] by (simp only: unat_simps)
  then have "unat (CPIO_ALIGN4 (of_nat n)) = (n + 3) div 4 * 4" unfolding CPIO_ALIGN4_def m by simp
  then show ?thesis by (metis of_nat_unat ucast_id)
qed

lemma cpio_hdr_of:
  assumes "holds img p (cpio_header mode f n @ bs)"
  shows "cpio_hdr_at img p = \<lparr>c_magic = map of_char ''070701'', c_mode = mode, c_filesize = of_nat f, c_namesize = of_nat n\<rparr>"
proof -
  note h = holds_slice [OF conjunct1 [OF assms [unfolded holds_append]]]
  have "bytes_from img p 6 = map of_char ''070701''" using h [of 0 6] by (simp add: cpio_header_def)
  moreover have "bytes_from img (p + 14) 8 = cpio_hex mode" using h [of 14 8] by (simp add: cpio_header_def del: hex_digits.simps)
  moreover have "bytes_from img (p + 54) 8 = cpio_hex (of_nat f)" using h [of 54 8] by (simp add: cpio_header_def)
  moreover have "bytes_from img (p + 94) 8 = cpio_hex (of_nat n)" using h [of 94 8] by (simp add: cpio_header_def)
  ultimately show ?thesis by (simp add: cpio_hdr_at_def)
qed

lemma of_char_u8: "char_of (unat (of_char c :: u8)) = c" "(of_char c :: u8) = 0 \<longleftrightarrow> c = CHR 0x00"
proof -
  have "(of_char c :: u8) = of_nat (of_char c)" by (rule of_nat_of_char [symmetric])
  then have "unat (of_char c :: u8) = of_char c mod 256" by (simp add: unat_of_nat)
  then have u: "unat (of_char c :: u8) = (of_char c :: nat)" by simp
  then show "char_of (unat (of_char c :: u8)) = c" by simp
  have "c = CHR 0x00" if "(of_char c :: nat) = 0"
  proof -
    from that have "(of_char c :: nat) = of_char (CHR 0x00)" by simp
    then show ?thesis unfolding of_char_eq_iff .
  qed
  then show "(of_char c :: u8) = 0 \<longleftrightarrow> c = CHR 0x00"
    using u unat_eq_0 [of "of_char c :: u8"] by auto
qed

lemma string_from_name:
  assumes "holds img q (map of_char name @ [0])" and "CHR 0x00 \<notin> set name" and "length name < 512"
  shows "string_from img q 512 = name"
proof -
  let ?n = "length name + 1"
  have "bytes_from img q 512 = bytes_from img q ?n @ bytes_from img (q + of_nat ?n) (512 - ?n)"
    using bytes_from_add [of img q ?n "512 - ?n"] assms(3) by simp
  also have "bytes_from img q ?n = map of_char name @ [0]" using assms(1) by (simp add: holds_def)
  finally have eq: "bytes_from img q 512 = map of_char name @ 0 # bytes_from img (q + of_nat ?n) (512 - ?n)" by simp
  have "takeWhile (\<lambda>b. b \<noteq> 0) (map of_char name @ 0 # r) = (map of_char name :: u8 list)" for r
    using assms(2) by (subst takeWhile_append2) (auto simp: of_char_u8)
  then have "takeWhile (\<lambda>b. b \<noteq> 0) (bytes_from img q 512) = map of_char name" unfolding eq .
  then show ?thesis by (simp add: string_from_def of_char_u8 comp_def)
qed

lemma holds_pad: "holds img p (cpio_pad bs) \<Longrightarrow> holds img p bs"
  by (simp add: cpio_pad_def holds_append)

lemma cpio_item_read:
  assumes h: "holds img p (cpio_item_bytes (name, mode, bs))" and "CHR 0x00 \<notin> set name" and "length name < 512"
    and len: "length (cpio_item_bytes (name, mode, bs)) < 2 ^ 32"
    and eq: "ch = cpio_hdr_at img p"
  shows "cpio_magic_ok (c_magic ch)" and "c_mode ch = mode" and "c_namesize ch \<noteq> 0"
    and "string_from img (p + sizeof_cpio) 512 = name"
    and "bytes_from img (cpio_data p ch) (unat (c_filesize ch)) = bs"
    and "cpio_next p ch = p + of_nat (length (cpio_item_bytes (name, mode, bs)))"
proof -
  let ?n = "length name + 1"
  let ?hn = "cpio_header mode (length bs) ?n @ map of_char name @ [0]"
  let ?a = "(length name + 114) div 4 * 4"
  let ?b = "(length bs + 3) div 4 * 4"
  have la: "length (cpio_pad ?hn) = ?a" by simp
  have lens: "length bs + 3 < 2 ^ 32" "?n < 2 ^ 32" "110 + ?n + 3 < 2 ^ 32"
    using len assms(3) by simp_all
  have h1: "holds img p (cpio_header mode (length bs) ?n @ (map of_char name @ [0]))"
    and h2: "holds img (p + of_nat ?a) bs"
    using holds_pad [of img p ?hn] holds_pad [of img "p + of_nat ?a" bs] h
    unfolding cpio_item_bytes.simps holds_append [of _ _ "cpio_pad ?hn"] la by blast+
  have hdr: "ch = \<lparr>c_magic = map of_char ''070701'', c_mode = mode, c_filesize = of_nat (length bs), c_namesize = of_nat ?n\<rparr>"
    unfolding eq by (rule cpio_hdr_of [OF h1])
  show "cpio_magic_ok (c_magic ch)" "c_mode ch = mode" by (simp_all add: hdr cpio_magic_ok_def)
  have "unat (of_nat ?n :: u32) = ?n" using lens(2) by (subst unat_of_nat) simp
  then show "c_namesize ch \<noteq> 0" by (auto simp: hdr)
  have "holds img (p + sizeof_cpio) (map of_char name @ [0])" using h1 by (simp add: holds_append sizeof_cpio_def)
  then show "string_from img (p + sizeof_cpio) 512 = name" by (rule string_from_name [OF _ assms(2,3)])
  have al: "CPIO_ALIGN4 (sizeof_cpio + of_nat ?n) = of_nat ?a"
    using unat_CPIO_ALIGN4 [OF lens(3)] by (simp add: sizeof_cpio_def algebra_simps)
  have "unat (of_nat (length bs) :: u32) = length bs" using lens(1) by (subst unat_of_nat) simp
  with h2 al show "bytes_from img (cpio_data p ch) (unat (c_filesize ch)) = bs"
    by (simp add: cpio_data_def hdr holds_def)
  show "cpio_next p ch = p + of_nat (length (cpio_item_bytes (name, mode, bs)))"
    using al unat_CPIO_ALIGN4 [OF lens(1)] la by (simp add: cpio_next_def hdr)
qed

section \<open>Reading the archive\<close>

lemma cpio_loop_archive:
  assumes "holds img p (cpio_archive es)" and "list_all cpio_item_ok es" and "unat p + length (cpio_archive es) < 2 ^ 32"
    and "stop = p + of_nat (length (cpio_archive es))"
  shows "cpio_loop ops img root stop p s = cpio_populate ops root es s"
  using assms
proof (induction es arbitrary: p s)
  case Nil
  let ?t = "cpio_item_bytes (''TRAILER!!!'', 0, [])"
  have len: "length ?t = 124" by simp
  have ar: "cpio_archive [] = ?t" by (simp add: cpio_archive_def)
  note rd = cpio_item_read [OF Nil(1) [unfolded ar] _ _ _ refl]
  have "p + sizeof_cpio \<le> stop"
    using Nil(3,4) len by (simp add: ar sizeof_cpio_def word_le_nat_alt unat_word_ariths del: cpio_item_bytes.simps)
  then show ?case
    using rd(1,4) len by (subst cpio_loop.simps) (simp add: Let_def del: cpio_item_bytes.simps)
next
  case (Cons e es)
  obtain name mode bs where e: "e = (name, mode, bs)" by (cases e)
  let ?t = "cpio_item_bytes (name, mode, bs)"
  have ar: "cpio_archive (e # es) = ?t @ cpio_archive es" by (simp add: cpio_archive_def e)
  have ok: "CHR 0x00 \<notin> set name" "length name < 512" "name \<noteq> ''TRAILER!!!''" using Cons.prems(2) e by auto
  have h: "holds img p ?t" "holds img (p + of_nat (length ?t)) (cpio_archive es)"
    using Cons.prems(1) by (simp_all only: ar holds_append)
  have len: "unat p + length ?t + length (cpio_archive es) < 2 ^ 32" using Cons.prems(3) by (simp only: ar length_append add.assoc)
  have big: "110 \<le> length ?t" by simp
  note rd = cpio_item_read [OF h(1) ok(1,2) _ refl]
  have up: "unat (p + of_nat (length ?t)) = unat p + length ?t"
    using len unat_add_of_nat [of p "length ?t"] by simp
  have us: "unat stop = unat p + length ?t + length (cpio_archive es)"
    using Cons.prems(4) len unat_add_of_nat [of p "length ?t + length (cpio_archive es)"] by (simp only: ar length_append)
  have "unat (p + sizeof_cpio) = unat p + 110" using unat_add_of_nat [of p 110] len big by (simp add: sizeof_cpio_def)
  then have guard: "p + sizeof_cpio \<le> stop" using us big by (simp add: word_le_nat_alt)
  have "stop = p + of_nat (length ?t) + of_nat (length (cpio_archive es))"
    using Cons.prems(4) by (simp only: ar length_append of_nat_add add.assoc)
  then have IH: "cpio_loop ops img root stop (p + of_nat (length ?t)) = cpio_populate ops root es"
    using Cons.IH [OF h(2)] Cons.prems(2) len up by (intro ext) simp
  have small: "length ?t < 2 ^ 32" using len by simp
  show ?case
    unfolding e cpio_populate.simps using guard rd [OF small] ok(3) IH
    by (subst cpio_loop.simps) (auto simp: Let_def cpio_entry_def simp del: cpio_item_bytes.simps)
qed


text \<open>An archive of the root entry and a file of an unknown kind, which is passed over, at 1 MiB.\<close>

definition archive_example :: "cpio_item list" where
  "archive_example = [(''.'', 0x41ED, []), (''x'', 0, [1, 2, 3])]"

definition image_of :: "uptr \<Rightarrow> u8 list \<Rightarrow> image" where
  "image_of p bs = (\<lambda>a. if unat (a - p) < length bs then bs ! unat (a - p) else 0)"

lemma image_of_holds: "length bs < 2 ^ 32 \<Longrightarrow> holds (image_of p bs) p bs"
  unfolding holds_def by (rule nth_equalityI) (auto simp: image_of_def bytes_from_def unat_of_nat)


end
