(* ===== verification/Lookup.thy ===== *)
theory Lookup
  imports Vfs
begin

text \<open>
  Path resolution, \<^verbatim>\<open>vfs_lookup\<close> of \<^verbatim>\<open>fs/vfs.c\<close>, against a tree: the dentries with their lists of children are
  a directory tree, and the walk along the characters of a path, with its references taken and given back,
  is a walk along the components of the path in that tree.
\<close>

section \<open>Paths and trees\<close>

abbreviation slash :: "char \<Rightarrow> bool" where
  "slash c \<equiv> c = CHR ''/''"

function components :: "string \<Rightarrow> string list" where
  "components path =
     (let p = dropWhile slash path
      in if p = [] then [] else takeWhile (\<lambda>c. \<not> slash c) p # components (dropWhile (\<lambda>c. \<not> slash c) p))"
  by pat_completeness auto

lemma components_shorter:
  assumes "dropWhile slash path \<noteq> []"
  shows "length (dropWhile (\<lambda>c. \<not> slash c) (dropWhile slash path)) < length path"
proof -
  obtain c p where p: "dropWhile slash path = c # p" "\<not> slash c" using assms hd_dropWhile [of slash path] by (cases "dropWhile slash path") auto
  then have "length (dropWhile (\<lambda>c. \<not> slash c) (c # p)) \<le> length p" by (simp add: length_dropWhile_le)
  also have "length p < length path" using p(1) length_dropWhile_le [of slash path] by simp
  finally show ?thesis by (simp add: p(1))
qed

termination components
  by (relation "measure length") (simp_all add: components_shorter)

declare components.simps [simp del]

text \<open>
  \<open>kids\<close> gives the dentries below a dentry of the tree \<open>D\<close>, in the order of the list.  Every dentry is referenced
  by someone, nothing is mounted in the tree, and there are no symbolic links in it.
\<close>

definition dentry_tree :: "kernel \<Rightarrow> uptr set \<Rightarrow> (uptr \<Rightarrow> uptr list) \<Rightarrow> bool" where
  "dentry_tree s D kids \<longleftrightarrow> 0 \<notin> D \<and>
     (\<forall>d\<in>D. let x = dentry_at s d in
        is_list (klists s) (DChildren d) (map DSibling (kids d)) \<and> set (kids d) \<subseteq> D - {d} \<and>
        d_refcount x \<noteq> 0 \<and> d_parent x \<in> insert 0 (D - {d}) \<and> \<not> d_mounted x \<and>
        \<not> (d_inode x \<noteq> 0 \<and> S_ISLNK (i_mode (inode_at s (d_inode x)))))"

text \<open>
  Following components: the dentry reached, or the error.  No result for a component that does not fit the
  buffer and for one that has no dentry yet, which the file system is asked for.
\<close>

fun resolve :: "kernel \<Rightarrow> (uptr \<Rightarrow> uptr list) \<Rightarrow> uptr \<Rightarrow> string list \<Rightarrow> (errno + uptr) option" where
  "resolve s kids d [] = Some (Inr d)"
| "resolve s kids d (c # cs) =
     (if length c > NAME_MAX then None
      else if c = ''.'' then resolve s kids d cs
      else if c = ''..'' then resolve s kids (if d_parent (dentry_at s d) = 0 then d else d_parent (dentry_at s d)) cs
      else if d_inode (dentry_at s d) = 0 then Some (Inl ENOENT)
      else if \<not> S_ISDIR (i_mode (inode_at s (d_inode (dentry_at s d)))) then Some (Inl ENOTDIR)
      else case find (\<lambda>k. d_name (dentry_at s k) = c) (kids d) of
        None \<Rightarrow> None
      | Some k \<Rightarrow> resolve s kids k cs)"

section \<open>References\<close>

lemma dentry_get_fields [simp]:
  "d_name (dentry_at (dentry_get x s) d) = d_name (dentry_at s d)"
  "d_parent (dentry_at (dentry_get x s) d) = d_parent (dentry_at s d)"
  "d_inode (dentry_at (dentry_get x s) d) = d_inode (dentry_at s d)"
  "d_mounted (dentry_at (dentry_get x s) d) = d_mounted (dentry_at s d)"
  "d_mountpoint (dentry_at (dentry_get x s) d) = d_mountpoint (dentry_at s d)"
  "inode_at (dentry_get x s) = inode_at s" "klists (dentry_get x s) = klists s"
  by (simp_all add: dentry_get_def upd_dentry_def)

lemma dentry_put_get:
  assumes "d \<noteq> 0" and "d_refcount (dentry_at s d) \<noteq> 0"
  shows "dentry_put ops d (dentry_get d s) = Some s"
    and "k \<noteq> d \<Longrightarrow> dentry_put ops d (dentry_get k (dentry_get d s)) = Some (dentry_get k s)"
  using assms by (auto simp: dentry_put_def dentry_get_def upd_dentry_def fun_upd_twist)

lemma find_map_link: "find (\<lambda>n. P (dentry_of n)) (map DSibling ks) = map_option DSibling (find P ks)"
  by (induction ks) auto

lemma lookup_child_tree:
  assumes "dentry_tree s D kids" and "d \<in> D" and "find (\<lambda>k. d_name (dentry_at s k) = c) (kids d) = Some k"
  shows "dentry_lookup_child d c (dentry_get x s) = Some k" and "k \<in> D" and "k \<noteq> 0" and "k \<noteq> d"
proof -
  have t: "is_list (klists s) (DChildren d) (map DSibling (kids d))" "set (kids d) \<subseteq> D - {d}" "0 \<notin> D"
    using assms(1,2) by (auto simp: dentry_tree_def Let_def)
  then show "k \<in> D" "k \<noteq> 0" "k \<noteq> d" using assms(3) by (auto simp: find_Some_iff subset_iff in_set_conv_nth)
  have "d \<noteq> 0" using assms(2) t(3) by auto
  with assms(3) show "dentry_lookup_child d c (dentry_get x s) = Some k"
    by (simp add: dentry_lookup_child_def list_find_eq [OF t(1)] find_map_link [of "\<lambda>k. d_name (dentry_at s k) = c"])
qed

section \<open>The walk\<close>

definition resolved :: "(errno + uptr) \<Rightarrow> kernel \<Rightarrow> ((errno + uptr) \<times> kernel) option" where
  "resolved r s = Some (r, case r of Inl e \<Rightarrow> s | Inr d \<Rightarrow> dentry_get d s)"

lemma vfs_walk_name:
  assumes tree: "dentry_tree s D kids" and d: "d \<in> D"
    and p: "p = dropWhile slash path" "p \<noteq> []" "c = takeWhile (\<lambda>x. \<not> slash x) p" "rest = dropWhile (\<lambda>x. \<not> slash x) p"
    and c: "length c \<le> NAME_MAX" "c \<noteq> ''.''" "c \<noteq> ''..''"
  shows "d_inode (dentry_at s d) = 0 \<Longrightarrow> vfs_walk ops d path (dentry_get d s) = Some (Inl ENOENT, s)"
    and "d_inode (dentry_at s d) \<noteq> 0 \<Longrightarrow> \<not> S_ISDIR (i_mode (inode_at s (d_inode (dentry_at s d)))) \<Longrightarrow>
      vfs_walk ops d path (dentry_get d s) = Some (Inl ENOTDIR, s)"
    and "d_inode (dentry_at s d) \<noteq> 0 \<Longrightarrow> S_ISDIR (i_mode (inode_at s (d_inode (dentry_at s d)))) \<Longrightarrow>
      find (\<lambda>k. d_name (dentry_at s k) = c) (kids d) = Some k \<Longrightarrow>
      vfs_walk ops d path (dentry_get d s) = vfs_walk ops k rest (dentry_get k s)"
proof -
  have x: "d \<noteq> 0" "d_refcount (dentry_at s d) \<noteq> 0" "\<not> d_mounted (dentry_at s d)"
    using tree d by (auto simp: dentry_tree_def Let_def)
  note put = dentry_put_get [OF x(1,2), where ops = ops]
  show "d_inode (dentry_at s d) = 0 \<Longrightarrow> vfs_walk ops d path (dentry_get d s) = Some (Inl ENOENT, s)"
    using p c x put by (subst vfs_walk.simps) (auto simp: Let_def)
  show "d_inode (dentry_at s d) \<noteq> 0 \<Longrightarrow> \<not> S_ISDIR (i_mode (inode_at s (d_inode (dentry_at s d)))) \<Longrightarrow>
      vfs_walk ops d path (dentry_get d s) = Some (Inl ENOTDIR, s)"
    using p c x put by (subst vfs_walk.simps) (auto simp: Let_def)
  assume i: "d_inode (dentry_at s d) \<noteq> 0" "S_ISDIR (i_mode (inode_at s (d_inode (dentry_at s d))))"
    and k: "find (\<lambda>k. d_name (dentry_at s k) = c) (kids d) = Some k"
  note ch = lookup_child_tree [OF tree d k]
  have nl: "\<not> (d_inode (dentry_at s k) \<noteq> 0 \<and> S_ISLNK (i_mode (inode_at s (d_inode (dentry_at s k)))))"
    using tree ch(2) by (auto simp: dentry_tree_def Let_def)
  have "lookup_component ops d c (dentry_get d s) = Some (Inr k, dentry_get k (dentry_get d s))"
    using ch by (simp add: lookup_component_def)
  then show "vfs_walk ops d path (dentry_get d s) = vfs_walk ops k rest (dentry_get k s)"
    using p c x i nl put(2) [OF ch(4)] by (subst vfs_walk.simps) (auto simp: Let_def)
qed

lemma vfs_walk_dots:
  assumes tree: "dentry_tree s D kids" and d: "d \<in> D"
    and p: "p = dropWhile slash path" "p \<noteq> []" "c = takeWhile (\<lambda>x. \<not> slash x) p" "rest = dropWhile (\<lambda>x. \<not> slash x) p"
  shows "c = ''.'' \<Longrightarrow> vfs_walk ops d path (dentry_get d s) = vfs_walk ops d rest (dentry_get d s)"
    and "c = ''..'' \<Longrightarrow> k = (if d_parent (dentry_at s d) = 0 then d else d_parent (dentry_at s d)) \<Longrightarrow>
      k \<in> D \<and> vfs_walk ops d path (dentry_get d s) = vfs_walk ops k rest (dentry_get k s)"
proof -
  have x: "d \<noteq> 0" "d_refcount (dentry_at s d) \<noteq> 0" "d_parent (dentry_at s d) \<in> insert 0 (D - {d})"
    using tree d by (auto simp: dentry_tree_def Let_def)
  note put = dentry_put_get [OF x(1,2), where ops = ops]
  show "c = ''.'' \<Longrightarrow> vfs_walk ops d path (dentry_get d s) = vfs_walk ops d rest (dentry_get d s)"
    using p by (subst vfs_walk.simps) (auto simp: Let_def NAME_MAX_def)
  show "c = ''..'' \<Longrightarrow> k = (if d_parent (dentry_at s d) = 0 then d else d_parent (dentry_at s d)) \<Longrightarrow>
      k \<in> D \<and> vfs_walk ops d path (dentry_get d s) = vfs_walk ops k rest (dentry_get k s)"
    using p x d put(2) [of "d_parent (dentry_at s d)"] by (subst vfs_walk.simps) (auto simp: Let_def NAME_MAX_def)
qed

lemma vfs_walk_resolves:
  assumes "dentry_tree s D kids" and "d \<in> D" and "resolve s kids d (components path) = Some r"
  shows "vfs_walk ops d path (dentry_get d s) = resolved r s"
  using assms(2,3)
proof (induction path arbitrary: d rule: components.induct)
  case (1 path)
  let ?p = "dropWhile slash path"
  let ?c = "takeWhile (\<lambda>c. \<not> slash c) ?p"
  let ?rest = "dropWhile (\<lambda>c. \<not> slash c) ?p"
  show ?case
  proof (cases "?p = []")
    case True
    with 1(3) have "r = Inr d" by (simp add: components.simps [of path])
    with True show ?thesis by (subst vfs_walk.simps) (simp add: resolved_def)
  next
    case False
    then have cs: "components path = ?c # components ?rest" by (subst components.simps) (simp add: Let_def)
    note IH = 1(1) [OF refl False]
    note dots = vfs_walk_dots [OF assms(1) 1(2) refl False refl refl, where ops = ops]
      and name = vfs_walk_name [OF assms(1) 1(2) refl False refl refl, where ops = ops]
    let ?k = "if d_parent (dentry_at s d) = 0 then d else d_parent (dentry_at s d)"
    consider "?c = ''.''" | "?c = ''..''" | "?c \<noteq> ''.''" "?c \<noteq> ''..''" by blast
    then show ?thesis
    proof cases
      case a: 1
      then show ?thesis using IH [of d] 1(2,3) dots(1) cs by (simp add: NAME_MAX_def)
    next
      case a: 2
      then have "resolve s kids ?k (components ?rest) = Some r" using 1(3) cs by (simp add: NAME_MAX_def)
      then show ?thesis using IH [of ?k] dots(2) [OF a refl] by simp
    next
      case a: 3
      with 1(3) cs have len: "length ?c \<le> NAME_MAX" by (simp split: if_splits)
      note nm = name [OF len a]
      show ?thesis using 1(3) cs a len nm IH lookup_child_tree(2) [OF assms(1) 1(2)]
        by (auto simp: resolved_def split: if_splits option.splits)
    qed
  qed
qed

lemma components_slash: "components (CHR ''/'' # p) = components p"
  by (simp add: components.simps [of "CHR ''/'' # p"] components.simps [of p])

text \<open>
  C13: \<^verbatim>\<open>vfs_lookup\<close> follows a path through the tree of dentries.  From the root for an absolute path and from the
  given directory, or the working directory of the task, for a relative one, it walks along the components of the
  path; \<^verbatim>\<open>.\<close> stays, \<^verbatim>\<open>..\<close> goes up, empty components are skipped.  It returns the dentry reached with one more
  reference, and no other reference changes; where a component is no directory it returns \<^verbatim>\<open>ENOTDIR\<close>, where it
  has no inode \<^verbatim>\<open>ENOENT\<close>, and the state is as before.
\<close>

theorem vfs_lookup_resolves:
  assumes "dentry_tree s D kids" and "path \<noteq> []" and "d \<in> D"
    and "d = (if hd path = CHR ''/'' then vfs_root s
              else if c \<noteq> 0 then c else if current s \<noteq> 0 then cwd (task_at s (current s)) else vfs_root s)"
    and "resolve s kids d (components path) = Some r"
  shows "vfs_lookup ops path c s = Some (r, case r of Inl e \<Rightarrow> s | Inr t \<Rightarrow> dentry_get t s)"
proof -
  obtain x p where p: "path = x # p" using assms(2) by (cases path) auto
  have "components p = components path" if "slash x" using that components_slash p by simp
  with assms(5) have "resolve s kids d (components p) = Some r" if "slash x" using that by simp
  then show ?thesis
    using vfs_walk_resolves [OF assms(1,3), of _ r ops] assms(4,5) p
    by (auto simp: vfs_lookup_def lookup_start_def resolved_def Let_def)
qed

text \<open>The directories \<^verbatim>\<open>/a\<close> and \<^verbatim>\<open>/a/b\<close>.\<close>

definition tree_example :: kernel where
  "tree_example = (kernel_boot (mm_example slab_boot 0 0))\<lparr>vfs_root := 0x7000,
     inode_at := (\<lambda>_. inode_zero\<lparr>i_mode := S_IFDIR\<rparr>),
     dentry_at := (\<lambda>_. dentry_zero\<lparr>d_inode := 0x5000, d_refcount := 1\<rparr>)
       (0x7100 := dentry_zero\<lparr>d_name := ''a'', d_inode := 0x5000, d_refcount := 1, d_parent := 0x7000\<rparr>,
        0x7200 := dentry_zero\<lparr>d_name := ''b'', d_inode := 0x5000, d_refcount := 1, d_parent := 0x7100\<rparr>),
     klists := \<lparr>lnext = (\<lambda>n. n)(DChildren 0x7000 := DSibling 0x7100, DSibling 0x7100 := DChildren 0x7000,
                  DChildren 0x7100 := DSibling 0x7200, DSibling 0x7200 := DChildren 0x7100),
                lprev = (\<lambda>n. n)(DChildren 0x7000 := DSibling 0x7100, DSibling 0x7100 := DChildren 0x7000,
                  DChildren 0x7100 := DSibling 0x7200, DSibling 0x7200 := DChildren 0x7100)\<rparr>\<rparr>"

theorem vfs_lookup_resolves_witness:
  "\<forall>ops. vfs_lookup ops ''/a/.././a//b'' 0 tree_example = Some (Inr 0x7200, dentry_get 0x7200 tree_example)"
proof
  fix ops
  let ?kids = "(\<lambda>_. [])(0x7000 := [0x7100], 0x7100 := [0x7200 :: uptr])"
  have tr: "dentry_tree tree_example {0x7000, 0x7100, 0x7200} ?kids"
    by (simp add: dentry_tree_def tree_example_def is_list_def dentry_zero_def inode_zero_def S_ISLNK_def S_IFMT_def
        S_IFLNK_def S_IFDIR_def Let_def)
  have "components ''/a/.././a//b'' = [''a'', ''..'', ''.'', ''a'', ''b'']"
    by (simp add: components.simps)
  then have rs: "resolve tree_example ?kids 0x7000 (components ''/a/.././a//b'') = Some (Inr 0x7200)"
    by (simp add: NAME_MAX_def tree_example_def dentry_zero_def inode_zero_def S_ISDIR_def S_IFMT_def S_IFDIR_def)
  have root: "vfs_root tree_example = 0x7000" by (simp add: tree_example_def)
  have "vfs_lookup ops ''/a/.././a//b'' 0 tree_example =
      Some (Inr 0x7200, case (Inr 0x7200 :: errno + uptr) of Inl e \<Rightarrow> tree_example | Inr t \<Rightarrow> dentry_get t tree_example)"
    by (rule vfs_lookup_resolves [OF tr _ _ _ rs]) (simp_all only: root list.sel list.simps if_True insertI1 simp_thms refl)
  then show "vfs_lookup ops ''/a/.././a//b'' 0 tree_example = Some (Inr 0x7200, dentry_get 0x7200 tree_example)"
    by (simp only: sum.case)
qed

end
