(* ===== verification/Loader.thy ===== *)
theory Loader
  imports Elf
begin

text \<open>
  What loading the segments of an executable does to the new address space, \<^verbatim>\<open>sys_exec\<close> of \<^verbatim>\<open>kernel/elf.c\<close>: the
  bytes a program sees at the addresses of a segment are those of the file, followed by zeros.
\<close>

unbundle bit_operations_syntax

section \<open>Bytes of physical memory\<close>

lemma byte_set_byte:
  assumes "j < 4" and "k < 4"
  shows "(ucast (drop_bit (8 * j) (set_byte k b w)) :: u8) = (if j = k then b else ucast (drop_bit (8 * j) w))"
proof (rule bit_word_eqI)
  fix n assume n: "n < LENGTH(8)"
  have m: "(0xFF :: u32) = mask 8" by (simp add: mask_eq_exp_minus_1)
  have "8 * j + n < 32" using assms n by simp
  moreover have "j = k \<or> 8 * j + n < 8 * k \<or> 8 * k + 8 \<le> 8 * j + n" using n by auto
  ultimately show "bit (ucast (drop_bit (8 * j) (set_byte k b w)) :: u8) n =
      bit (if j = k then b else ucast (drop_bit (8 * j) w)) n"
    using n unfolding set_byte_def m by (auto simp: bit_simps add.commute dest: bit_imp_le_length)
qed

lemma word_split3: "x = y \<longleftrightarrow> x AND NOT 3 = y AND NOT 3 \<and> x AND 3 = y AND 3" for x y :: u32
proof
  assume "x AND NOT 3 = y AND NOT 3 \<and> x AND 3 = y AND 3"
  then have "(x AND NOT 3) OR (x AND 3) = (y AND NOT 3) OR (y AND 3)" by simp
  moreover have "(z AND NOT 3) OR (z AND 3) = z" for z :: u32 by (rule bit_word_eqI) (auto simp: bit_simps)
  ultimately show "x = y" by simp
qed simp

lemma mask2: "(3 :: u32) = mask 2"
  by (simp add: mask_eq_exp_minus_1)

lemma unat_low2: "unat (x AND 3 :: u32) = unat x mod 4" "unat (x AND NOT 3 :: u32) = unat x div 4 * 4"
  unfolding mask2 unat_simps by simp_all

lemma phys_byte_put_byte: "phys_byte (put_phys_byte a b v) x = (if x = a then b else phys_byte v x)"
proof (cases "x AND NOT 3 = a AND NOT 3")
  case True
  have "unat (x AND 3) = unat (a AND 3) \<longleftrightarrow> x = a" using True word_split3 [of x a] by (simp add: word_unat_eq_iff)
  moreover have "unat (x AND 3) < 4" "unat (a AND 3) < 4" by (simp_all add: unat_low2)
  ultimately show ?thesis
    using True byte_set_byte by (simp add: phys_byte_def put_phys_byte_def)
next
  case False
  then show ?thesis by (auto simp: phys_byte_def put_phys_byte_def)
qed

lemma pfn_word: "pfn (a AND NOT 3) = pfn a"
proof -
  have "unat a div 4 * 4 div (4 * 1024) = unat a div (4 * 1024)" unfolding div_mult2_eq by simp
  then show ?thesis unfolding unat_low2(2) by simp
qed

lemma mem_put_byte: "pfn w \<noteq> pfn a \<Longrightarrow> mem (put_phys_byte a b v) w = mem v w"
  using pfn_word [of a] by (auto simp: put_phys_byte_def)

lemma phys_byte_cong: "(\<And>w. pfn w = pfn a \<Longrightarrow> mem v' w = mem v w) \<Longrightarrow> phys_byte v' a = phys_byte v a"
  using pfn_word [of a] unfolding phys_byte_def by metis

lemma put_phys_frames [simp]: "frames (put_phys a bs v) = frames v" "kernel_pgdir (put_phys a bs v) = kernel_pgdir v"
  by (induction bs arbitrary: a v) (simp_all add: put_phys_byte_def mem_write_def)

lemma phys_byte_put:
  assumes "unat a + length bs \<le> 4294967296"
  shows "phys_byte (put_phys a bs v) x =
    (if unat a \<le> unat x \<and> unat x < unat a + length bs then bs ! (unat x - unat a) else phys_byte v x)"
  using assms
proof (induction bs arbitrary: a v)
  case (Cons b bs)
  show ?case
  proof (cases bs)
    case Nil
    then show ?thesis by (auto simp: phys_byte_put_byte word_unat_eq_iff)
  next
    case (Cons c cs)
    have a1: "unat (a + 1) = unat a + 1" using Cons.prems Cons by (subst unat_add_nowrap) simp_all
    have "x = a \<longleftrightarrow> unat x = unat a" by (simp add: word_unat_eq_iff)
    with Cons.IH [of "a + 1" "put_phys_byte a b v"] Cons.prems a1 show ?thesis
      by (auto simp: phys_byte_put_byte nth_Cons' )
  qed
qed auto

lemma mem_put:
  assumes "unat a mod 4096 + length bs \<le> 4096" and "pfn w \<noteq> pfn a"
  shows "mem (put_phys a bs v) w = mem v w"
  using assms
proof (induction bs arbitrary: a v)
  case (Cons b bs)
  show ?case
  proof (cases "bs = []")
    case True
    then show ?thesis using Cons.prems by (simp add: mem_put_byte)
  next
    case False
    then have lt: "unat a mod 4096 + 1 < 4096" using Cons.prems(1) by (cases bs) auto
    have "unat a + 1 < 4294967296"
      using lt vpn_bound [of a] mult_div_mod_eq [of 4096 "unat a"] by linarith
    then have a1: "unat (a + 1) = unat a + 1" by (subst unat_add_nowrap) simp_all
    have m: "(unat a + 1) mod 4096 = unat a mod 4096 + 1" "(unat a + 1) div 4096 = unat a div 4096"
      using lt mod_Suc [of "unat a" 4096] div_Suc [of "unat a" 4096] by simp_all
    have "unat (a + 1) mod 4096 + length bs \<le> 4096" "pfn w \<noteq> pfn (a + 1)" using Cons.prems m by (simp_all add: a1)
    from Cons.IH [OF this] Cons.prems(2) show ?thesis by (simp add: mem_put_byte)
  qed
qed simp

text \<open>A frame filled with zero words has zero bytes.\<close>

lemma phys_byte_zeroed:
  assumes "zeroed v fr" and "aligned fr" and "pfn a = pfn fr"
  shows "phys_byte v a = 0"
proof -
  let ?i = "unat a mod 4096 div 4"
  have i: "?i < 1024" by simp
  have fr: "unat fr = 4096 * pfn a" using assms(2,3) by simp
  have "(r + q * 1024 * 4) div 4 = q * 1024 + r div 4" for r q :: nat by simp
  from this [of "unat a mod 4096" "pfn a"] have "unat a div 4 * 4 = 4096 * pfn a + 4 * ?i"
    using div_mult_mod_eq [of "unat a" 4096] by simp
  then have "unat (a AND NOT 3) = unat (entry fr ?i)" using unat_entry [OF assms(2) i] fr unfolding unat_low2(2) by simp
  then have "a AND NOT 3 = entry fr ?i" by (simp only: word_unat_eq_iff)
  then have "mem v (a AND NOT 3) = 0" using assms(1) i by (simp add: zeroed_def)
  then show ?thesis unfolding phys_byte_def by simp
qed

section \<open>The pages of a segment\<close>

lemma load_pages_fresh:
  assumes "dir_ok s pd" and "pmm_inv (frames s)" and "distinct (map pfn ps)" and "2 * length ps \<le> card (free_set (frames s))"
    and "load_pages pd flags ps s = (ok, s')"
  shows "ok \<and> dir_ok s' pd \<and> pmm_inv (frames s') \<and> fresh_map s s' pd flags (pfn ` set ps) \<and>
    card (free_set (frames s)) \<le> card (free_set (frames s')) + 2 * length ps"
  using assms
proof (induction ps arbitrary: s)
  case Nil
  then show ?case by (simp add: fresh_map_def)
next
  case (Cons p ps)
  obtain phys t where a: "pmm_alloc_zero s = (phys, t)" by fastforce
  let ?u = "snd (map_page pd p phys flags t)"
  have two: "2 \<le> card (free_set (frames s))" using Cons.prems(4) by simp
  note st = mmap_page_step(1-3) [OF Cons.prems(1,2) disjI2 [OF two] a]
    mmap_page_step(4-13) [OF Cons.prems(1,2) disjI2 [OF two] a, where va = p and fl = flags]
  have m: "load_pages pd flags ps ?u = (ok, s')" using Cons.prems(5) a st(1) by simp
  have "2 * length ps \<le> card (free_set (frames ?u))" using st(9) Cons.prems(4) by simp
  from Cons.IH [OF st(6,7) _ this m] Cons.prems(3)
  have IH: "ok" "dir_ok s' pd" "pmm_inv (frames s')" "fresh_map ?u s' pd flags (pfn ` set ps)"
    "card (free_set (frames ?u)) \<le> card (free_set (frames s')) + 2 * length ps" by auto
  have "fresh_map s s' pd flags (insert (pfn p) (pfn ` set ps))"
    by (rule fresh_map_insert [OF st(2-5,13,8,11,12,10) IH(4)]) (use Cons.prems(3) vpn_bound in auto)
  with IH st(9) show ?case by simp
qed

section \<open>Bytes of an address space\<close>

definition user_byte :: "vmm \<Rightarrow> uptr \<Rightarrow> uptr \<Rightarrow> u8" where
  "user_byte v pd a = phys_byte v (virt_to_phys_pd pd a v)"

definition frame_of :: "vmm \<Rightarrow> uptr \<Rightarrow> nat \<Rightarrow> uptr" where
  "frame_of v pd p = PTE_ADDR (the (pgmap v pd p))"

text \<open>The pages of \<open>M\<close> are mapped to frames of their own, none of which is free or holds a page table.\<close>

definition user_pages :: "vmm \<Rightarrow> uptr \<Rightarrow> nat set \<Rightarrow> bool" where
  "user_pages v pd M \<longleftrightarrow> dir_ok v pd \<and> inj_on (frame_of v pd) M \<and>
     (\<forall>p\<in>M. p < 1048576 \<and> pgmap v pd p \<noteq> None \<and> pfn (frame_of v pd p) \<notin> dir_pages v pd \<union> free_set (frames v))"

lemma frame_aligned [simp]: "aligned (frame_of v pd p)"
  by (simp add: frame_of_def)

lemma user_addr:
  assumes "user_pages v pd M" and "vpn a \<in> M"
  shows "virt_to_phys_pd pd a v = frame_of v pd (vpn a) OR (a AND (PAGE_SIZE - 1))"
    and "unat (virt_to_phys_pd pd a v) = unat (frame_of v pd (vpn a)) + unat a mod 4096"
    and "pfn (virt_to_phys_pd pd a v) = pfn (frame_of v pd (vpn a))"
proof -
  obtain pte where "pgmap v pd (vpn a) = Some pte" using assms by (auto simp: user_pages_def)
  then show eq: "virt_to_phys_pd pd a v = frame_of v pd (vpn a) OR (a AND (PAGE_SIZE - 1))"
    by (simp add: virt_to_phys_pd_pgmap frame_of_def)
  show ua: "unat (virt_to_phys_pd pd a v) = unat (frame_of v pd (vpn a)) + unat a mod 4096"
    unfolding eq by (rule or_low_add) simp
  obtain q where "unat (frame_of v pd (vpn a)) = 4096 * q" using frame_aligned by (rule dvdE)
  then show "pfn (virt_to_phys_pd pd a v) = pfn (frame_of v pd (vpn a))" unfolding ua by simp
qed

lemma user_pages_cong:
  assumes "user_pages v pd M" and "frames v' = frames v" and "kernel_pgdir v' = kernel_pgdir v"
    and "\<And>w. pfn w \<notin> pfn ` frame_of v pd ` M \<Longrightarrow> mem v' w = mem v w"
  shows "user_pages v' pd M" and "p < 1048576 \<Longrightarrow> pgmap v' pd p = pgmap v pd p" and "dir_pages v' pd = dir_pages v pd"
proof -
  have ok: "dir_ok v pd" and np: "dir_pages v pd \<inter> (pfn ` frame_of v pd ` M) = {}"
    using assms(1) by (auto simp: user_pages_def)
  have k: "keeps v v' (pfn ` frame_of v pd ` M)" using assms(2-4) by (simp add: keeps_def)
  note dk = dir_keeps [OF ok k np]
  show pg: "pgmap v' pd p = pgmap v pd p" if "p < 1048576" for p by (rule dk(2) [OF that])
  have "mem v' (entry pd i) = mem v (entry pd i)" if "i < 1024" for i
    using that np dir_ok_dir(1) [OF ok] by (intro assms(4)) (simp add: pfn_entry dir_pages_def)
  then show dp: "dir_pages v' pd = dir_pages v pd" by (rule dir_pages_cong)
  have fr: "frame_of v' pd p = frame_of v pd p" if "p \<in> M" for p
    using assms(1) that pg by (simp add: user_pages_def frame_of_def)
  then have "inj_on (frame_of v' pd) M \<longleftrightarrow> inj_on (frame_of v pd) M" by (rule inj_on_cong)
  then show "user_pages v' pd M" using assms(1,2) dk(1) dp fr pg by (simp add: user_pages_def)
qed

lemma put_user_page:
  assumes up: "user_pages v pd M" and d: "vpn dst \<in> M" and len: "unat dst mod 4096 + length bs \<le> 4096"
    and kva: "unat kva = unat (frame_of v pd (vpn dst)) + unat dst mod 4096" and v': "v' = put_phys kva bs v"
  shows "\<And>w. pfn w \<noteq> pfn (frame_of v pd (vpn dst)) \<Longrightarrow> mem v' w = mem v w"
    and "vpn a \<in> M \<Longrightarrow> user_byte v' pd a =
      (if unat dst \<le> unat a \<and> unat a < unat dst + length bs then bs ! (unat a - unat dst) else user_byte v pd a)"
    and "user_pages v' pd M" and "p < 1048576 \<Longrightarrow> pgmap v' pd p = pgmap v pd p"
proof -
  let ?f = "frame_of v pd (vpn dst)"
  have f: "aligned ?f" by simp
  then obtain q where q: "unat ?f = 4096 * q" by (rule dvdE)
  have km: "unat kva mod 4096 = unat dst mod 4096" "pfn kva = pfn ?f" using kva q by simp_all
  show m: "mem v' w = mem v w" if "pfn w \<noteq> pfn ?f" for w
    unfolding v' using mem_put [of kva bs w v] km len that by simp
  then have m': "mem v' w = mem v w" if "pfn w \<notin> pfn ` frame_of v pd ` M" for w using that d by auto
  have fr: "frames v' = frames v" "kernel_pgdir v' = kernel_pgdir v" by (simp_all add: v')
  show up': "user_pages v' pd M" by (rule user_pages_cong(1) [OF up fr]) (rule m')
  show pg: "pgmap v' pd p = pgmap v pd p" if "p < 1048576" for p by (rule user_pages_cong(2) [OF up fr _ that]) (rule m')
  have "unat kva + length bs \<le> 4294967296" using kva len aligned_room [OF f] by simp
  note pb = phys_byte_put [OF this, of v, folded v']
  assume a: "vpn a \<in> M"
  have "frame_of v' pd (vpn a) = frame_of v pd (vpn a)" using pg vpn_bound by (simp add: frame_of_def)
  then have va: "virt_to_phys_pd pd a v' = virt_to_phys_pd pd a v" using user_addr(1) [OF up a] user_addr(1) [OF up' a] by simp
  note ua = user_addr(2) [OF up a]
  show "user_byte v' pd a =
      (if unat dst \<le> unat a \<and> unat a < unat dst + length bs then bs ! (unat a - unat dst) else user_byte v pd a)"
  proof (cases "vpn a = vpn dst")
    case True
    have "unat a = 4096 * vpn dst + unat a mod 4096" "unat dst = 4096 * vpn dst + unat dst mod 4096"
      using mult_div_mod_eq [of 4096 "unat a"] mult_div_mod_eq [of 4096 "unat dst"] unfolding True by linarith+
    then have "unat dst \<le> unat a \<longleftrightarrow> unat dst mod 4096 \<le> unat a mod 4096"
      "unat a < unat dst + length bs \<longleftrightarrow> unat a mod 4096 < unat dst mod 4096 + length bs"
      "unat a - unat dst = unat a mod 4096 - unat dst mod 4096" by linarith+
    then show ?thesis unfolding user_byte_def va pb ua kva True by simp
  next
    case False
    then have "frame_of v pd (vpn a) \<noteq> ?f" using up a d by (auto simp: user_pages_def dest: inj_onD)
    then have ne: "pfn (frame_of v pd (vpn a)) \<noteq> pfn ?f" by (simp add: aligned_eq)
    have "pfn (virt_to_phys_pd pd a v) \<noteq> pfn ?f" unfolding user_addr(3) [OF up a] by (rule ne)
    then have "\<not> (unat kva \<le> unat (virt_to_phys_pd pd a v) \<and> unat (virt_to_phys_pd pd a v) < unat kva + length bs)"
      using kva q len by (auto simp: page_div_iff)
    moreover have "\<not> (unat dst \<le> unat a \<and> unat a < unat dst + length bs)"
      using False len mult_div_mod_eq [of 4096 "unat dst"] page_div_iff [of "unat a" "vpn dst"] by linarith
    ultimately show ?thesis unfolding user_byte_def va pb by (simp only: if_False)
  qed
qed

section \<open>The copy loop\<close>

text \<open>The open file \<open>f\<close> is a file of ramfs with the contents \<open>F\<close>.\<close>

definition file_holds :: "vfs_ops \<Rightarrow> uptr \<Rightarrow> kernel \<Rightarrow> u8 list \<Rightarrow> bool" where
  "file_holds ops f s F \<longleftrightarrow> op_read (fops_of ops f s) = Some ramfs_read \<and> ramfs_file_ok s (file_inode s f) \<and>
     ramfs_data s (file_inode s f) = F"

lemma set_vm_simps [simp]: "vm (kmm (set_vm v s)) = v" "set_vm w (set_vm v s) = set_vm w s" "set_vm (vm (kmm s)) s = s"
  by (simp_all add: set_vm_def)

lemma file_holds_set_vm [simp]: "file_holds ops f (set_vm v s) F = file_holds ops f s F"
  by (simp add: file_holds_def set_vm_def fops_of_def file_inode_def ramfs_file_ok_def ramfs_data_def ramfs_ri_def heap_def)

lemma raw_read_file:
  assumes "file_holds ops f s F" and "0 \<le> pos"
  shows "\<exists>p. raw_read ops f n pos s = Some ((Inr (take (unat n) (drop (nat pos) F)), p), s)"
proof -
  have "op_read (fops_of ops f s) = Some ramfs_read" "ramfs_file_ok s (file_inode s f)" "ramfs_data s (file_inode s f) = F"
    using assms(1) by (simp_all add: file_holds_def)
  with ramfs_read_spec [OF this(2) refl assms(2) refl, of n] show ?thesis by (simp add: raw_read_def)
qed

text \<open>The part of the copy that stays in one page.\<close>

lemma seg_chunk:
  assumes "user_pages v pd M" and "vpn dst \<in> M"
  shows "unat (min n (PAGE_SIZE - (dst AND (PAGE_SIZE - 1)))) = min (unat n) (4096 - unat dst mod 4096)"
    and "unat ((virt_to_phys_pd pd dst v AND PAGE_MASK) + (dst AND (PAGE_SIZE - 1))) =
      unat (frame_of v pd (vpn dst)) + unat dst mod 4096"
proof -
  let ?o = "dst AND (PAGE_SIZE - 1)"
  have o: "unat ?o = unat dst mod 4096" unfolding PAGE_SIZE_def page_mask_eq by (simp add: unat_simps)
  then have "unat (PAGE_SIZE - ?o) = 4096 - unat dst mod 4096"
    by (simp add: PAGE_SIZE_def unat_sub word_le_nat_alt less_imp_le)
  then show "unat (min n (PAGE_SIZE - ?o)) = min (unat n) (4096 - unat dst mod 4096)" by (simp add: min_def word_le_nat_alt)
  have "virt_to_phys_pd pd dst v AND PAGE_MASK = frame_of v pd (vpn dst)"
    unfolding user_addr(1) [OF assms] by (fold PTE_ADDR_def) (simp add: PTE_ADDR_or low_bits_less)
  then show "unat ((virt_to_phys_pd pd dst v AND PAGE_MASK) + ?o) = unat (frame_of v pd (vpn dst)) + unat dst mod 4096"
    using o aligned_room [OF frame_aligned, of v pd "vpn dst"] mod_less_divisor [of 4096 "unat dst"]
    by (simp add: unat_add_nowrap)
qed

text \<open>
  What the copy of \<open>n\<close> bytes of the file from position \<open>src\<close> to the address \<open>dst\<close> makes of an address space: the bytes are
  there, and nothing else of the pages \<open>M\<close>, of the page tables or of other memory has changed.
\<close>

definition copied :: "vmm \<Rightarrow> vmm \<Rightarrow> uptr \<Rightarrow> nat set \<Rightarrow> nat \<Rightarrow> nat \<Rightarrow> u8 list \<Rightarrow> bool" where
  "copied v v' pd M dst n bs \<longleftrightarrow> user_pages v' pd M \<and> frames v' = frames v \<and> keeps v v' (pfn ` frame_of v pd ` M) \<and>
     (\<forall>p<1048576. pgmap v' pd p = pgmap v pd p) \<and>
     (\<forall>a. vpn a \<in> M \<longrightarrow> user_byte v' pd a =
        (if dst \<le> unat a \<and> unat a < dst + n then bs ! (unat a - dst) else user_byte v pd a))"

lemma copied_trans:
  assumes "copied v w pd M d k (take k bs)" and "copied w v' pd M (d + k) (n - k) (drop k bs)" and "k \<le> n" and "n \<le> length bs"
  shows "copied v v' pd M d n bs"
proof -
  have "frame_of w pd p = frame_of v pd p" if "p \<in> M" for p
    using assms(1) that by (simp add: copied_def user_pages_def frame_of_def)
  then have "frame_of w pd ` M = frame_of v pd ` M" by (rule image_cong [OF refl])
  then have "keeps v v' (pfn ` frame_of v pd ` M)" using assms(1,2) by (auto simp: copied_def intro: keeps_trans)
  moreover have "user_byte v' pd a = (if d \<le> unat a \<and> unat a < d + n then bs ! (unat a - d) else user_byte v pd a)"
    if "vpn a \<in> M" for a
    using assms that by (auto simp: copied_def)
  ultimately show ?thesis using assms(1,2) by (simp add: copied_def)
qed

lemma copied_chunk:
  assumes "user_pages v pd M" and "vpn dst \<in> M" and "unat dst mod 4096 + length bs \<le> 4096"
    and "unat kva = unat (frame_of v pd (vpn dst)) + unat dst mod 4096"
  shows "copied v (put_phys kva bs v) pd M (unat dst) (length bs) bs"
proof -
  note pu = put_user_page [OF assms refl]
  have "keeps v (put_phys kva bs v) (pfn ` frame_of v pd ` M)" using pu(1) assms(2) by (auto simp: keeps_def)
  then show ?thesis using pu(2-4) by (simp add: copied_def)
qed

lemma seg_copy_spec:
  assumes "file_holds ops f s F" and "user_pages (vm (kmm s)) pd M" and "unat dst + unat n \<le> 4294967295" and "0 \<le> src"
    and "nat src + unat n \<le> length F" and "\<And>a. unat dst \<le> unat a \<Longrightarrow> unat a < unat dst + unat n \<Longrightarrow> vpn a \<in> M"
  shows "\<exists>v'. seg_copy ops f pd n dst src s = Some (set_vm v' s) \<and>
     copied (vm (kmm s)) v' pd M (unat dst) (unat n) (take (unat n) (drop (nat src) F))"
  using assms
proof (induction "unat n" arbitrary: n dst src s rule: less_induct)
  case less
  show ?case
  proof (cases "n = 0")
    case True
    then show ?thesis using less.prems(2) by (intro exI [of _ "vm (kmm s)"]) (auto simp: seg_copy.simps copied_def)
  next
    case False
    let ?v = "vm (kmm s)"
    define c where "c = min n (PAGE_SIZE - (dst AND (PAGE_SIZE - 1)))"
    define kva where "kva = (virt_to_phys_pd pd dst ?v AND PAGE_MASK) + (dst AND (PAGE_SIZE - 1))"
    let ?bs = "take (unat c) (drop (nat src) F)"
    let ?w = "put_phys kva ?bs ?v"
    have n0: "0 < unat n" using False by (simp add: unat_gt_0)
    then have dM: "vpn dst \<in> M" using less.prems(6) [of dst] by simp
    note ch = seg_chunk(1) [OF less.prems(2) dM, of n, folded c_def] seg_chunk(2) [OF less.prems(2) dM, folded kva_def]
    have c0: "0 < unat c" "unat c \<le> unat n" "unat dst mod 4096 + unat c \<le> 4096" using ch(1) n0 by simp_all
    have bs: "length ?bs = unat c" using less.prems(5) c0 by simp
    have cp: "copied ?v ?w pd M (unat dst) (unat c) ?bs"
      using copied_chunk [OF less.prems(2) dM _ ch(2), of ?bs] c0(3) bs by simp
    obtain p where rd: "raw_read ops f c src s = Some ((Inr ?bs, p), s)" using raw_read_file [OF less.prems(1,4)] by blast
    have src: "nat (src + int (unat c)) = nat src + unat c" using less.prems(4) by linarith
    have nx: "unat (n - c) = unat n - unat c" "unat (dst + c) = unat dst + unat c"
      using c0 less.prems(3) by (simp_all add: unat_sub word_le_nat_alt unat_add_nowrap)
    have step: "seg_copy ops f pd n dst src s = seg_copy ops f pd (n - c) (dst + c) (src + int (unat c)) (set_vm ?w s)"
      using rd False unfolding c_def kva_def by (subst seg_copy.simps) (simp add: Let_def word_gt_0)
    have "\<exists>v'. seg_copy ops f pd (n - c) (dst + c) (src + int (unat c)) (set_vm ?w s) = Some (set_vm v' (set_vm ?w s)) \<and>
       copied (vm (kmm (set_vm ?w s))) v' pd M (unat (dst + c)) (unat (n - c))
         (take (unat (n - c)) (drop (nat (src + int (unat c))) F))"
      by (rule less.hyps) (use less.prems c0 nx src cp in \<open>simp_all add: copied_def\<close>)
    then obtain v' where v': "seg_copy ops f pd (n - c) (dst + c) (src + int (unat c)) (set_vm ?w s) = Some (set_vm v' s)"
      "copied ?w v' pd M (unat dst + unat c) (unat n - unat c) (take (unat n - unat c) (drop (nat src + unat c) F))"
      unfolding nx src by auto
    have "copied ?v v' pd M (unat dst) (unat n) (take (unat n) (drop (nat src) F))"
      by (rule copied_trans [where k = "unat c" and w = ?w])
        (use cp v'(2) c0 less.prems(5) in \<open>auto simp: drop_take add.commute min_def\<close>)
    with step v'(1) show ?thesis by auto
  qed
qed

section \<open>A segment\<close>

lemma seg_bounds:
  assumes "unat (p_vaddr ph) + unat (p_memsz ph) \<le> 4294963200"
  shows "unat (seg_start ph) = 4096 * vpn (p_vaddr ph)"
    and "unat (seg_end ph) = 4096 * ((unat (p_vaddr ph) + unat (p_memsz ph) + 4095) div 4096)"
proof -
  have "unat (p_vaddr ph + p_memsz ph) = unat (p_vaddr ph) + unat (p_memsz ph)" using assms by (simp add: unat_add_nowrap)
  then show "unat (seg_end ph) = 4096 * ((unat (p_vaddr ph) + unat (p_memsz ph) + 4095) div 4096)"
    using assms unat_ALIGN_UP_page [of "p_vaddr ph + p_memsz ph"] by (simp add: seg_end_def)
qed (simp add: seg_start_def unat_ALIGN_DOWN_page)

lemma seg_pages_range:
  assumes "unat (p_vaddr ph) + unat (p_memsz ph) \<le> 4294963200"
  shows "pfn ` set (seg_pages ph) = {vpn (seg_start ph)..<vpn (seg_end ph)}" and "distinct (map pfn (seg_pages ph))"
    and "length (seg_pages ph) = vpn (seg_end ph) - vpn (seg_start ph)"
proof -
  define b e where "b = vpn (p_vaddr ph)" and "e = (unat (p_vaddr ph) + unat (p_memsz ph) + 4095) div 4096"
  note sb = seg_bounds [OF assms, folded b_def e_def]
  have vp: "vpn (seg_start ph) = b" "vpn (seg_end ph) = e" using sb by simp_all
  have "b \<le> e" unfolding b_def e_def by (intro div_le_mono) simp
  then have "unat (seg_end ph - seg_start ph) = 4096 * (e - b)" using sb by (simp add: unat_sub word_le_nat_alt right_diff_distrib')
  then have n: "unat ((seg_end ph - seg_start ph) div PAGE_SIZE) = e - b" by (simp add: unat_div PAGE_SIZE_def)
  then show "length (seg_pages ph) = vpn (seg_end ph) - vpn (seg_start ph)" by (simp add: seg_pages_def vp)
  have "pfn (seg_start ph + of_nat p * PAGE_SIZE) = b + p" if "p < e - b" for p
  proof -
    have "4096 * e \<le> 4294967295" using sb(2) unat_less_2p32 [of "seg_end ph"] by linarith
    then have "4096 * b + 4096 * p < 4294967296" "4096 * p < 4294967296" using that by simp_all
    then have "unat (of_nat p * PAGE_SIZE) = 4096 * p" by (simp add: PAGE_SIZE_def unat_word_ariths unat_of_nat)
    then have "unat (seg_start ph + of_nat p * PAGE_SIZE) = 4096 * (b + p)"
      using sb(1) \<open>4096 * b + 4096 * p < 4294967296\<close> by (simp add: unat_add_nowrap)
    then show ?thesis by simp
  qed
  then have m: "map pfn (seg_pages ph) = map (\<lambda>p. b + p) [0..<e - b]" by (simp add: seg_pages_def n)
  also have "\<dots> = [b..<e]" by (intro nth_equalityI) simp_all
  finally have m: "map pfn (seg_pages ph) = [b..<e]" .
  then show "distinct (map pfn (seg_pages ph))" by simp
  have "pfn ` set (seg_pages ph) = set (map pfn (seg_pages ph))" by simp
  then show "pfn ` set (seg_pages ph) = {vpn (seg_start ph)..<vpn (seg_end ph)}" unfolding m by (simp add: vp)
qed

lemma fresh_user_pages:
  assumes "dir_ok v' pd" and "fresh_map v v' pd fl V" and "V \<subseteq> {..<1048576}"
  shows "user_pages v' pd V" and "p \<in> V \<Longrightarrow> pgmap v' pd p = Some (frame_of v' pd p OR pte_flags fl)"
    and "p \<in> V \<Longrightarrow> pfn (frame_of v' pd p) \<in> free_set (frames v)" and "vpn a \<in> V \<Longrightarrow> user_byte v' pd a = 0"
proof -
  obtain fr where fr: "inj_on fr V" "\<And>p. p \<in> V \<Longrightarrow> pgmap v' pd p = Some (fr p OR pte_flags fl) \<and> aligned (fr p) \<and>
      zeroed v' (fr p) \<and> pfn (fr p) \<in> free_set (frames v) \<and> pfn (fr p) \<notin> free_set (frames v') \<and> pfn (fr p) \<notin> dir_pages v' pd"
    using assms(2) unfolding fresh_map_def by blast
  have fo: "frame_of v' pd p = fr p" if "p \<in> V" for p
    using fr(2) [OF that] by (simp add: frame_of_def PTE_ADDR_or pte_flags_props)
  then have "inj_on (frame_of v' pd) V" using fr(1) inj_on_cong [of V "frame_of v' pd" fr] by simp
  then show up: "user_pages v' pd V" using assms(1,3) fr(2) fo by (auto simp: user_pages_def)
  show "p \<in> V \<Longrightarrow> pgmap v' pd p = Some (frame_of v' pd p OR pte_flags fl)"
    and "p \<in> V \<Longrightarrow> pfn (frame_of v' pd p) \<in> free_set (frames v)" using fr(2) fo by simp_all
  assume a: "vpn a \<in> V"
  have "zeroed v' (frame_of v' pd (vpn a))" using fr(2) [OF a] fo [OF a] by simp
  then show "user_byte v' pd a = 0"
    unfolding user_byte_def by (rule phys_byte_zeroed) (use user_addr(3) [OF up a] in simp_all)
qed

text \<open>
  \<open>pages_kept v v' pd V\<close>: from \<open>v\<close> to \<open>v'\<close> only pages of \<open>V\<close> were mapped anew, and no frame in use has changed but
  those of the directory and its tables.
\<close>

definition pages_kept :: "vmm \<Rightarrow> vmm \<Rightarrow> uptr \<Rightarrow> nat set \<Rightarrow> bool" where
  "pages_kept v v' pd V \<longleftrightarrow> keeps v v' (dir_pages v pd) \<and> dir_pages v' pd \<subseteq> dir_pages v pd \<union> free_set (frames v) \<and>
     (\<forall>p<1048576. p \<notin> V \<longrightarrow> pgmap v' pd p = pgmap v pd p)"

lemma pages_kept_refl: "pages_kept v v pd V"
  by (simp add: pages_kept_def)

lemma pages_kept_trans:
  assumes "pages_kept v w pd V" and "pages_kept w v' pd W"
  shows "pages_kept v v' pd (V \<union> W)"
proof -
  have "free_set (frames w) \<subseteq> free_set (frames v)" using assms(1) by (simp add: pages_kept_def keeps_def)
  moreover have "keeps v v' (dir_pages v pd)" using assms by (auto simp: pages_kept_def intro: keeps_trans)
  ultimately show ?thesis using assms by (auto simp: pages_kept_def)
qed

lemma user_pages_kept:
  assumes up: "user_pages v pd U" and ok: "dir_ok v' pd" and k: "pages_kept v v' pd V" and V: "U \<inter> V = {}"
  shows "user_pages v' pd U" and "p \<in> U \<Longrightarrow> pgmap v' pd p = pgmap v pd p" and "vpn a \<in> U \<Longrightarrow> user_byte v' pd a = user_byte v pd a"
proof -
  show pg: "pgmap v' pd p = pgmap v pd p" if "p \<in> U" for p
    using up k V that by (auto simp: pages_kept_def user_pages_def)
  then have fr: "frame_of v' pd p = frame_of v pd p" if "p \<in> U" for p using that by (simp add: frame_of_def)
  then have "inj_on (frame_of v' pd) U" using up inj_on_cong [of U "frame_of v' pd" "frame_of v pd"] by (simp add: user_pages_def)
  moreover have "free_set (frames v') \<subseteq> free_set (frames v)" using k by (simp add: pages_kept_def keeps_def)
  ultimately show up': "user_pages v' pd U" using up ok k pg fr by (auto simp: user_pages_def pages_kept_def)
  assume a: "vpn a \<in> U"
  have "virt_to_phys_pd pd a v' = virt_to_phys_pd pd a v" using user_addr(1) [OF up a] user_addr(1) [OF up' a] fr [OF a] by simp
  moreover have "phys_byte v' (virt_to_phys_pd pd a v) = phys_byte v (virt_to_phys_pd pd a v)"
  proof (rule phys_byte_cong)
    fix w assume "pfn w = pfn (virt_to_phys_pd pd a v)"
    then have "pfn w \<notin> free_set (frames v)" "pfn w \<notin> dir_pages v pd" using up a user_addr(3) [OF up a] by (auto simp: user_pages_def)
    then show "mem v' w = mem v w" using k by (auto simp: pages_kept_def intro: keeps_mem)
  qed
  ultimately show "user_byte v' pd a = user_byte v pd a" by (simp add: user_byte_def)
qed

text \<open>The pages before and after the copy: the copied pages are new ones.\<close>

lemma copied_fresh:
  assumes "fresh_map v w pd fl V" and "dir_ok w pd" and "V \<subseteq> {..<1048576}" and "copied w v' pd V d n bs"
  shows "pages_kept v v' pd V" and "p \<in> V \<Longrightarrow> \<exists>fr. pgmap v' pd p = Some (fr OR pte_flags fl)"
    and "vpn a \<in> V \<Longrightarrow> user_byte v' pd a = (if d \<le> unat a \<and> unat a < d + n then bs ! (unat a - d) else 0)"
proof -
  note fu = fresh_user_pages [OF assms(2,1,3)]
  have k: "keeps v w (dir_pages v pd)" "keeps w v' (pfn ` frame_of w pd ` V)"
    using assms(1,4) by (simp_all add: fresh_map_def copied_def)
  then have kv: "keeps v v' (dir_pages v pd)" by (rule keeps_trans) (use fu(3) in auto)
  have np: "pfn pd \<notin> pfn ` frame_of w pd ` V" using fu(1) by (auto simp: user_pages_def dir_pages_def)
  have "mem v' (entry pd i) = mem w (entry pd i)" if "i < 1024" for i
    using that np dir_ok_dir(1,2) [OF assms(2)] by (intro keeps_mem [OF k(2)]) (simp_all add: pfn_entry)
  then have "dir_pages v' pd = dir_pages w pd" by (rule dir_pages_cong)
  with kv show "pages_kept v v' pd V" using assms(1,4) by (simp add: pages_kept_def fresh_map_def copied_def)
  show "\<exists>fr. pgmap v' pd p = Some (fr OR pte_flags fl)" if "p \<in> V" for p
  proof -
    have "p < 1048576" using that assms(3) by auto
    then have "pgmap v' pd p = pgmap w pd p" using assms(4) by (simp add: copied_def)
    also have "\<dots> = Some (frame_of w pd p OR pte_flags fl)" by (rule fu(2) [OF that])
    finally show ?thesis by (rule exI)
  qed
  show "vpn a \<in> V \<Longrightarrow> user_byte v' pd a = (if d \<le> unat a \<and> unat a < d + n then bs ! (unat a - d) else 0)"
    using fu(4) assms(4) by (simp add: copied_def)
qed

text \<open>The pages of a segment; a segment that the file has and that ends within the address space; and how it is loaded.\<close>

definition seg_set :: "elf32_phdr \<Rightarrow> nat set" where
  "seg_set ph = {vpn (seg_start ph)..<vpn (seg_end ph)}"

definition seg_ok :: "u8 list \<Rightarrow> elf32_phdr \<Rightarrow> bool" where
  "seg_ok F ph \<longleftrightarrow> unat (p_vaddr ph) + unat (p_memsz ph) \<le> 4294963200 \<and> p_filesz ph \<le> p_memsz ph \<and>
     unat (p_offset ph) + unat (p_filesz ph) \<le> length F"

definition seg_loaded :: "vmm \<Rightarrow> uptr \<Rightarrow> u8 list \<Rightarrow> elf32_phdr \<Rightarrow> bool" where
  "seg_loaded v pd F ph \<longleftrightarrow>
    (\<forall>p\<in>seg_set ph. \<exists>fr. pgmap v pd p = Some (fr OR pte_flags (seg_flags ph))) \<and>
    (\<forall>a. vpn a \<in> seg_set ph \<longrightarrow> user_byte v pd a =
      (if unat (p_vaddr ph) \<le> unat a \<and> unat a < unat (p_vaddr ph) + unat (p_filesz ph)
       then F ! (unat (p_offset ph) + (unat a - unat (p_vaddr ph))) else 0))"

lemma seg_range:
  assumes "seg_ok F ph" and "unat (p_vaddr ph) \<le> unat a" and "unat a < unat (p_vaddr ph) + unat (p_filesz ph)"
  shows "vpn a \<in> seg_set ph"
proof -
  have b: "unat (p_vaddr ph) + unat (p_memsz ph) \<le> 4294963200" and "unat (p_filesz ph) \<le> unat (p_memsz ph)"
    using assms(1) by (simp_all add: seg_ok_def word_le_nat_alt)
  then have "vpn a < (unat (p_vaddr ph) + unat (p_memsz ph) + 4095) div 4096" using assms(3) by simp
  moreover have "vpn (p_vaddr ph) \<le> vpn a" using assms(2) by (rule div_le_mono)
  ultimately show ?thesis using seg_bounds [OF b] by (simp add: seg_set_def)
qed

lemma load_segment_spec:
  assumes "file_holds ops f s F" and "v = vm (kmm s)" and "dir_ok v pd" and "pmm_inv (frames v)" and "seg_ok F ph"
    and "2 * card (seg_set ph) \<le> card (free_set (frames v))"
  shows "\<exists>v'. load_segment ops f pd ph s = Some (True, set_vm v' s) \<and> dir_ok v' pd \<and> pmm_inv (frames v') \<and>
    card (free_set (frames v)) \<le> card (free_set (frames v')) + 2 * card (seg_set ph) \<and>
    user_pages v' pd (seg_set ph) \<and> seg_loaded v' pd F ph \<and> pages_kept v v' pd (seg_set ph)"
proof -
  let ?d = "unat (p_vaddr ph)" and ?n = "unat (p_filesz ph)" and ?o = "unat (p_offset ph)" and ?V = "seg_set ph"
  have b: "?d + unat (p_memsz ph) \<le> 4294963200" "?n \<le> unat (p_memsz ph)" "?o + ?n \<le> length F"
    using assms(5) by (simp_all add: seg_ok_def word_le_nat_alt)
  note sp = seg_pages_range [OF b(1), folded seg_set_def]
  obtain ok w where lp: "load_pages pd (seg_flags ph) (seg_pages ph) v = (ok, w)" by fastforce
  have "length (seg_pages ph) = card ?V" using sp(3) by (simp add: seg_set_def)
  with load_pages_fresh [OF assms(3,4) sp(2) _ lp] assms(6) sp(1) have w: "ok" "dir_ok w pd" "pmm_inv (frames w)"
    "fresh_map v w pd (seg_flags ph) ?V" "card (free_set (frames v)) \<le> card (free_set (frames w)) + 2 * card ?V" by simp_all
  have V: "?V \<subseteq> {..<1048576}" using vpn_bound [of "seg_end ph"] by (auto simp: seg_set_def)
  have "\<exists>v'. seg_copy ops f pd (p_filesz ph) (p_vaddr ph) (int ?o) (set_vm w s) = Some (set_vm v' (set_vm w s)) \<and>
     copied (vm (kmm (set_vm w s))) v' pd ?V ?d ?n (take ?n (drop (nat (int ?o)) F))"
    by (rule seg_copy_spec) (use assms(1) b seg_range [OF assms(5)] fresh_user_pages(1) [OF w(2,4) V] in simp_all)
  then obtain v' where v': "seg_copy ops f pd (p_filesz ph) (p_vaddr ph) (int ?o) (set_vm w s) = Some (set_vm v' s)"
    "copied w v' pd ?V ?d ?n (take ?n (drop ?o F))" by auto
  note cf = copied_fresh [OF w(4,2) V v'(2)]
  have "load_segment ops f pd ph s = Some (True, set_vm v' s)"
    using lp w(1) v'(1) seg_copy.simps [of ops f pd 0 "p_vaddr ph" "int ?o" "set_vm w s"]
    by (auto simp: load_segment_def assms(2) [symmetric] Let_def word_gt_0)
  moreover have "user_pages v' pd ?V" "frames v' = frames w" using v'(2) by (simp_all add: copied_def)
  moreover from this have "dir_ok v' pd" by (simp add: user_pages_def)
  moreover have "user_byte v' pd a = (if ?d \<le> unat a \<and> unat a < ?d + ?n then F ! (?o + (unat a - ?d)) else 0)"
    if "vpn a \<in> ?V" for a
    using cf(3) [OF that] b(3) by auto
  then have "seg_loaded v' pd F ph" unfolding seg_loaded_def using cf(2) by blast
  ultimately show ?thesis using w(3,5) cf(1) by auto
qed

section \<open>All segments\<close>

text \<open>The segments that are loaded, and how the bounds of the image go from one to the next.\<close>

definition loads :: "elf32_phdr list \<Rightarrow> elf32_phdr list" where
  "loads phs = filter (\<lambda>ph. p_type ph = PT_LOAD \<and> p_memsz ph \<noteq> 0) phs"

definition low_bound :: "elf32_phdr \<Rightarrow> uptr \<Rightarrow> uptr" where
  "low_bound ph b = (if b = 0 \<or> seg_start ph < b then seg_start ph else b)"

lemma seg_loaded_kept:
  assumes "seg_loaded w pd F ph" and "user_pages w pd (seg_set ph)" and "dir_ok v' pd" and "pages_kept w v' pd V"
    and "seg_set ph \<inter> V = {}"
  shows "seg_loaded v' pd F ph"
  using assms(1) user_pages_kept(2,3) [OF assms(2-5)] by (simp add: seg_loaded_def)

lemma load_segments_spec:
  assumes "file_holds ops f s F" and "dir_ok (vm (kmm s)) pd" and "pmm_inv (frames (vm (kmm s)))"
    and "list_all (seg_ok F) (loads phs)" and "sorted_wrt (\<lambda>x y. seg_set x \<inter> seg_set y = {}) (loads phs)"
    and "2 * (\<Sum>ph\<leftarrow>loads phs. card (seg_set ph)) \<le> card (free_set (frames (vm (kmm s))))"
  shows "\<exists>v'. load_segments ops f pd phs be s =
      Some (Some (fold low_bound (loads phs) (fst be), fold max (map seg_end (loads phs)) (snd be)), set_vm v' s) \<and>
    dir_ok v' pd \<and> (\<forall>ph\<in>set (loads phs). seg_loaded v' pd F ph) \<and>
    pages_kept (vm (kmm s)) v' pd (\<Union>ph\<in>set (loads phs). seg_set ph)"
  using assms
proof (induction phs arbitrary: s be)
  case Nil
  then show ?case by (intro exI [of _ "vm (kmm s)"]) (simp add: loads_def pages_kept_refl)
next
  case (Cons ph phs)
  show ?case
  proof (cases "p_type ph = PT_LOAD \<and> p_memsz ph \<noteq> 0")
    case False
    then have "loads (ph # phs) = loads phs" by (auto simp: loads_def)
    with Cons.IH [OF Cons.prems(1-3), of be] Cons.prems(4-6) False show ?thesis by auto
  next
    case True
    then have l: "loads (ph # phs) = ph # loads phs" by (simp add: loads_def)
    let ?v = "vm (kmm s)" and ?be = "(low_bound ph (fst be), max (snd be) (seg_end ph))"
    have "seg_ok F ph" "2 * card (seg_set ph) \<le> card (free_set (frames ?v))" using Cons.prems(4,6) l by simp_all
    from load_segment_spec [OF Cons.prems(1) refl Cons.prems(2,3) this] obtain w where
      w: "load_segment ops f pd ph s = Some (True, set_vm w s)" "dir_ok w pd" "pmm_inv (frames w)"
        "card (free_set (frames ?v)) \<le> card (free_set (frames w)) + 2 * card (seg_set ph)"
        "user_pages w pd (seg_set ph)" "seg_loaded w pd F ph" "pages_kept ?v w pd (seg_set ph)" by blast
    have "\<exists>v'. load_segments ops f pd phs ?be (set_vm w s) = Some (Some (fold low_bound (loads phs) (fst ?be),
        fold max (map seg_end (loads phs)) (snd ?be)), set_vm v' (set_vm w s)) \<and>
      dir_ok v' pd \<and> (\<forall>ph\<in>set (loads phs). seg_loaded v' pd F ph) \<and>
      pages_kept (vm (kmm (set_vm w s))) v' pd (\<Union>ph\<in>set (loads phs). seg_set ph)"
      by (rule Cons.IH) (use Cons.prems l w in auto)
    then obtain v' where v': "load_segments ops f pd phs ?be (set_vm w s) = Some (Some (fold low_bound (loads phs) (fst ?be),
        fold max (map seg_end (loads phs)) (snd ?be)), set_vm v' s)" "dir_ok v' pd" "\<forall>ph\<in>set (loads phs). seg_loaded v' pd F ph"
      "pages_kept w v' pd (\<Union>ph\<in>set (loads phs). seg_set ph)" by auto
    have "seg_loaded v' pd F ph"
      by (rule seg_loaded_kept [OF w(6,5) v'(2,4)]) (use Cons.prems(5) l in auto)
    moreover have "pages_kept ?v v' pd (\<Union>ph\<in>set (loads (ph # phs)). seg_set ph)"
      using pages_kept_trans [OF w(7) v'(4)] by (simp add: l)
    moreover have "(if seg_end ph > snd be then seg_end ph else snd be) = max (snd be) (seg_end ph)" by (auto simp: max_def)
    then have "load_segments ops f pd (ph # phs) be s = load_segments ops f pd phs ?be (set_vm w s)"
      using True w(1) by (simp add: low_bound_def)
    ultimately show ?thesis using v'(1-3) by (auto simp: l max.commute)
  qed
qed

lemma fold_low_bound:
  assumes "\<forall>ph\<in>set phs. seg_start ph \<noteq> 0" and "b \<noteq> 0"
  shows "fold low_bound phs b = fold min (map seg_start phs) b"
  using assms by (induction phs arbitrary: b) (auto simp: low_bound_def min_def)


lemma file_example: "\<exists>ops s. file_holds ops 0x6000 s [7, 8] \<and> vm (kmm s) = vmm_example"
proof -
  have "ramfs_write 0x6000 [7, 8] 0 ramfs_example \<noteq> Some ((Inl ENOMEM, 0), ramfs_example)"
    by (rule empty_file_grows) (simp_all add: ramfs_example_facts)
  with ramfs_write_spec [OF ramfs_example_ok(1) ramfs_example_facts(1,2) [symmetric], of 0 "[7, 8]"]
  obtain t where t: "ramfs_file_ok t 0x5000" "ramfs_data t 0x5000 = [7, 8]" "file_at t = file_at ramfs_example"
      "dentry_at t = dentry_at ramfs_example"
    by (auto simp: ramfs_example_facts ramfs_example_ok ri_zero_def write_at_def)
  let ?t = "upd_file 0x6000 (\<lambda>x. x\<lparr>f_ops := RamfsFileOps\<rparr>) t"
  let ?s = "set_vm vmm_example ?t"
  have i: "file_inode ?t 0x6000 = 0x5000"
    using ramfs_example_facts(1) t(3,4) by (simp add: file_inode_def upd_file_def)
  have "ramfs_file_ok ?t 0x5000 = ramfs_file_ok t 0x5000" "ramfs_data ?t 0x5000 = ramfs_data t 0x5000"
    by (simp_all add: upd_file_def ramfs_file_ok_def ramfs_data_def ramfs_ri_def heap_def)
  moreover have "fops_of (no_vfs\<lparr>fops := (\<lambda>_. ramfs_file_ops)\<rparr>) 0x6000 ?t = ramfs_file_ops"
    by (simp add: fops_of_def upd_file_def)
  ultimately have "file_holds (no_vfs\<lparr>fops := (\<lambda>_. ramfs_file_ops)\<rparr>) 0x6000 ?t [7, 8]"
    using t(1,2) by (simp add: file_holds_def i) (simp add: ramfs_file_ops_def)
  then have "file_holds (no_vfs\<lparr>fops := (\<lambda>_. ramfs_file_ops)\<rparr>) 0x6000 ?s [7, 8]" by simp
  moreover have "vm (kmm ?s) = vmm_example" by simp
  ultimately show ?thesis by blast
qed

definition phdr_example :: elf32_phdr where
  "phdr_example = \<lparr>p_type = PT_LOAD, p_offset = 0, p_vaddr = 0x5001, p_filesz = 2, p_memsz = 100, p_flags = PF_W\<rparr>"


end
