(* ===== verification/Procfs.thy ===== *)
theory Procfs
  imports Ramfs Task
begin

text \<open>
  The \<^verbatim>\<open>/proc\<close> file system, after \<^verbatim>\<open>fs/procfs.c\<close>: texts made from the kernel's data when a file is first read after it
  was opened, and kept until it is opened again.  The answers of the \<^verbatim>\<open>cpuid\<close> instruction and the compiler's version
  are parameters.
\<close>

definition PROC_ROOT :: nat where "PROC_ROOT = 1"
definition PROC_MEMINFO :: nat where "PROC_MEMINFO = 2"
definition PROC_CPUINFO :: nat where "PROC_CPUINFO = 3"
definition PROC_UPTIME :: nat where "PROC_UPTIME = 4"
definition PROC_VERSION :: nat where "PROC_VERSION = 5"
definition PROC_CMDLINE :: nat where "PROC_CMDLINE = 6"
definition PROC_STAT :: nat where "PROC_STAT = 7"
definition PROC_PID_STATUS :: nat where "PROC_PID_STATUS = 101"
definition sizeof_procfs_priv :: u32 where "sizeof_procfs_priv = 20"

record proc_env =
  cpuid :: "u32 \<Rightarrow> u32 \<times> u32 \<times> u32 \<times> u32"
  gcc_version :: string

section \<open>Formatting\<close>

definition digit_char :: "nat \<Rightarrow> char" where
  "digit_char d = char_of (48 + d)"

fun fmt_u :: "nat \<Rightarrow> string" where
  "fmt_u n = (if n < 10 then [digit_char n] else fmt_u (n div 10) @ [digit_char (n mod 10)])"

definition fmt_d :: "int \<Rightarrow> string" where
  "fmt_d i = (if i < 0 then CHR ''-'' # fmt_u (nat (- i)) else fmt_u (nat i))"

definition fmt_8u :: "nat \<Rightarrow> string" where
  "fmt_8u n = replicate (8 - length (fmt_u n)) CHR '' '' @ fmt_u n"

definition nl :: string where "nl = [CHR 0x0A]"
definition tab :: string where "tab = [CHR 0x09]"

section \<open>The texts\<close>

definition proc_read_meminfo :: "kernel \<Rightarrow> string" where
  "proc_read_meminfo s =
     (let fr = frames (vm (kmm s));
          total = pmm_total_pages fr * PAGE_SIZE div 1024;
          free = pmm_free_pages fr * PAGE_SIZE div 1024
      in ''MemTotal:   '' @ fmt_8u (unat total) @ '' kB'' @ nl @
         ''MemFree:    '' @ fmt_8u (unat free) @ '' kB'' @ nl @
         ''MemUsed:    '' @ fmt_8u (unat (total - free)) @ '' kB'' @ nl @
         ''Buffers:           0 kB'' @ nl @
         ''Cached:            0 kB'' @ nl @
         ''SwapTotal:         0 kB'' @ nl @
         ''SwapFree:          0 kB'' @ nl)"

text \<open>The vendor string is 12 characters, or less up to a zero byte.\<close>

definition proc_read_cpuinfo :: "proc_env \<Rightarrow> string" where
  "proc_read_cpuinfo e =
     (case cpuid e 0 of (_, ebx, ecx, edx) \<Rightarrow>
       let vendor = map (char_of \<circ> unat) (takeWhile (\<lambda>b. b \<noteq> 0) (word_bytes ebx @ word_bytes edx @ word_bytes ecx));
           eax = fst (cpuid e 1);
           family = drop_bit 8 eax AND 0xF;
           mdl = drop_bit 4 eax AND 0xF;
           stepping = eax AND 0xF
       in ''processor'' @ tab @ '': 0'' @ nl @
          ''vendor_id'' @ tab @ '': '' @ vendor @ nl @
          ''cpu family'' @ tab @ '': '' @ fmt_d (sint family) @ nl @
          ''model'' @ tab @ tab @ '': '' @ fmt_d (sint mdl) @ nl @
          ''stepping'' @ tab @ '': '' @ fmt_d (sint stepping) @ nl @
          ''cpu MHz'' @ tab @ tab @ '': 0'' @ nl @
          ''cache size'' @ tab @ '': 0 KB'' @ nl @
          ''flags'' @ tab @ tab @ '': fpu vme de pse tsc msr pae mce cx8 apic'' @ nl @
          ''bogomips'' @ tab @ '': 0.00'' @ nl)"

definition proc_read_uptime :: "kernel \<Rightarrow> string" where
  "proc_read_uptime s = fmt_u (unat (uptime_s s)) @ ''.00 '' @ fmt_u (unat (uptime_s s)) @ ''.00'' @ nl"

definition proc_read_version :: "proc_env \<Rightarrow> string" where
  "proc_read_version e = ''MyOS version 1.0.0 (root@myos) (gcc '' @ gcc_version e @ '') #1 SMP'' @ nl"

definition proc_read_stat :: "kernel \<Rightarrow> string" where
  "proc_read_stat s =
     ''cpu  0 0 0 '' @ fmt_u (unat (jiffies s)) @ '' 0 0 0 0 0 0'' @ nl @
     ''cpu0 0 0 0 '' @ fmt_u (unat (jiffies s)) @ '' 0 0 0 0 0 0'' @ nl @
     ''intr 0'' @ nl @ ''ctxt 0'' @ nl @ ''btime 0'' @ nl @
     ''processes '' @ fmt_u (unat (next_pid s - 1)) @ nl"

fun state_name :: "task_state \<Rightarrow> string" where
  "state_name TASK_RUNNING = ''R (running)''"
| "state_name TASK_SLEEPING = ''S (sleeping)''"
| "state_name TASK_STOPPED = ''T (stopped)''"
| "state_name TASK_ZOMBIE = ''Z (zombie)''"
| "state_name TASK_DEAD = ''X (dead)''"

definition proc_read_pid_status :: "u32 \<Rightarrow> kernel \<Rightarrow> string option" where
  "proc_read_pid_status p s =
     do {
       a \<leftarrow> find_task_by_pid p s;
       if a = 0 then Some []
       else let t = task_at s a; d = (\<lambda>x :: u32. fmt_d (sint x)); m = tmm t
       in Some (''Name:'' @ tab @ tname t @ nl @
          ''Pid:'' @ tab @ d (pid t) @ nl @
          ''PPid:'' @ tab @ d (ppid t) @ nl @
          ''Uid:'' @ tab @ d (uid t) @ tab @ d (euid t) @ tab @ d (suid t) @ tab @ d (uid t) @ nl @
          ''Gid:'' @ tab @ d (gid t) @ tab @ d (egid t) @ tab @ d (sgid t) @ tab @ d (gid t) @ nl @
          ''State:'' @ tab @ state_name (tstate t) @ nl @
          ''VmSize:'' @ tab @ fmt_u (if m \<noteq> 0 then unat (brk (mm_at (kmm s) m) div 1024) else 0) @ '' kB'' @ nl @
          ''VmRSS:'' @ tab @ fmt_u (if m \<noteq> 0 then unat (pmm_free_pages (frames (vm (kmm s))) * 4) else 0) @ '' kB'' @ nl)
     }"

definition proc_text :: "proc_env \<Rightarrow> procfs_priv \<Rightarrow> kernel \<Rightarrow> string option" where
  "proc_text e pr s =
     (if pr_id pr = PROC_MEMINFO then Some (proc_read_meminfo s)
      else if pr_id pr = PROC_CPUINFO then Some (proc_read_cpuinfo e)
      else if pr_id pr = PROC_UPTIME then Some (proc_read_uptime s)
      else if pr_id pr = PROC_VERSION then Some (proc_read_version e)
      else if pr_id pr = PROC_STAT then Some (proc_read_stat s)
      else if pr_id pr = PROC_PID_STATUS then proc_read_pid_status (pr_pid pr) s
      else Some [])"

section \<open>Files\<close>

definition upd_proc :: "uptr \<Rightarrow> (procfs_priv \<Rightarrow> procfs_priv) \<Rightarrow> kernel \<Rightarrow> kernel" where
  "upd_proc a f s = s\<lparr>proc_at := (proc_at s)(a := f (proc_at s a))\<rparr>"

text \<open>
  The first part of \<^verbatim>\<open>procfs_read\<close>: the text is put into a block of 4096 bytes, cut off there; its full length is
  kept, as \<^verbatim>\<open>snprintf\<close> returns it.  An empty text writes no more than an end mark, and none for an unknown file.
\<close>

definition proc_fill :: "proc_env \<Rightarrow> uptr \<Rightarrow> errno option kfun" where
  "proc_fill e a s =
     (if pr_cache (proc_at s a) \<noteq> 0 then Some (None, s)
      else do {
        let s = upd_proc a (\<lambda>x. x\<lparr>pr_cache_cap := 4096\<rparr>) s;
        (c, s) \<leftarrow> kern_malloc 4096 s;
        let s = upd_proc a (\<lambda>x. x\<lparr>pr_cache := c\<rparr>) s;
        if c = 0 then Some (Some ENOMEM, s)
        else do {
          txt \<leftarrow> proc_text e (proc_at s a) s;
          let s = (if txt = [] then s else set_heap (put_bytes c (map of_char (take 4095 txt) @ [0]) (heap s)) s);
          Some (None, upd_proc a (\<lambda>x. x\<lparr>pr_cache_len := of_nat (length txt)\<rparr>) s)
        }
      })"

definition procfs_read :: "proc_env \<Rightarrow> uptr \<Rightarrow> u32 \<Rightarrow> off_t \<Rightarrow> ((errno + u8 list) \<times> off_t) kfun" where
  "procfs_read e f count pos s =
     (let a = i_private (inode_at s (d_inode (dentry_at s (f_dentry (file_at s f)))))
      in if a = 0 then Some ((Inl EIO, pos), s)
         else do {
           (r, s) \<leftarrow> proc_fill e a s;
           (case r of
              Some x \<Rightarrow> Some ((Inl x, pos), s)
            | None \<Rightarrow>
                let len = int (unat (pr_cache_len (proc_at s a)))
                in if pos \<ge> len then Some ((Inr [], pos), s)
                   else let avail = word_of_int (len - pos) :: u32; n = min count avail
                        in Some ((Inr (bytes_at (heap s) (pr_cache (proc_at s a) + of_int pos) (unat n)), pos + int (unat n)), s))
         })"

definition procfs_open :: "uptr \<Rightarrow> uptr \<Rightarrow> errno option kfun" where
  "procfs_open i f s =
     (let a = i_private (inode_at s i)
      in Some (None, if a \<noteq> 0 \<and> pr_cache (proc_at s a) \<noteq> 0
                     then upd_proc a (\<lambda>x. x\<lparr>pr_cache := 0, pr_cache_len := 0\<rparr>) (kern_free (pr_cache (proc_at s a)) s)
                     else s))"

definition procfs_file_ops :: "proc_env \<Rightarrow> file_ops" where
  "procfs_file_ops e = no_fops\<lparr>op_open := Some procfs_open, op_read := Some (procfs_read e)\<rparr>"

definition procfs_readdir :: "uptr \<Rightarrow> int \<Rightarrow> (errno + dirent list) kfun" where
  "procfs_readdir f count s = Some (Inr [], s)"

definition procfs_dir_ops :: file_ops where
  "procfs_dir_ops = no_fops\<lparr>op_readdir := Some procfs_readdir\<rparr>"

section \<open>Mounting\<close>

definition proc_new_inode :: "vfs_ops \<Rightarrow> nat \<Rightarrow> u32 \<Rightarrow> u32 \<Rightarrow> uptr kfun" where
  "proc_new_inode ops k p mode s =
     do {
       (i, s) \<leftarrow> inode_alloc (procfs_sb s) s;
       if i = 0 then Some (0, s)
       else do {
         let s = upd_inode i (\<lambda>x. x\<lparr>i_mode := mode, i_uid := 0, i_gid := 0, i_nlink := 1\<rparr>) s;
         (a, h) \<leftarrow> kcalloc 1 sizeof_procfs_priv (heap s);
         let s = set_heap h s;
         if a = 0 then do { s \<leftarrow> inode_free ops i s; Some (0, s) }
         else let s = upd_proc a (\<lambda>_. proc_zero\<lparr>pr_id := k, pr_pid := p\<rparr>) s
              in Some (i, upd_inode i (\<lambda>x. x\<lparr>i_private := a, i_fops := (if S_ISDIR mode then ProcfsDirOps else ProcfsFileOps)\<rparr>) s)
       }
     }"

definition proc_entries :: "(string \<times> nat) list" where
  "proc_entries =
     [(''meminfo'', PROC_MEMINFO), (''cpuinfo'', PROC_CPUINFO), (''uptime'', PROC_UPTIME), (''version'', PROC_VERSION),
      (''cmdline'', PROC_CMDLINE), (''stat'', PROC_STAT)]"

text \<open>The dentries are used without a test: a failed allocation is an access through a null pointer.\<close>

fun proc_populate :: "vfs_ops \<Rightarrow> uptr \<Rightarrow> (string \<times> nat) list \<Rightarrow> kernel \<Rightarrow> kernel option" where
  "proc_populate ops root [] s = Some s"
| "proc_populate ops root ((name, k) # es) s =
     do {
       (de, s) \<leftarrow> dentry_alloc name root s;
       (i, s) \<leftarrow> proc_new_inode ops k 0 (S_IFREG OR 0x124) s;
       if de = 0 then None
       else proc_populate ops root es (upd_dentry de (\<lambda>x. x\<lparr>d_sb := procfs_sb s\<rparr>) (attach_inode de i s))
     }"

definition procfs_mount :: "vfs_ops \<Rightarrow> uptr kfun" where
  "procfs_mount ops s =
     do {
       let sb = procfs_sb s;
       let s = s\<lparr>sb_at := (sb_at s)(sb := \<lparr>s_blocksize = PAGE_SIZE, s_magic = 0x9FA0, s_root = 0, s_type = 0, s_rdonly = True\<rparr>)\<rparr>;
       let s = set_lists (list_init (SbLink sb) \<circ> list_init (SbInodes sb)) s;
       (i, s) \<leftarrow> proc_new_inode ops PROC_ROOT 0 (S_IFDIR OR 0x16D) s;
       (root, s) \<leftarrow> dentry_alloc ''proc'' 0 s;
       if root = 0 then None
       else do {
         let s = upd_dentry root (\<lambda>x. x\<lparr>d_sb := sb\<rparr>) (attach_inode root i s);
         let s = s\<lparr>sb_at := (sb_at s)(sb := (sb_at s sb)\<lparr>s_root := root\<rparr>)\<rparr>;
         s \<leftarrow> proc_populate ops root proc_entries s;
         Some (sb, s)
       }
     }"

definition procfs_init :: "uptr \<Rightarrow> kernel \<Rightarrow> kernel" where
  "procfs_init procfs_type s =
     register_filesystem procfs_type (s\<lparr>fs_at := (fs_at s)(procfs_type := \<lparr>fs_name = ''proc''\<rparr>)\<rparr>)"

end
