(* ===== verification/Console.thy ===== *)
theory Console
  imports Ring Cpu
begin

text \<open>
  The keyboard and the text screen, after \<^verbatim>\<open>drivers/keyboard.c\<close>: the interrupt handler that turns
  scan codes into characters of a ring buffer, and the VGA text mode with its cursor and scrolling.
  Ports are inputs and outputs: the handler is given the byte read from the keyboard and the process
  group of the current task, and returns the calls it makes; the screen keeps the writes to the
  cursor registers in a log.
\<close>

section \<open>Keyboard\<close>

text \<open>The two tables, for scan codes 0 to 127; the source leaves the rest of each array 0.\<close>

definition scancode_lower :: "u8 list" where
  "scancode_lower =
     [0, 27, 49, 50, 51, 52, 53, 54, 55, 56, 57, 48, 45, 61, 8,
      9, 113, 119, 101, 114, 116, 121, 117, 105, 111, 112, 91, 93, 10,
      0, 97, 115, 100, 102, 103, 104, 106, 107, 108, 59, 39, 96,
      0, 92, 122, 120, 99, 118, 98, 110, 109, 44, 46, 47, 0,
      42, 0, 32, 0,
      0, 0, 0, 0, 0, 0, 0, 0, 0, 0,
      0, 0,
      55, 56, 57, 45, 52, 53, 54, 43, 49, 50, 51, 48, 46, 0, 0, 0,
      0, 0] @ replicate 39 0"

definition scancode_upper :: "u8 list" where
  "scancode_upper =
     [0, 27, 33, 64, 35, 36, 37, 94, 38, 42, 40, 41, 95, 43, 8,
      9, 81, 87, 69, 82, 84, 89, 85, 73, 79, 80, 123, 125, 10,
      0, 65, 83, 68, 70, 71, 72, 74, 75, 76, 58, 34, 126,
      0, 124, 90, 88, 67, 86, 66, 78, 77, 60, 62, 63, 0,
      42, 0, 32, 0] @ replicate 69 0"

definition KBD_BUF :: u32 where "KBD_BUF = 256"

record kbd =
  shift_pressed :: bool
  ctrl_pressed :: bool
  alt_pressed :: bool
  caps_lock :: bool
  kbuf :: "u8 list"
  khead :: u32
  ktail :: u32
  ksize :: u32

datatype kbd_call = KillSIGINT u32 | KbdWake

definition kbd_char :: "kbd \<Rightarrow> u8 \<Rightarrow> u8" where
  "kbd_char s sc =
     (let upper = (shift_pressed s \<noteq> caps_lock s)
      in if sc < 128 then (if upper then scancode_upper else scancode_lower) ! unat sc else 0)"

definition kbd_put :: "u8 \<Rightarrow> kbd \<Rightarrow> kbd" where
  "kbd_put c s =
     (if ksize s < KBD_BUF
      then s\<lparr>kbuf := (kbuf s)[unat (khead s) := c], khead := (khead s + 1) mod KBD_BUF, ksize := ksize s + 1\<rparr>
      else s)"

text \<open>\<open>cur\<close> is the process group of the current task, if there is one.\<close>

definition kbd_irq :: "u32 option \<Rightarrow> u8 \<Rightarrow> kbd \<Rightarrow> kbd_call list \<times> kbd" where
  "kbd_irq cur code s =
     (let released = (code AND 0x80 \<noteq> 0); sc = code AND 0x7F
      in if sc = 0x2A \<or> sc = 0x36 then ([], s\<lparr>shift_pressed := \<not> released\<rparr>)
         else if sc = 0x1D then ([], s\<lparr>ctrl_pressed := \<not> released\<rparr>)
         else if sc = 0x38 then ([], s\<lparr>alt_pressed := \<not> released\<rparr>)
         else if sc = 0x3A then ([], if released then s else s\<lparr>caps_lock := \<not> caps_lock s\<rparr>)
         else if released then ([], s)
         else if ctrl_pressed s \<and> sc = 0x2E
         then (case cur of None \<Rightarrow> [] | Some pgid \<Rightarrow> [KillSIGINT pgid], s)
         else let c = kbd_char s sc in if c = 0 then ([], s) else ([KbdWake], kbd_put c s))"

text \<open>The static buffer before the first interrupt.\<close>

definition kbd_boot :: kbd where
  "kbd_boot =
     \<lparr>shift_pressed = False, ctrl_pressed = False, alt_pressed = False, caps_lock = False,
      kbuf = replicate 256 0, khead = 0, ktail = 0, ksize = 0\<rparr>"

section \<open>Screen\<close>

definition VGA_COLS :: int where "VGA_COLS = 80"
definition VGA_ROWS :: int where "VGA_ROWS = 25"
definition VGA_TAB :: int where "VGA_TAB = 8"

record vga =
  vga_buf :: "u16 list"
  vga_row :: int
  vga_col :: int
  vga_attr :: u8
  vga_ports :: "(u16 \<times> u8) list"

text \<open>\<^verbatim>\<open>ch\<close> is a signed \<^verbatim>\<open>char\<close>: the conversion to 16 bits extends the sign.\<close>

definition VGA_ENTRY :: "u8 \<Rightarrow> u8 \<Rightarrow> u16" where
  "VGA_ENTRY ch attr = scast ch OR push_bit 8 (ucast attr)"

definition vga_poke :: "int \<Rightarrow> u16 \<Rightarrow> vga \<Rightarrow> vga" where
  "vga_poke i e s = s\<lparr>vga_buf := (vga_buf s)[nat i := e]\<rparr>"

text \<open>One \<^verbatim>\<open>memcpy\<close> of the scroll loop: row \<open>r\<close> onto the row above it.\<close>

definition vga_copy_row :: "nat \<Rightarrow> u16 list \<Rightarrow> u16 list" where
  "vga_copy_row r b = take ((r - 1) * 80) b @ take 80 (drop (r * 80) b) @ drop (r * 80) b"

definition vga_scroll :: "vga \<Rightarrow> vga" where
  "vga_scroll s =
     (let s = s\<lparr>vga_buf := fold vga_copy_row [1..<25] (vga_buf s)\<rparr>;
          s = fold (\<lambda>c. vga_poke ((VGA_ROWS - 1) * VGA_COLS + int c) (VGA_ENTRY 32 (vga_attr s))) [0..<80] s
      in s\<lparr>vga_row := VGA_ROWS - 1\<rparr>)"

definition outb :: "u16 \<Rightarrow> u8 \<Rightarrow> vga \<Rightarrow> vga" where
  "outb port v s = s\<lparr>vga_ports := vga_ports s @ [(port, v)]\<rparr>"

definition vga_update_cursor :: "vga \<Rightarrow> vga" where
  "vga_update_cursor s =
     (let pos = word_of_int (vga_row s * VGA_COLS + vga_col s) :: u16
      in outb 0x3D5 (ucast (drop_bit 8 pos AND 0xFF))
           (outb 0x3D4 0x0E (outb 0x3D5 (ucast (pos AND 0xFF)) (outb 0x3D4 0x0F s))))"

definition vga_putchar :: "u8 \<Rightarrow> vga \<Rightarrow> vga" where
  "vga_putchar c s =
     (let s =
        (if c = 10 then s\<lparr>vga_col := 0, vga_row := vga_row s + 1\<rparr>
         else if c = 13 then s\<lparr>vga_col := 0\<rparr>
         else if c = 8
         then let s = (if vga_col s > 0 then s\<lparr>vga_col := vga_col s - 1\<rparr> else s)
              in vga_poke (vga_row s * VGA_COLS + vga_col s) (VGA_ENTRY 32 (vga_attr s)) s
         else if c = 9 then s\<lparr>vga_col := (vga_col s + VGA_TAB) AND NOT (VGA_TAB - 1)\<rparr>
         else let s = vga_poke (vga_row s * VGA_COLS + vga_col s) (VGA_ENTRY c (vga_attr s)) s
              in s\<lparr>vga_col := vga_col s + 1\<rparr>);
          s = (if vga_col s \<ge> VGA_COLS then s\<lparr>vga_col := 0, vga_row := vga_row s + 1\<rparr> else s);
          s = (if vga_row s \<ge> VGA_ROWS then vga_scroll s else s)
      in vga_update_cursor s)"

definition vga_puts :: "u8 list \<Rightarrow> vga \<Rightarrow> vga" where
  "vga_puts cs s = fold vga_putchar (takeWhile (\<lambda>c. c \<noteq> 0) cs) s"

definition vga_clear :: "vga \<Rightarrow> vga" where
  "vga_clear s =
     (let s = fold (\<lambda>i. vga_poke (int i) (VGA_ENTRY 32 (vga_attr s))) [0..<nat (VGA_ROWS * VGA_COLS)] s
      in vga_update_cursor (s\<lparr>vga_row := 0, vga_col := 0\<rparr>))"

definition vga_set_color :: "u8 \<Rightarrow> u8 \<Rightarrow> vga \<Rightarrow> vga" where
  "vga_set_color fg bg s = s\<lparr>vga_attr := push_bit 4 bg OR (fg AND 0x0F)\<rparr>"

text \<open>The log line of both initialisers has no effect on the state; \<open>h\<close> is the handler's entry in the table of handlers.\<close>

definition vga_init :: "vga \<Rightarrow> vga" where
  "vga_init s = vga_clear s"

definition IRQ_KEYBOARD :: int where "IRQ_KEYBOARD = 1"

definition keyboard_init :: "port_reader \<Rightarrow> 'h \<Rightarrow> 'h cpu \<Rightarrow> 'h cpu" where
  "keyboard_init inb h c = irq_register inb IRQ_KEYBOARD h c"

section \<open>What the keyboard buffer holds\<close>

text \<open>Every scan code with the release bit taken off is an index of both tables.\<close>

lemma scancode_table_index: "unat (code AND 0x7F :: u8) < length scancode_lower" "length scancode_upper = length scancode_lower"
proof -
  have "unat (code AND 0x7F) \<le> 127" using word_and_le1 [of code "0x7F"] by (simp add: word_le_nat_alt)
  then show "unat (code AND 0x7F) < length scancode_lower" by (simp add: scancode_lower_def)
qed (simp add: scancode_lower_def scancode_upper_def)

definition kbd_holds :: "kbd \<Rightarrow> u8 list \<Rightarrow> bool" where
  "kbd_holds s xs \<longleftrightarrow>
     ring_rep (kbuf s) 256 (unat (ktail s)) xs \<and> unat (khead s) = (unat (ktail s) + length xs) mod 256 \<and>
     unat (ksize s) = length xs"

lemma kbd_boot_holds: "kbd_holds kbd_boot []"
  by (simp add: kbd_holds_def kbd_boot_def ring_rep_def)

lemma kbd_put_holds: "kbd_holds s xs \<Longrightarrow> kbd_holds (kbd_put c s) (if length xs < 256 then xs @ [c] else xs)"
proof (cases "length xs < 256")
  case True
  assume h: "kbd_holds s xs"
  then have r: "ring_rep (kbuf s) 256 (unat (ktail s)) xs" and hd: "unat (khead s) = (unat (ktail s) + length xs) mod 256"
    and sz: "unat (ksize s) = length xs" by (simp_all add: kbd_holds_def)
  have "unat (khead s) < 256" using hd by simp
  then have "unat ((khead s + 1) mod KBD_BUF) = (unat (ktail s) + length (xs @ [c])) mod 256"
    using ring_next [of "khead s" KBD_BUF] by (simp add: KBD_BUF_def hd mod_simps)
  moreover have "unat (ksize s + 1) = length (xs @ [c])" using True sz by (subst unat_add_nowrap) simp_all
  moreover have "ksize s < KBD_BUF" using True sz by (simp add: KBD_BUF_def word_less_nat_alt)
  ultimately show ?thesis using ring_rep_put [OF r True, of c] True hd by (simp add: kbd_holds_def kbd_put_def)
next
  case False
  assume h: "kbd_holds s xs"
  then have "\<not> ksize s < KBD_BUF" using False by (simp add: kbd_holds_def KBD_BUF_def word_less_nat_alt)
  with h False show ?thesis by (simp add: kbd_put_def)
qed

lemma kbd_put_modifiers [simp]:
  "shift_pressed (kbd_put c s) = shift_pressed s" "ctrl_pressed (kbd_put c s) = ctrl_pressed s"
  "caps_lock (kbd_put c s) = caps_lock s" "ktail (kbd_put c s) = ktail s"
  by (simp_all add: kbd_put_def)

text \<open>
  A reference for the decoding, without a buffer: the characters a sequence of scan codes stands
  for, given which of shift, control and caps lock are on.
\<close>

fun typed :: "bool \<Rightarrow> bool \<Rightarrow> bool \<Rightarrow> u8 list \<Rightarrow> u8 list" where
  "typed sh ct cl [] = []"
| "typed sh ct cl (code # codes) =
     (let up = (code AND 0x80 \<noteq> 0); key = code AND 0x7F; c = (if sh \<noteq> cl then scancode_upper else scancode_lower) ! unat key
      in if key \<in> {0x2A, 0x36} then typed (\<not> up) ct cl codes
         else if key = 0x1D then typed sh (\<not> up) cl codes
         else if key = 0x3A then typed sh ct (cl \<noteq> (\<not> up)) codes
         else if up \<or> key = 0x38 \<or> ct \<and> key = 0x2E \<or> c = 0 then typed sh ct cl codes
         else c # typed sh ct cl codes)"

lemma kbd_irq_typed:
  assumes "kbd_holds s xs"
  shows "\<exists>ys. kbd_holds (snd (kbd_irq cur code s)) ys \<and>
    take 256 (ys @ typed (shift_pressed (snd (kbd_irq cur code s))) (ctrl_pressed (snd (kbd_irq cur code s)))
        (caps_lock (snd (kbd_irq cur code s))) codes) =
    take 256 (xs @ typed (shift_pressed s) (ctrl_pressed s) (caps_lock s) (code # codes))"
proof -
  have h: "kbd_holds (s\<lparr>shift_pressed := a\<rparr>) xs" "kbd_holds (s\<lparr>ctrl_pressed := a\<rparr>) xs"
    "kbd_holds (s\<lparr>alt_pressed := a\<rparr>) xs" "kbd_holds (s\<lparr>caps_lock := a\<rparr>) xs" for a
    using assms by (simp_all add: kbd_holds_def)
  have "unat (code AND 0x7F) \<le> 127" using word_and_le1 [of code "0x7F"] by (simp add: word_le_nat_alt)
  then have lt: "code AND 0x7F < 128" by (simp add: word_less_nat_alt)
  define k where "k = code AND 0x7F"
  note defs = kbd_irq_def typed.simps Let_def k_def [symmetric]
  consider (shift) "k \<in> {0x2A, 0x36}" | (ctrl) "k = 0x1D" | (alt) "k = 0x38" | (caps) "k = 0x3A"
    | (key) "k \<notin> {0x2A, 0x36, 0x1D, 0x38, 0x3A}" by blast
  then show ?thesis
  proof cases
    case shift
    then show ?thesis using h(1) unfolding defs by (intro exI [of _ xs]) auto
  next
    case ctrl
    then show ?thesis using h(2) unfolding defs by (intro exI [of _ xs]) simp
  next
    case alt
    then show ?thesis using h(3) unfolding defs by (intro exI [of _ xs]) simp
  next
    case caps
    then show ?thesis using h(4) assms unfolding defs by (intro exI [of _ xs]) auto
  next
    case key
    have c: "kbd_char s k = (if shift_pressed s \<noteq> caps_lock s then scancode_upper else scancode_lower) ! unat k"
      using lt by (simp add: kbd_char_def Let_def k_def)
    show ?thesis
    proof (cases "code AND 0x80 \<noteq> 0 \<or> ctrl_pressed s \<and> k = 0x2E \<or> kbd_char s k = 0")
      case True
      then have "snd (kbd_irq cur code s) = s" using key unfolding defs by auto
      moreover have "typed (shift_pressed s) (ctrl_pressed s) (caps_lock s) (code # codes) =
          typed (shift_pressed s) (ctrl_pressed s) (caps_lock s) codes"
        using True key unfolding defs c by auto
      ultimately show ?thesis using assms by auto
    next
      case False
      then have e: "snd (kbd_irq cur code s) = kbd_put (kbd_char s k) s" using key unfolding defs by auto
      have ty: "typed (shift_pressed s) (ctrl_pressed s) (caps_lock s) (code # codes) =
          kbd_char s k # typed (shift_pressed s) (ctrl_pressed s) (caps_lock s) codes"
        using False key unfolding defs c by auto
      have "take 256 ((if length xs < 256 then xs @ [kbd_char s k] else xs) @ ys) = take 256 (xs @ kbd_char s k # ys)" for ys
        by (cases "length xs < 256") (simp_all only: if_True if_False append_assoc append_Cons append_Nil, simp)
      then show ?thesis unfolding e ty kbd_put_modifiers using kbd_put_holds [OF assms, of "kbd_char s k"] by blast
    qed
  qed
qed

section \<open>Screen positions and scrolling\<close>

definition vga_ok :: "vga \<Rightarrow> bool" where
  "vga_ok s \<longleftrightarrow> length (vga_buf s) = 2000 \<and> 0 \<le> vga_row s \<and> vga_row s < 25 \<and> 0 \<le> vga_col s \<and> vga_col s < 80"

lemmas vga_consts = VGA_COLS_def VGA_ROWS_def VGA_TAB_def

lemma copy_rows:
  assumes "length b = 2000" and "1 \<le> r" and "r \<le> 25"
  shows "fold vga_copy_row [1..<r] b = drop 80 (take (r * 80) b) @ drop ((r - 1) * 80) b"
  using assms(2,3)
proof (induction r rule: dec_induct)
  case base
  then show ?case using assms(1) by simp
next
  case (step r)
  let ?x = "drop 80 (take (r * 80) b) @ drop ((r - 1) * 80) b"
  have l: "length (drop 80 (take (r * 80) b)) = (r - 1) * 80" using step assms(1) by (simp add: diff_mult_distrib)
  have "take ((r - 1) * 80) ?x = drop 80 (take (r * 80) b)" using l by simp
  moreover have "drop (r * 80) ?x = drop (r * 80) b"
  proof -
    have "drop (r * 80) ?x = drop (r * 80 - (r - 1) * 80) (drop ((r - 1) * 80) b)" using l step by simp
    also have "r * 80 - (r - 1) * 80 = 80" using step(1) by (simp add: diff_mult_distrib)
    also have "drop 80 (drop ((r - 1) * 80) b) = drop (r * 80) b" using step(1) by (simp add: diff_mult_distrib)
    finally show ?thesis .
  qed
  ultimately have "vga_copy_row r ?x = drop 80 (take (r * 80) b) @ take 80 (drop (r * 80) b) @ drop (r * 80) b"
    by (simp only: vga_copy_row_def)
  moreover have "drop 80 (take (r * 80) b) @ take 80 (drop (r * 80) b) = drop 80 (take (Suc r * 80) b)"
  proof -
    have "take (Suc r * 80) b = take (r * 80) b @ take 80 (drop (r * 80) b)"
      using take_add [of "r * 80" 80 b] by (simp add: add.commute)
    moreover have "80 \<le> length (take (r * 80) b)" using step assms(1) by simp
    ultimately show ?thesis by simp
  qed
  moreover have "fold vga_copy_row [1..<Suc r] b = vga_copy_row r ?x" using step by simp
  ultimately show ?case by (simp only: append_assoc [symmetric] diff_Suc_1)
qed

lemma poke_run:
  "k + n \<le> length (vga_buf s) \<Longrightarrow>
    fold (\<lambda>c. vga_poke (int k + int c) e) [0..<n] s = s\<lparr>vga_buf := take k (vga_buf s) @ replicate n e @ drop (k + n) (vga_buf s)\<rparr>"
proof (induction n)
  case (Suc n)
  then have "(take k (vga_buf s) @ replicate n e @ drop (k + n) (vga_buf s))[k + n := e] =
      take k (vga_buf s) @ (replicate n e @ [e]) @ drop (k + Suc n) (vga_buf s)"
    by (auto simp: list_update_append Cons_nth_drop_Suc [symmetric])
  with Suc show ?case by (simp add: vga_poke_def nat_add_distrib replicate_append_same del: replicate_Suc)
      (simp add: replicate_append_same)
qed simp

lemma vga_scroll_buf:
  assumes "length (vga_buf s) = 2000"
  shows "vga_scroll s = s\<lparr>vga_buf := drop 80 (vga_buf s) @ replicate 80 (VGA_ENTRY 32 (vga_attr s)), vga_row := 24\<rparr>"
proof -
  let ?b = "vga_buf s" and ?e = "VGA_ENTRY 32 (vga_attr s)"
  let ?t = "s\<lparr>vga_buf := fold vga_copy_row [1..<25] ?b\<rparr>"
  have c: "fold vga_copy_row [1..<25] ?b = drop 80 ?b @ drop 1920 ?b" using copy_rows [of ?b 25] assms by simp
  have "fold (\<lambda>c. vga_poke (int 1920 + int c) ?e) [0..<80] ?t =
      ?t\<lparr>vga_buf := take 1920 (vga_buf ?t) @ replicate 80 ?e @ drop (1920 + 80) (vga_buf ?t)\<rparr>"
    by (rule poke_run) (use assms in \<open>simp add: c [unfolded One_nat_def]\<close>)
  then show ?thesis unfolding vga_scroll_def Let_def using assms by (simp add: c [unfolded One_nat_def] vga_consts)
qed

lemma vga_tab: "0 \<le> c \<Longrightarrow> (c + 8) AND NOT 7 = (c + 8) div 8 * 8" for c :: int
proof -
  have m: "(7 :: int) = mask 3" by (simp add: mask_eq_exp_minus_1)
  have "(c + 8) AND NOT 7 = push_bit 3 (drop_bit 3 (c + 8))"
    unfolding m by (rule bit_eqI) (auto simp: bit_simps)
  then show ?thesis by (simp add: push_bit_eq_mult drop_bit_eq_div)
qed

lemma vga_cursor_ok: "vga_ok (vga_update_cursor s) = vga_ok s"
  by (simp add: vga_ok_def vga_update_cursor_def outb_def Let_def)

lemma vga_putchar_ok: "vga_ok s \<Longrightarrow> vga_ok (vga_putchar c s)"
proof -
  assume ok: "vga_ok s"
  define t where "t = (if c = 10 then s\<lparr>vga_col := 0, vga_row := vga_row s + 1\<rparr>
         else if c = 13 then s\<lparr>vga_col := 0\<rparr>
         else if c = 8
         then let s = (if vga_col s > 0 then s\<lparr>vga_col := vga_col s - 1\<rparr> else s)
              in vga_poke (vga_row s * VGA_COLS + vga_col s) (VGA_ENTRY 32 (vga_attr s)) s
         else if c = 9 then s\<lparr>vga_col := (vga_col s + VGA_TAB) AND NOT (VGA_TAB - 1)\<rparr>
         else let s = vga_poke (vga_row s * VGA_COLS + vga_col s) (VGA_ENTRY c (vga_attr s)) s
              in s\<lparr>vga_col := vga_col s + 1\<rparr>)"
  have t: "length (vga_buf t) = 2000" "0 \<le> vga_row t" "vga_row t \<le> 25" "0 \<le> vga_col t" "vga_col t \<le> 80"
    "vga_row t = 25 \<longrightarrow> vga_col t = 0"
    using ok vga_tab [of "vga_col s"] by (auto simp: t_def vga_ok_def vga_poke_def Let_def vga_consts)
  define u where "u = (if vga_col t \<ge> VGA_COLS then t\<lparr>vga_col := 0, vga_row := vga_row t + 1\<rparr> else t)"
  have u: "length (vga_buf u) = 2000" "0 \<le> vga_row u" "0 \<le> vga_col u" "vga_col u < 80"
    using t by (auto simp: u_def vga_consts)
  have "vga_putchar c s = vga_update_cursor (if vga_row u \<ge> VGA_ROWS then vga_scroll u else u)"
    by (simp only: vga_putchar_def u_def t_def Let_def)
  moreover have "vga_ok (if vga_row u \<ge> VGA_ROWS then vga_scroll u else u)"
    using u by (auto simp: vga_scroll_buf vga_ok_def vga_consts)
  ultimately show "vga_ok (vga_putchar c s)" by (simp add: vga_cursor_ok)
qed

section \<open>Properties\<close>

text \<open>
  The keyboard buffer.  After any sequence of scan codes from the boot state the buffer holds the
  first 256 of the characters they stand for, in order: no character is lost or changed before
  the buffer is full, and none is accepted after that, because nothing takes characters out.
\<close>

theorem kbd_buffer_contents:
  "kbd_holds (fold (\<lambda>code s. snd (kbd_irq cur code s)) codes kbd_boot) (take 256 (typed False False False codes))"
proof -
  have "kbd_holds (fold (\<lambda>code s. snd (kbd_irq cur code s)) codes s)
      (take 256 (xs @ typed (shift_pressed s) (ctrl_pressed s) (caps_lock s) codes))" if "kbd_holds s xs" for s xs
    using that
  proof (induction codes arbitrary: s xs)
    case Nil
    then show ?case by (simp add: kbd_holds_def ring_rep_def)
  next
    case (Cons code codes)
    from kbd_irq_typed [OF Cons.prems, of cur code codes] Cons.IH show ?case by fastforce
  qed
  from this [OF kbd_boot_holds] show ?thesis by (simp add: kbd_boot_def)
qed

text \<open>
  C35: the screen stays in bounds.  Initialising a screen buffer of 2000 cells and then writing any number
  of strings leaves the cursor on the screen and the buffer its size; every cell written on the
  way is one of the 2000.
\<close>

theorem vga_puts_in_bounds:
  assumes "length (vga_buf s) = 2000"
  shows "vga_ok (fold vga_puts strs (vga_init s))"
proof -
  have "vga_ok (vga_init s)"
    using poke_run [of 0 2000 s "VGA_ENTRY 32 (vga_attr s)"] assms
    by (simp add: vga_init_def vga_clear_def vga_cursor_ok Let_def vga_consts) (simp add: vga_ok_def)
  moreover have "vga_ok (fold vga_putchar cs t)" if "vga_ok t" for cs t
    using that by (induction cs arbitrary: t) (simp_all add: vga_putchar_ok)
  then have "vga_ok t \<Longrightarrow> vga_ok (fold vga_puts strs t)" for t
    by (induction strs arbitrary: t) (simp_all add: vga_puts_def)
  ultimately show ?thesis by blast
qed

theorem vga_puts_in_bounds_witness:
  "vga_ok (fold vga_puts [[72, 105, 9, 33, 10]]
     (vga_init \<lparr>vga_buf = replicate 2000 0, vga_row = 0, vga_col = 0, vga_attr = 7, vga_ports = []\<rparr>))"
  by (rule vga_puts_in_bounds) simp

end
