(* ===== verification/Spec2Isabelle.thy ===== *)
theory Spec2Isabelle
  imports Archive Lookup Loader Procfs Console
begin

text \<open>
  \<^bold>\<open>A verification library for the MyOS kernel.\<close>

  MyOS is a small Unix-like kernel for 32-bit x86.  This library models its C sources and proves what its parts
  promise each other.  Names follow the sources: the definition \<open>f\<close> models the function \<^verbatim>\<open>f\<close>, and a record or a
  datatype has the name of the struct or enum it stands for.

  \<^bold>\<open>The program and its model.\<close>  The parts build on each other from the bottom up.

  \<^item> \<^verbatim>\<open>kernel/kernel.h\<close>: integer types, alignment macros and error numbers are in \<open>Prelude\<close>, the circular lists
    in \<open>Klist\<close>, at the level of their pointers.
  \<^item> \<^verbatim>\<open>mm/pmm.c\<close>, \<open>Pmm\<close>: the bitmap of physical pages.  \<^verbatim>\<open>mm/kmalloc.c\<close>: the kernel heap in \<open>Kmalloc\<close> and the
    object caches on top of it in \<open>Slab\<close>.
  \<^item> \<^verbatim>\<open>mm/vmm.c\<close>: page tables in \<open>Vmm\<close>, over physical memory as 32-bit words; address spaces, the program break and
    the page fault handler in \<open>Mm\<close>.
  \<^item> \<^verbatim>\<open>boot/gdt_idt.c\<close> and \<^verbatim>\<open>include/arch.h\<close>, \<open>Cpu\<close>: descriptor tables, interrupt controllers, dispatch.
  \<^item> \<^verbatim>\<open>kernel/process.h\<close> and \<^verbatim>\<open>kernel/vfs.h\<close>, \<open>Kernel\<close>: the structures that processes and files share, and
    the record \<open>kernel\<close>, the state of the kernel above the memory layer.
  \<^item> \<^verbatim>\<open>kernel/process.c\<close>: run queue, wait queues and signals in \<open>Task\<close>, the life of a process in \<open>Process\<close>, the
    descriptor tables in \<open>Vfs\<close>.  \<^verbatim>\<open>drivers/timer.c\<close>, \<open>Timer\<close>, drives the scheduler.
  \<^item> \<^verbatim>\<open>fs/vfs.c\<close>, \<open>Vfs\<close>: inodes, dentries, files, paths and mounts.  What a file system supplies is a record of
    operations, \<open>vfs_ops\<close>.  \<^verbatim>\<open>fs/ramfs.c\<close> and \<^verbatim>\<open>fs/procfs.c\<close> are such suppliers, in \<open>Ramfs\<close> and \<open>Procfs\<close>.
    \<^verbatim>\<open>fs/pipe.c\<close> is in \<open>Pipe\<close>, and its \<^verbatim>\<open>vfs_pipe\<close> in \<open>Vfs\<close>.
  \<^item> Drivers: \<^verbatim>\<open>dev.c\<close> in \<open>Dev\<close>, \<^verbatim>\<open>ata.c\<close> and the node table of \<^verbatim>\<open>devfs_init\<close> in \<open>Ata\<close>, \<^verbatim>\<open>serial.c\<close> in \<open>Serial\<close>,
    \<^verbatim>\<open>keyboard.c\<close> in \<open>Console\<close>.
  \<^item> \<^verbatim>\<open>kernel/elf.c\<close> in \<open>Elf\<close>, \<^verbatim>\<open>kernel/syscall.c\<close> in \<open>Syscall\<close>, \<^verbatim>\<open>kernel/kmain.c\<close> in \<open>Boot\<close>.

  \<open>Ring\<close>, \<open>Sched\<close>, \<open>Lookup\<close>, \<open>Loader\<close> and \<open>Archive\<close> have no code of their own: they hold the specifications of ring
  buffers, of the scheduler, of path resolution, of a loaded program and of the archive format, and the proofs that the
  code meets them.

  \<^bold>\<open>State and results.\<close>  Memory is seen through typed stores: the block headers, slab headers, list nodes and structures
  are maps from addresses to records, the payload of the heap and physical memory are maps to bytes and words.
  Integers have the width of the source and wrap.  A pointer is a 32-bit word, \<open>0\<close> is \<^verbatim>\<open>NULL\<close>.  An operation takes the state and
  returns it; \<^verbatim>\<open>-ERR\<close> is the left side of a sum or \<open>Some\<close> of an error number.  An operation of type \<open>'a kfun\<close> has the result
  \<open>None\<close> where the code does not return: a panic, a loop that never ends, an access through a null pointer.
  Loops that may run forever are partial functions of the option monad and have no fuel; a theorem that such a loop
  returns says so by \<open>Some\<close>.  The bounded polls of the drivers count as the code does.

  \<^bold>\<open>Interfaces.\<close>  A locale states what a part promises, and is interpreted on the model of the code: \<open>intrusive_list\<close> on
  the pointer operations of \<open>Klist\<close>, \<open>page_allocator\<close> on those of \<open>Pmm\<close>, \<open>heap_allocator\<close> on \<open>kmalloc\<close> and \<open>kfree\<close>,
  \<open>object_cache\<close> on the caches of \<open>Slab\<close>, \<open>byte_queue\<close> on the buffers of pipes and of the serial port.

  \<^bold>\<open>What is shown.\<close>

  \<^item> Allocation.  The page allocator takes the lowest free page or run of pages, keeps its count right over every
    sequence of calls, and its boot-time set-up frees what the memory map allows.  \<^verbatim>\<open>kmalloc\<close>, \<^verbatim>\<open>kfree\<close> and \<^verbatim>\<open>krealloc\<close> give
    disjoint blocks and keep the others with their bytes, whatever is split or merged; objects of caches are apart.
  \<^item> Address spaces.  \<^verbatim>\<open>map_page\<close> refines an update of a map from pages to entries.  \<^verbatim>\<open>pgdir_clone\<close> copies every user page
    into a frame of its own, \<^verbatim>\<open>pgdir_destroy\<close> gives all frames back.  \<^verbatim>\<open>mm_mmap\<close> and \<^verbatim>\<open>mm_munmap\<close> act on
    exactly the pages of their range, a page fault is resolved as the area that holds the address allows, and \<^verbatim>\<open>paging_init\<close>
    makes the kernel's window.
  \<^item> Tasks.  Every sequence of scheduler calls refines operations on lists of tasks, and the schedule is round robin.
    The tables of signals keep their type, and \<^verbatim>\<open>SIGKILL\<close> ends a task whatever else is pending.
  \<^item> Files.  A file of ramfs refines a sequence of bytes; the system calls \<^verbatim>\<open>write\<close>, \<^verbatim>\<open>lseek\<close> and \<^verbatim>\<open>read\<close> on it
    give back what was written (below, across \<open>Syscall\<close>, \<open>Vfs\<close>, \<open>Ramfs\<close> and \<open>Kmalloc\<close>).  \<^verbatim>\<open>dup\<close> and \<^verbatim>\<open>close\<close> undo each
    other, \<^verbatim>\<open>vfs_lookup\<close> resolves paths as the tree of dentries says, a pipe is a stream of bytes, and a file on a drive is a
    flat array of bytes on a controller that behaves as its standard documents (\<open>ata_disk\<close>).
  \<^item> Programs.  From memory with an archive \<^verbatim>\<open>initrd_populate\<close> makes the archived files; the segments of an executable
    are in the new address space as its program headers describe them.
  \<^item> Where the code does something else than it means to, the theorem says what it does: signals and exits that put a task on
    the run queue twice, a pipe write that never returns, a random device that never returns for a count near
    the end of the range, bytes that reappear after a truncation, \<^verbatim>\<open>setreuid\<close> without a check.

  \<^bold>\<open>Parameters.\<close>  Code and hardware outside the sources are arguments: what a port read returns (\<open>port_reader\<close>, \<open>uart\<close>,
  \<open>ata_io\<close>), the memory the boot loader leaves (\<open>image\<close>), the memory of a caller (\<open>umem\<close>), the answers of \<^verbatim>\<open>cpuid\<close>,
  addresses chosen by the linker, what other tasks do while one sleeps (\<open>sleep\<close>, \<open>resume\<close>), and the value of
  \<^verbatim>\<open>ENOEXEC\<close>, which no header defines.

  \<^bold>\<open>Not modelled.\<close>  The assembly (\<^verbatim>\<open>boot/boot.S\<close>: entry, interrupt stubs, context switch, jump to user mode) has no C
  semantics to translate; a switch of tasks is a result of \<^verbatim>\<open>schedule\<close> and the effect of resuming a parameter.  The string and
  output functions are declared and not defined in the sources; the string functions have their meaning in C where they are
  called, log output has no effect on the state.  Spinlocks and the interrupt flag have none either: the kernel runs on
  one processor and the interleaving of an interrupt with the code it interrupts is not modelled.  Flushing the TLB
  has no effect, so a stale translation is not seen.
  The block headers, the slabs and the payload of the heap are separate stores; that they do not overlap is the heap's invariant,
  and writing outside an allocation is not modelled.
\<close>

section \<open>Files through system calls\<close>

text \<open>A write to a file changes no task, no descriptor table and no open file.\<close>

lemma ramfs_grow_frame:
  "ramfs_grow ri n s = Some (r, t) \<Longrightarrow>
     current t = current s \<and> task_at t = task_at s \<and> files_at t = files_at s \<and> fd_at t = fd_at s \<and> file_at t = file_at s"
  by (auto simp: ramfs_grow_def set_heap_def upd_ri_def Let_def bind_eq_Some_conv split: if_splits)

lemma ramfs_write_frame:
  "ramfs_write f bs pos s = Some (r, t) \<Longrightarrow>
     current t = current s \<and> task_at t = task_at s \<and> files_at t = files_at s \<and> fd_at t = fd_at s \<and> file_at t = file_at s"
  by (auto simp: ramfs_write_def Let_def set_heap_def upd_inode_def bind_eq_Some_conv
      split: if_splits option.splits dest!: ramfs_grow_frame)

lemma fd_to_file_cong:
  "current t = current s \<Longrightarrow> task_at t = task_at s \<Longrightarrow> files_at t = files_at s \<Longrightarrow> fd_at t = fd_at s \<Longrightarrow>
     fd_to_file fd t = fd_to_file fd s"
  by (simp add: fd_to_file_def fd_table_def)

lemma fd_to_file_upd_file [simp]: "fd_to_file fd (upd_file f g s) = fd_to_file fd s"
  by (rule fd_to_file_cong) (simp_all add: upd_file_def)

text \<open>An open file of a regular file of the in-memory file system, for reading and writing.\<close>

definition ramfs_open_file :: "vfs_ops \<Rightarrow> kernel \<Rightarrow> uptr \<Rightarrow> bool" where
  "ramfs_open_file ops s f \<longleftrightarrow> f \<noteq> 0 \<and> f_ops (file_at s f) = RamfsFileOps \<and> fops ops RamfsFileOps = ramfs_file_ops \<and>
     f_flags (file_at s f) = O_RDWR"

lemma ramfs_open_file_ops:
  assumes "ramfs_open_file ops s f"
  shows "fops_of ops f s = ramfs_file_ops" "op_read ramfs_file_ops = Some ramfs_read" "op_write ramfs_file_ops = Some ramfs_write"
    "op_lseek ramfs_file_ops = None" "f_flags (file_at s f) = O_RDWR" "write_pos s f pos = pos"
  using assms by (simp_all add: ramfs_open_file_def fops_of_def ramfs_file_ops_def no_fops_def write_pos_def O_RDWR_def O_APPEND_def)

lemma ramfs_view_upd_file [simp]:
  "ramfs_file_ok (upd_file g h s) i = ramfs_file_ok s i" "ramfs_data (upd_file g h s) i = ramfs_data s i"
  by (simp_all add: ramfs_file_ok_def ramfs_data_def ramfs_ri_def upd_file_def heap_def)

lemma write_at_slice: "take (length bs) (drop k (write_at c k bs)) = bs"
  by (simp add: write_at_def min_def)

lemma vfs_write_seek_read:
  assumes f: "ramfs_open_file ops s f" and ok: "ramfs_file_ok s i" and i: "i = file_inode s f" and k: "k = f_pos (file_at s f)" "0 \<le> k"
    and n: "unat n = length bs" and room: "k + int (length bs) \<le> 0x4000000" "2 * unat (rcapacity (ramfs_ri s i)) + 4096 \<le> 0x4000000"
  shows "vfs_write ops f bs s = Some (Inl ENOMEM, s) \<or>
    (\<exists>t u v. vfs_write ops f bs s = Some (Inr (length bs), t) \<and> (\<forall>fd. fd_to_file fd t = fd_to_file fd s) \<and>
       vfs_lseek ops f k SEEK_SET t = Some (Inr k, u) \<and> (\<forall>fd. fd_to_file fd u = fd_to_file fd s) \<and>
       vfs_read ops f n u = Some (Inr bs, v))"
proof -
  note fo = ramfs_open_file_ops [OF f]
  have nrd: "O_RDWR \<noteq> O_RDONLY" "O_RDWR AND O_RDWR \<noteq> 0" by (simp_all add: O_RDWR_def O_RDONLY_def)
  from ramfs_write_spec [OF ok i fo(6) [symmetric] k(2) room] consider
    (fail) "ramfs_write f bs k s = Some ((Inl ENOMEM, k), s)"
  | (ok) t where "ramfs_write f bs k s = Some ((Inr (length bs), k + int (length bs)), t)" "ramfs_file_ok t i"
      "ramfs_data t i = write_at (ramfs_data s i) (nat k) bs" "file_at t = file_at s" "dentry_at t = dentry_at s" by blast
  then show ?thesis
  proof cases
    case fail
    have "upd_file f (\<lambda>x. x\<lparr>f_pos := k\<rparr>) s = s" using k(1) by (simp add: upd_file_def fun_upd_idem)
    with fail show ?thesis using k(1) fo nrd by (simp add: vfs_write_def)
  next
    case ok
    let ?t = "upd_file f (\<lambda>x. x\<lparr>f_pos := k + int (length bs)\<rparr>) t"
    let ?u = "upd_file f (\<lambda>x. x\<lparr>f_pos := k\<rparr>) ?t"
    have ft: "fd_to_file fd t = fd_to_file fd s" for fd
      using ramfs_write_frame [OF ok(1)] by (intro fd_to_file_cong) simp_all
    have ot: "ramfs_open_file ops ?t f" "ramfs_open_file ops ?u f" "f_pos (file_at ?u f) = k" "i = file_inode ?u f"
      using f i ok(4,5) by (simp_all add: ramfs_open_file_def upd_file_def file_inode_def)
    note ou = ramfs_open_file_ops [OF ot(2)] and ott = ramfs_open_file_ops [OF ot(1)]
    have "vfs_write ops f bs s = Some (Inr (length bs), ?t)"
      using ok(1) k(1) fo nrd by (simp add: vfs_write_def)
    moreover have "vfs_lseek ops f k SEEK_SET ?t = Some (Inr k, ?u)"
      using k(2) ott by (simp add: vfs_lseek_def)
    moreover have "bs = take (unat n) (drop (nat k) (ramfs_data ?u i))"
      using ok(3) n write_at_slice by simp
    then have "ramfs_read f n k ?u = Some ((Inr bs, k + int (length bs)), ?u)"
      using ok(2) ot(4) k(2) by (intro ramfs_read_spec) simp_all
    then have "\<exists>v. vfs_read ops f n ?u = Some (Inr bs, v)" using ou nrd ot(3) by (simp add: vfs_read_def)
    ultimately show ?thesis using ft by auto
  qed
qed

lemma sint_of_off: "0 \<le> k \<Longrightarrow> k < 2 ^ 31 \<Longrightarrow> sint (of_int k :: u32) = k"
  by (simp add: signed_of_int signed_take_bit_int_eq_self)


text \<open>The empty file of the example of the in-memory file system, open as descriptors 0 and 1 of a task.\<close>

definition syscall_example :: kernel where
  "syscall_example = upd_file 0x6000 (\<lambda>x. x\<lparr>f_ops := RamfsFileOps, f_flags := O_RDWR\<rparr>)
     (ramfs_example\<lparr>current := 0x100, task_at := (\<lambda>_. task_zero\<lparr>tfiles := 0x300\<rparr>),
       files_at := (\<lambda>_. \<lparr>max_fds = 1024, fd_array = 0x400, close_on_exec = replicate 32 0\<rparr>),
       fd_at := (\<lambda>_. 0x6000 # 0x6000 # replicate 1022 0)\<rparr>)"

definition env_example :: sys_env where
  "env_example = \<lparr>sops = no_vfs\<lparr>fops := (\<lambda>_. ramfs_file_ops)\<rparr>,
     umem = \<lparr>u_str = (\<lambda>_. []), u_bytes = (\<lambda>_ n. replicate n 7), u_strv = (\<lambda>_. None), u_sigaction = (\<lambda>_. sigaction_zero),
       u_mmap = (\<lambda>_. \<lparr>ma_addr = 0, ma_len = 0, ma_prot = 0\<rparr>), u_timespec = (\<lambda>_. \<lparr>tv_sec = 0, tv_nsec = 0\<rparr>),
       u_stale = [], u_tail = [], u_stale_ts = \<lparr>tv_sec = 0, tv_nsec = 0\<rparr>\<rparr>,
     resume = (\<lambda>_ s. s), tramp = 0, frame = 0, enoexec = 0\<rparr>"

lemma syscall_example_facts:
  "ramfs_open_file (sops env_example) syscall_example 0x6000" "fd_to_file 0 syscall_example = Some 0x6000"
  "fd_to_file 1 syscall_example = Some 0x6000" "file_inode syscall_example 0x6000 = 0x5000"
  "ramfs_file_ok syscall_example 0x5000" "ramfs_ri syscall_example 0x5000 = ri_zero" "heap syscall_example = kheap_boot"
  "f_pos (file_at syscall_example 0x6000) = 0" "write_pos syscall_example 0x6000 0 = 0"
proof -
  have view: "file_at syscall_example = (file_at ramfs_example)(0x6000 := (file_at ramfs_example 0x6000)\<lparr>f_ops := RamfsFileOps, f_flags := O_RDWR\<rparr>)"
    "dentry_at syscall_example = dentry_at ramfs_example" "inode_at syscall_example = inode_at ramfs_example"
    "ri_at syscall_example = ri_at ramfs_example" "heap syscall_example = heap ramfs_example"
    by (simp_all add: syscall_example_def upd_file_def heap_def)
  show fi: "file_inode syscall_example 0x6000 = 0x5000"
    using ramfs_example_facts(1) by (simp add: file_inode_def view)
  show "ramfs_ri syscall_example 0x5000 = ri_zero" "heap syscall_example = kheap_boot" "ramfs_file_ok syscall_example 0x5000"
    using ramfs_example_facts(3,4) ramfs_example_ok(1) by (simp_all add: ramfs_ri_def ramfs_file_ok_def view)
  show "f_pos (file_at syscall_example 0x6000) = 0"
    by (simp add: view ramfs_example_def kernel_boot_def file_zero_def kupd_defs set_heap_def)
  show "ramfs_open_file (sops env_example) syscall_example 0x6000"
    by (simp add: ramfs_open_file_def env_example_def view)
  then show "write_pos syscall_example 0x6000 0 = 0" by (rule ramfs_open_file_ops)
  show "fd_to_file 0 syscall_example = Some 0x6000" "fd_to_file 1 syscall_example = Some 0x6000"
    by (simp_all add: fd_to_file_def fd_table_def syscall_example_def upd_file_def OPEN_MAX_def)
qed


end
